(* ===== verification/Prelude.thy ===== *)
theory Prelude
  imports Main "HOL-Library.Monad_Syntax" "HOL-Library.AList" "HOL-Library.Sublist"
begin

text \<open>
  Shared vocabulary of the development: the error monad of the model (\<open>option\<close>, where
  \<open>None\<close> is a Rust panic or an exhausted fuel), monadic folds over lists, the lookups in
  association lists that stand for hash maps which the code iterates, and a small calculus of
  total state transformers that the builder proofs are written in.
\<close>

section \<open>Theorem collections\<close>

named_theorems frame_simps \<open>what an operation leaves unchanged\<close>
named_theorems total_intros \<open>a state transformer returns and keeps an invariant\<close>
named_theorems subterm_intros \<open>a syntactic part is smaller than its whole\<close>

section \<open>Monadic folds\<close>

text \<open>A \<open>for\<close> loop whose body can panic: the first \<open>None\<close> stops the loop.\<close>

fun foldM :: "('a \<Rightarrow> 's \<Rightarrow> 's option) \<Rightarrow> 'a list \<Rightarrow> 's \<Rightarrow> 's option" where
  "foldM f [] s = Some s"
| "foldM f (x # xs) s = do { s' \<leftarrow> f x s; foldM f xs s' }"

lemma foldM_Nil_eta [simp]: "foldM f [] = Some"
  by (rule ext) simp

lemma foldM_append: "foldM f (xs @ ys) s = do { s' \<leftarrow> foldM f xs s; foldM f ys s' }"
  by (induction xs arbitrary: s) (auto split: Option.bind_splits)

text \<open>An optional step: what \<open>if let Ok(x) = ...\<close> does in the source.\<close>

definition opt_step :: "('a \<Rightarrow> 's \<Rightarrow> 's option) \<Rightarrow> 'a option \<Rightarrow> 's \<Rightarrow> 's option" where
  "opt_step f x s = (case x of None \<Rightarrow> Some s | Some v \<Rightarrow> f v s)"

lemma opt_step_simps [simp]:
  "opt_step f None s = Some s"
  "opt_step f (Some v) s = f v s"
  by (simp_all add: opt_step_def)

section \<open>Total state transformers\<close>

text \<open>
  \<open>keeps R m\<close>: from every state related to itself by the transition relation \<open>R\<close>, the
  transformer \<open>m\<close> returns a state that \<open>R\<close> relates to the start. With \<open>R s s' = (I s \<longrightarrow>
  I s' \<and> F s s')\<close>-style relations this is an invariant together with a frame condition, and it
  is a statement of total correctness: \<open>m\<close> neither panics nor runs out of fuel.
\<close>

definition keeps :: "('s \<Rightarrow> bool) \<Rightarrow> ('s \<Rightarrow> 's \<Rightarrow> bool) \<Rightarrow> ('s \<Rightarrow> 's option) \<Rightarrow> bool" where
  "keeps I F m \<longleftrightarrow> (\<forall>s. I s \<longrightarrow> (\<exists>s'. m s = Some s' \<and> I s' \<and> F s s'))"

lemma keepsI:
  assumes "\<And>s. I s \<Longrightarrow> \<exists>s'. m s = Some s' \<and> I s' \<and> F s s'"
  shows "keeps I F m"
  using assms by (auto simp: keeps_def)

lemma keepsE:
  assumes "keeps I F m" and "I s"
  obtains s' where "m s = Some s'" and "I s'" and "F s s'"
  using assms by (auto simp: keeps_def)

text \<open>The transition relations used here are preorders, so transformers compose.\<close>

definition preorder_rel :: "('s \<Rightarrow> 's \<Rightarrow> bool) \<Rightarrow> bool" where
  "preorder_rel F \<longleftrightarrow> (\<forall>s. F s s) \<and> (\<forall>s t u. F s t \<longrightarrow> F t u \<longrightarrow> F s u)"

lemma preorder_relI:
  assumes "\<And>s. F s s" and "\<And>s t u. F s t \<Longrightarrow> F t u \<Longrightarrow> F s u"
  shows "preorder_rel F"
  using assms by (auto simp: preorder_rel_def)

lemma preorder_rel_refl: "preorder_rel F \<Longrightarrow> F s s"
  by (simp add: preorder_rel_def)

lemma preorder_rel_trans: "preorder_rel F \<Longrightarrow> F s t \<Longrightarrow> F t u \<Longrightarrow> F s u"
  by (auto simp: preorder_rel_def)

lemma keeps_return: "preorder_rel F \<Longrightarrow> keeps I F Some"
  by (auto simp: keeps_def preorder_rel_refl)

lemma keeps_bind:
  assumes F: "preorder_rel F" and m: "keeps I F m" and n: "keeps I F n"
  shows "keeps I F (\<lambda>s. do { s' \<leftarrow> m s; n s' })"
proof (rule keepsI)
  fix s assume "I s"
  with m obtain t where t: "m s = Some t" "I t" "F s t" by (rule keepsE)
  from n \<open>I t\<close> obtain u where "n t = Some u" "I u" "F t u" by (rule keepsE)
  with t show "\<exists>s'. do { s' \<leftarrow> m s; n s' } = Some s' \<and> I s' \<and> F s s'"
    using preorder_rel_trans [OF F] by auto
qed

lemma keeps_foldM:
  assumes F: "preorder_rel F" and f: "\<And>x. x \<in> set xs \<Longrightarrow> keeps I F (f x)"
  shows "keeps I F (foldM f xs)"
  using f
proof (induction xs)
  case Nil
  then show ?case using F by (auto simp: keeps_def preorder_rel_refl)
next
  case (Cons x xs)
  have "foldM f (x # xs) = (\<lambda>s. do { s' \<leftarrow> f x s; foldM f xs s' })" by auto
  with Cons show ?case by (auto intro: keeps_bind [OF F])
qed

lemma keeps_opt_step:
  assumes "preorder_rel F" and "\<And>x. v = Some x \<Longrightarrow> keeps I F (f x)"
  shows "keeps I F (opt_step f v)"
  using assms by (cases v) (auto simp: keeps_def opt_step_def preorder_rel_refl)

lemma keeps_ext: "keeps I F m' \<Longrightarrow> (\<And>s. m s = m' s) \<Longrightarrow> keeps I F m"
  by (simp add: keeps_def)

section \<open>Lists\<close>

lemma find_Some_in: "find P xs = Some x \<Longrightarrow> x \<in> set xs \<and> P x"
  by (metis find_Some_iff nth_mem)

lemma set_update_subset_insert: "set (AList.update k v al) \<subseteq> insert (k, v) (set al)"
  by (induction al) auto

lemma nth_append_left: "i < length xs \<Longrightarrow> (xs @ ys) ! i = xs ! i"
  by (simp add: nth_append)

lemma prefix_nth: "prefix xs ys \<Longrightarrow> i < length xs \<Longrightarrow> ys ! i = xs ! i"
  by (auto simp: prefix_def nth_append)

lemma ex_nth_iff: "(\<exists>i<length xs. P (xs ! i)) \<longleftrightarrow> (\<exists>x\<in>set xs. P x)"
  by (metis in_set_conv_nth)

lemma upt_split: "a \<le> b \<Longrightarrow> b \<le> c \<Longrightarrow> [a..<c] = [a..<b] @ [b..<c]"
  by (metis le_add_diff_inverse upt_add_eq_append)

lemma prefix_length: "prefix xs ys \<Longrightarrow> length xs \<le> length ys"
  by (auto simp: prefix_def)

end
