(* ===== verification/Index_Vec.thy ===== *)
theory Index_Vec
  imports Prelude
begin

text \<open>
  \<open>oak_index_vec\<close>: vectors indexed by a newtype over \<open>u32\<close>, and the text positions they are
  searched by (\<open>oak_core::range\<close>). An \<open>IndexVec\<close> is a list; its strongly typed index is the
  position. Indexing outside the vector panics in Rust, which is \<open>None\<close> here.
\<close>

section \<open>Text positions\<close>

text \<open>
  A \<open>TextSize\<close> is a byte offset and a \<open>TextRange\<close> a half-open interval of offsets, as the
  syntax-tree library hands them to the code.
\<close>

type_synonym text_size = nat

record text_range =
  tr_start :: text_size
  tr_end :: text_size

definition tr_contains :: "text_range \<Rightarrow> text_size \<Rightarrow> bool" where
  "tr_contains r offset \<longleftrightarrow> tr_start r \<le> offset \<and> offset < tr_end r"

definition tr_empty :: "text_size \<Rightarrow> text_range" where
  "tr_empty offset = \<lparr>tr_start = offset, tr_end = offset\<rparr>"

section \<open>Index newtypes\<close>

text \<open>\<open>define_index!\<close>: the largest index is \<open>u32::MAX - 1\<close> and \<open>Idx::new\<close> asserts it.\<close>

definition IDX_MAX :: nat where
  "IDX_MAX = 2 ^ 32 - 2"

definition idx_new :: "nat \<Rightarrow> nat option" where
  "idx_new value = (if value \<le> IDX_MAX then Some (value mod 2 ^ 32) else None)"

lemma idx_new_roundtrip: "idx_new v = Some i \<Longrightarrow> i = v"
  by (auto simp: idx_new_def IDX_MAX_def split: if_splits)

section \<open>The vector\<close>

definition iv_next_id :: "'v list \<Rightarrow> nat" where
  "iv_next_id xs = length xs"

definition iv_push :: "'v list \<Rightarrow> 'v \<Rightarrow> nat \<times> 'v list" where
  "iv_push xs v = (iv_next_id xs, xs @ [v])"

definition iv_get :: "'v list \<Rightarrow> nat \<Rightarrow> 'v option" where
  "iv_get xs i = (if i < length xs then Some (xs ! i) else None)"

definition iv_iter :: "'v list \<Rightarrow> (nat \<times> 'v) list" where
  "iv_iter xs = zip [0..<length xs] xs"

text \<open>
  \<open>push\<close> with the width of the index written out: \<open>next_id\<close> goes through \<open>Idx::new\<close>. The
  other theories use \<open>iv_push\<close>, which it equals on every vector with room for one more index.
\<close>

definition iv_push_u32 :: "'v list \<Rightarrow> 'v \<Rightarrow> (nat \<times> 'v list) option" where
  "iv_push_u32 xs v = do { i \<leftarrow> idx_new (length xs); Some (i, xs @ [v]) }"

text \<open>\<open>xs[i] = f(xs[i])\<close> through \<open>IndexMut\<close>.\<close>

definition iv_modify :: "'v list \<Rightarrow> nat \<Rightarrow> ('v \<Rightarrow> 'v) \<Rightarrow> 'v list option" where
  "iv_modify xs i f = (if i < length xs then Some (xs[i := f (xs ! i)]) else None)"

text \<open>\<open>IndexVec::contains\<close>: the first element whose range contains the offset.\<close>

definition iv_contains :: "('v \<Rightarrow> text_range) \<Rightarrow> 'v list \<Rightarrow> text_size \<Rightarrow> (nat \<times> 'v) option" where
  "iv_contains rng xs offset = find (\<lambda>(_, v). tr_contains (rng v) offset) (iv_iter xs)"

subsection \<open>Lemmas\<close>

lemma iv_get_Some_iff: "iv_get xs i = Some v \<longleftrightarrow> i < length xs \<and> v = xs ! i"
  by (auto simp: iv_get_def)

lemma iv_get_in_range [simp]: "i < length xs \<Longrightarrow> iv_get xs i = Some (xs ! i)"
  by (simp add: iv_get_def)

lemma iv_modify_in_range [simp]: "i < length xs \<Longrightarrow> iv_modify xs i f = Some (xs[i := f (xs ! i)])"
  by (simp add: iv_modify_def)

lemma iv_modify_Some_iff:
  "iv_modify xs i f = Some ys \<longleftrightarrow> i < length xs \<and> ys = xs[i := f (xs ! i)]"
  by (auto simp: iv_modify_def)

lemma iv_iter_set: "(i, v) \<in> set (iv_iter xs) \<longleftrightarrow> i < length xs \<and> v = xs ! i"
  by (auto simp: iv_iter_def in_set_zip intro!: exI [of _ i])

lemma iv_iter_nth: "i < length xs \<Longrightarrow> iv_iter xs ! i = (i, xs ! i)"
  by (simp add: iv_iter_def)

lemma length_iv_iter [simp]: "length (iv_iter xs) = length xs"
  by (simp add: iv_iter_def)

lemma iv_push_u32_eq: "iv_push_u32 xs v = (if length xs \<le> IDX_MAX then Some (iv_push xs v) else None)"
  by (simp add: iv_push_u32_def idx_new_def iv_push_def iv_next_id_def IDX_MAX_def)

lemma iv_push_get: "iv_push xs v = (i, ys) \<Longrightarrow> iv_get ys i = Some v"
  by (auto simp: iv_push_def iv_next_id_def iv_get_def)

lemma iv_push_keeps: "iv_push xs v = (i, ys) \<Longrightarrow> iv_get xs j = Some w \<Longrightarrow> iv_get ys j = Some w"
  by (auto simp: iv_push_def iv_get_def nth_append split: if_splits)

lemma find_iv_iter_first:
  "find (\<lambda>(i, v). P v) (iv_iter xs) = Some (k, w) \<longleftrightarrow>
     k < length xs \<and> w = xs ! k \<and> P w \<and> (\<forall>j<k. \<not> P (xs ! j))"
  by (auto simp: find_Some_iff iv_iter_nth)

lemma find_iv_iter_None:
  "find (\<lambda>(i, v). P v) (iv_iter xs) = None \<longleftrightarrow> (\<forall>v\<in>set xs. \<not> P v)"
  by (fastforce simp: find_None_iff iv_iter_set in_set_conv_nth [of _ xs])

lemma iv_contains_first:
  "iv_contains rng xs offset = Some (k, w) \<longleftrightarrow>
     k < length xs \<and> w = xs ! k \<and> tr_contains (rng w) offset \<and>
     (\<forall>j<k. \<not> tr_contains (rng (xs ! j)) offset)"
  by (simp add: iv_contains_def find_iv_iter_first)

section \<open>Properties\<close>

text \<open>
  C27. Index newtypes do not wrap. A push with 32 bit indexes asserts exactly when the vector already
  holds \<open>u32::MAX\<close> elements; otherwise the index it returns reads the pushed element back, every
  earlier index still reads what it read before, and the truncating cast loses nothing.
\<close>

theorem index_width_safe:
  "(iv_push_u32 xs v = None \<longleftrightarrow> 2 ^ 32 - 1 \<le> length xs) \<and>
   (\<forall>i ys. iv_push_u32 xs v = Some (i, ys) \<longrightarrow> i < 2 ^ 32 \<and> iv_get ys i = Some v \<and>
      (\<forall>j < length xs. j \<noteq> i \<and> iv_get ys j = iv_get xs j) \<and> iv_push xs v = (i, ys))"
  by (auto simp: iv_push_u32_eq IDX_MAX_def iv_push_def iv_next_id_def iv_get_def nth_append split: if_splits)

theorem index_width_safe_witness:
  "iv_push_u32 [True] False = Some (1, [True, False]) \<and> iv_get [True, False] 0 = iv_get [True] 0"
proof -
  have "iv_push_u32 [True] False = Some (1, [True, False])" by (simp add: iv_push_u32_def idx_new_def IDX_MAX_def)
  moreover from index_width_safe [of "[True]" False] this have "iv_get [True, False] 0 = iv_get [True] 0" by auto
  ultimately show ?thesis ..
qed

end
