(* ===== verification/Symbol_Table.thy ===== *)
theory Symbol_Table
  imports Index_Vec "HOL-Library.Word"
begin

text \<open>
  The per-scope symbol table of \<open>oak_semantic::semantic_index\<close>: symbols, their summary flags
  (bits of a \<open>u8\<close>), and the builder's \<open>intern\<close>. The locale \<open>interner\<close> states what the
  index builder relies on; the table of the code is its instance.
\<close>

unbundle bit_operations_syntax

section \<open>Symbol flags\<close>

type_synonym symbol_flags = "8 word"

definition IS_USED :: symbol_flags where
  "IS_USED = push_bit 0 1"

definition IS_BOUND :: symbol_flags where
  "IS_BOUND = push_bit 1 1"

definition IS_PARAMETER :: symbol_flags where
  "IS_PARAMETER = push_bit 2 1"

definition IS_SUPER_BOUND :: symbol_flags where
  "IS_SUPER_BOUND = push_bit 3 1"

definition flags_empty :: symbol_flags where
  "flags_empty = 0"

definition flags_contains :: "symbol_flags \<Rightarrow> symbol_flags \<Rightarrow> bool" where
  "flags_contains self other \<longleftrightarrow> self AND other = other"

definition flags_intersects :: "symbol_flags \<Rightarrow> symbol_flags \<Rightarrow> bool" where
  "flags_intersects self other \<longleftrightarrow> self AND other \<noteq> 0"

definition flags_union :: "symbol_flags \<Rightarrow> symbol_flags \<Rightarrow> symbol_flags" where
  "flags_union self other = self OR other"

definition flags_insert :: "symbol_flags \<Rightarrow> symbol_flags \<Rightarrow> symbol_flags" where
  "flags_insert self other = self OR other"

section \<open>Symbols and the table\<close>

record symbol =
  sy_name :: string
  sy_flags :: symbol_flags

record symbol_table =
  st_symbols :: "symbol list"
  st_by_name :: "string \<rightharpoonup> nat"

definition st_new :: symbol_table where
  "st_new = \<lparr>st_symbols = [], st_by_name = Map.empty\<rparr>"

definition st_id :: "symbol_table \<Rightarrow> string \<Rightarrow> nat option" where
  "st_id t name = st_by_name t name"

definition st_symbol :: "symbol_table \<Rightarrow> nat \<Rightarrow> symbol option" where
  "st_symbol t i = iv_get (st_symbols t) i"

definition st_get :: "symbol_table \<Rightarrow> string \<Rightarrow> symbol option" where
  "st_get t name = do { i \<leftarrow> st_by_name t name; st_symbol t i }"

definition st_iter :: "symbol_table \<Rightarrow> (nat \<times> symbol) list" where
  "st_iter t = iv_iter (st_symbols t)"

definition st_len :: "symbol_table \<Rightarrow> nat" where
  "st_len t = length (st_symbols t)"

text \<open>\<open>SymbolTableBuilder::intern\<close>. The index into \<open>symbols\<close> on the hit path can panic.\<close>

definition st_intern :: "symbol_table \<Rightarrow> string \<Rightarrow> symbol_flags \<Rightarrow> (nat \<times> symbol_table) option" where
  "st_intern t name flags =
     (case st_by_name t name of
        Some i \<Rightarrow> do {
          syms \<leftarrow> iv_modify (st_symbols t) i (\<lambda>s. s\<lparr>sy_flags := flags_insert (sy_flags s) flags\<rparr>);
          Some (i, t\<lparr>st_symbols := syms\<rparr>) }
      | None \<Rightarrow>
          (let (i, syms) = iv_push (st_symbols t) \<lparr>sy_name = name, sy_flags = flags\<rparr>
           in Some (i, t\<lparr>st_symbols := syms, st_by_name := (st_by_name t)(name \<mapsto> i)\<rparr>)))"

section \<open>Well-formed tables\<close>

text \<open>The two halves of the table agree: the name index is the inverse of the symbol vector.\<close>

definition st_wf :: "symbol_table \<Rightarrow> bool" where
  "st_wf t \<longleftrightarrow>
     (\<forall>name i. st_by_name t name = Some i \<longleftrightarrow>
        i < length (st_symbols t) \<and> sy_name (st_symbols t ! i) = name)"

lemma st_wf_id: "st_wf t \<Longrightarrow> st_id t name = Some i \<longleftrightarrow> i < st_len t \<and> sy_name (st_symbols t ! i) = name"
  by (simp add: st_wf_def st_id_def st_len_def)

lemma st_wf_known:
  assumes "st_wf t"
  shows "(\<exists>i. st_by_name t n = Some i) \<longleftrightarrow> n \<in> sy_name ` set (st_symbols t)"
proof -
  have "(\<exists>i. st_by_name t n = Some i) \<longleftrightarrow> (\<exists>i<length (st_symbols t). sy_name (st_symbols t ! i) = n)"
    using assms by (simp add: st_wf_def)
  also have "\<dots> \<longleftrightarrow> n \<in> sy_name ` set (st_symbols t)" by (metis imageE image_eqI in_set_conv_nth)
  finally show ?thesis .
qed

lemma st_wf_new [simp]: "st_wf st_new"
  by (simp add: st_wf_def st_new_def)

lemma st_wf_names_distinct:
  assumes "st_wf t" and "i < st_len t" and "j < st_len t"
    and "sy_name (st_symbols t ! i) = sy_name (st_symbols t ! j)"
  shows "i = j"
proof -
  from assms have "st_id t (sy_name (st_symbols t ! i)) = Some i"
    and "st_id t (sy_name (st_symbols t ! i)) = Some j"
    by (simp_all add: st_wf_id)
  then show ?thesis by simp
qed

lemma flags_contains_iff: "flags_contains f h \<longleftrightarrow> (\<forall>n. bit h n \<longrightarrow> bit f n)"
proof
  assume "flags_contains f h"
  then show "\<forall>n. bit h n \<longrightarrow> bit f n" by (metis bit_and_iff flags_contains_def)
next
  assume "\<forall>n. bit h n \<longrightarrow> bit f n"
  then have "f AND h = h" by (intro bit_word_eqI) (auto simp: bit_simps)
  then show "flags_contains f h" by (simp add: flags_contains_def)
qed

lemma flags_contains_insert [simp]: "flags_contains (flags_insert f g) g"
  by (simp add: flags_contains_iff flags_insert_def bit_simps)

lemma flags_contains_insert_mono: "flags_contains f h \<Longrightarrow> flags_contains (flags_insert f g) h"
  by (simp add: flags_contains_iff flags_insert_def bit_simps)

lemma flags_contains_refl [simp]: "flags_contains f f"
  by (simp add: flags_contains_def)

text \<open>What one \<open>intern\<close> does, on both paths, to a well-formed table.\<close>

lemma st_intern_cases:
  assumes wf: "st_wf t"
  obtains (hit) i where "st_by_name t name = Some i" and "i < st_len t"
      and "sy_name (st_symbols t ! i) = name"
      and "st_intern t name flags =
        Some (i, t\<lparr>st_symbols := (st_symbols t)[i := (st_symbols t ! i)
          \<lparr>sy_flags := flags_insert (sy_flags (st_symbols t ! i)) flags\<rparr>]\<rparr>)"
  | (miss) "st_by_name t name = None"
      and "st_intern t name flags =
        Some (st_len t, t\<lparr>st_symbols := st_symbols t @ [\<lparr>sy_name = name, sy_flags = flags\<rparr>],
                         st_by_name := (st_by_name t)(name \<mapsto> st_len t)\<rparr>)"
proof (cases "st_by_name t name")
  case None
  then show ?thesis
    by (intro miss) (simp_all add: st_intern_def iv_push_def iv_next_id_def st_len_def)
next
  case (Some i)
  with wf have "i < length (st_symbols t)" and "sy_name (st_symbols t ! i) = name"
    by (auto simp: st_wf_def)
  with Some show ?thesis
    by (intro hit) (simp_all add: st_intern_def st_len_def)
qed

lemma st_intern_total: "st_wf t \<Longrightarrow> \<exists>i t'. st_intern t name flags = Some (i, t')"
  by (erule st_intern_cases [of t name flags]) auto

lemma st_intern_wf:
  assumes "st_wf t" and "st_intern t name flags = Some (i, t')"
  shows "st_wf t'"
  using assms
  by (cases rule: st_intern_cases [OF assms(1), of name flags])
    (auto simp: st_wf_def st_len_def nth_list_update nth_append less_Suc_eq split: if_splits,
     metis option.simps(3))

lemma st_intern_props:
  assumes "st_wf t" and "st_intern t name flags = Some (i, t')"
  shows "st_id t' name = Some i" and "i < st_len t'" and "st_len t \<le> st_len t'"
    and "sy_name (st_symbols t' ! i) = name"
    and "flags_contains (sy_flags (st_symbols t' ! i)) flags"
    and "\<And>j. j < st_len t \<Longrightarrow> sy_name (st_symbols t' ! j) = sy_name (st_symbols t ! j)"
    and "\<And>j. j < st_len t \<Longrightarrow> j \<noteq> i \<Longrightarrow> st_symbols t' ! j = st_symbols t ! j"
    and "\<And>m j. st_id t m = Some j \<Longrightarrow> st_id t' m = Some j"
    and "\<And>m. m \<noteq> name \<Longrightarrow> st_id t' m = st_id t m"
    and "\<And>j. j < st_len t' \<Longrightarrow> j = i \<or> j < st_len t"
  using assms
  by (cases rule: st_intern_cases [OF assms(1), of name flags];
      auto simp: st_id_def st_len_def nth_list_update nth_append)+

lemma st_intern_flags_mono:
  assumes "st_wf t" and "st_intern t name flags = Some (i, t')" and "j < st_len t"
    and "flags_contains (sy_flags (st_symbols t ! j)) f"
  shows "flags_contains (sy_flags (st_symbols t' ! j)) f"
  using assms
  by (cases rule: st_intern_cases [OF assms(1), of name flags])
    (auto simp: st_len_def nth_list_update nth_append flags_contains_insert_mono)

section \<open>The interface the builder relies on\<close>

locale interner =
  fixes inv :: "'t \<Rightarrow> bool"
    and id_of :: "'t \<Rightarrow> string \<Rightarrow> nat option"
    and name_of :: "'t \<Rightarrow> nat \<Rightarrow> string option"
    and intern :: "'t \<Rightarrow> string \<Rightarrow> 'f \<Rightarrow> (nat \<times> 't) option"
  assumes intern_total: "inv t \<Longrightarrow> \<exists>i t'. intern t name f = Some (i, t')"
    and intern_inv: "inv t \<Longrightarrow> intern t name f = Some (i, t') \<Longrightarrow> inv t'"
    and intern_id: "inv t \<Longrightarrow> intern t name f = Some (i, t') \<Longrightarrow> id_of t' name = Some i"
    and intern_stable: "inv t \<Longrightarrow> intern t name f = Some (i, t') \<Longrightarrow> id_of t m = Some j \<Longrightarrow> id_of t' m = Some j"
    and id_name: "inv t \<Longrightarrow> id_of t m = Some j \<longleftrightarrow> name_of t j = Some m"
begin

text \<open>Interning a list of names in order, as a whole file's walk does.\<close>

fun intern_all :: "'t \<Rightarrow> (string \<times> 'f) list \<Rightarrow> 't option" where
  "intern_all t [] = Some t"
| "intern_all t ((n, f) # nfs) = do { (_, t') \<leftarrow> intern t n f; intern_all t' nfs }"

lemma intern_all_ok:
  assumes "inv t"
  shows "\<exists>t'. intern_all t nfs = Some t' \<and> inv t' \<and>
     (\<forall>m j. id_of t m = Some j \<longrightarrow> id_of t' m = Some j) \<and>
     (\<forall>(n, f)\<in>set nfs. \<exists>j. id_of t' n = Some j)"
  using assms
proof (induction nfs arbitrary: t)
  case Nil
  then show ?case by auto
next
  case (Cons nf nfs)
  obtain n f where nf: "nf = (n, f)" by (cases nf)
  from intern_total [OF Cons.prems] obtain i t1 where t1: "intern t n f = Some (i, t1)" by blast
  from intern_inv [OF Cons.prems t1] have "inv t1" .
  from Cons.IH [OF this] obtain t' where t': "intern_all t1 nfs = Some t'" "inv t'"
      "\<forall>m j. id_of t1 m = Some j \<longrightarrow> id_of t' m = Some j" "\<forall>(n, f)\<in>set nfs. \<exists>j. id_of t' n = Some j"
    by blast
  moreover have "id_of t1 n = Some i" by (rule intern_id [OF Cons.prems t1])
  moreover have "\<forall>m j. id_of t m = Some j \<longrightarrow> id_of t1 m = Some j"
    using intern_stable [OF Cons.prems t1] by blast
  ultimately show ?case by (auto simp: nf t1)
qed

lemma id_of_inj: "inv t \<Longrightarrow> id_of t m = Some j \<Longrightarrow> id_of t n = Some j \<Longrightarrow> m = n"
  by (metis id_name option.inject)

lemma intern_again:
  assumes "inv t" and "intern t n f = Some (i, t1)" and "intern t1 n g = Some (j, t2)"
  shows "j = i"
proof -
  have "id_of t2 n = Some i"
    using assms intern_inv [OF assms(1,2)] intern_id [OF assms(1,2)] intern_stable by blast
  moreover have "id_of t2 n = Some j"
    using assms intern_inv [OF assms(1,2)] intern_id by blast
  ultimately show ?thesis by simp
qed

end

interpretation stab: interner st_wf st_id "\<lambda>t i. map_option sy_name (st_symbol t i)" st_intern
  by unfold_locales
    (auto simp: st_intern_total intro: st_intern_wf st_intern_props(1) st_intern_props(8),
     auto simp: st_wf_id st_symbol_def iv_get_def st_len_def split: if_splits)

section \<open>Properties\<close>

text \<open>Interning a list of names from the empty table.\<close>

definition intern_names :: "(string \<times> symbol_flags) list \<Rightarrow> symbol_table option" where
  "intern_names nfs = foldM (\<lambda>(n, f) t. map_option snd (st_intern t n f)) nfs st_new"

definition flags_of :: "(string \<times> symbol_flags) list \<Rightarrow> string \<Rightarrow> symbol_flags" where
  "flags_of nfs n = fold (\<lambda>(m, f) acc. if m = n then flags_union acc f else acc) nfs flags_empty"

lemma intern_names_snoc:
  "intern_names (nfs @ [(n, f)]) = do { t \<leftarrow> intern_names nfs; map_option snd (st_intern t n f) }"
  by (simp add: intern_names_def foldM_append)

lemma flags_of_absent: "n \<notin> fst ` set nfs \<Longrightarrow> flags_of nfs n = flags_empty"
proof -
  have "n \<notin> fst ` set nfs \<Longrightarrow> fold (\<lambda>(m, f) acc. if m = n then flags_union acc f else acc) nfs a = a" for a
    by (induction nfs arbitrary: a) (auto split: prod.splits)
  then show "n \<notin> fst ` set nfs \<Longrightarrow> ?thesis" by (simp add: flags_of_def)
qed

lemma flags_of_snoc:
  "flags_of (nfs @ [(m, f)]) n = (if m = n then flags_union (flags_of nfs n) f else flags_of nfs n)"
  by (simp add: flags_of_def)

lemma intern_names_symbols:
  "\<exists>t. intern_names nfs = Some t \<and> st_wf t \<and>
     st_symbols t = map (\<lambda>n. \<lparr>sy_name = n, sy_flags = flags_of nfs n\<rparr>) (rev (remdups (rev (map fst nfs))))"
proof (induction nfs rule: rev_induct)
  case Nil
  have "intern_names [] = Some st_new" by (simp add: intern_names_def)
  then show ?case by (simp add: st_new_def st_wf_def)
next
  case (snoc nf nfs)
  obtain m f where nf: "nf = (m, f)" by fastforce
  let ?names = "rev (remdups (rev (map fst nfs)))"
  from snoc obtain t where t: "intern_names nfs = Some t" "st_wf t"
    "st_symbols t = map (\<lambda>n. \<lparr>sy_name = n, sy_flags = flags_of nfs n\<rparr>) ?names" by blast
  have mem: "m \<in> set (map fst nfs) \<longleftrightarrow> (\<exists>i. st_by_name t m = Some i)"
  proof -
    have "(\<exists>i. st_by_name t m = Some i) \<longleftrightarrow> m \<in> sy_name ` set (st_symbols t)" by (rule st_wf_known [OF t(2)])
    also have "\<dots> \<longleftrightarrow> m \<in> set (map fst nfs)" by (simp add: t(3) image_image)
    finally show ?thesis by simp
  qed
  from t(2) show ?case
  proof (cases rule: st_intern_cases [of t m f])
    case (hit i)
    let ?t = "t\<lparr>st_symbols := (st_symbols t)[i := (st_symbols t ! i)\<lparr>sy_flags := flags_insert (sy_flags (st_symbols t ! i)) f\<rparr>]\<rparr>"
    have len: "length (st_symbols t) = length ?names" by (simp add: t(3))
    have "i < length ?names" "?names ! i = m" using hit(2,3) len by (simp_all add: t(3) st_len_def)
    moreover have "distinct ?names" by simp
    ultimately have only: "?names ! j = m \<longleftrightarrow> j = i" if "j < length ?names" for j
      using that nth_eq_iff_index_eq by metis
    have "st_symbols ?t = map (\<lambda>n. \<lparr>sy_name = n, sy_flags = flags_of (nfs @ [nf]) n\<rparr>) ?names"
    proof (rule nth_equalityI)
      fix j assume "j < length (st_symbols ?t)"
      then have j: "j < length ?names" by (simp add: len)
      show "st_symbols ?t ! j = map (\<lambda>n. \<lparr>sy_name = n, sy_flags = flags_of (nfs @ [nf]) n\<rparr>) ?names ! j"
        using j only [OF j] by (auto simp: t(3) nf flags_of_snoc flags_insert_def flags_union_def nth_list_update)
    qed (simp add: t(3))
    moreover have "rev (remdups (rev (map fst (nfs @ [nf])))) = ?names" using mem hit(1) by (simp add: nf)
    moreover have "intern_names (nfs @ [nf]) = Some ?t" by (simp add: nf intern_names_snoc t(1) hit(4))
    ultimately show ?thesis using st_intern_wf [OF t(2) hit(4)] by auto
  next
    case miss
    then have new: "m \<notin> fst ` set nfs" using mem by simp
    let ?t = "t\<lparr>st_symbols := st_symbols t @ [\<lparr>sy_name = m, sy_flags = f\<rparr>], st_by_name := (st_by_name t)(m \<mapsto> st_len t)\<rparr>"
    have "st_symbols ?t = map (\<lambda>n. \<lparr>sy_name = n, sy_flags = flags_of (nfs @ [nf]) n\<rparr>) (?names @ [m])"
      using new flags_of_absent [OF new] by (auto simp: t(3) nf flags_of_snoc flags_union_def flags_empty_def)
    moreover have "rev (remdups (rev (map fst (nfs @ [nf])))) = ?names @ [m]" using new by (simp add: nf)
    moreover have "intern_names (nfs @ [nf]) = Some ?t" by (simp add: nf intern_names_snoc t(1) miss(2))
    ultimately show ?thesis using st_intern_wf [OF t(2) miss(2)] by auto
  qed
qed

text \<open>
  C26. Interning builds a table without duplicates. Interning any sequence of names from the empty
  table never panics; the symbols are the distinct names in order of first occurrence, the flags of
  a symbol are the union of all flags it was interned with, and looking a name up gives its symbol
  exactly when it was interned.
\<close>

theorem interning_deduplicates:
  "\<exists>t. intern_names nfs = Some t \<and>
     map sy_name (st_symbols t) = rev (remdups (rev (map fst nfs))) \<and>
     (\<forall>n. st_get t n = (if n \<in> fst ` set nfs then Some \<lparr>sy_name = n, sy_flags = flags_of nfs n\<rparr> else None)) \<and>
     (\<forall>m n i. st_id t m = Some i \<longrightarrow> st_id t n = Some i \<longrightarrow> m = n)"
proof -
  from intern_names_symbols [of nfs] obtain t where t: "intern_names nfs = Some t" "st_wf t"
    "st_symbols t = map (\<lambda>n. \<lparr>sy_name = n, sy_flags = flags_of nfs n\<rparr>) (rev (remdups (rev (map fst nfs))))" by blast
  have get: "st_get t n = (if n \<in> fst ` set nfs then Some \<lparr>sy_name = n, sy_flags = flags_of nfs n\<rparr> else None)" for n
  proof (cases "st_by_name t n")
    case None
    then have "n \<notin> sy_name ` set (st_symbols t)" using st_wf_known [OF t(2), of n] by simp
    then show ?thesis using None by (simp add: st_get_def t(3) image_image)
  next
    case (Some i)
    then have i: "i < length (st_symbols t)" "sy_name (st_symbols t ! i) = n" using t(2) by (auto simp: st_wf_def)
    then have "st_symbols t ! i \<in> set (st_symbols t)" by simp
    then have "n \<in> fst ` set nfs" "st_symbols t ! i = \<lparr>sy_name = n, sy_flags = flags_of nfs n\<rparr>"
      using i(2) unfolding t(3) by force+
    with Some i(1) show ?thesis by (simp add: st_get_def st_symbol_def)
  qed
  moreover have "map sy_name (st_symbols t) = rev (remdups (rev (map fst nfs)))" by (simp add: t(3) comp_def)
  ultimately show ?thesis using t(1) stab.id_of_inj [OF t(2)] by blast
qed

theorem interning_deduplicates_witness:
  "(\<exists>t. intern_names [(''x'', IS_USED), (''y'', IS_BOUND), (''x'', IS_BOUND)] = Some t \<and>
     map sy_name (st_symbols t) = [''x'', ''y''] \<and> st_get t ''x'' = Some \<lparr>sy_name = ''x'', sy_flags = 3\<rparr>)"
proof -
  have "flags_of [(''x'', IS_USED), (''y'', IS_BOUND), (''x'', IS_BOUND)] ''x'' = 3"
    by (simp add: flags_of_def flags_union_def flags_empty_def IS_USED_def IS_BOUND_def)
  with interning_deduplicates [of "[(''x'', IS_USED), (''y'', IS_BOUND), (''x'', IS_BOUND)]"] show ?thesis by auto
qed

end
