(* ===== verification/Use_Def_Map.thy ===== *)
theory Use_Def_Map
  imports Index_Vec
begin

text \<open>
  \<open>oak_semantic::use_def_map\<close>: the flow-sensitive map from uses to the definitions that can
  reach them. \<open>bindings\<close> is the live set of one symbol, \<open>udm_builder\<close> the mutable builder of
  one scope. Definition, use, symbol and snapshot identifiers are positions in their vectors.

  The live sets are sorted vectors in the code. The abstraction \<open>bd_abs\<close> to a pair of a set
  and a flag is the specification the operations refine: kill, add and join.
\<close>

section \<open>Live bindings of one symbol\<close>

record bindings =
  bd_definitions :: "nat list"
  bd_may_be_unbound :: bool

definition bd_unbound :: bindings where
  "bd_unbound = \<lparr>bd_definitions = [], bd_may_be_unbound = True\<rparr>"

definition bd_contains_definition :: "bindings \<Rightarrow> nat \<Rightarrow> bool" where
  "bd_contains_definition b d \<longleftrightarrow> d \<in> set (bd_definitions b)"

definition bd_record_definition :: "bindings \<Rightarrow> nat \<Rightarrow> bindings" where
  "bd_record_definition b d = b\<lparr>bd_definitions := [d], bd_may_be_unbound := False\<rparr>"

text \<open>\<open>slice::partition_point\<close>: the length of the prefix where the predicate holds.\<close>

definition partition_point :: "('a \<Rightarrow> bool) \<Rightarrow> 'a list \<Rightarrow> nat" where
  "partition_point P xs = length (takeWhile P xs)"

definition bd_add_definition :: "bindings \<Rightarrow> nat \<Rightarrow> bindings" where
  "bd_add_definition b d =
     (let ds = bd_definitions b; pos = partition_point (\<lambda>i. i < d) ds
      in if pos \<ge> length ds \<or> ds ! pos \<noteq> d
         then b\<lparr>bd_definitions := take pos ds @ d # drop pos ds\<rparr> else b)"

text \<open>\<open>sorted_union\<close>: the merge join of two sorted slices.\<close>

fun sorted_union :: "nat list \<Rightarrow> nat list \<Rightarrow> nat list" where
  "sorted_union [] ys = ys"
| "sorted_union (x # xs) [] = x # xs"
| "sorted_union (x # xs) (y # ys) =
     (if x < y then x # sorted_union xs (y # ys)
      else if y < x then y # sorted_union (x # xs) ys
      else x # sorted_union xs ys)"

definition bd_merge :: "bindings \<Rightarrow> bindings \<Rightarrow> bindings" where
  "bd_merge self other =
     \<lparr>bd_definitions = sorted_union (bd_definitions self) (bd_definitions other),
      bd_may_be_unbound = (bd_may_be_unbound self \<or> bd_may_be_unbound other)\<rparr>"

section \<open>The builder of one scope\<close>

record udm_builder =
  ub_symbol_states :: "bindings list"
  ub_bindings_by_use :: "bindings list"
  ub_lazy_defs :: "(nat \<times> nat list) list"
  ub_enclosing_snapshots :: "bindings list"
  ub_lazy_watchers :: "nat \<rightharpoonup> nat list"

record use_def_map =
  ud_bindings_by_use :: "bindings list"
  ud_enclosing_snapshots :: "bindings list"

text \<open>\<open>FlowSnapshot\<close>: a copy of the symbol states.\<close>

type_synonym flow_snapshot = "bindings list"

definition udm_new :: udm_builder where
  "udm_new = \<lparr>ub_symbol_states = [], ub_bindings_by_use = [], ub_lazy_defs = [],
     ub_enclosing_snapshots = [], ub_lazy_watchers = Map.empty\<rparr>"

text \<open>The \<open>while states.len() < n { states.push(unbound) }\<close> loop.\<close>

definition pad_states :: "nat \<Rightarrow> bindings list \<Rightarrow> bindings list" where
  "pad_states n states = states @ replicate (n - length states) bd_unbound"

definition udm_ensure_symbol :: "nat \<Rightarrow> udm_builder \<Rightarrow> udm_builder" where
  "udm_ensure_symbol sid m = m\<lparr>ub_symbol_states := pad_states (Suc sid) (ub_symbol_states m)\<rparr>"

definition notify_watchers ::
    "bindings list \<Rightarrow> (nat \<rightharpoonup> nat list) \<Rightarrow> nat \<Rightarrow> nat \<Rightarrow> bindings list option" where
  "notify_watchers snaps watchers sid d =
     (case watchers sid of
        None \<Rightarrow> Some snaps
      | Some ids \<Rightarrow> foldM (\<lambda>k ss. iv_modify ss k (\<lambda>b. bd_add_definition b d)) ids snaps)"

definition udm_record_definition :: "nat \<Rightarrow> nat \<Rightarrow> udm_builder \<Rightarrow> udm_builder option" where
  "udm_record_definition sid d m = do {
     states \<leftarrow> iv_modify (ub_symbol_states m) sid (\<lambda>b. bd_record_definition b d);
     snaps \<leftarrow> notify_watchers (ub_enclosing_snapshots m) (ub_lazy_watchers m) sid d;
     Some (m\<lparr>ub_symbol_states := states, ub_enclosing_snapshots := snaps\<rparr>) }"

definition udm_record_super_definition :: "nat \<Rightarrow> nat \<Rightarrow> udm_builder \<Rightarrow> udm_builder option" where
  "udm_record_super_definition sid d m = do {
     states \<leftarrow> iv_modify (ub_symbol_states m) sid (\<lambda>b. bd_add_definition b d);
     snaps \<leftarrow> notify_watchers (ub_enclosing_snapshots m) (ub_lazy_watchers m) sid d;
     Some (m\<lparr>ub_symbol_states := states, ub_enclosing_snapshots := snaps\<rparr>) }"

text \<open>\<open>lazy_defs.entry(symbol).or_default().push(def)\<close> on the map as an association list.\<close>

definition lazy_defs_push :: "nat \<Rightarrow> nat \<Rightarrow> (nat \<times> nat list) list \<Rightarrow> (nat \<times> nat list) list" where
  "lazy_defs_push sid d lds =
     AList.update sid ((case map_of lds sid of None \<Rightarrow> [] | Some ds \<Rightarrow> ds) @ [d]) lds"

definition udm_record_lazy_definition :: "nat \<Rightarrow> nat \<Rightarrow> udm_builder \<Rightarrow> udm_builder option" where
  "udm_record_lazy_definition sid d m = do {
     snaps \<leftarrow> notify_watchers (ub_enclosing_snapshots m) (ub_lazy_watchers m) sid d;
     Some (m\<lparr>ub_enclosing_snapshots := snaps, ub_lazy_defs := lazy_defs_push sid d (ub_lazy_defs m)\<rparr>) }"

text \<open>\<open>record_use\<close>; its soft assertion that the pushed id is the given one only logs.\<close>

definition udm_record_use :: "nat \<Rightarrow> nat \<Rightarrow> udm_builder \<Rightarrow> udm_builder option" where
  "udm_record_use sid use_id m = do {
     b \<leftarrow> iv_get (ub_symbol_states m) sid;
     let (_, bbu) = iv_push (ub_bindings_by_use m) b;
     Some (m\<lparr>ub_bindings_by_use := bbu\<rparr>) }"

definition udm_snapshot :: "udm_builder \<Rightarrow> flow_snapshot" where
  "udm_snapshot m = ub_symbol_states m"

definition udm_restore :: "flow_snapshot \<Rightarrow> udm_builder \<Rightarrow> udm_builder" where
  "udm_restore snap m = m\<lparr>ub_symbol_states := pad_states (length (ub_symbol_states m)) snap\<rparr>"

definition udm_merge :: "flow_snapshot \<Rightarrow> udm_builder \<Rightarrow> udm_builder" where
  "udm_merge snap m = m\<lparr>ub_symbol_states :=
     map (\<lambda>(i, b). bd_merge b (case iv_get snap i of Some sb \<Rightarrow> sb | None \<Rightarrow> bd_unbound))
       (iv_iter (ub_symbol_states m))\<rparr>"

definition udm_is_may_be_unbound :: "nat \<Rightarrow> udm_builder \<Rightarrow> bool option" where
  "udm_is_may_be_unbound sid m = map_option bd_may_be_unbound (iv_get (ub_symbol_states m) sid)"

text \<open>
  \<open>finish_loop_defs\<close>. The inner loop patches the definitions new in the body into the uses of
  the symbol from \<open>first_use\<close> on; \<open>use_syms\<close> is the scope's use list seen through
  \<open>Use::symbol\<close>.
\<close>

definition loop_new_defs :: "flow_snapshot \<Rightarrow> bindings list \<Rightarrow> nat \<Rightarrow> nat list" where
  "loop_new_defs pre states i =
     (let pre_defs = (case iv_get pre i of Some b \<Rightarrow> bd_definitions b | None \<Rightarrow> [])
      in filter (\<lambda>d. d \<notin> set pre_defs) (bd_definitions (states ! i)))"

definition patch_use :: "nat list \<Rightarrow> bindings \<Rightarrow> bindings" where
  "patch_use new_defs b = foldl bd_add_definition b new_defs"

definition patch_uses ::
    "nat \<Rightarrow> nat list \<Rightarrow> nat \<Rightarrow> nat list \<Rightarrow> bindings list \<Rightarrow> bindings list option" where
  "patch_uses sid new_defs first_use use_syms bbu =
     foldM (\<lambda>j bs. do {
         s \<leftarrow> iv_get use_syms j;
         if s = sid then iv_modify bs j (patch_use new_defs) else Some bs })
       [first_use..<length bbu] bbu"

definition udm_finish_loop_defs ::
    "flow_snapshot \<Rightarrow> nat \<Rightarrow> nat list \<Rightarrow> udm_builder \<Rightarrow> udm_builder option" where
  "udm_finish_loop_defs pre_loop first_use use_syms m = do {
     bbu \<leftarrow> foldM (\<lambda>i bs.
         let new_defs = loop_new_defs pre_loop (ub_symbol_states m) i
         in if new_defs = [] then Some bs else patch_uses i new_defs first_use use_syms bs)
       [0..<length (ub_symbol_states m)] (ub_bindings_by_use m);
     Some (m\<lparr>ub_bindings_by_use := bbu\<rparr>) }"

definition udm_register_lazy_snapshot :: "nat \<Rightarrow> udm_builder \<Rightarrow> (nat \<times> udm_builder) option" where
  "udm_register_lazy_snapshot sid m = do {
     b \<leftarrow> iv_get (ub_symbol_states m) sid;
     let b = (case map_of (ub_lazy_defs m) sid of None \<Rightarrow> b | Some ds \<Rightarrow> foldl bd_add_definition b ds);
     let (k, snaps) = iv_push (ub_enclosing_snapshots m) b;
     let ids = (case ub_lazy_watchers m sid of None \<Rightarrow> [] | Some ids \<Rightarrow> ids);
     Some (k, m\<lparr>ub_enclosing_snapshots := snaps,
               ub_lazy_watchers := (ub_lazy_watchers m)(sid \<mapsto> ids @ [k])\<rparr>) }"

definition udm_register_eager_snapshot :: "nat \<Rightarrow> udm_builder \<Rightarrow> (nat \<times> udm_builder) option" where
  "udm_register_eager_snapshot sid m = do {
     b \<leftarrow> iv_get (ub_symbol_states m) sid;
     let (k, snaps) = iv_push (ub_enclosing_snapshots m) b;
     Some (k, m\<lparr>ub_enclosing_snapshots := snaps\<rparr>) }"

definition udm_fold_lazy_defs :: "udm_builder \<Rightarrow> udm_builder option" where
  "udm_fold_lazy_defs m = do {
     states \<leftarrow> foldM (\<lambda>(sid, ds) ss. foldM (\<lambda>d ss. iv_modify ss sid (\<lambda>b. bd_add_definition b d)) ds ss)
       (ub_lazy_defs m) (ub_symbol_states m);
     Some (m\<lparr>ub_lazy_defs := [], ub_symbol_states := states\<rparr>) }"

definition udm_final_bindings :: "udm_builder \<Rightarrow> bindings list" where
  "udm_final_bindings m = ub_symbol_states m"

definition udm_bound_symbol_ids :: "udm_builder \<Rightarrow> nat list" where
  "udm_bound_symbol_ids m =
     map fst (filter (\<lambda>(_, b). bd_definitions b \<noteq> []) (iv_iter (ub_symbol_states m)))"

definition udm_finish :: "udm_builder \<Rightarrow> use_def_map" where
  "udm_finish m = \<lparr>ud_bindings_by_use = ub_bindings_by_use m,
     ud_enclosing_snapshots = ub_enclosing_snapshots m\<rparr>"

definition ud_bindings_at_use :: "use_def_map \<Rightarrow> nat \<Rightarrow> bindings option" where
  "ud_bindings_at_use m use_id = iv_get (ud_bindings_by_use m) use_id"

definition ud_enclosing_snapshot :: "use_def_map \<Rightarrow> nat \<Rightarrow> bindings option" where
  "ud_enclosing_snapshot m k = iv_get (ud_enclosing_snapshots m) k"

section \<open>The abstract domain: a set of definitions and a flag\<close>

type_synonym live_set = "nat set \<times> bool"

definition bd_abs :: "bindings \<Rightarrow> live_set" where
  "bd_abs b = (set (bd_definitions b), bd_may_be_unbound b)"

definition bd_wf :: "bindings \<Rightarrow> bool" where
  "bd_wf b \<longleftrightarrow> sorted_wrt (<) (bd_definitions b)"

definition live_unbound :: live_set where
  "live_unbound = ({}, True)"

definition live_kill :: "nat \<Rightarrow> live_set" where
  "live_kill d = ({d}, False)"

definition live_add :: "nat set \<Rightarrow> live_set \<Rightarrow> live_set" where
  "live_add D l = (fst l \<union> D, snd l)"

definition live_join :: "live_set \<Rightarrow> live_set \<Rightarrow> live_set" where
  "live_join l l' = (fst l \<union> fst l', snd l \<or> snd l')"

lemma set_sorted_union [simp]: "set (sorted_union xs ys) = set xs \<union> set ys"
  by (induction xs ys rule: sorted_union.induct) auto

lemma sorted_sorted_union:
  "sorted_wrt (<) xs \<Longrightarrow> sorted_wrt (<) ys \<Longrightarrow> sorted_wrt (<) (sorted_union xs ys)"
  by (induction xs ys rule: sorted_union.induct) (auto dest: order.strict_trans)

lemma partition_point_sorted:
  assumes "sorted_wrt (<) (ds :: nat list)"
  shows "\<forall>x\<in>set (take (partition_point (\<lambda>i. i < d) ds) ds). x < d"
    and "\<forall>x\<in>set (drop (partition_point (\<lambda>i. i < d) ds) ds). d \<le> x"
proof -
  let ?p = "partition_point (\<lambda>i. i < d) ds"
  have take: "take ?p ds = takeWhile (\<lambda>i. i < d) ds"
    by (simp add: partition_point_def takeWhile_eq_take [symmetric])
  then show "\<forall>x\<in>set (take ?p ds). x < d" by (auto dest: set_takeWhileD)
  have drop: "drop ?p ds = dropWhile (\<lambda>i. i < d) ds"
    by (simp add: partition_point_def dropWhile_eq_drop [symmetric])
  show "\<forall>x\<in>set (drop ?p ds). d \<le> x"
  proof (cases "dropWhile (\<lambda>i. i < d) ds")
    case Nil
    with drop show ?thesis by simp
  next
    case (Cons y ys)
    then have "d \<le> y" using hd_dropWhile [of "\<lambda>i. i < d" ds] by auto
    moreover have "sorted_wrt (<) (y # ys)"
      using sorted_wrt_drop [OF assms, of ?p] by (simp add: drop Cons)
    ultimately show ?thesis by (auto simp: drop Cons)
  qed
qed

lemma bd_add_definition_wf: "bd_wf b \<Longrightarrow> bd_wf (bd_add_definition b d)"
proof -
  assume wf: "bd_wf b"
  let ?ds = "bd_definitions b" and ?p = "partition_point (\<lambda>i. i < d) (bd_definitions b)"
  have srt: "sorted_wrt (<) ?ds" using wf by (simp add: bd_wf_def)
  note pp = partition_point_sorted [OF srt, of d]
  have parts: "sorted_wrt (<) (take ?p ?ds)" "sorted_wrt (<) (drop ?p ?ds)"
    using srt by (simp_all add: sorted_wrt_take sorted_wrt_drop)
  show ?thesis
  proof (cases "?p \<ge> length ?ds \<or> ?ds ! ?p \<noteq> d")
    case True
    have gt: "\<forall>x\<in>set (drop ?p ?ds). d < x"
    proof (cases "?p < length ?ds")
      case lt: True
      with True have hd: "?ds ! ?p \<noteq> d" by simp
      have dr: "drop ?p ?ds = ?ds ! ?p # drop (Suc ?p) ?ds" using lt by (simp add: Cons_nth_drop_Suc)
      with pp(2) hd have "d < ?ds ! ?p" by auto
      moreover have "\<forall>x\<in>set (drop (Suc ?p) ?ds). ?ds ! ?p < x"
        using sorted_wrt_drop [OF srt, of ?p] by (simp add: dr)
      ultimately show ?thesis by (auto simp: dr)
    qed simp
    have "sorted_wrt (<) (take ?p ?ds @ d # drop ?p ?ds)"
      unfolding sorted_wrt_append sorted_wrt.simps using parts pp(1) gt by fastforce
    with True show ?thesis by (simp add: bd_add_definition_def bd_wf_def Let_def)
  qed (use wf in \<open>auto simp: bd_add_definition_def Let_def\<close>)
qed

lemma bd_abs_add_definition [simp]: "bd_abs (bd_add_definition b d) = live_add {d} (bd_abs b)"
proof -
  let ?ds = "bd_definitions b" and ?p = "partition_point (\<lambda>i. i < d) (bd_definitions b)"
  have "set ?ds = set (take ?p ?ds) \<union> set (drop ?p ?ds)" by (metis append_take_drop_id set_append)
  moreover have "?p < length ?ds \<Longrightarrow> ?ds ! ?p \<in> set ?ds" by simp
  ultimately show ?thesis
    by (auto simp: bd_add_definition_def bd_abs_def live_add_def Let_def)
qed

lemma bd_unbound_abs [simp]: "bd_abs bd_unbound = live_unbound" "bd_wf bd_unbound"
  by (simp_all add: bd_unbound_def bd_abs_def live_unbound_def bd_wf_def)

lemma bd_record_definition_abs [simp]:
  "bd_abs (bd_record_definition b d) = live_kill d" "bd_wf (bd_record_definition b d)"
  by (simp_all add: bd_record_definition_def bd_abs_def live_kill_def bd_wf_def)

lemma bd_merge_abs [simp]: "bd_abs (bd_merge b c) = live_join (bd_abs b) (bd_abs c)"
  by (simp add: bd_merge_def bd_abs_def live_join_def)

lemma bd_merge_wf: "bd_wf b \<Longrightarrow> bd_wf c \<Longrightarrow> bd_wf (bd_merge b c)"
  by (simp add: bd_merge_def bd_wf_def sorted_sorted_union)

lemma live_add_add [simp]: "live_add D (live_add E l) = live_add (D \<union> E) l"
  by (auto simp: live_add_def)

lemma live_add_empty [simp]: "live_add {} l = l"
  by (simp add: live_add_def)

lemma patch_use_abs [simp]: "bd_abs (patch_use ds b) = live_add (set ds) (bd_abs b)"
  unfolding patch_use_def by (induction ds arbitrary: b) (auto simp: live_add_def)

lemma patch_use_wf: "bd_wf b \<Longrightarrow> bd_wf (patch_use ds b)"
  unfolding patch_use_def by (induction ds arbitrary: b) (auto simp: bd_add_definition_wf)

text \<open>The sorted representation is canonical: equal abstractions are equal values.\<close>

lemma bd_abs_inj: "bd_wf b \<Longrightarrow> bd_wf c \<Longrightarrow> bd_abs b = bd_abs c \<Longrightarrow> b = c"
  by (cases b; cases c)
    (auto simp: bd_abs_def bd_wf_def strict_sorted_equal strict_sorted_iff [symmetric])

section \<open>The flow state of a scope, abstractly\<close>

text \<open>
  Symbols the vector does not reach yet are unbound, so the padding that \<open>ensure_symbol\<close> and
  \<open>restore\<close> add is invisible in the abstract state.
\<close>

definition states_live :: "bindings list \<Rightarrow> nat \<Rightarrow> live_set" where
  "states_live states i = (if i < length states then bd_abs (states ! i) else live_unbound)"

abbreviation udm_live :: "udm_builder \<Rightarrow> nat \<Rightarrow> live_set" where
  "udm_live m \<equiv> states_live (ub_symbol_states m)"

lemma length_pad_states [simp]: "length (pad_states n states) = max n (length states)"
  by (simp add: pad_states_def)

lemma states_live_pad [simp]: "states_live (pad_states n states) = states_live states"
  by (auto simp: states_live_def pad_states_def nth_append fun_eq_iff)

lemma udm_ensure_symbol_live [simp]: "udm_live (udm_ensure_symbol sid m) = udm_live m"
  by (simp add: udm_ensure_symbol_def)

lemma states_live_update:
  "i < length states \<Longrightarrow> states_live (states[i := b]) = (states_live states)(i := bd_abs b)"
  by (auto simp: states_live_def fun_eq_iff)

lemma udm_restore_live [simp]: "udm_live (udm_restore snap m) = states_live snap"
  by (simp add: udm_restore_def)

lemma udm_merge_live:
  assumes "length snap \<le> length (ub_symbol_states m)"
  shows "udm_live (udm_merge snap m) = (\<lambda>i. live_join (udm_live m i) (states_live snap i))"
proof
  fix i
  show "udm_live (udm_merge snap m) i = live_join (udm_live m i) (states_live snap i)"
    using assms
    by (cases "i < length (ub_symbol_states m)")
      (auto simp: udm_merge_def states_live_def iv_iter_nth iv_get_def live_join_def live_unbound_def)
qed

lemma length_udm_merge [simp]:
  "length (ub_symbol_states (udm_merge snap m)) = length (ub_symbol_states m)"
  by (simp add: udm_merge_def)

lemma udm_record_definition_live:
  "udm_record_definition sid d m = Some m' \<Longrightarrow> udm_live m' = (udm_live m)(sid := live_kill d)"
  by (auto simp: udm_record_definition_def iv_modify_Some_iff states_live_update
      split: Option.bind_splits)

lemma udm_record_super_definition_live:
  "udm_record_super_definition sid d m = Some m' \<Longrightarrow>
     udm_live m' = (udm_live m)(sid := live_add {d} (udm_live m sid))"
  by (auto simp: udm_record_super_definition_def iv_modify_Some_iff states_live_update states_live_def
      split: Option.bind_splits)

subsection \<open>The interface of the flow state\<close>

text \<open>
  What the walk relies on at control-flow joins. A \<open>flow_store\<close> has an abstract state
  \<open>live\<close> per symbol, can be saved and rewound, and joins with a saved state. The two client
  lemmas give the abstract effect of the walk's branch and loop skeletons for arbitrary arms.
\<close>

locale flow_store =
  fixes size_of :: "'m \<Rightarrow> nat"
    and live :: "'m \<Rightarrow> nat \<Rightarrow> live_set"
    and save :: "'m \<Rightarrow> 's"
    and saved_size :: "'s \<Rightarrow> nat"
    and saved_live :: "'s \<Rightarrow> nat \<Rightarrow> live_set"
    and rewind :: "'s \<Rightarrow> 'm \<Rightarrow> 'm"
    and join :: "'s \<Rightarrow> 'm \<Rightarrow> 'm"
  assumes save_size: "saved_size (save m) = size_of m"
    and save_live: "saved_live (save m) = live m"
    and rewind_live: "live (rewind s m) = saved_live s"
    and rewind_size: "saved_size s \<le> size_of m \<Longrightarrow> size_of (rewind s m) = size_of m"
    and join_live: "saved_size s \<le> size_of m \<Longrightarrow>
      live (join s m) = (\<lambda>i. live_join (live m i) (saved_live s i))"
    and join_size: "size_of (join s m) = size_of m"
begin

definition branch :: "('m \<Rightarrow> 'm) \<Rightarrow> ('m \<Rightarrow> 'm) \<Rightarrow> 'm \<Rightarrow> 'm" where
  "branch f g m = (let pre = save m; m1 = f m; post = save m1; m2 = g (rewind pre m1) in join post m2)"

definition skippable :: "('m \<Rightarrow> 'm) \<Rightarrow> 'm \<Rightarrow> 'm" where
  "skippable f m = join (save m) (f m)"

lemma branch_live:
  assumes f: "size_of m \<le> size_of (f m)" "live (f m) = F (live m)"
    and g: "\<And>n. size_of n \<le> size_of (g n)" "\<And>n. live n = live m \<Longrightarrow> live (g n) = G (live m)"
  shows "live (branch f g m) = (\<lambda>i. live_join (G (live m) i) (F (live m) i))"
proof -
  let ?r = "rewind (save m) (f m)"
  have size: "size_of ?r = size_of (f m)" using f(1) by (simp add: rewind_size save_size)
  have "live ?r = live m" by (simp add: rewind_live save_live)
  then have "live (g ?r) = G (live m)" by (rule g(2))
  moreover have "saved_size (save (f m)) \<le> size_of (g ?r)" using g(1) [of ?r] size by (simp add: save_size)
  ultimately show ?thesis by (simp add: branch_def Let_def join_live save_live f(2))
qed

lemma skippable_live:
  assumes "size_of m \<le> size_of (f m)" and "live (f m) = F (live m)"
  shows "live (skippable f m) = (\<lambda>i. live_join (F (live m) i) (live m i))"
  using assms by (simp add: skippable_def join_live save_size save_live)

end

interpretation flow: flow_store "\<lambda>m. length (ub_symbol_states m)" udm_live udm_snapshot length states_live
    udm_restore udm_merge
  by unfold_locales (simp_all add: udm_snapshot_def udm_restore_def udm_merge_live)

section \<open>Loop-carried definitions\<close>

text \<open>The inner loop rewrites exactly the uses of the symbol from \<open>first_use\<close> on.\<close>

lemma patch_uses_eq:
  assumes "length bbu \<le> length us"
  shows "patch_uses sid nd first us bbu =
    Some (map (\<lambda>(j, b). if first \<le> j \<and> us ! j = sid then patch_use nd b else b) (iv_iter bbu))"
proof -
  let ?f = "\<lambda>j bs. do { s \<leftarrow> iv_get us j; if s = sid then iv_modify bs j (patch_use nd) else Some bs }"
  let ?upd = "\<lambda>n. map (\<lambda>(j, b). if first \<le> j \<and> j < n \<and> us ! j = sid then patch_use nd b else b)
    (iv_iter bbu)"
  have "n \<le> length bbu \<Longrightarrow> foldM ?f [first..<n] bbu = Some (?upd n)" for n
  proof (induction n)
    case 0
    then show ?case by (auto intro!: nth_equalityI simp: iv_iter_nth)
  next
    case (Suc n)
    then have IH: "foldM ?f [first..<n] bbu = Some (?upd n)" by simp
    have n: "n < length bbu" "n < length us" using Suc.prems assms by auto
    show ?case
    proof (cases "first \<le> n")
      case True
      then have "foldM ?f [first..<Suc n] bbu = ?f n (?upd n)" by (simp add: foldM_append IH)
      also have "\<dots> = Some (?upd (Suc n))"
        using n True by (auto intro!: nth_equalityI simp: iv_iter_nth nth_list_update less_Suc_eq)
      finally show ?thesis .
    next
      case False
      then have "[first..<Suc n] = [first..<n]" by simp
      moreover have "?upd (Suc n) = ?upd n" using False by (auto simp: less_Suc_eq iv_iter_set)
      ultimately show ?thesis using IH by simp
    qed
  qed
  from this [of "length bbu"] show ?thesis
    unfolding patch_uses_def by (auto simp: iv_iter_set)
qed

text \<open>The definitions new in the body, per symbol.\<close>

definition carried :: "flow_snapshot \<Rightarrow> bindings list \<Rightarrow> nat \<Rightarrow> nat set" where
  "carried pre states i = fst (states_live states i) - fst (states_live pre i)"

lemma set_loop_new_defs:
  "i < length states \<Longrightarrow> set (loop_new_defs pre states i) = carried pre states i"
  by (auto simp: loop_new_defs_def carried_def states_live_def bd_abs_def iv_get_def live_unbound_def)

lemma loop_new_defs_Nil: "i < length states \<Longrightarrow> loop_new_defs pre states i = [] \<Longrightarrow> carried pre states i = {}"
  using set_loop_new_defs [of i states pre] by simp

text \<open>
  The whole fixup: it returns whenever every use has a symbol, keeps the number of uses, and adds
  to each use of the body exactly the definitions of its symbol carried by the loop.
\<close>

lemma udm_finish_loop_defs_eq:
  assumes "length (ub_bindings_by_use m) \<le> length us"
  obtains m' where "udm_finish_loop_defs pre first us m = Some m'"
    and "length (ub_bindings_by_use m') = length (ub_bindings_by_use m)"
    and "\<And>j. j < length (ub_bindings_by_use m) \<Longrightarrow>
      bd_abs (ub_bindings_by_use m' ! j) =
        live_add (if first \<le> j then carried pre (ub_symbol_states m) (us ! j) else {})
          (bd_abs (ub_bindings_by_use m ! j))"
    and "\<And>j. j < length (ub_bindings_by_use m) \<Longrightarrow> bd_wf (ub_bindings_by_use m ! j) \<Longrightarrow>
      bd_wf (ub_bindings_by_use m' ! j)"
    and "m' = m\<lparr>ub_bindings_by_use := ub_bindings_by_use m'\<rparr>"
proof -
  let ?st = "ub_symbol_states m" and ?bbu = "ub_bindings_by_use m"
  let ?f = "\<lambda>i bs. let new_defs = loop_new_defs pre ?st i
         in if new_defs = [] then Some bs else patch_uses i new_defs first us bs"
  have "n \<le> length ?st \<Longrightarrow> \<exists>bs. foldM ?f [0..<n] ?bbu = Some bs \<and> length bs = length ?bbu \<and>
     (\<forall>j<length ?bbu. bd_abs (bs ! j) = live_add (if first \<le> j \<and> us ! j < n
          then carried pre ?st (us ! j) else {}) (bd_abs (?bbu ! j)) \<and>
        (bd_wf (?bbu ! j) \<longrightarrow> bd_wf (bs ! j)))" for n
  proof (induction n)
    case 0
    show ?case by (auto simp: live_add_def)
  next
    case (Suc n)
    then obtain bs where bs: "foldM ?f [0..<n] ?bbu = Some bs" "length bs = length ?bbu"
      "\<And>j. j < length ?bbu \<Longrightarrow> bd_abs (bs ! j) = live_add (if first \<le> j \<and> us ! j < n
          then carried pre ?st (us ! j) else {}) (bd_abs (?bbu ! j))"
      "\<And>j. j < length ?bbu \<Longrightarrow> bd_wf (?bbu ! j) \<Longrightarrow> bd_wf (bs ! j)" by auto
    have step: "foldM ?f [0..<Suc n] ?bbu = ?f n bs" by (simp add: foldM_append bs)
    have n: "n < length ?st" using Suc.prems by simp
    show ?case
    proof (cases "loop_new_defs pre ?st n = []")
      case True
      then have "carried pre ?st n = {}" using n by (simp add: loop_new_defs_Nil)
      with True bs step show ?thesis by (auto simp: less_Suc_eq live_add_def)
    next
      case False
      have "patch_uses n (loop_new_defs pre ?st n) first us bs = Some (map (\<lambda>(j, b).
          if first \<le> j \<and> us ! j = n then patch_use (loop_new_defs pre ?st n) b else b) (iv_iter bs))"
        by (rule patch_uses_eq) (use assms bs in simp)
      with False step bs show ?thesis
        by (auto simp: iv_iter_nth set_loop_new_defs [OF n] less_Suc_eq patch_use_wf)
    qed
  qed
  from this [of "length ?st"] obtain bs where "foldM ?f [0..<length ?st] ?bbu = Some bs"
      "length bs = length ?bbu"
      "\<And>j. j < length ?bbu \<Longrightarrow> bd_abs (bs ! j) = live_add (if first \<le> j \<and> us ! j < length ?st
          then carried pre ?st (us ! j) else {}) (bd_abs (?bbu ! j))"
      "\<And>j. j < length ?bbu \<Longrightarrow> bd_wf (?bbu ! j) \<Longrightarrow> bd_wf (bs ! j)" by auto
  moreover have "carried pre ?st i = {}" if "\<not> i < length ?st" for i
    using that by (simp add: carried_def states_live_def live_unbound_def)
  ultimately show ?thesis
    by (intro that [of "m\<lparr>ub_bindings_by_use := bs\<rparr>"]) (auto simp: udm_finish_loop_defs_def)
qed

section \<open>Well-formed builders\<close>

text \<open>
  The builder only ever holds definitions of the right symbol. \<open>dsyms\<close> is the symbol of each
  definition of the scope and \<open>usyms\<close> the symbol of each use, both in allocation order.
\<close>

definition defs_for :: "nat list \<Rightarrow> nat \<Rightarrow> nat set \<Rightarrow> bool" where
  "defs_for dsyms sid D \<longleftrightarrow> (\<forall>d\<in>D. d < length dsyms \<and> dsyms ! d = sid)"

definition bd_for :: "nat list \<Rightarrow> nat \<Rightarrow> bindings \<Rightarrow> bool" where
  "bd_for dsyms sid b \<longleftrightarrow> bd_wf b \<and> defs_for dsyms sid (set (bd_definitions b))"

definition udm_wf :: "nat \<Rightarrow> nat list \<Rightarrow> nat list \<Rightarrow> udm_builder \<Rightarrow> bool" where
  "udm_wf nsyms dsyms usyms m \<longleftrightarrow>
     length (ub_symbol_states m) \<le> nsyms \<and>
     (\<forall>i<length (ub_symbol_states m). bd_for dsyms i (ub_symbol_states m ! i)) \<and>
     length (ub_bindings_by_use m) = length usyms \<and>
     (\<forall>j<length usyms. bd_for dsyms (usyms ! j) (ub_bindings_by_use m ! j)) \<and>
     (\<forall>b\<in>set (ub_enclosing_snapshots m). \<exists>sid. bd_for dsyms sid b) \<and>
     (\<forall>sid ids k. ub_lazy_watchers m sid = Some ids \<longrightarrow> k \<in> set ids \<longrightarrow>
        k < length (ub_enclosing_snapshots m) \<and> bd_for dsyms sid (ub_enclosing_snapshots m ! k)) \<and>
     (\<forall>sid sid' ids ids' k. ub_lazy_watchers m sid = Some ids \<longrightarrow> ub_lazy_watchers m sid' = Some ids' \<longrightarrow>
        k \<in> set ids \<longrightarrow> k \<in> set ids' \<longrightarrow> sid = sid') \<and>
     (\<forall>(sid, ds)\<in>set (ub_lazy_defs m).
        sid < length (ub_symbol_states m) \<and> defs_for dsyms sid (set ds))"

lemma defs_for_mono: "defs_for dsyms sid D \<Longrightarrow> prefix dsyms dsyms' \<Longrightarrow> defs_for dsyms' sid D"
  by (auto simp: defs_for_def prefix_def nth_append)

lemma bd_for_mono: "bd_for dsyms sid b \<Longrightarrow> prefix dsyms dsyms' \<Longrightarrow> bd_for dsyms' sid b"
  by (auto simp: bd_for_def defs_for_mono)

lemma bd_for_unbound [simp]: "bd_for dsyms sid bd_unbound"
  by (simp add: bd_for_def defs_for_def bd_unbound_def bd_wf_def)

lemma bd_for_abs: "bd_for dsyms sid b \<longleftrightarrow> bd_wf b \<and> defs_for dsyms sid (fst (bd_abs b))"
  by (simp add: bd_for_def bd_abs_def)

lemma bd_for_add: "bd_for dsyms sid b \<Longrightarrow> d < length dsyms \<Longrightarrow> dsyms ! d = sid \<Longrightarrow>
    bd_for dsyms sid (bd_add_definition b d)"
  by (auto simp: bd_for_abs bd_add_definition_wf live_add_def defs_for_def)

lemma bd_for_foldl_add:
  "bd_for dsyms sid b \<Longrightarrow> defs_for dsyms sid (set ds) \<Longrightarrow> bd_for dsyms sid (foldl bd_add_definition b ds)"
  by (induction ds arbitrary: b) (auto simp: bd_for_add defs_for_def)

lemma bd_for_record: "d < length dsyms \<Longrightarrow> dsyms ! d = sid \<Longrightarrow> bd_for dsyms sid (bd_record_definition b d)"
  by (auto simp: bd_for_abs live_kill_def defs_for_def)

lemma bd_for_merge: "bd_for dsyms sid b \<Longrightarrow> bd_for dsyms sid c \<Longrightarrow> bd_for dsyms sid (bd_merge b c)"
  by (auto simp: bd_for_abs bd_merge_wf live_join_def defs_for_def)

lemma udm_wf_new [simp]: "udm_wf n ds [] udm_new"
  by (simp add: udm_wf_def udm_new_def)

lemma udm_wf_mono:
  assumes "udm_wf nsyms dsyms usyms m" and "nsyms \<le> nsyms'" and "prefix dsyms dsyms'"
  shows "udm_wf nsyms' dsyms' usyms m"
  using assms unfolding udm_wf_def
  by (auto intro: bd_for_mono defs_for_mono; blast intro: bd_for_mono)

lemma pad_states_for:
  "\<forall>i<length states. bd_for dsyms i (states ! i) \<Longrightarrow>
   \<forall>i<length (pad_states n states). bd_for dsyms i (pad_states n states ! i)"
  by (auto simp: pad_states_def nth_append)

lemma udm_ensure_symbol_wf:
  "udm_wf nsyms dsyms usyms m \<Longrightarrow> sid < nsyms \<Longrightarrow> udm_wf nsyms dsyms usyms (udm_ensure_symbol sid m)"
  using pad_states_for [of "ub_symbol_states m" dsyms "Suc sid"]
  by (auto simp: udm_wf_def udm_ensure_symbol_def)

lemma length_ensure_symbol [simp]:
  "length (ub_symbol_states (udm_ensure_symbol sid m)) = max (Suc sid) (length (ub_symbol_states m))"
  by (simp add: udm_ensure_symbol_def)

text \<open>Notifying the watchers of a symbol cannot panic and only adds the new definition.\<close>

lemma notify_watchers_ok:
  assumes w: "\<forall>ids k. watchers sid = Some ids \<longrightarrow> k \<in> set ids \<longrightarrow> k < length snaps"
  shows "\<exists>snaps'. notify_watchers snaps watchers sid d = Some snaps' \<and> length snaps' = length snaps \<and>
    (\<forall>k<length snaps. bd_abs (snaps' ! k) =
       live_add (if \<exists>ids. watchers sid = Some ids \<and> k \<in> set ids then {d} else {}) (bd_abs (snaps ! k)) \<and>
       (snaps' ! k = snaps ! k \<or>
         (\<exists>ids. watchers sid = Some ids \<and> k \<in> set ids) \<and> (bd_wf (snaps ! k) \<longrightarrow> bd_wf (snaps' ! k))))"
proof (cases "watchers sid")
  case None
  then show ?thesis by (auto simp: notify_watchers_def)
next
  case (Some ids)
  let ?f = "\<lambda>k ss. iv_modify ss k (\<lambda>b. bd_add_definition b d)"
  have "\<forall>k\<in>set ids. k < length snaps \<Longrightarrow> \<exists>ss'. foldM ?f ids snaps = Some ss' \<and> length ss' = length snaps \<and>
    (\<forall>k<length snaps. bd_abs (ss' ! k) = live_add (if k \<in> set ids then {d} else {}) (bd_abs (snaps ! k)) \<and>
       (ss' ! k = snaps ! k \<or> k \<in> set ids \<and> (bd_wf (snaps ! k) \<longrightarrow> bd_wf (ss' ! k))))" for ids snaps
  proof (induction ids arbitrary: snaps)
    case Nil
    then show ?case by simp
  next
    case (Cons k ids)
    let ?s1 = "snaps[k := bd_add_definition (snaps ! k) d]"
    have "k < length snaps" and "\<forall>k\<in>set ids. k < length ?s1" using Cons.prems by auto
    with Cons.IH [of ?s1] obtain ss' where ss': "foldM ?f ids ?s1 = Some ss'" "length ss' = length snaps"
      "\<And>j. j < length snaps \<Longrightarrow> bd_abs (ss' ! j) = live_add (if j \<in> set ids then {d} else {}) (bd_abs (?s1 ! j))"
      "\<And>j. j < length snaps \<Longrightarrow> ss' ! j = ?s1 ! j \<or> j \<in> set ids \<and> (bd_wf (?s1 ! j) \<longrightarrow> bd_wf (ss' ! j))"
      by auto
    have "bd_abs (ss' ! j) = live_add (if j \<in> set (k # ids) then {d} else {}) (bd_abs (snaps ! j)) \<and>
       (ss' ! j = snaps ! j \<or> j \<in> set (k # ids) \<and> (bd_wf (snaps ! j) \<longrightarrow> bd_wf (ss' ! j)))"
      if "j < length snaps" for j
      using ss'(3,4) [OF that] that by (cases "j = k") (auto simp: bd_add_definition_wf live_add_def)
    with ss'(1,2) \<open>k < length snaps\<close> show ?case by simp
  qed
  from this [of ids snaps] show ?thesis using w Some by (auto simp: notify_watchers_def)
qed

lemma notify_watchers_for:
  assumes wf: "udm_wf nsyms dsyms usyms m" and d: "d < length dsyms" "dsyms ! d = sid"
  obtains snaps where "notify_watchers (ub_enclosing_snapshots m) (ub_lazy_watchers m) sid d = Some snaps"
    and "length snaps = length (ub_enclosing_snapshots m)"
    and "\<forall>b\<in>set snaps. \<exists>s. bd_for dsyms s b"
    and "\<And>s k. k < length snaps \<Longrightarrow> bd_for dsyms s (ub_enclosing_snapshots m ! k) \<Longrightarrow>
      (s = sid \<or> (\<nexists>ids. ub_lazy_watchers m sid = Some ids \<and> k \<in> set ids)) \<Longrightarrow> bd_for dsyms s (snaps ! k)"
proof -
  let ?w = "ub_lazy_watchers m" and ?ss = "ub_enclosing_snapshots m"
  have w: "\<And>ids k. ?w sid = Some ids \<Longrightarrow> k \<in> set ids \<Longrightarrow> k < length ?ss \<and> bd_for dsyms sid (?ss ! k)"
    using wf by (auto simp: udm_wf_def)
  then have lt: "\<forall>ids k. ?w sid = Some ids \<longrightarrow> k \<in> set ids \<longrightarrow> k < length ?ss" by blast
  from notify_watchers_ok [of ?w sid ?ss d, OF lt] obtain snaps where
    eq: "notify_watchers ?ss ?w sid d = Some snaps" "length snaps = length ?ss"
    and snaps: "\<And>k. k < length ?ss \<Longrightarrow> bd_abs (snaps ! k) =
       live_add (if \<exists>ids. ?w sid = Some ids \<and> k \<in> set ids then {d} else {}) (bd_abs (?ss ! k)) \<and>
       (snaps ! k = ?ss ! k \<or>
         (\<exists>ids. ?w sid = Some ids \<and> k \<in> set ids) \<and> (bd_wf (?ss ! k) \<longrightarrow> bd_wf (snaps ! k)))"
    by blast
  have keep: "bd_for dsyms s (snaps ! k)" if "k < length snaps" "bd_for dsyms s (?ss ! k)"
      "s = sid \<or> (\<nexists>ids. ?w sid = Some ids \<and> k \<in> set ids)" for s k
    using snaps [of k] that eq d by (auto simp: bd_for_abs live_add_def defs_for_def)
  have "\<exists>s. bd_for dsyms s (snaps ! k)" if k: "k < length snaps" for k
  proof (cases "\<exists>ids. ?w sid = Some ids \<and> k \<in> set ids")
    case True
    then show ?thesis using w keep [OF k, of sid] by blast
  next
    case False
    from k eq have "?ss ! k \<in> set ?ss" by simp
    with wf obtain s where "bd_for dsyms s (?ss ! k)" unfolding udm_wf_def by blast
    with keep [OF k] False show ?thesis by blast
  qed
  then have "\<forall>b\<in>set snaps. \<exists>s. bd_for dsyms s b" by (metis in_set_conv_nth)
  with eq keep show ?thesis by (intro that [of snaps]) auto
qed

text \<open>Every recording operation returns on a well-formed builder and keeps it well formed.\<close>

lemma udm_record_definition_wf:
  assumes wf: "udm_wf nsyms dsyms usyms m" and sid: "sid < length (ub_symbol_states m)"
    and d: "d < length dsyms" "dsyms ! d = sid"
  shows "\<exists>m'. udm_record_definition sid d m = Some m' \<and> udm_wf nsyms dsyms usyms m' \<and>
    ub_bindings_by_use m' = ub_bindings_by_use m \<and>
    length (ub_enclosing_snapshots m') = length (ub_enclosing_snapshots m) \<and>
    length (ub_symbol_states m') = length (ub_symbol_states m)"
proof -
  from notify_watchers_for [OF wf d] obtain snaps where
    snaps: "notify_watchers (ub_enclosing_snapshots m) (ub_lazy_watchers m) sid d = Some snaps"
      "length snaps = length (ub_enclosing_snapshots m)" "\<forall>b\<in>set snaps. \<exists>s. bd_for dsyms s b"
    and keep: "\<And>s k. k < length snaps \<Longrightarrow> bd_for dsyms s (ub_enclosing_snapshots m ! k) \<Longrightarrow>
      (s = sid \<or> (\<nexists>ids. ub_lazy_watchers m sid = Some ids \<and> k \<in> set ids)) \<Longrightarrow> bd_for dsyms s (snaps ! k)"
    by metis
  have "k < length snaps \<and> bd_for dsyms s (snaps ! k)"
    if "ub_lazy_watchers m s = Some ids" "k \<in> set ids" for s ids k
  proof -
    from wf that have "k < length snaps" "bd_for dsyms s (ub_enclosing_snapshots m ! k)"
      unfolding udm_wf_def snaps(2) by blast+
    moreover have "s = sid \<or> (\<nexists>ids. ub_lazy_watchers m sid = Some ids \<and> k \<in> set ids)"
      using wf that unfolding udm_wf_def by blast
    ultimately show ?thesis using keep by blast
  qed
  with wf snaps sid d show ?thesis
    by (auto simp: udm_record_definition_def udm_wf_def bd_for_record nth_list_update)
qed

lemma udm_record_super_definition_wf:
  assumes wf: "udm_wf nsyms dsyms usyms m" and sid: "sid < length (ub_symbol_states m)"
    and d: "d < length dsyms" "dsyms ! d = sid"
  shows "\<exists>m'. udm_record_super_definition sid d m = Some m' \<and> udm_wf nsyms dsyms usyms m' \<and>
    ub_bindings_by_use m' = ub_bindings_by_use m \<and>
    length (ub_enclosing_snapshots m') = length (ub_enclosing_snapshots m) \<and>
    length (ub_symbol_states m') = length (ub_symbol_states m)"
proof -
  from udm_record_definition_wf [OF assms] obtain m1 where m1: "udm_record_definition sid d m = Some m1"
    "udm_wf nsyms dsyms usyms m1" "length (ub_enclosing_snapshots m1) = length (ub_enclosing_snapshots m)"
    by blast
  let ?m' = "m1\<lparr>ub_symbol_states := (ub_symbol_states m)[sid := bd_add_definition (ub_symbol_states m ! sid) d]\<rparr>"
  have "udm_record_super_definition sid d m = Some ?m'"
    using m1(1) sid
    by (auto simp: udm_record_definition_def udm_record_super_definition_def split: Option.bind_splits)
  moreover have "udm_wf nsyms dsyms usyms ?m'"
    using m1 wf sid d
    by (auto simp: udm_record_definition_def udm_wf_def bd_for_add nth_list_update split: Option.bind_splits)
  ultimately show ?thesis
    using m1 sid by (auto simp: udm_record_definition_def split: Option.bind_splits)
qed

lemma udm_record_lazy_definition_wf:
  assumes wf: "udm_wf nsyms dsyms usyms m" and sid: "sid < length (ub_symbol_states m)"
    and d: "d < length dsyms" "dsyms ! d = sid"
  shows "\<exists>m'. udm_record_lazy_definition sid d m = Some m' \<and> udm_wf nsyms dsyms usyms m' \<and>
    ub_bindings_by_use m' = ub_bindings_by_use m \<and> ub_symbol_states m' = ub_symbol_states m \<and>
    length (ub_enclosing_snapshots m') = length (ub_enclosing_snapshots m)"
proof -
  from udm_record_definition_wf [OF assms] obtain m1 where m1: "udm_record_definition sid d m = Some m1"
    "udm_wf nsyms dsyms usyms m1" "length (ub_enclosing_snapshots m1) = length (ub_enclosing_snapshots m)"
    by blast
  let ?m' = "m1\<lparr>ub_symbol_states := ub_symbol_states m, ub_lazy_defs := lazy_defs_push sid d (ub_lazy_defs m)\<rparr>"
  have eq: "udm_record_lazy_definition sid d m = Some ?m'"
    using m1(1) sid
    by (auto simp: udm_record_definition_def udm_record_lazy_definition_def split: Option.bind_splits)
  have entry: "sid' < length (ub_symbol_states m) \<and> defs_for dsyms sid' (set ds)"
    if "(sid', ds) \<in> set (lazy_defs_push sid d (ub_lazy_defs m))" for sid' ds
  proof -
    have old: "s < length (ub_symbol_states m) \<and> defs_for dsyms s (set es)"
      if "(s, es) \<in> set (ub_lazy_defs m)" for s es
      using wf that by (auto simp: udm_wf_def)
    have "set (lazy_defs_push sid d (ub_lazy_defs m)) \<subseteq>
       insert (sid, (case map_of (ub_lazy_defs m) sid of None \<Rightarrow> [] | Some ds \<Rightarrow> ds) @ [d]) (set (ub_lazy_defs m))"
      unfolding lazy_defs_push_def by (rule set_update_subset_insert)
    with that consider "(sid', ds) \<in> set (ub_lazy_defs m)"
      | "sid' = sid" "ds = (case map_of (ub_lazy_defs m) sid of None \<Rightarrow> [] | Some ds \<Rightarrow> ds) @ [d]" by blast
    then show ?thesis
    proof cases
      case 1
      then show ?thesis by (rule old)
    next
      case 2
      then show ?thesis
        using sid d old [of sid] by (auto simp: defs_for_def split: option.splits dest: map_of_SomeD)
    qed
  qed
  have "udm_wf nsyms dsyms usyms ?m'"
    using m1 wf entry
    by (auto simp: udm_record_definition_def udm_wf_def split: Option.bind_splits)
  with eq m1 show ?thesis by (auto simp: udm_record_definition_def split: Option.bind_splits)
qed

lemma udm_record_use_wf:
  assumes wf: "udm_wf nsyms dsyms usyms m" and sid: "sid < length (ub_symbol_states m)"
  shows "\<exists>m'. udm_record_use sid u m = Some m' \<and> udm_wf nsyms dsyms (usyms @ [sid]) m' \<and>
    m' = m\<lparr>ub_bindings_by_use := ub_bindings_by_use m @ [ub_symbol_states m ! sid]\<rparr>"
  using assms by (auto simp: udm_record_use_def udm_wf_def iv_push_def nth_append less_Suc_eq)

definition snap_for :: "nat list \<Rightarrow> flow_snapshot \<Rightarrow> bool" where
  "snap_for dsyms snap \<longleftrightarrow> (\<forall>i<length snap. bd_for dsyms i (snap ! i))"

lemma snap_for_mono: "snap_for dsyms snap \<Longrightarrow> prefix dsyms dsyms' \<Longrightarrow> snap_for dsyms' snap"
  by (auto simp: snap_for_def intro: bd_for_mono)

lemma udm_snapshot_for: "udm_wf nsyms dsyms usyms m \<Longrightarrow> snap_for dsyms (udm_snapshot m)"
  by (simp add: udm_wf_def snap_for_def udm_snapshot_def)

lemma udm_restore_wf:
  assumes "udm_wf nsyms dsyms usyms m" and "snap_for dsyms snap"
    and "length snap \<le> length (ub_symbol_states m)"
  shows "udm_wf nsyms dsyms usyms (udm_restore snap m)"
  using assms pad_states_for [of snap dsyms "length (ub_symbol_states m)"]
  by (auto simp: udm_wf_def udm_restore_def snap_for_def)

lemma length_udm_restore [simp]:
  "length snap \<le> length (ub_symbol_states m) \<Longrightarrow>
   length (ub_symbol_states (udm_restore snap m)) = length (ub_symbol_states m)"
  by (simp add: udm_restore_def)

lemma udm_merge_wf:
  assumes wf: "udm_wf nsyms dsyms usyms m" and snap: "snap_for dsyms snap"
  shows "udm_wf nsyms dsyms usyms (udm_merge snap m)"
proof -
  have "bd_for dsyms i (ub_symbol_states (udm_merge snap m) ! i)" if "i < length (ub_symbol_states m)" for i
    using wf snap that
    by (auto simp: udm_merge_def udm_wf_def snap_for_def iv_iter_nth iv_get_def intro!: bd_for_merge)
  then show ?thesis using wf by (auto simp: udm_wf_def) (auto simp: udm_merge_def)
qed

lemma udm_finish_loop_defs_wf:
  assumes wf: "udm_wf nsyms dsyms usyms m"
  obtains m' where "udm_finish_loop_defs pre first usyms m = Some m'"
    and "udm_wf nsyms dsyms usyms m'"
    and "m' = m\<lparr>ub_bindings_by_use := ub_bindings_by_use m'\<rparr>"
proof -
  have len: "length (ub_bindings_by_use m) = length usyms" using wf by (simp add: udm_wf_def)
  then have le: "length (ub_bindings_by_use m) \<le> length usyms" by simp
  obtain m' where m': "udm_finish_loop_defs pre first usyms m = Some m'"
    "length (ub_bindings_by_use m') = length (ub_bindings_by_use m)"
    "\<And>j. j < length (ub_bindings_by_use m) \<Longrightarrow> bd_abs (ub_bindings_by_use m' ! j) =
        live_add (if first \<le> j then carried pre (ub_symbol_states m) (usyms ! j) else {})
          (bd_abs (ub_bindings_by_use m ! j))"
    "\<And>j. j < length (ub_bindings_by_use m) \<Longrightarrow> bd_wf (ub_bindings_by_use m ! j) \<Longrightarrow>
      bd_wf (ub_bindings_by_use m' ! j)"
    "m' = m\<lparr>ub_bindings_by_use := ub_bindings_by_use m'\<rparr>"
    using udm_finish_loop_defs_eq [OF le, of pre first] by metis
  have states: "\<And>i. i < length (ub_symbol_states m) \<Longrightarrow> bd_for dsyms i (ub_symbol_states m ! i)"
    and uses: "\<And>j. j < length usyms \<Longrightarrow> bd_for dsyms (usyms ! j) (ub_bindings_by_use m ! j)"
    using wf by (auto simp: udm_wf_def)
  have "defs_for dsyms i (carried pre (ub_symbol_states m) i)" for i
    using states [of i] by (auto simp: carried_def states_live_def bd_for_abs defs_for_def live_unbound_def)
  then have "bd_for dsyms (usyms ! j) (ub_bindings_by_use m' ! j)" if "j < length usyms" for j
    using m'(3,4) [of j] uses [OF that] that len
    by (auto simp: bd_for_abs live_add_def defs_for_def)
  then have "udm_wf nsyms dsyms usyms (m\<lparr>ub_bindings_by_use := ub_bindings_by_use m'\<rparr>)"
    using wf m'(2) len by (auto simp: udm_wf_def)
  with m'(1,5) show ?thesis by (intro that [of m']) auto
qed

lemma udm_register_lazy_snapshot_wf:
  assumes wf: "udm_wf nsyms dsyms usyms m" and sid: "sid < length (ub_symbol_states m)"
  shows "\<exists>k m'. udm_register_lazy_snapshot sid m = Some (k, m') \<and> udm_wf nsyms dsyms usyms m' \<and>
    k = length (ub_enclosing_snapshots m) \<and>
    length (ub_enclosing_snapshots m') = Suc (length (ub_enclosing_snapshots m)) \<and>
    ub_bindings_by_use m' = ub_bindings_by_use m \<and> ub_symbol_states m' = ub_symbol_states m"
proof -
  let ?b = "case map_of (ub_lazy_defs m) sid of None \<Rightarrow> ub_symbol_states m ! sid
    | Some ds \<Rightarrow> foldl bd_add_definition (ub_symbol_states m ! sid) ds"
  let ?k = "length (ub_enclosing_snapshots m)"
  let ?ids = "(case ub_lazy_watchers m sid of None \<Rightarrow> [] | Some ids \<Rightarrow> ids) @ [?k]"
  let ?m' = "m\<lparr>ub_enclosing_snapshots := ub_enclosing_snapshots m @ [?b],
               ub_lazy_watchers := (ub_lazy_watchers m)(sid \<mapsto> ?ids)\<rparr>"
  have eq: "udm_register_lazy_snapshot sid m = Some (?k, ?m')"
    using sid by (simp add: udm_register_lazy_snapshot_def iv_push_def iv_next_id_def)
  have w: "\<And>s ids k. ub_lazy_watchers m s = Some ids \<Longrightarrow> k \<in> set ids \<Longrightarrow>
      k < ?k \<and> bd_for dsyms s (ub_enclosing_snapshots m ! k)"
    and uniq: "\<And>s s' ids ids' k. ub_lazy_watchers m s = Some ids \<Longrightarrow> ub_lazy_watchers m s' = Some ids' \<Longrightarrow>
      k \<in> set ids \<Longrightarrow> k \<in> set ids' \<Longrightarrow> s = s'"
    and lazy: "\<And>s ds. (s, ds) \<in> set (ub_lazy_defs m) \<Longrightarrow> defs_for dsyms s (set ds)"
    using wf unfolding udm_wf_def by blast+
  have b: "bd_for dsyms sid ?b"
    using wf sid lazy by (auto simp: udm_wf_def bd_for_foldl_add split: option.splits dest: map_of_SomeD)
  have w': "k < Suc ?k \<and> bd_for dsyms s ((ub_enclosing_snapshots m @ [?b]) ! k)"
    if "((ub_lazy_watchers m)(sid \<mapsto> ?ids)) s = Some ids" "k \<in> set ids" for s ids k
    using that w [of s _ k] b by (auto simp: nth_append less_Suc_eq split: if_splits option.splits)
  have uniq': "s = s'" if "((ub_lazy_watchers m)(sid \<mapsto> ?ids)) s = Some ids"
      "((ub_lazy_watchers m)(sid \<mapsto> ?ids)) s' = Some ids'" "k \<in> set ids" "k \<in> set ids'" for s s' ids ids' k
  proof -
    have owner: "k = ?k \<and> r = sid \<or> (\<exists>ids. ub_lazy_watchers m r = Some ids \<and> k \<in> set ids \<and> k < ?k)"
      if "((ub_lazy_watchers m)(sid \<mapsto> ?ids)) r = Some is" "k \<in> set is" for r "is"
      using that w [of r _ k] by (auto split: if_splits option.splits)
    from owner [OF that(1,3)] owner [OF that(2,4)] uniq show ?thesis by blast
  qed
  have "udm_wf nsyms dsyms usyms ?m'"
    unfolding udm_wf_def using wf b w' uniq'
    by (auto simp: udm_wf_def simp del: fun_upd_apply)
  with eq show ?thesis by auto
qed

lemma udm_register_eager_snapshot_wf:
  assumes wf: "udm_wf nsyms dsyms usyms m" and sid: "sid < length (ub_symbol_states m)"
  shows "\<exists>k m'. udm_register_eager_snapshot sid m = Some (k, m') \<and> udm_wf nsyms dsyms usyms m' \<and>
    k = length (ub_enclosing_snapshots m) \<and>
    length (ub_enclosing_snapshots m') = Suc (length (ub_enclosing_snapshots m)) \<and>
    ub_bindings_by_use m' = ub_bindings_by_use m \<and> ub_symbol_states m' = ub_symbol_states m"
  using assms
  by (fastforce simp: udm_register_eager_snapshot_def udm_wf_def iv_push_def iv_next_id_def nth_append)

text \<open>Folding the deferred definitions into the exit state.\<close>

lemma fold_add_states:
  assumes "sid < length states" and "defs_for dsyms sid (set ds)" and "snap_for dsyms states"
  shows "\<exists>states'. foldM (\<lambda>d ss. iv_modify ss sid (\<lambda>b. bd_add_definition b d)) ds states = Some states' \<and>
    length states' = length states \<and> snap_for dsyms states' \<and>
    states_live states' = (states_live states)(sid := live_add (set ds) (states_live states sid))"
  using assms
proof (induction ds arbitrary: states)
  case Nil
  then show ?case by (simp add: fun_upd_idem)
next
  case (Cons d ds)
  let ?s1 = "states[sid := bd_add_definition (states ! sid) d]"
  have d: "d < length dsyms" "dsyms ! d = sid" "defs_for dsyms sid (set ds)"
    using Cons.prems by (auto simp: defs_for_def)
  have "snap_for dsyms ?s1"
    using Cons.prems d by (auto simp: snap_for_def nth_list_update bd_for_add)
  with Cons.IH [of ?s1] Cons.prems d obtain states' where
    "foldM (\<lambda>d ss. iv_modify ss sid (\<lambda>b. bd_add_definition b d)) ds ?s1 = Some states'"
    "length states' = length states" "snap_for dsyms states'"
    "states_live states' = (states_live ?s1)(sid := live_add (set ds) (states_live ?s1 sid))"
    by (auto simp del: fun_upd_apply)
  with Cons.prems show ?case
    by (auto simp: states_live_update live_add_def fun_eq_iff states_live_def)
qed

lemma udm_fold_lazy_defs_wf:
  assumes wf: "udm_wf nsyms dsyms usyms m"
  shows "\<exists>m'. udm_fold_lazy_defs m = Some m' \<and> udm_wf nsyms dsyms usyms m' \<and>
    length (ub_symbol_states m') = length (ub_symbol_states m) \<and>
    (\<forall>i. udm_live m' i = live_add (\<Union>{set ds |ds. (i, ds) \<in> set (ub_lazy_defs m)}) (udm_live m i)) \<and>
    m' = m\<lparr>ub_lazy_defs := [], ub_symbol_states := ub_symbol_states m'\<rparr>"
proof -
  let ?f = "\<lambda>(sid, ds) ss. foldM (\<lambda>d ss. iv_modify ss sid (\<lambda>b. bd_add_definition b d)) ds ss"
  have "(\<forall>(sid, ds)\<in>set lds. sid < length states \<and> defs_for dsyms sid (set ds)) \<Longrightarrow> snap_for dsyms states \<Longrightarrow>
    \<exists>states'. foldM ?f lds states = Some states' \<and> length states' = length states \<and> snap_for dsyms states' \<and>
      (\<forall>i. states_live states' i = live_add (\<Union>{set ds |ds. (i, ds) \<in> set lds}) (states_live states i))"
    for lds states
  proof (induction lds arbitrary: states)
    case Nil
    then show ?case by simp
  next
    case (Cons e lds)
    obtain sid ds where e: "e = (sid, ds)" by (cases e)
    with Cons.prems have "sid < length states" "defs_for dsyms sid (set ds)" by auto
    from fold_add_states [OF this Cons.prems(2)] obtain s1 where s1: "?f e states = Some s1"
      "length s1 = length states" "snap_for dsyms s1"
      "states_live s1 = (states_live states)(sid := live_add (set ds) (states_live states sid))"
      by (auto simp: e)
    have "\<forall>(sid, ds)\<in>set lds. sid < length s1 \<and> defs_for dsyms sid (set ds)"
      using Cons.prems(1) s1(2) by auto
    from Cons.IH [OF this s1(3)] obtain s2 where s2: "foldM ?f lds s1 = Some s2" "length s2 = length s1"
      "snap_for dsyms s2"
      "\<And>i. states_live s2 i = live_add (\<Union>{set ds |ds. (i, ds) \<in> set lds}) (states_live s1 i)" by blast
    have "states_live s2 i = live_add (\<Union>{set ds |ds. (i, ds) \<in> set (e # lds)}) (states_live states i)" for i
      by (cases "i = sid") (auto simp: s2(4) s1(4) e live_add_def)
    with s1 s2 show ?case by (auto simp: e)
  qed
  from this [of "ub_lazy_defs m" "ub_symbol_states m"] wf obtain states' where
    "foldM ?f (ub_lazy_defs m) (ub_symbol_states m) = Some states'" "length states' = length (ub_symbol_states m)"
    "snap_for dsyms states'"
    "\<forall>i. states_live states' i = live_add (\<Union>{set ds |ds. (i, ds) \<in> set (ub_lazy_defs m)}) (udm_live m i)"
    by (auto simp: udm_wf_def snap_for_def)
  with wf show ?thesis
    by (auto simp: udm_fold_lazy_defs_def udm_wf_def snap_for_def)
qed

lemma udm_bound_symbol_ids_iff:
  "i \<in> set (udm_bound_symbol_ids m) \<longleftrightarrow> fst (udm_live m i) \<noteq> {}"
  by (force simp: udm_bound_symbol_ids_def iv_iter_set states_live_def bd_abs_def live_unbound_def image_iff)

section \<open>Snapshots keep their symbol\<close>

text \<open>Snapshot \<open>k\<close> belongs to symbol \<open>sid\<close>: it holds its definitions only and only it can add to it.\<close>

definition snap_of :: "nat list \<Rightarrow> nat \<Rightarrow> nat \<Rightarrow> udm_builder \<Rightarrow> bool" where
  "snap_of dsyms sid k m \<longleftrightarrow> k < length (ub_enclosing_snapshots m) \<and>
     bd_for dsyms sid (ub_enclosing_snapshots m ! k) \<and>
     (\<forall>s ids. ub_lazy_watchers m s = Some ids \<longrightarrow> k \<in> set ids \<longrightarrow> s = sid)"

lemma snap_of_mono: "snap_of dsyms sid k m \<Longrightarrow> prefix dsyms dsyms' \<Longrightarrow> snap_of dsyms' sid k m"
  by (auto simp: snap_of_def bd_for_mono)

lemma snap_of_cong:
  assumes "ub_enclosing_snapshots m' = ub_enclosing_snapshots m" and "ub_lazy_watchers m' = ub_lazy_watchers m"
  shows "snap_of dsyms sid k m' \<longleftrightarrow> snap_of dsyms sid k m"
  using assms by (simp add: snap_of_def)

lemma snap_of_ensure [simp]: "snap_of dsyms s k (udm_ensure_symbol sid m) \<longleftrightarrow> snap_of dsyms s k m"
  by (rule snap_of_cong) (simp_all add: udm_ensure_symbol_def)

lemma snap_of_notify:
  assumes wf: "udm_wf nsyms dsyms usyms m" and d: "d < length dsyms" "dsyms ! d = sid"
    and notify: "notify_watchers (ub_enclosing_snapshots m) (ub_lazy_watchers m) sid d = Some (ub_enclosing_snapshots m')"
    and watchers: "ub_lazy_watchers m' = ub_lazy_watchers m" and snap: "snap_of dsyms s k m"
  shows "snap_of dsyms s k m'"
proof -
  obtain snaps where n: "notify_watchers (ub_enclosing_snapshots m) (ub_lazy_watchers m) sid d = Some snaps"
    "length snaps = length (ub_enclosing_snapshots m)"
    and keep: "\<And>s k. k < length snaps \<Longrightarrow> bd_for dsyms s (ub_enclosing_snapshots m ! k) \<Longrightarrow>
      (s = sid \<or> (\<nexists>ids. ub_lazy_watchers m sid = Some ids \<and> k \<in> set ids)) \<Longrightarrow> bd_for dsyms s (snaps ! k)"
    using notify_watchers_for [OF wf d] by metis
  have "snaps = ub_enclosing_snapshots m'" using n(1) notify by simp
  moreover have "s = sid \<or> (\<nexists>ids. ub_lazy_watchers m sid = Some ids \<and> k \<in> set ids)" using snap by (auto simp: snap_of_def)
  ultimately show ?thesis using snap n(2) keep [of k s] watchers by (simp add: snap_of_def)
qed

lemma record_notifies:
  "udm_record_definition sid d m = Some m' \<Longrightarrow>
     notify_watchers (ub_enclosing_snapshots m) (ub_lazy_watchers m) sid d = Some (ub_enclosing_snapshots m') \<and>
     ub_lazy_watchers m' = ub_lazy_watchers m"
  "udm_record_super_definition sid d m = Some m' \<Longrightarrow>
     notify_watchers (ub_enclosing_snapshots m) (ub_lazy_watchers m) sid d = Some (ub_enclosing_snapshots m') \<and>
     ub_lazy_watchers m' = ub_lazy_watchers m"
  "udm_record_lazy_definition sid d m = Some m' \<Longrightarrow>
     notify_watchers (ub_enclosing_snapshots m) (ub_lazy_watchers m) sid d = Some (ub_enclosing_snapshots m') \<and>
     ub_lazy_watchers m' = ub_lazy_watchers m"
  by (auto simp: udm_record_definition_def udm_record_super_definition_def udm_record_lazy_definition_def
      split: Option.bind_splits)

lemma snap_of_register_eager:
  assumes wf: "udm_wf nsyms dsyms usyms m" and sid: "sid < length (ub_symbol_states m)"
    and m': "udm_register_eager_snapshot sid m = Some (k, m')"
  shows "snap_of dsyms sid k m'" and "snap_of dsyms s j m \<Longrightarrow> snap_of dsyms s j m'"
proof -
  let ?n = "length (ub_enclosing_snapshots m)"
  have k: "k = ?n" and eq: "m' = m\<lparr>ub_enclosing_snapshots := ub_enclosing_snapshots m @ [ub_symbol_states m ! sid]\<rparr>"
    using m' sid by (auto simp: udm_register_eager_snapshot_def iv_push_def iv_next_id_def)
  have w: "j < ?n" if "ub_lazy_watchers m s = Some ids" "j \<in> set ids" for s ids j
    using wf that unfolding udm_wf_def by blast
  have "bd_for dsyms sid (ub_symbol_states m ! sid)" using wf sid by (simp add: udm_wf_def)
  then show "snap_of dsyms sid k m'" using w by (fastforce simp: snap_of_def eq k)
  show "snap_of dsyms s j m \<Longrightarrow> snap_of dsyms s j m'" by (simp add: snap_of_def eq nth_append)
qed

lemma snap_of_register_lazy:
  assumes wf: "udm_wf nsyms dsyms usyms m" and sid: "sid < length (ub_symbol_states m)"
    and m': "udm_register_lazy_snapshot sid m = Some (k, m')"
  shows "snap_of dsyms sid k m'" and "snap_of dsyms s j m \<Longrightarrow> snap_of dsyms s j m'"
proof -
  let ?n = "length (ub_enclosing_snapshots m)"
  let ?b = "case map_of (ub_lazy_defs m) sid of None \<Rightarrow> ub_symbol_states m ! sid
    | Some ds \<Rightarrow> foldl bd_add_definition (ub_symbol_states m ! sid) ds"
  let ?ids = "case ub_lazy_watchers m sid of None \<Rightarrow> [] | Some ids \<Rightarrow> ids"
  have k: "k = ?n" and eq: "m' = m\<lparr>ub_enclosing_snapshots := ub_enclosing_snapshots m @ [?b],
      ub_lazy_watchers := (ub_lazy_watchers m)(sid \<mapsto> ?ids @ [?n])\<rparr>"
    using m' sid by (auto simp: udm_register_lazy_snapshot_def iv_push_def iv_next_id_def)
  have w: "j < ?n" if "ub_lazy_watchers m s = Some ids" "j \<in> set ids" for s ids j
    using wf that unfolding udm_wf_def by blast
  have st: "bd_for dsyms sid (ub_symbol_states m ! sid)" using wf sid by (simp add: udm_wf_def)
  have "defs_for dsyms sid (set ds)" if "map_of (ub_lazy_defs m) sid = Some ds" for ds
    using wf map_of_SomeD [OF that] by (auto simp: udm_wf_def)
  then have "bd_for dsyms sid ?b" using st by (auto split: option.splits intro: bd_for_foldl_add)
  then show "snap_of dsyms sid k m'" using w by (fastforce simp: snap_of_def eq k split: if_splits)
  show "snap_of dsyms s j m \<Longrightarrow> snap_of dsyms s j m'"
    by (cases "ub_lazy_watchers m sid") (auto simp: snap_of_def eq nth_append split: if_splits)
qed

section \<open>Enclosing snapshots over a scope's whole history\<close>

text \<open>
  The operations the walk performs on the builder of one scope, as a script. A snapshot taken at
  some point of the script is looked at again once the script has ended.
\<close>

datatype udm_op =
    OpEnsure nat
  | OpDefinition nat nat
  | OpSuper nat nat
  | OpLazy nat nat
  | OpUse nat nat
  | OpRestore flow_snapshot
  | OpMerge flow_snapshot
  | OpFinishLoop flow_snapshot nat "nat list"
  | OpLazySnapshot nat
  | OpEagerSnapshot nat

fun udm_exec :: "udm_op \<Rightarrow> udm_builder \<Rightarrow> udm_builder option" where
  "udm_exec (OpEnsure sid) m = Some (udm_ensure_symbol sid m)"
| "udm_exec (OpDefinition sid d) m = udm_record_definition sid d m"
| "udm_exec (OpSuper sid d) m = udm_record_super_definition sid d m"
| "udm_exec (OpLazy sid d) m = udm_record_lazy_definition sid d m"
| "udm_exec (OpUse sid u) m = udm_record_use sid u m"
| "udm_exec (OpRestore snap) m = Some (udm_restore snap m)"
| "udm_exec (OpMerge snap) m = Some (udm_merge snap m)"
| "udm_exec (OpFinishLoop snap first us) m = udm_finish_loop_defs snap first us m"
| "udm_exec (OpLazySnapshot sid) m = map_option snd (udm_register_lazy_snapshot sid m)"
| "udm_exec (OpEagerSnapshot sid) m = map_option snd (udm_register_eager_snapshot sid m)"

fun op_defines :: "udm_op \<Rightarrow> (nat \<times> nat) set" where
  "op_defines (OpDefinition sid d) = {(sid, d)}"
| "op_defines (OpSuper sid d) = {(sid, d)}"
| "op_defines (OpLazy sid d) = {(sid, d)}"
| "op_defines _ = {}"

definition script_defines :: "udm_op list \<Rightarrow> nat \<Rightarrow> nat set" where
  "script_defines ops sid = {d. \<exists>p\<in>set ops. (sid, d) \<in> op_defines p}"

definition watched :: "udm_builder \<Rightarrow> nat \<Rightarrow> nat \<Rightarrow> bool" where
  "watched m k sid \<longleftrightarrow> (\<exists>ids. ub_lazy_watchers m sid = Some ids \<and> k \<in> set ids)"

definition watch_ok :: "udm_builder \<Rightarrow> bool" where
  "watch_ok m \<longleftrightarrow> (\<forall>k sid. watched m k sid \<longrightarrow> k < length (ub_enclosing_snapshots m))"

lemma watch_okD: "watch_ok m \<Longrightarrow> ub_lazy_watchers m sid = Some ids \<Longrightarrow> k \<in> set ids \<Longrightarrow>
    k < length (ub_enclosing_snapshots m)"
  by (auto simp: watch_ok_def watched_def)

lemma watch_ok_cong:
  assumes "watch_ok m" and "ub_lazy_watchers m' = ub_lazy_watchers m"
    and "length (ub_enclosing_snapshots m) \<le> length (ub_enclosing_snapshots m')"
  shows "watch_ok m'"
  unfolding watch_ok_def watched_def using assms by (auto dest!: watch_okD)

text \<open>What one operation does to the snapshots taken before it.\<close>

definition snaps_step :: "udm_builder \<Rightarrow> udm_builder \<Rightarrow> (nat \<times> nat) set \<Rightarrow> bool" where
  "snaps_step m m' D \<longleftrightarrow>
     length (ub_enclosing_snapshots m) \<le> length (ub_enclosing_snapshots m') \<and>
     (\<forall>k<length (ub_enclosing_snapshots m). (\<forall>sid. watched m' k sid \<longleftrightarrow> watched m k sid) \<and>
        bd_abs (ub_enclosing_snapshots m' ! k) =
          live_add {d. \<exists>sid. watched m k sid \<and> (sid, d) \<in> D} (bd_abs (ub_enclosing_snapshots m ! k)))"

lemma snaps_step_same:
  "ub_enclosing_snapshots m' = ub_enclosing_snapshots m \<Longrightarrow> ub_lazy_watchers m' = ub_lazy_watchers m \<Longrightarrow>
   snaps_step m m' {}"
  by (simp add: snaps_step_def watched_def)

lemma snaps_step_notify:
  assumes "watch_ok m" and "notify_watchers (ub_enclosing_snapshots m) (ub_lazy_watchers m) sid d = Some snaps"
    and "ub_enclosing_snapshots m' = snaps" and "ub_lazy_watchers m' = ub_lazy_watchers m"
  shows "snaps_step m m' {(sid, d)}"
proof -
  have "\<forall>ids k. ub_lazy_watchers m sid = Some ids \<longrightarrow> k \<in> set ids \<longrightarrow> k < length (ub_enclosing_snapshots m)"
    using assms(1) by (auto simp: watch_ok_def watched_def)
  from notify_watchers_ok [of "ub_lazy_watchers m" sid _ d, OF this] assms show ?thesis
    by (auto simp: snaps_step_def watched_def live_add_def)
qed

lemma snaps_step_lazy:
  assumes "watch_ok m" and "udm_register_lazy_snapshot sid m = Some (k, m')"
  shows "snaps_step m m' {}" and "watched m' k s \<longleftrightarrow> s = sid" and "k < length (ub_enclosing_snapshots m')"
    and "watch_ok m'" and "bd_abs (ub_enclosing_snapshots m' ! k) =
      live_add (case map_of (ub_lazy_defs m) sid of None \<Rightarrow> {} | Some ds \<Rightarrow> set ds) (udm_live m sid)"
proof -
  have fresh: "\<not> watched m (length (ub_enclosing_snapshots m)) s" for s
    using assms(1) by (auto simp: watch_ok_def)
  have old: "watched m k s \<Longrightarrow> k < length (ub_enclosing_snapshots m)" for k s
    using assms(1) unfolding watch_ok_def by blast
  let ?L = "length (ub_enclosing_snapshots m)"
  from assms(2) have k: "k = ?L" and sid: "sid < length (ub_symbol_states m)"
    by (auto simp: udm_register_lazy_snapshot_def iv_push_def iv_next_id_def iv_get_Some_iff split: Option.bind_splits)
  have w: "watched m' j s \<longleftrightarrow> watched m j s \<or> j = ?L \<and> s = sid" for j s
    using assms(2)
    by (auto simp: udm_register_lazy_snapshot_def iv_push_def iv_next_id_def watched_def
        split: Option.bind_splits option.splits if_splits)
  have snaps: "\<exists>b. ub_enclosing_snapshots m' = ub_enclosing_snapshots m @ [b] \<and> bd_abs b =
      live_add (case map_of (ub_lazy_defs m) sid of None \<Rightarrow> {} | Some ds \<Rightarrow> set ds) (udm_live m sid)"
    using assms(2) patch_use_abs [unfolded patch_use_def]
    by (auto simp: udm_register_lazy_snapshot_def iv_push_def iv_get_Some_iff states_live_def
        split: Option.bind_splits option.splits)
  show "snaps_step m m' {}" using snaps w by (auto simp: snaps_step_def nth_append)
  show "watched m' k s \<longleftrightarrow> s = sid" using w fresh k by simp
  show "k < length (ub_enclosing_snapshots m')" using snaps k by auto
  show "watch_ok m'" using snaps w old by (auto simp: watch_ok_def less_Suc_eq)
  show "bd_abs (ub_enclosing_snapshots m' ! k) =
      live_add (case map_of (ub_lazy_defs m) sid of None \<Rightarrow> {} | Some ds \<Rightarrow> set ds) (udm_live m sid)"
    using snaps k by auto
qed

lemma snaps_step_eager:
  assumes "watch_ok m" and "udm_register_eager_snapshot sid m = Some (k, m')"
  shows "snaps_step m m' {}" and "\<not> watched m' k s" and "k < length (ub_enclosing_snapshots m')"
    and "watch_ok m'" and "bd_abs (ub_enclosing_snapshots m' ! k) = udm_live m sid"
proof -
  let ?L = "length (ub_enclosing_snapshots m)"
  from assms(2) have eq: "sid < length (ub_symbol_states m)" "k = ?L"
      "m' = m\<lparr>ub_enclosing_snapshots := ub_enclosing_snapshots m @ [ub_symbol_states m ! sid]\<rparr>"
    by (auto simp: udm_register_eager_snapshot_def iv_push_def iv_next_id_def iv_get_Some_iff
        split: Option.bind_splits)
  show "snaps_step m m' {}" by (auto simp: eq snaps_step_def watched_def nth_append)
  show "\<not> watched m' k s" using watch_okD [OF assms(1), of s _ ?L] by (auto simp: eq watched_def)
  show "k < length (ub_enclosing_snapshots m')" by (simp add: eq)
  show "watch_ok m'" using assms(1) by (rule watch_ok_cong) (simp_all add: eq)
  show "bd_abs (ub_enclosing_snapshots m' ! k) = udm_live m sid" using eq(1) by (simp add: eq states_live_def)
qed

lemma snaps_step_watch_ok: "snaps_step m m' D \<Longrightarrow> ub_lazy_watchers m' = ub_lazy_watchers m \<Longrightarrow>
    watch_ok m \<Longrightarrow> watch_ok m'"
  unfolding snaps_step_def by (blast intro: watch_ok_cong)

lemma udm_exec_snaps:
  assumes ok: "watch_ok m" and ex: "udm_exec p m = Some m'"
  shows "snaps_step m m' (op_defines p) \<and> watch_ok m'"
proof (cases p)
  case (OpDefinition sid d)
  with ex obtain snaps where "notify_watchers (ub_enclosing_snapshots m) (ub_lazy_watchers m) sid d = Some snaps"
      and m': "ub_enclosing_snapshots m' = snaps" "ub_lazy_watchers m' = ub_lazy_watchers m"
    by (auto simp: udm_record_definition_def split: Option.bind_splits)
  with ok OpDefinition show ?thesis
    using snaps_step_notify snaps_step_watch_ok by (metis op_defines.simps(1))
next
  case (OpSuper sid d)
  with ex obtain snaps where "notify_watchers (ub_enclosing_snapshots m) (ub_lazy_watchers m) sid d = Some snaps"
      and m': "ub_enclosing_snapshots m' = snaps" "ub_lazy_watchers m' = ub_lazy_watchers m"
    by (auto simp: udm_record_super_definition_def split: Option.bind_splits)
  with ok OpSuper show ?thesis
    using snaps_step_notify snaps_step_watch_ok by (metis op_defines.simps(2))
next
  case (OpLazy sid d)
  with ex obtain snaps where "notify_watchers (ub_enclosing_snapshots m) (ub_lazy_watchers m) sid d = Some snaps"
      and m': "ub_enclosing_snapshots m' = snaps" "ub_lazy_watchers m' = ub_lazy_watchers m"
    by (auto simp: udm_record_lazy_definition_def split: Option.bind_splits)
  with ok OpLazy show ?thesis
    using snaps_step_notify snaps_step_watch_ok by (metis op_defines.simps(3))
next
  case (OpLazySnapshot sid)
  with ex obtain k where "udm_register_lazy_snapshot sid m = Some (k, m')" by auto
  with snaps_step_lazy [OF ok this] OpLazySnapshot show ?thesis by simp
next
  case (OpEagerSnapshot sid)
  with ex obtain k where "udm_register_eager_snapshot sid m = Some (k, m')" by auto
  with snaps_step_eager [OF ok this] OpEagerSnapshot show ?thesis by simp
qed (use ex ok snaps_step_same [of m' m] watch_ok_cong [OF ok, of m'] in \<open>auto simp: udm_ensure_symbol_def
    udm_record_use_def udm_restore_def udm_merge_def udm_finish_loop_defs_def iv_push_def
    split: Option.bind_splits\<close>)

lemma snaps_step_trans:
  assumes "snaps_step m m1 D" and "snaps_step m1 m2 E"
  shows "snaps_step m m2 (D \<union> E)"
proof -
  have "bd_abs (ub_enclosing_snapshots m2 ! k) = live_add {d. \<exists>sid. watched m k sid \<and> (sid, d) \<in> D \<union> E}
      (bd_abs (ub_enclosing_snapshots m ! k))" if "k < length (ub_enclosing_snapshots m)" for k
  proof -
    from that assms(1) have k1: "k < length (ub_enclosing_snapshots m1)" and
      w: "\<And>sid. watched m1 k sid \<longleftrightarrow> watched m k sid" by (auto simp: snaps_step_def)
    from assms(2) k1 have "bd_abs (ub_enclosing_snapshots m2 ! k) =
        live_add {d. \<exists>sid. watched m k sid \<and> (sid, d) \<in> E} (bd_abs (ub_enclosing_snapshots m1 ! k))"
      by (simp add: snaps_step_def w)
    also from assms(1) that have "\<dots> = live_add {d. \<exists>sid. watched m k sid \<and> (sid, d) \<in> E}
        (live_add {d. \<exists>sid. watched m k sid \<and> (sid, d) \<in> D} (bd_abs (ub_enclosing_snapshots m ! k)))"
      by (simp add: snaps_step_def)
    finally show ?thesis by (auto simp: live_add_def)
  qed
  with assms show ?thesis by (auto simp: snaps_step_def)
qed

lemma udm_script_snaps:
  assumes "watch_ok m" and "foldM udm_exec ops m = Some m'"
  shows "snaps_step m m' (\<Union>(op_defines ` set ops))"
  using assms
proof (induction ops arbitrary: m)
  case Nil
  then show ?case by (simp add: snaps_step_same)
next
  case (Cons p ops)
  then obtain m1 where "udm_exec p m = Some m1" and m1: "foldM udm_exec ops m1 = Some m'"
    by (auto split: Option.bind_splits)
  with udm_exec_snaps [OF Cons.prems(1)] have "snaps_step m m1 (op_defines p)" "watch_ok m1" by auto
  with Cons.IH [OF _ m1] show ?case using snaps_step_trans by fastforce
qed

lemma udm_wf_watch_ok: "udm_wf nsyms dsyms usyms m \<Longrightarrow> watch_ok m"
  by (auto simp: udm_wf_def watch_ok_def watched_def)

section \<open>Properties\<close>

text \<open>
  C11. The sorted vector of live definitions refines a set with a flag. On sorted vectors
  (every vector built from \<open>Bindings::unbound\<close> is one) recording a definition kills the others,
  adding one inserts it, merging two flow paths joins them, each result is sorted again, and a
  sorted vector is determined by the set it stands for.
\<close>

theorem bindings_refine_live_sets:
  assumes "bd_wf b" and "bd_wf c"
  shows "bd_wf (bd_record_definition b d) \<and> bd_abs (bd_record_definition b d) = live_kill d \<and>
    bd_wf (bd_add_definition b d) \<and> bd_abs (bd_add_definition b d) = live_add {d} (bd_abs b) \<and>
    bd_wf (bd_merge b c) \<and> bd_abs (bd_merge b c) = live_join (bd_abs b) (bd_abs c) \<and>
    (bd_abs b = bd_abs c \<longleftrightarrow> b = c)"
  using assms by (auto simp: bd_add_definition_wf bd_merge_wf dest: bd_abs_inj)

theorem bindings_refine_live_sets_witness:
  "bd_merge \<lparr>bd_definitions = [1, 4], bd_may_be_unbound = False\<rparr>
            \<lparr>bd_definitions = [2, 4], bd_may_be_unbound = True\<rparr> =
     \<lparr>bd_definitions = [1, 2, 4], bd_may_be_unbound = True\<rparr> \<and>
   bd_wf (bd_merge \<lparr>bd_definitions = [1, 4], bd_may_be_unbound = False\<rparr>
            \<lparr>bd_definitions = [2, 4], bd_may_be_unbound = True\<rparr>)"
proof
  show "bd_wf (bd_merge \<lparr>bd_definitions = [1, 4], bd_may_be_unbound = False\<rparr>
            \<lparr>bd_definitions = [2, 4], bd_may_be_unbound = True\<rparr>)"
    using bindings_refine_live_sets [of "\<lparr>bd_definitions = [1, 4], bd_may_be_unbound = False\<rparr>"
        "\<lparr>bd_definitions = [2, 4], bd_may_be_unbound = True\<rparr>" 0]
    by (simp add: bd_wf_def)
qed (simp add: bd_merge_def)

text \<open>
  C10. The loop fixup adds exactly the carried definitions. \<open>finish_loop_defs\<close> always returns on a
  well-formed builder; a use recorded from \<open>first_use\<close> on receives the definitions of its symbol
  that are live after the body and were not live before it, every earlier use and everything else
  in the builder is unchanged, and the builder stays well formed.
\<close>

theorem finish_loop_defs_adds_carried:
  assumes "udm_wf nsyms dsyms usyms m"
  shows "\<exists>m'. udm_finish_loop_defs pre first usyms m = Some m' \<and> udm_wf nsyms dsyms usyms m' \<and>
    m' = m\<lparr>ub_bindings_by_use := ub_bindings_by_use m'\<rparr> \<and>
    length (ub_bindings_by_use m') = length (ub_bindings_by_use m) \<and>
    (\<forall>j<length usyms. bd_abs (ub_bindings_by_use m' ! j) =
       live_add (if first \<le> j then fst (udm_live m (usyms ! j)) - fst (states_live pre (usyms ! j)) else {})
         (bd_abs (ub_bindings_by_use m ! j)))"
proof -
  have len: "length (ub_bindings_by_use m) = length usyms" using assms by (simp add: udm_wf_def)
  then have le: "length (ub_bindings_by_use m) \<le> length usyms" by simp
  obtain m' where m': "udm_finish_loop_defs pre first usyms m = Some m'" "udm_wf nsyms dsyms usyms m'"
    by (rule udm_finish_loop_defs_wf [OF assms, of pre first])
  from udm_finish_loop_defs_eq [OF le, of pre first] m'(1) len have
    "\<And>j. j < length usyms \<Longrightarrow> bd_abs (ub_bindings_by_use m' ! j) =
        live_add (if first \<le> j then carried pre (ub_symbol_states m) (usyms ! j) else {})
          (bd_abs (ub_bindings_by_use m ! j))"
    "length (ub_bindings_by_use m') = length (ub_bindings_by_use m)"
    "m' = m\<lparr>ub_bindings_by_use := ub_bindings_by_use m'\<rparr>"
    by (metis option.inject)+
  with m' show ?thesis by (auto simp: carried_def)
qed

definition loop_example :: udm_builder where
  "loop_example = \<lparr>ub_symbol_states = [\<lparr>bd_definitions = [1], bd_may_be_unbound = False\<rparr>],
     ub_bindings_by_use = [\<lparr>bd_definitions = [0], bd_may_be_unbound = False\<rparr>],
     ub_lazy_defs = [], ub_enclosing_snapshots = [], ub_lazy_watchers = Map.empty\<rparr>"

theorem finish_loop_defs_adds_carried_witness:
  "\<exists>m'. udm_finish_loop_defs [\<lparr>bd_definitions = [0], bd_may_be_unbound = False\<rparr>] 0 [0] loop_example = Some m' \<and>
     bd_abs (ub_bindings_by_use m' ! 0) = ({0, 1}, False)"
proof -
  have wf: "udm_wf 1 [0, 0] [0] loop_example"
    by (simp add: udm_wf_def loop_example_def bd_for_def bd_wf_def defs_for_def)
  show ?thesis
    using finish_loop_defs_adds_carried [OF wf, of "[\<lparr>bd_definitions = [0], bd_may_be_unbound = False\<rparr>]" 0]
    by (auto simp: loop_example_def states_live_def bd_abs_def live_add_def)
qed

text \<open>
  C9. A lazy snapshot sees every definition of its symbol, whenever it runs. Whatever the enclosing
  scope does after the snapshot was registered, at the end the snapshot holds the definitions live
  at registration, the ones recorded before it from deferred bodies, and every definition of the
  symbol recorded since, and no others; a snapshot of an eager scope is still the state at
  registration.
\<close>

theorem enclosing_snapshots_final:
  assumes "watch_ok m" and "foldM udm_exec ops m1 = Some m2"
  shows "(udm_register_lazy_snapshot sid m = Some (k, m1) \<longrightarrow>
      bd_abs (ub_enclosing_snapshots m2 ! k) = live_add (script_defines ops sid \<union>
        (case map_of (ub_lazy_defs m) sid of None \<Rightarrow> {} | Some ds \<Rightarrow> set ds)) (udm_live m sid)) \<and>
    (udm_register_eager_snapshot sid m = Some (k, m1) \<longrightarrow>
      bd_abs (ub_enclosing_snapshots m2 ! k) = udm_live m sid)"
proof (intro conjI impI)
  assume reg: "udm_register_lazy_snapshot sid m = Some (k, m1)"
  note lz = snaps_step_lazy [OF assms(1) reg]
  have "bd_abs (ub_enclosing_snapshots m2 ! k) =
      live_add (script_defines ops sid) (bd_abs (ub_enclosing_snapshots m1 ! k))"
    using udm_script_snaps [OF lz(4) assms(2)] lz(2,3) by (auto simp: snaps_step_def script_defines_def)
  then show "bd_abs (ub_enclosing_snapshots m2 ! k) = live_add (script_defines ops sid \<union>
        (case map_of (ub_lazy_defs m) sid of None \<Rightarrow> {} | Some ds \<Rightarrow> set ds)) (udm_live m sid)"
    by (simp add: lz(5))
next
  assume reg: "udm_register_eager_snapshot sid m = Some (k, m1)"
  note eg = snaps_step_eager [OF assms(1) reg]
  show "bd_abs (ub_enclosing_snapshots m2 ! k) = udm_live m sid"
    using udm_script_snaps [OF eg(4) assms(2)] eg(2,3,5) by (auto simp: snaps_step_def)
qed

theorem enclosing_snapshots_final_witness:
  "\<exists>m1 m2. udm_register_lazy_snapshot 0 loop_example = Some (0, m1) \<and>
     foldM udm_exec [OpDefinition 0 2, OpLazy 0 3] m1 = Some m2 \<and>
     bd_abs (ub_enclosing_snapshots m2 ! 0) = ({1, 2, 3}, False)"
proof -
  have ok: "watch_ok loop_example" by (simp add: watch_ok_def watched_def loop_example_def)
  obtain m1 where m1: "udm_register_lazy_snapshot 0 loop_example = Some (0, m1)"
    by (simp add: udm_register_lazy_snapshot_def loop_example_def iv_push_def iv_next_id_def)
  obtain m2 where m2: "foldM udm_exec [OpDefinition 0 2, OpLazy 0 3] m1 = Some m2"
    using m1 by (auto simp: udm_register_lazy_snapshot_def loop_example_def iv_push_def iv_next_id_def
        udm_record_definition_def udm_record_lazy_definition_def notify_watchers_def)
  have "bd_abs (ub_enclosing_snapshots m2 ! 0) = ({1, 2, 3}, False)"
    using enclosing_snapshots_final [OF ok m2, of 0 0] m1
    by (auto simp: loop_example_def script_defines_def states_live_def bd_abs_def live_add_def)
  with m1 m2 show ?thesis by blast
qed

end
