(* ===== verification/Binding_Timeline.thy ===== *)
theory Binding_Timeline
  imports Index_Vec "HOL-Library.Word"
begin

text \<open>
  The source-call timeline of \<open>oak_semantic::semantic_index\<close>: which file-scope names are bound
  at each load-time \<open>source()\<close> call. The code ranks the calls and keeps, per name, a bitmap of
  ranks in 64 bit words. The interface \<open>rank_store\<close> states what the timeline relies on; the
  bitmap is its instance.
\<close>

unbundle bit_operations_syntax

section \<open>Ranks and bitmaps\<close>

text \<open>A \<open>SourceRank\<close> wraps a \<open>u32\<close>; it is below \<open>2 ^ 32\<close>.\<close>

type_synonym source_rank = nat

definition rank_position :: "source_rank \<Rightarrow> nat \<times> nat" where
  "rank_position rank = (rank div 64, rank mod 64)"

record rank_set =
  rs_words :: "64 word list"

definition rs_default :: rank_set where
  "rs_default = \<lparr>rs_words = []\<rparr>"

text \<open>\<open>SmallVec::resize\<close> with zeros, for a larger length.\<close>

definition resize_words :: "nat \<Rightarrow> 64 word list \<Rightarrow> 64 word list" where
  "resize_words n ws = ws @ replicate (n - length ws) 0"

definition rs_insert :: "rank_set \<Rightarrow> source_rank \<Rightarrow> rank_set" where
  "rs_insert s rank =
     (let (w, b) = rank_position rank;
          ws = (if length (rs_words s) \<le> w then resize_words (w + 1) (rs_words s) else rs_words s)
      in s\<lparr>rs_words := ws[w := ws ! w OR push_bit b 1]\<rparr>)"

definition rs_contains :: "rank_set \<Rightarrow> source_rank \<Rightarrow> bool" where
  "rs_contains s rank =
     (let (w, b) = rank_position rank
      in case iv_get (rs_words s) w of None \<Rightarrow> False | Some v \<Rightarrow> v AND push_bit b 1 \<noteq> 0)"

section \<open>The timeline\<close>

text \<open>\<open>BindingTimeline\<close>: a hash map that \<open>names\<close> iterates, so an association list.\<close>

type_synonym binding_timeline = "(string \<times> rank_set) list"

record timeline_builder =
  tb_timeline :: binding_timeline
  tb_ranks :: "(text_size \<times> source_rank) list"

definition tb_default :: timeline_builder where
  "tb_default = \<lparr>tb_timeline = [], tb_ranks = []\<rparr>"

text \<open>The body of the loop over the bound names.\<close>

definition timeline_insert :: "source_rank \<Rightarrow> string \<Rightarrow> binding_timeline \<Rightarrow> binding_timeline" where
  "timeline_insert rank name btl =
     (case map_of btl name of
        Some ranks \<Rightarrow> AList.update name (rs_insert ranks rank) btl
      | None \<Rightarrow> AList.update name (rs_insert rs_default rank) btl)"

text \<open>\<open>record_source_call\<close>; the rank is \<open>ranks.len() as u32\<close>, a truncating cast.\<close>

definition record_source_call :: "text_size \<Rightarrow> string list \<Rightarrow> timeline_builder \<Rightarrow> timeline_builder" where
  "record_source_call offset bound t =
     (let rank = length (tb_ranks t) mod 2 ^ 32
      in t\<lparr>tb_ranks := AList.update offset rank (tb_ranks t),
           tb_timeline := foldl (\<lambda>btl name. timeline_insert rank name btl) (tb_timeline t) bound\<rparr>)"

definition tb_finish :: "timeline_builder \<Rightarrow> binding_timeline \<times> (text_size \<rightharpoonup> source_rank)" where
  "tb_finish t = (tb_timeline t, map_of (tb_ranks t))"

record exports_at_source =
  es_timeline :: binding_timeline
  es_ranks :: "source_rank list"

definition es_sees :: "exports_at_source \<Rightarrow> rank_set \<Rightarrow> bool" where
  "es_sees e visible = list_ex (rs_contains visible) (es_ranks e)"

definition es_contains :: "exports_at_source \<Rightarrow> string \<Rightarrow> bool" where
  "es_contains e name =
     (case map_of (es_timeline e) name of None \<Rightarrow> False | Some visible \<Rightarrow> es_sees e visible)"

definition es_names :: "exports_at_source \<Rightarrow> string list" where
  "es_names e = map fst (filter (\<lambda>(_, visible). es_sees e visible) (es_timeline e))"

text \<open>The body of \<open>SemanticIndex::exports_at_sources\<close>, over the two fields it reads.\<close>

definition timeline_exports ::
    "binding_timeline \<times> (text_size \<rightharpoonup> source_rank) \<Rightarrow> text_size list \<Rightarrow> exports_at_source option" where
  "timeline_exports tr offsets =
     (if offsets = [] then None
      else do {
        ranks \<leftarrow> those (map (snd tr) offsets);
        Some \<lparr>es_timeline = fst tr, es_ranks = ranks\<rparr> })"

section \<open>The bitmap is a set of ranks\<close>

locale rank_store =
  fixes empty :: 's
    and insert_rank :: "'s \<Rightarrow> nat \<Rightarrow> 's"
    and has_rank :: "'s \<Rightarrow> nat \<Rightarrow> bool"
  assumes has_empty: "\<not> has_rank empty r"
    and has_insert: "has_rank (insert_rank s r) q \<longleftrightarrow> q = r \<or> has_rank s q"
begin

lemma has_foldl: "has_rank (foldl insert_rank s rs) q \<longleftrightarrow> q \<in> set rs \<or> has_rank s q"
  by (induction rs arbitrary: s) (auto simp: has_insert)

lemma has_of_list: "{q. has_rank (foldl insert_rank empty rs) q} = set rs"
  by (auto simp: has_foldl has_empty)

end

lemma and_single_bit: "w AND push_bit b 1 \<noteq> (0 :: 64 word) \<longleftrightarrow> b < 64 \<and> bit w b"
proof -
  have "w AND push_bit b 1 \<noteq> 0 \<longleftrightarrow> (\<exists>n. bit (w AND push_bit b 1) n)"
    by (metis bit_0_eq bit_eqI bot_apply bot_bool_def)
  also have "\<dots> \<longleftrightarrow> b < 64 \<and> bit w b"
    by (auto simp: bit_simps dest: bit_imp_le_length)
  finally show ?thesis .
qed

lemma nth_resize_words:
  "w < max n (length ws) \<Longrightarrow> resize_words n ws ! w = (if w < length ws then ws ! w else 0)"
  by (auto simp: resize_words_def nth_append)

lemma length_resize_words [simp]: "length (resize_words n ws) = max n (length ws)"
  by (simp add: resize_words_def)

lemma rs_contains_bit:
  "rs_contains s q \<longleftrightarrow> q div 64 < length (rs_words s) \<and> bit (rs_words s ! (q div 64)) (q mod 64)"
  by (simp add: rs_contains_def rank_position_def iv_get_def and_single_bit del: push_bit_of_1)

lemma rs_insert_bit:
  assumes "b < 64"
  shows "w < length (rs_words (rs_insert s r)) \<and> bit (rs_words (rs_insert s r) ! w) b \<longleftrightarrow>
     (w = r div 64 \<and> b = r mod 64) \<or> (w < length (rs_words s) \<and> bit (rs_words s ! w) b)"
  using assms
  by (cases "w = r div 64")
    (auto simp: rs_insert_def rank_position_def Let_def nth_resize_words bit_simps nth_list_update
      split: if_splits)

lemma rs_insert_contains: "rs_contains (rs_insert s r) q \<longleftrightarrow> q = r \<or> rs_contains s q"
proof -
  have "rs_contains (rs_insert s r) q \<longleftrightarrow> (q div 64 = r div 64 \<and> q mod 64 = r mod 64) \<or> rs_contains s q"
    unfolding rs_contains_bit by (rule rs_insert_bit) simp
  moreover have "q div 64 = r div 64 \<and> q mod 64 = r mod 64 \<longleftrightarrow> q = r"
    by (metis div_mult_mod_eq)
  ultimately show ?thesis by simp
qed

interpretation ranks: rank_store rs_default rs_insert rs_contains
  by unfold_locales (simp_all add: rs_insert_contains, simp add: rs_contains_bit rs_default_def)

section \<open>What the timeline records\<close>

definition visible :: "binding_timeline \<Rightarrow> string \<Rightarrow> source_rank \<Rightarrow> bool" where
  "visible btl name rank \<longleftrightarrow> (\<exists>s. map_of btl name = Some s \<and> rs_contains s rank)"

lemma visible_insert:
  "visible (timeline_insert r n btl) name q \<longleftrightarrow> (name = n \<and> q = r) \<or> visible btl name q"
  by (auto simp: visible_def timeline_insert_def update_conv' ranks.has_insert ranks.has_empty
      split: option.splits)

lemma visible_foldl:
  "visible (foldl (\<lambda>btl name. timeline_insert r name btl) btl names) name q \<longleftrightarrow>
     (name \<in> set names \<and> q = r) \<or> visible btl name q"
  by (induction names arbitrary: btl) (auto simp: visible_insert)

lemma distinct_keys_timeline_insert:
  "distinct (map fst btl) \<Longrightarrow> distinct (map fst (timeline_insert r n btl))"
  by (auto simp: timeline_insert_def distinct_update split: option.splits)

lemma distinct_keys_foldl:
  "distinct (map fst btl) \<Longrightarrow> distinct (map fst (foldl (\<lambda>btl name. timeline_insert r name btl) btl names))"
  by (induction names arbitrary: btl) (auto simp: distinct_keys_timeline_insert)

text \<open>The calls of a file in the order they are recorded: offset and bound names.\<close>

type_synonym source_calls = "(text_size \<times> string list) list"

definition record_calls :: "source_calls \<Rightarrow> timeline_builder" where
  "record_calls calls = foldl (\<lambda>t (offset, bound). record_source_call offset bound t) tb_default calls"

definition timeline_for :: "source_calls \<Rightarrow> timeline_builder \<Rightarrow> bool" where
  "timeline_for calls t \<longleftrightarrow>
     tb_ranks t = zip (map fst calls) [0..<length calls] \<and> distinct (map fst (tb_timeline t)) \<and>
     (\<forall>name q. visible (tb_timeline t) name q \<longleftrightarrow> q < length calls \<and> name \<in> set (snd (calls ! q)))"

lemma update_fresh: "k \<notin> set (map fst al) \<Longrightarrow> AList.update k v al = al @ [(k, v)]"
  by (induction al) auto

lemma record_source_call_for:
  assumes "timeline_for calls t" and "offset \<notin> set (map fst calls)" and "length calls < 2 ^ 32"
  shows "timeline_for (calls @ [(offset, bound)]) (record_source_call offset bound t)"
proof -
  have "length (tb_ranks t) = length calls" using assms(1) by (simp add: timeline_for_def)
  moreover have "offset \<notin> set (map fst (tb_ranks t))"
    using assms(1,2) by (auto simp: timeline_for_def dest: set_zip_leftD)
  ultimately show ?thesis
    using assms
    by (auto simp: timeline_for_def record_source_call_def Let_def visible_foldl distinct_keys_foldl
        update_fresh nth_append less_Suc_eq)
qed

lemma record_calls_for:
  assumes "distinct (map fst calls)" and "length calls \<le> 2 ^ 32"
  shows "timeline_for calls (record_calls calls)"
  using assms
proof (induction calls rule: rev_induct)
  case Nil
  then show ?case by (simp add: timeline_for_def record_calls_def tb_default_def visible_def)
next
  case (snoc c calls)
  obtain offset bound where c: "c = (offset, bound)" by (cases c)
  from snoc have "timeline_for calls (record_calls calls)" by simp
  then have "timeline_for (calls @ [(offset, bound)]) (record_source_call offset bound (record_calls calls))"
    by (rule record_source_call_for) (use snoc.prems c in auto)
  then show ?case by (simp add: c record_calls_def)
qed

lemma map_of_zip_ranks:
  assumes "distinct ks"
  shows "map_of (zip ks [0..<length ks]) k = Some r \<longleftrightarrow> r < length ks \<and> ks ! r = k"
proof
  assume "map_of (zip ks [0..<length ks]) k = Some r"
  then have "(k, r) \<in> set (zip ks [0..<length ks])" by (rule map_of_SomeD)
  then show "r < length ks \<and> ks ! r = k" by (auto simp: in_set_zip)
next
  assume "r < length ks \<and> ks ! r = k"
  then have "(k, r) \<in> set (zip ks [0..<length ks])" by (auto simp: in_set_zip intro!: exI [of _ r])
  then show "map_of (zip ks [0..<length ks]) k = Some r" using assms by (intro map_of_is_SomeI) auto
qed

lemma those_Some_iff: "those xs = Some ys \<longleftrightarrow> xs = map Some ys"
  by (induction xs arbitrary: ys) (auto split: option.splits simp: Cons_eq_map_conv map_eq_Cons_conv)

lemma es_names_contains:
  assumes "distinct (map fst (es_timeline e))"
  shows "name \<in> set (es_names e) \<longleftrightarrow> es_contains e name"
proof -
  have "name \<in> set (es_names e) \<longleftrightarrow> (\<exists>v. (name, v) \<in> set (es_timeline e) \<and> es_sees e v)"
    by (force simp: es_names_def)
  also have "\<dots> \<longleftrightarrow> (\<exists>v. map_of (es_timeline e) name = Some v \<and> es_sees e v)"
    using assms by (simp add: map_of_eq_Some_iff)
  also have "\<dots> \<longleftrightarrow> es_contains e name" by (auto simp: es_contains_def split: option.splits)
  finally show ?thesis .
qed

lemma es_contains_visible:
  "es_contains e name \<longleftrightarrow> (\<exists>r\<in>set (es_ranks e). visible (es_timeline e) name r)"
  by (auto simp: es_contains_def visible_def es_sees_def list_ex_iff split: option.splits)

section \<open>Properties\<close>

text \<open>
  The rank bitmap is a set. Inserting any ranks, in any order and with repetitions, into an
  empty bitmap gives one that contains exactly those ranks, across word boundaries.
\<close>

theorem rank_set_is_a_set:
  "{q. rs_contains (foldl rs_insert rs_default ranks) q} = set ranks"
  by (rule ranks.has_of_list)

text \<open>
  C24. The timeline answers exactly what was recorded. For calls at distinct offsets, asking for
  the exports at a non-empty list of recorded offsets returns a view that contains a name iff some
  of these calls was recorded with it, and \<open>names\<close> lists the same names without repetition;
  an offset that is not a recorded call, or an empty list, gives no view.
\<close>

theorem timeline_exports_recorded:
  assumes "distinct (map fst calls)" and "length calls \<le> 2 ^ 32"
  shows "(timeline_exports (tb_finish (record_calls calls)) offsets = None \<longleftrightarrow>
        offsets = [] \<or> \<not> set offsets \<subseteq> fst ` set calls) \<and>
    (\<forall>e name. timeline_exports (tb_finish (record_calls calls)) offsets = Some e \<longrightarrow>
       (es_contains e name \<longleftrightarrow> (\<exists>(offset, bound)\<in>set calls. offset \<in> set offsets \<and> name \<in> set bound)) \<and>
       (name \<in> set (es_names e) \<longleftrightarrow> es_contains e name) \<and> distinct (es_names e))"
proof -
  let ?t = "record_calls calls" and ?ks = "map fst calls"
  have t: "timeline_for calls ?t" using assms by (rule record_calls_for)
  then have dist: "distinct (map fst (tb_timeline ?t))"
    and vis: "\<And>name q. visible (tb_timeline ?t) name q \<longleftrightarrow> q < length calls \<and> name \<in> set (snd (calls ! q))"
    by (auto simp: timeline_for_def)
  have rank: "map_of (tb_ranks ?t) k = Some r \<longleftrightarrow> r < length calls \<and> fst (calls ! r) = k" for k r
    using t map_of_zip_ranks [OF assms(1)] by (auto simp: timeline_for_def)
  have ex: "(\<exists>r. map_of (tb_ranks ?t) k = Some r) \<longleftrightarrow> k \<in> fst ` set calls" for k
    unfolding rank by (metis image_iff in_set_conv_nth)
  have none: "timeline_exports (tb_finish ?t) offsets = None \<longleftrightarrow> offsets = [] \<or> \<not> set offsets \<subseteq> fst ` set calls"
  proof (cases "those (map (map_of (tb_ranks ?t)) offsets)")
    case (Some rs)
    then have "map (map_of (tb_ranks ?t)) offsets = map Some rs" by (simp add: those_Some_iff)
    then have "map_of (tb_ranks ?t) ` set offsets = Some ` set rs" by (metis list.set_map)
    then have "\<forall>k\<in>set offsets. \<exists>r. map_of (tb_ranks ?t) k = Some r" by blast
    with Some show ?thesis using ex by (auto simp: timeline_exports_def tb_finish_def)
  next
    case None
    have "\<not> set offsets \<subseteq> fst ` set calls"
    proof
      assume "set offsets \<subseteq> fst ` set calls"
      then have "\<forall>k\<in>set offsets. \<exists>r. map_of (tb_ranks ?t) k = Some r" using ex by blast
      then have "\<exists>rs. map (map_of (tb_ranks ?t)) offsets = map Some rs" by (simp add: ex_map_conv)
      with None show False by (metis option.simps(3) those_Some_iff)
    qed
    with None show ?thesis by (simp add: timeline_exports_def tb_finish_def)
  qed
  have some: "(es_contains e name \<longleftrightarrow> (\<exists>(offset, bound)\<in>set calls. offset \<in> set offsets \<and> name \<in> set bound)) \<and>
       (name \<in> set (es_names e) \<longleftrightarrow> es_contains e name) \<and> distinct (es_names e)"
    if "timeline_exports (tb_finish ?t) offsets = Some e" for e name
  proof -
    from that have rs: "map (map_of (tb_ranks ?t)) offsets = map Some (es_ranks e)"
      and btl: "es_timeline e = tb_timeline ?t"
      by (auto simp: timeline_exports_def tb_finish_def those_Some_iff split: if_splits Option.bind_splits)
    have mem: "r \<in> set (es_ranks e) \<longleftrightarrow> r < length calls \<and> fst (calls ! r) \<in> set offsets" for r
    proof -
      have "r \<in> set (es_ranks e) \<longleftrightarrow> Some r \<in> set (map (map_of (tb_ranks ?t)) offsets)" unfolding rs by auto
      also have "\<dots> \<longleftrightarrow> (\<exists>k\<in>set offsets. map_of (tb_ranks ?t) k = Some r)" by (auto simp: image_iff eq_commute)
      also have "\<dots> \<longleftrightarrow> r < length calls \<and> fst (calls ! r) \<in> set offsets" unfolding rank by blast
      finally show ?thesis .
    qed
    have "es_contains e name \<longleftrightarrow> (\<exists>r<length calls. fst (calls ! r) \<in> set offsets \<and> name \<in> set (snd (calls ! r)))"
      unfolding es_contains_visible btl vis using mem by auto
    also have "\<dots> \<longleftrightarrow> (\<exists>c\<in>set calls. fst c \<in> set offsets \<and> name \<in> set (snd c))"
      by (rule ex_nth_iff)
    finally have "es_contains e name \<longleftrightarrow> (\<exists>c\<in>set calls. fst c \<in> set offsets \<and> name \<in> set (snd c))" .
    moreover have "distinct (es_names e)"
      using dist unfolding es_names_def btl by (rule distinct_map_filter)
    ultimately show ?thesis using dist es_names_contains [of e name] btl by (auto simp: case_prod_unfold)
  qed
  from none some show ?thesis by blast
qed

theorem timeline_exports_recorded_witness:
  "\<exists>e. timeline_exports (tb_finish (record_calls [(10, [''a'']), (20, [''a'', ''b''])])) [10] = Some e \<and>
     es_contains e ''a'' \<and> \<not> es_contains e ''b''"
proof -
  let ?calls = "[(10, [''a'']), (20, [''a'', ''b''])] :: source_calls"
  have "distinct (map fst ?calls)" and "length ?calls \<le> 2 ^ 32" by simp_all
  note r = timeline_exports_recorded [OF this, of "[10]"]
  then obtain e where e: "timeline_exports (tb_finish (record_calls ?calls)) [10] = Some e"
    by (cases "timeline_exports (tb_finish (record_calls ?calls)) [10]") auto
  from r e have "es_contains e ''a''" "\<not> es_contains e ''b''" by auto
  with e show ?thesis by blast
qed

end
