(* ===== verification/R_Syntax.thy ===== *)
theory R_Syntax
  imports Index_Vec
begin

text \<open>
  The R syntax tree as the semantic indexer sees it. The tree itself is an input of the code: the
  parser library builds it, and the indexer only matches on node kinds and calls accessors. A node
  is a constructor; its fields are its trimmed range and the results of the accessors the code
  calls, \<open>None\<close> where an accessor fails on a malformed tree. Nodes without an arm of their own
  (parentheses, unary operators, numbers, \<open>return\<close>, ...) are \<open>ROtherExpression\<close> with their
  outermost sub-expressions. \<open>break\<close> and \<open>next\<close> have constructors although the code treats them as
  any other leaf, because the meaning of a file depends on them.

  The second half models \<open>oak_core::syntax_ext\<close> and the syntax helpers of
  \<open>oak_semantic::builder\<close>.
\<close>

section \<open>Tokens and leaves\<close>

text \<open>The operator token kinds the indexer distinguishes.\<close>

datatype syntax_kind =
    ASSIGN | EQUAL | ASSIGN_RIGHT | SUPER_ASSIGN | SUPER_ASSIGN_RIGHT
  | SPECIAL | WALRUS | COLON2 | COLON3 | OTHER_OPERATOR

record op_token =
  tk_kind :: syntax_kind
  tk_text :: string

text \<open>
  A string token starts and ends with a delimiter character (the parser accepts no other token as
  a string value), so its text has at least two characters.
\<close>

datatype string_token = StringToken char string char

fun token_text :: "string_token \<Rightarrow> string" where
  "token_text (StringToken l s r) = l # s @ [r]"

datatype r_selector =
    SelIdentifier text_range string
  | SelString text_range "string_token option"
  | SelDots text_range
  | SelDotDotI text_range string

datatype r_argument_name =
    ArgIdentifier string
  | ArgString "string_token option"
  | ArgDots
  | ArgDotDotI

datatype r_parameter_name =
    ParIdentifier text_range string
  | ParDots text_range
  | ParDotDotI text_range string

section \<open>Expressions\<close>

datatype r_expr =
    RIdentifier text_range string
  | RDots text_range
  | RDotDotI text_range string
  | RFunctionDefinition text_range "r_parameter list option" "r_expr option"
  | RBracedExpressions text_range "r_expr list"
  | RBinaryExpression text_range "r_expr option" "op_token option" "r_expr option"
  | RCall text_range "r_expr option" "r_argument list option"
  | RSubset text_range "r_expr option" "r_argument list option"
  | RSubset2 text_range "r_expr option" "r_argument list option"
  | RExtractExpression text_range "r_expr option" "r_selector option"
  | RNamespaceExpression text_range "r_selector option" "op_token option" "r_selector option"
  | RForStatement text_range "(text_range \<times> string) option" "r_expr option" "r_expr option"
  | RIfStatement text_range "r_expr option" "r_expr option" "r_expr option"
  | RWhileStatement text_range "r_expr option" "r_expr option"
  | RRepeatStatement text_range "r_expr option"
  | RStringValue text_range "string_token option"
  | RNullExpression text_range
  | RTrueExpression text_range
  | RFalseExpression text_range
  | RBreakExpression text_range
  | RNextExpression text_range
  | RBogusExpression text_range "r_expr list"
  | ROtherExpression text_range "r_expr list"
and r_argument =
    RArgument "r_argument_name option option" "r_expr option"
  | RArgumentError
and r_parameter =
    RParameter "r_parameter_name option" "r_expr option"
  | RParameterError

text \<open>\<open>node.syntax().text_trimmed_range()\<close>.\<close>

fun trimmed_range :: "r_expr \<Rightarrow> text_range" where
  "trimmed_range (RIdentifier r _) = r"
| "trimmed_range (RDots r) = r"
| "trimmed_range (RDotDotI r _) = r"
| "trimmed_range (RFunctionDefinition r _ _) = r"
| "trimmed_range (RBracedExpressions r _) = r"
| "trimmed_range (RBinaryExpression r _ _ _) = r"
| "trimmed_range (RCall r _ _) = r"
| "trimmed_range (RSubset r _ _) = r"
| "trimmed_range (RSubset2 r _ _) = r"
| "trimmed_range (RExtractExpression r _ _) = r"
| "trimmed_range (RNamespaceExpression r _ _ _) = r"
| "trimmed_range (RForStatement r _ _ _) = r"
| "trimmed_range (RIfStatement r _ _ _) = r"
| "trimmed_range (RWhileStatement r _ _) = r"
| "trimmed_range (RRepeatStatement r _) = r"
| "trimmed_range (RStringValue r _) = r"
| "trimmed_range (RNullExpression r) = r"
| "trimmed_range (RTrueExpression r) = r"
| "trimmed_range (RFalseExpression r) = r"
| "trimmed_range (RBreakExpression r) = r"
| "trimmed_range (RNextExpression r) = r"
| "trimmed_range (RBogusExpression r _) = r"
| "trimmed_range (ROtherExpression r _) = r"

fun arg_value :: "r_argument \<Rightarrow> r_expr option" where
  "arg_value (RArgument _ v) = v"
| "arg_value RArgumentError = None"

fun par_default :: "r_parameter \<Rightarrow> r_expr option" where
  "par_default (RParameter _ v) = v"
| "par_default RParameterError = None"

abbreviation opt_list :: "'a option \<Rightarrow> 'a list" where
  "opt_list x \<equiv> (case x of None \<Rightarrow> [] | Some v \<Rightarrow> [v])"

abbreviation the_list :: "'a list option \<Rightarrow> 'a list" where
  "the_list x \<equiv> (case x of None \<Rightarrow> [] | Some v \<Rightarrow> v)"

text \<open>
  The sub-expressions of a node in source order: the outermost \<open>AnyRExpression\<close> descendants that
  \<open>walk_descendants\<close> and \<open>scan_descendants\<close> visit, less the leaves in name positions (argument
  names, parameter names, selectors, the loop variable), on which both visits do nothing.
\<close>

fun children :: "r_expr \<Rightarrow> r_expr list" where
  "children (RFunctionDefinition _ ps b) =
     concat (map (\<lambda>p. opt_list (par_default p)) (the_list ps)) @ opt_list b"
| "children (RBracedExpressions _ es) = es"
| "children (RBinaryExpression _ l _ r) = opt_list l @ opt_list r"
| "children (RCall _ f as) = opt_list f @ concat (map (\<lambda>a. opt_list (arg_value a)) (the_list as))"
| "children (RSubset _ f as) = opt_list f @ concat (map (\<lambda>a. opt_list (arg_value a)) (the_list as))"
| "children (RSubset2 _ f as) = opt_list f @ concat (map (\<lambda>a. opt_list (arg_value a)) (the_list as))"
| "children (RExtractExpression _ l _) = opt_list l"
| "children (RForStatement _ _ s b) = opt_list s @ opt_list b"
| "children (RIfStatement _ c t e) = opt_list c @ opt_list t @ opt_list e"
| "children (RWhileStatement _ c b) = opt_list c @ opt_list b"
| "children (RRepeatStatement _ b) = opt_list b"
| "children (RBogusExpression _ es) = es"
| "children (ROtherExpression _ es) = es"
| "children _ = []"

subsection \<open>Sizes and sub-terms\<close>

lemma size_arg_value: "v \<in> set (opt_list (arg_value a)) \<Longrightarrow> size v < size a"
  by (cases a) (auto split: option.splits)

lemma size_par_default: "v \<in> set (opt_list (par_default p)) \<Longrightarrow> size v < size p"
  by (cases p) (auto split: option.splits)

lemma size_in_list: "x \<in> set xs \<Longrightarrow> size x < size_list size xs"
  by (induction xs) auto

lemma size_children [subterm_intros]: "x \<in> set (children e) \<Longrightarrow> size x < size e"
proof (induction e rule: children.induct)
  case (1 r ps b)
  then show ?case
    by (fastforce split: option.splits dest!: size_par_default [simplified] size_in_list [where 'a = r_parameter])
next
  case (4 r f as)
  then show ?case
    by (fastforce split: option.splits dest!: size_arg_value [simplified] size_in_list [where 'a = r_argument])
next
  case (5 r f as)
  then show ?case
    by (fastforce split: option.splits dest!: size_arg_value [simplified] size_in_list [where 'a = r_argument])
next
  case (6 r f as)
  then show ?case
    by (fastforce split: option.splits dest!: size_arg_value [simplified] size_in_list [where 'a = r_argument])
qed (auto split: option.splits dest!: size_in_list)

function subterms :: "r_expr \<Rightarrow> r_expr list" where
  "subterms e = e # concat (map subterms (children e))"
  by pat_completeness auto
termination
  by (relation "measure size") (auto dest: size_children)

declare subterms.simps [simp del]

lemma subterms_self [simp]: "e \<in> set (subterms e)"
  by (subst subterms.simps) simp

lemma subterms_child: "x \<in> set (children e) \<Longrightarrow> set (subterms x) \<subseteq> set (subterms e)"
  by (subst subterms.simps [of e]) auto

lemma subterms_trans: "x \<in> set (subterms e) \<Longrightarrow> set (subterms x) \<subseteq> set (subterms e)"
proof (induction e rule: subterms.induct)
  case (1 e)
  show ?case
  proof (cases "x = e")
    case False
    with "1.prems" obtain y where "y \<in> set (children e)" "x \<in> set (subterms y)"
      by (subst (asm) subterms.simps) auto
    with "1.IH" have "set (subterms x) \<subseteq> set (subterms y)" by blast
    with subterms_child [OF \<open>y \<in> set (children e)\<close>] show ?thesis by blast
  qed simp
qed

lemma size_subterms: "x \<in> set (subterms e) \<Longrightarrow> size x \<le> size e"
proof (induction e rule: subterms.induct)
  case (1 e)
  then show ?case
    by (subst (asm) subterms.simps) (force dest: size_children)
qed

section \<open>Names\<close>

text \<open>\<open>str::strip_prefix\<close> and \<open>strip_suffix\<close> for a character.\<close>

definition strip_prefix_char :: "char \<Rightarrow> string \<Rightarrow> string option" where
  "strip_prefix_char c s = (case s of [] \<Rightarrow> None | x # xs \<Rightarrow> if x = c then Some xs else None)"

definition strip_suffix_char :: "char \<Rightarrow> string \<Rightarrow> string option" where
  "strip_suffix_char c s = (if s \<noteq> [] \<and> last s = c then Some (butlast s) else None)"

text \<open>\<open>RIdentifierExt::name_text\<close>: the text without backtick quoting.\<close>

definition name_text :: "string \<Rightarrow> string" where
  "name_text text =
     (case do { s \<leftarrow> strip_prefix_char (CHR 0x60) text; strip_suffix_char (CHR 0x60) s } of
        Some inner \<Rightarrow> inner
      | None \<Rightarrow> text)"

text \<open>
  \<open>RStringValueExt::string_text\<close>: the token without its delimiters, the slice
  \<open>text[1..text.len() - 1]\<close>; \<open>None\<close> when the node has no token.
\<close>

definition slice :: "nat \<Rightarrow> nat \<Rightarrow> 'a list \<Rightarrow> 'a list" where
  "slice i j xs = take (j - i) (drop i xs)"

definition string_text :: "string_token option \<Rightarrow> string option" where
  "string_text tok = map_option (\<lambda>t. slice 1 (length (token_text t) - 1) (token_text t)) tok"

lemma string_text_token [simp]: "string_text (Some (StringToken l s r)) = Some s"
  by (simp add: string_text_def slice_def)

text \<open>\<open>AnyRSelectorExt::identifier_text\<close>.\<close>

fun identifier_text :: "r_selector \<Rightarrow> string option" where
  "identifier_text (SelIdentifier _ text) = Some (name_text text)"
| "identifier_text (SelString _ tok) = string_text tok"
| "identifier_text (SelDots _) = None"
| "identifier_text (SelDotDotI _ _) = None"

text \<open>
  A plain or backtick-quoted identifier, or a quoted string, reads back as the name it spells:
  \<open>x\<close>, \<open>`x`\<close> and \<open>"x"\<close> name the same variable.
\<close>

definition backtick :: "string \<Rightarrow> string" where
  "backtick name = CHR 0x60 # name @ [CHR 0x60]"

lemma name_text_backtick: "name_text (backtick name) = name"
  by (simp add: name_text_def backtick_def strip_prefix_char_def strip_suffix_char_def)

lemma name_text_plain: "(\<And>rest. name \<noteq> CHR 0x60 # rest) \<Longrightarrow> name_text name = name"
  by (auto simp: name_text_def strip_prefix_char_def split: list.splits)

end
