(* ===== verification/Semantic_Index.thy ===== *)
theory Semantic_Index
  imports Symbol_Table Use_Def_Map Binding_Timeline R_Syntax
begin

text \<open>
  \<open>oak_semantic::semantic_index\<close>: the data of the finished index and its queries. Scopes,
  symbols, definitions and uses are positions in their arenas. A query that indexes an arena out
  of range panics in the code and is \<open>None\<close> here. A syntax pointer (\<open>AstPtr\<close>) is the node
  it points to.

  Loops over the scope tree (the ancestor chain, the children of a scope, the descent of
  \<open>scope_at\<close>) are bounded by the number of scopes; the lemmas about well-formed arenas show
  that this bound is never reached.
\<close>

section \<open>Scopes\<close>

datatype eval_env = Current | Nested

datatype eval_timing = Eager | Lazy

datatype scope_kind = File | Function | Nse eval_env eval_timing

fun kind_is_lazy :: "scope_kind \<Rightarrow> bool" where
  "kind_is_lazy File = False"
| "kind_is_lazy Function = True"
| "kind_is_lazy (Nse _ timing) = (timing = Lazy)"

fun kind_owns_bindings :: "scope_kind \<Rightarrow> bool" where
  "kind_owns_bindings (Nse Current _) = False"
| "kind_owns_bindings _ = True"

record scope =
  sc_parent :: "nat option"
  sc_kind :: scope_kind
  sc_range :: text_range
  sc_desc_start :: nat
  sc_desc_end :: nat

section \<open>Definitions, uses, calls and diagnostics\<close>

type_synonym url = string

datatype definition_kind =
    Assignment r_expr
  | SuperAssignment r_expr
  | Parameter r_parameter
  | ForVariable r_expr
  | Import r_expr url string
  | Assign r_expr r_expr "r_expr option"

record defn =
  df_kind :: definition_kind
  df_symbol :: nat
  df_range :: text_range

record use_site =
  us_symbol :: nat
  us_range :: text_range

datatype attach_region = Unconditional | Conditional text_size

datatype semantic_call_kind =
    Attach string attach_region
  | Source string "url option"

record semantic_call =
  ca_kind :: semantic_call_kind
  ca_range :: text_range
  ca_scope :: nat

definition ca_offset :: "semantic_call \<Rightarrow> text_size" where
  "ca_offset c = tr_start (ca_range c)"

fun region_contains :: "attach_region \<Rightarrow> semantic_call \<Rightarrow> text_size \<Rightarrow> bool" where
  "region_contains Unconditional call offset \<longleftrightarrow> tr_end (ca_range call) \<le> offset"
| "region_contains (Conditional stop) call offset \<longleftrightarrow> tr_end (ca_range call) \<le> offset \<and> offset \<le> stop"

datatype callee_usage = UsageEffects | UsageValue

record callee_dependency =
  cd_name :: string
  cd_range :: text_range
  cd_usage :: callee_usage

datatype namespace_access_kind = Export | Internal

record namespace_access =
  na_package :: string
  na_symbol :: string
  na_kind :: namespace_access_kind
  na_offset :: text_size

datatype ambiguity_reason =
    LazyShadow text_range
  | ConditionalShadow text_range
  | ConditionalAttach string text_range

datatype semantic_diagnostic =
    AmbiguousCalleeResolution string text_range ambiguity_reason
  | AmbiguousSuperAssignment string text_range text_range
  | LockedSuperAssignment string string text_range
  | AmbiguousAttachOrder "string list" text_range
  | UninstalledPackage string text_range
  | SourceCycle

section \<open>The index\<close>

text \<open>\<open>EnclosingSnapshotKey\<close>: the nested scope and the use in it.\<close>

type_synonym snapshot_key = "nat \<times> nat"

record semantic_index =
  ix_scopes :: "scope list"
  ix_symbol_tables :: "symbol_table list"
  ix_definitions :: "defn list list"
  ix_uses :: "use_site list list"
  ix_use_def_maps :: "use_def_map list"
  ix_enclosing_snapshots :: "snapshot_key \<rightharpoonup> (nat \<times> nat) list"
  ix_semantic_calls :: "semantic_call list"
  ix_callee_dependencies :: "callee_dependency list"
  ix_namespace_accesses :: "namespace_access list"
  ix_diagnostics :: "semantic_diagnostic list"
  ix_final_bindings :: "bindings list"
  ix_bindings_at_sources :: binding_timeline
  ix_source_ranks :: "text_size \<rightharpoonup> source_rank"

definition with_diagnostic :: "semantic_index \<Rightarrow> semantic_diagnostic \<Rightarrow> semantic_index" where
  "with_diagnostic ix d = ix\<lparr>ix_diagnostics := ix_diagnostics ix @ [d]\<rparr>"

section \<open>The scope tree\<close>

text \<open>\<open>AncestorScopeIdsIter\<close>, run to its end.\<close>

fun ancestors_upto :: "nat \<Rightarrow> scope list \<Rightarrow> nat \<Rightarrow> nat list option" where
  "ancestors_upto 0 scopes i = None"
| "ancestors_upto (Suc n) scopes i = do {
     sc \<leftarrow> iv_get scopes i;
     case sc_parent sc of
       None \<Rightarrow> Some [i]
     | Some p \<Rightarrow> do { is \<leftarrow> ancestors_upto n scopes p; Some (i # is) } }"

definition scope_ancestors :: "scope list \<Rightarrow> nat \<Rightarrow> nat list option" where
  "scope_ancestors scopes i = ancestors_upto (length scopes) scopes i"

definition ancestor_scope_ids :: "semantic_index \<Rightarrow> nat \<Rightarrow> nat list option" where
  "ancestor_scope_ids ix i = scope_ancestors (ix_scopes ix) i"

text \<open>\<open>ChildScopeIdsIter\<close>, run to its end: each step skips over the child's descendants.\<close>

fun children_upto :: "nat \<Rightarrow> scope list \<Rightarrow> nat \<Rightarrow> nat \<Rightarrow> nat list option" where
  "children_upto 0 scopes current stop = None"
| "children_upto (Suc n) scopes current stop =
     (if current \<ge> stop then Some []
      else do {
        sc \<leftarrow> iv_get scopes current;
        is \<leftarrow> children_upto n scopes (sc_desc_end sc) stop;
        Some (current # is) })"

definition child_scope_ids :: "semantic_index \<Rightarrow> nat \<Rightarrow> nat list option" where
  "child_scope_ids ix i = do {
     sc \<leftarrow> iv_get (ix_scopes ix) i;
     children_upto (Suc (length (ix_scopes ix))) (ix_scopes ix) (sc_desc_start sc) (sc_desc_end sc) }"

definition scope_ids :: "semantic_index \<Rightarrow> nat list" where
  "scope_ids ix = map fst (iv_iter (ix_scopes ix))"

text \<open>\<open>scope_at\<close>: descend into the first child whose range contains the offset.\<close>

fun scope_at_upto :: "nat \<Rightarrow> semantic_index \<Rightarrow> text_size \<Rightarrow> nat \<Rightarrow> nat option" where
  "scope_at_upto 0 ix offset current = None"
| "scope_at_upto (Suc n) ix offset current = do {
     cs \<leftarrow> child_scope_ids ix current;
     case find (\<lambda>c. tr_contains (sc_range (ix_scopes ix ! c)) offset) cs of
       Some c \<Rightarrow> scope_at_upto n ix offset c
     | None \<Rightarrow> Some current }"

definition scope_at :: "semantic_index \<Rightarrow> text_size \<Rightarrow> nat option" where
  "scope_at ix offset = scope_at_upto (length (ix_scopes ix)) ix offset 0"

definition enclosing_lazy_scope :: "semantic_index \<Rightarrow> nat \<Rightarrow> nat option option" where
  "enclosing_lazy_scope ix i = do {
     is \<leftarrow> ancestor_scope_ids ix i;
     Some (find (\<lambda>s. kind_is_lazy (sc_kind (ix_scopes ix ! s))) is) }"

definition scope_is_eager :: "semantic_index \<Rightarrow> nat \<Rightarrow> bool option" where
  "scope_is_eager ix i = map_option (\<lambda>lz. lz = None) (enclosing_lazy_scope ix i)"

section \<open>Lookups by position and name\<close>

definition definition_at :: "semantic_index \<Rightarrow> text_size \<Rightarrow> (nat \<times> nat \<times> defn) option option" where
  "definition_at ix offset = do {
     s \<leftarrow> scope_at ix offset;
     ds \<leftarrow> iv_get (ix_definitions ix) s;
     Some (map_option (\<lambda>(i, d). (s, i, d)) (iv_contains df_range ds offset)) }"

definition use_at :: "semantic_index \<Rightarrow> text_size \<Rightarrow> (nat \<times> nat \<times> use_site) option option" where
  "use_at ix offset = do {
     s \<leftarrow> scope_at ix offset;
     us \<leftarrow> iv_get (ix_uses ix) s;
     Some (map_option (\<lambda>(i, u). (s, i, u)) (iv_contains us_range us offset)) }"

definition uses_in_scope :: "semantic_index \<Rightarrow> string \<Rightarrow> nat \<Rightarrow> (nat \<times> nat \<times> use_site) list option" where
  "uses_in_scope ix name s = do {
     table \<leftarrow> iv_get (ix_symbol_tables ix) s;
     case st_id table name of
       None \<Rightarrow> Some []
     | Some sid \<Rightarrow> do {
         us \<leftarrow> iv_get (ix_uses ix) s;
         Some (map (\<lambda>(i, u). (s, i, u)) (filter (\<lambda>(_, u). us_symbol u = sid) (iv_iter us))) } }"

definition uses_of :: "semantic_index \<Rightarrow> string \<Rightarrow> (nat \<times> nat \<times> use_site) list option" where
  "uses_of ix name = foldM (\<lambda>s acc. do { us \<leftarrow> uses_in_scope ix name s; Some (acc @ us) }) (scope_ids ix) []"

text \<open>
  \<open>resolve\<close>: the first ancestor whose table flags the name as bound. The outer \<open>None\<close> covers
  the \<open>unreachable!\<close> of a bound symbol without a definition.
\<close>

definition resolve_in :: "semantic_index \<Rightarrow> string \<Rightarrow> nat \<Rightarrow> (nat \<times> nat \<times> defn) option option" where
  "resolve_in ix name s = do {
     table \<leftarrow> iv_get (ix_symbol_tables ix) s;
     case st_id table name of
       None \<Rightarrow> Some None
     | Some sid \<Rightarrow> do {
         sy \<leftarrow> st_symbol table sid;
         if \<not> flags_contains (sy_flags sy) IS_BOUND then Some None
         else do {
           ds \<leftarrow> iv_get (ix_definitions ix) s;
           (i, d) \<leftarrow> find (\<lambda>(_, d). df_symbol d = sid) (iv_iter ds);
           Some (Some (s, i, d)) } } }"

fun resolve_first :: "semantic_index \<Rightarrow> string \<Rightarrow> nat list \<Rightarrow> (nat \<times> nat \<times> defn) option option" where
  "resolve_first ix name [] = Some None"
| "resolve_first ix name (s # ss) = do {
     r \<leftarrow> resolve_in ix name s;
     case r of Some x \<Rightarrow> Some (Some x) | None \<Rightarrow> resolve_first ix name ss }"

definition resolve :: "semantic_index \<Rightarrow> string \<Rightarrow> nat \<Rightarrow> (nat \<times> nat \<times> defn) option option" where
  "resolve ix name s = do { ss \<leftarrow> ancestor_scope_ids ix s; resolve_first ix name ss }"

section \<open>Reaching definitions\<close>

definition snapshot_bindings :: "semantic_index \<Rightarrow> nat \<times> nat \<Rightarrow> (nat \<times> bindings) option" where
  "snapshot_bindings ix e = do {
     m \<leftarrow> iv_get (ix_use_def_maps ix) (fst e);
     b \<leftarrow> ud_enclosing_snapshot m (snd e);
     Some (fst e, b) }"

text \<open>The panic of an entry is only reached when the iterator gets to it, hence a list of options.\<close>

definition enclosing_bindings_chain :: "semantic_index \<Rightarrow> nat \<Rightarrow> nat \<Rightarrow> (nat \<times> bindings) option list" where
  "enclosing_bindings_chain ix s use_id =
     (case ix_enclosing_snapshots ix (s, use_id) of
        None \<Rightarrow> []
      | Some chain \<Rightarrow> map (snapshot_bindings ix) chain)"

definition enclosing_bindings :: "semantic_index \<Rightarrow> nat \<Rightarrow> nat \<Rightarrow> (nat \<times> bindings) option option" where
  "enclosing_bindings ix s use_id =
     (case enclosing_bindings_chain ix s use_id of
        [] \<Rightarrow> Some None
      | e # _ \<Rightarrow> map_option Some e)"

text \<open>The \<open>from_fn\<close> of \<open>reaching_bindings\<close>: take from the chain while the last may be unbound.\<close>

fun fall_through :: "bool \<Rightarrow> (nat \<times> bindings) option list \<Rightarrow> (nat \<times> bindings) list option" where
  "fall_through False chain = Some []"
| "fall_through True [] = Some []"
| "fall_through True (e # es) = do {
     sb \<leftarrow> e;
     rest \<leftarrow> fall_through (bd_may_be_unbound (snd sb)) es;
     Some (sb # rest) }"

definition reaching_bindings :: "semantic_index \<Rightarrow> nat \<Rightarrow> nat \<Rightarrow> (nat \<times> bindings) list option" where
  "reaching_bindings ix s use_id = do {
     m \<leftarrow> iv_get (ix_use_def_maps ix) s;
     local \<leftarrow> ud_bindings_at_use m use_id;
     rest \<leftarrow> fall_through (bd_may_be_unbound local) (enclosing_bindings_chain ix s use_id);
     Some ((s, local) # rest) }"

definition reaching_definitions :: "semantic_index \<Rightarrow> nat \<Rightarrow> nat \<Rightarrow> (nat \<times> nat) list option" where
  "reaching_definitions ix s use_id = do {
     bs \<leftarrow> reaching_bindings ix s use_id;
     Some (concat (map (\<lambda>(s', b). map (Pair s') (bd_definitions b)) bs)) }"

definition use_is_bound :: "semantic_index \<Rightarrow> nat \<Rightarrow> nat \<Rightarrow> bool option" where
  "use_is_bound ix s use_id = do {
     bs \<leftarrow> reaching_bindings ix s use_id;
     Some (list_ex (\<lambda>(_, b). \<not> bd_may_be_unbound b) bs) }"

section \<open>Exports and attaches\<close>

definition file_definitions :: "semantic_index \<Rightarrow> nat list \<Rightarrow> (nat \<times> defn) list option" where
  "file_definitions ix ids = do {
     defs \<leftarrow> iv_get (ix_definitions ix) 0;
     those (map (\<lambda>i. map_option (Pair i) (iv_get defs i)) ids) }"

text \<open>\<open>exports\<close>: the hash map as an association list.\<close>

definition exports_step :: "semantic_index \<Rightarrow> symbol_table \<Rightarrow> nat \<times> bindings \<Rightarrow>
    (string \<times> (nat \<times> defn) list) list \<Rightarrow> (string \<times> (nat \<times> defn) list) list option" where
  "exports_step ix symbols e acc =
     (if bd_definitions (snd e) = [] then Some acc
      else do {
        sy \<leftarrow> st_symbol symbols (fst e);
        ds \<leftarrow> file_definitions ix (bd_definitions (snd e));
        Some (AList.update (sy_name sy)
          ((case map_of acc (sy_name sy) of None \<Rightarrow> [] | Some l \<Rightarrow> l) @ ds) acc) })"

definition exports :: "semantic_index \<Rightarrow> (string \<times> (nat \<times> defn) list) list option" where
  "exports ix = do {
     symbols \<leftarrow> iv_get (ix_symbol_tables ix) 0;
     foldM (exports_step ix symbols) (iv_iter (ix_final_bindings ix)) [] }"

definition final_of :: "semantic_index \<Rightarrow> string \<Rightarrow> bindings option option" where
  "final_of ix name = do {
     symbols \<leftarrow> iv_get (ix_symbol_tables ix) 0;
     Some (do { sid \<leftarrow> st_id symbols name; iv_get (ix_final_bindings ix) sid }) }"

definition export_is_bound :: "semantic_index \<Rightarrow> string \<Rightarrow> bool option" where
  "export_is_bound ix name =
     map_option (\<lambda>r. case r of None \<Rightarrow> False | Some b \<Rightarrow> \<not> bd_may_be_unbound b) (final_of ix name)"

definition export :: "semantic_index \<Rightarrow> string \<Rightarrow> (nat \<times> defn) list option" where
  "export ix name = do {
     r \<leftarrow> final_of ix name;
     file_definitions ix (case r of None \<Rightarrow> [] | Some b \<Rightarrow> bd_definitions b) }"

definition attach_package :: "semantic_call \<Rightarrow> string list" where
  "attach_package call = (case ca_kind call of Attach package _ \<Rightarrow> [package] | Source _ _ \<Rightarrow> [])"

definition attached_packages :: "semantic_index \<Rightarrow> string list option" where
  "attached_packages ix =
     foldM (\<lambda>call acc. do {
        eager \<leftarrow> scope_is_eager ix (ca_scope call);
        Some (if eager then acc @ attach_package call else acc) }) (ix_semantic_calls ix) []"

definition attached_packages_anywhere :: "semantic_index \<Rightarrow> string list" where
  "attached_packages_anywhere ix = concat (map attach_package (ix_semantic_calls ix))"

definition exports_at_sources :: "semantic_index \<Rightarrow> text_size list \<Rightarrow> exports_at_source option" where
  "exports_at_sources ix offsets = timeline_exports (ix_bindings_at_sources ix, ix_source_ranks ix) offsets"

end
