(* ===== verification/Scope_Arena.thy ===== *)
theory Scope_Arena
  imports Semantic_Index
begin

text \<open>
  The scope arena. Scopes are allocated in preorder, so the descendants of a scope are the
  contiguous block between its own position and the end it records when it is closed. This
  theory states that invariant, for a finished arena and for one under construction (where the
  scopes on the path to the current one are still open), and proves what the iterators over the
  scope tree return under it.
\<close>

section \<open>The preorder invariant\<close>

text \<open>
  \<open>stop i\<close> is the end of the block of scope \<open>i\<close>. The last two conjuncts tie the blocks to the
  parent links: the block of a child lies inside the block of its parent, and whatever lies inside
  a block has its parent there.
\<close>

definition arena_at :: "scope list \<Rightarrow> (nat \<Rightarrow> nat) \<Rightarrow> bool" where
  "arena_at scopes stop \<longleftrightarrow>
     scopes \<noteq> [] \<and> sc_parent (scopes ! 0) = None \<and>
     (\<forall>i<length scopes. sc_desc_start (scopes ! i) = Suc i \<and> i < stop i \<and> stop i \<le> length scopes) \<and>
     (\<forall>j<length scopes. 0 < j \<longrightarrow>
        (\<exists>p. sc_parent (scopes ! j) = Some p \<and> p < j \<and> j < stop p \<and> stop j \<le> stop p)) \<and>
     (\<forall>i j. i < j \<longrightarrow> j < stop i \<longrightarrow> i < length scopes \<longrightarrow> (\<exists>p. sc_parent (scopes ! j) = Some p \<and> i \<le> p))"

definition arena_closed :: "scope list \<Rightarrow> bool" where
  "arena_closed scopes \<longleftrightarrow> arena_at scopes (\<lambda>i. sc_desc_end (scopes ! i))"

lemma arena_at_parent:
  assumes "arena_at scopes stop" and "j < length scopes" and "sc_parent (scopes ! j) = Some p"
  shows "p < j" and "j < stop p" and "stop j \<le> stop p" and "0 < j"
proof -
  show "0 < j" using assms unfolding arena_at_def by (cases "j = 0") auto
  then obtain q where "sc_parent (scopes ! j) = Some q" "q < j" "j < stop q" "stop j \<le> stop q"
    using assms(1,2) unfolding arena_at_def by blast
  then show "p < j" and "j < stop p" and "stop j \<le> stop p" using assms(3) by auto
qed

lemma arena_at_child_parent:
  "arena_at scopes stop \<Longrightarrow> j < length scopes \<Longrightarrow> 0 < j \<Longrightarrow> \<exists>p<j. sc_parent (scopes ! j) = Some p"
  unfolding arena_at_def by blast

lemma arena_at_root:
  "arena_at scopes stop \<Longrightarrow> j < length scopes \<Longrightarrow> sc_parent (scopes ! j) = None \<longleftrightarrow> j = 0"
  using arena_at_child_parent [of scopes stop j] unfolding arena_at_def by (cases "j = 0") auto

lemma arena_at_stop:
  "arena_at scopes stop \<Longrightarrow> i < length scopes \<Longrightarrow>
     sc_desc_start (scopes ! i) = Suc i \<and> i < stop i \<and> stop i \<le> length scopes"
  unfolding arena_at_def by blast

lemma arena_at_inside:
  "arena_at scopes stop \<Longrightarrow> i < length scopes \<Longrightarrow> i < j \<Longrightarrow> j < stop i \<Longrightarrow>
     \<exists>p. sc_parent (scopes ! j) = Some p \<and> i \<le> p"
  unfolding arena_at_def by blast

section \<open>The ancestor chain\<close>

text \<open>The chain as a total function on arenas whose parents precede their children.\<close>

definition parents_ok :: "scope list \<Rightarrow> bool" where
  "parents_ok scopes \<longleftrightarrow> (\<forall>j<length scopes. \<forall>p. sc_parent (scopes ! j) = Some p \<longrightarrow> p < j)"

lemma arena_at_parents_ok: "arena_at scopes stop \<Longrightarrow> parents_ok scopes"
  unfolding parents_ok_def using arena_at_parent(1) by blast

lemma ancestors_upto_enough:
  assumes "parents_ok scopes" and "i < length scopes" and "i < n"
  shows "\<exists>is. ancestors_upto n scopes i = Some (i # is) \<and> (\<forall>a\<in>set is. a < i)"
  using assms(2,3)
proof (induction n arbitrary: i)
  case (Suc n)
  show ?case
  proof (cases "sc_parent (scopes ! i)")
    case None
    then show ?thesis using Suc.prems by simp
  next
    case (Some p)
    with assms(1) Suc.prems have "p < i" by (auto simp: parents_ok_def)
    with Suc.IH [of p] Suc.prems obtain "is" where
      "ancestors_upto n scopes p = Some (p # is)" "\<forall>a\<in>set is. a < p" by auto
    with Some Suc.prems \<open>p < i\<close> show ?thesis by auto
  qed
qed simp

lemma ancestors_upto_mono:
  "ancestors_upto n scopes i = Some is \<Longrightarrow> n \<le> m \<Longrightarrow> ancestors_upto m scopes i = Some is"
proof (induction n arbitrary: m i "is")
  case (Suc n)
  then obtain m' where m: "m = Suc m'" "n \<le> m'" by (cases m) auto
  from Suc.prems(1) obtain sc where sc: "iv_get scopes i = Some sc" by (auto split: Option.bind_splits)
  show ?case
  proof (cases "sc_parent sc")
    case (Some p)
    with Suc.prems(1) sc obtain ps where ps: "ancestors_upto n scopes p = Some ps" "is = i # ps"
      by (auto split: Option.bind_splits)
    with Suc.IH [OF ps(1) m(2)] Some sc show ?thesis by (simp add: m(1))
  qed (use Suc.prems sc in \<open>simp add: m(1)\<close>)
qed simp

definition chain :: "scope list \<Rightarrow> nat \<Rightarrow> nat list" where
  "chain scopes i = (case scope_ancestors scopes i of None \<Rightarrow> [] | Some is \<Rightarrow> is)"

lemma scope_ancestors_chain:
  "parents_ok scopes \<Longrightarrow> i < length scopes \<Longrightarrow> scope_ancestors scopes i = Some (chain scopes i)"
  using ancestors_upto_enough [of scopes i "length scopes"] by (auto simp: chain_def scope_ancestors_def)

lemma chain_simps:
  assumes "parents_ok scopes" and "i < length scopes"
  shows "chain scopes i = i # (case sc_parent (scopes ! i) of None \<Rightarrow> [] | Some p \<Rightarrow> chain scopes p)"
proof (cases "sc_parent (scopes ! i)")
  case None
  obtain n where "length scopes = Suc n" using assms(2) by (cases scopes) auto
  with None assms(2) show ?thesis by (simp add: chain_def scope_ancestors_def)
next
  case (Some p)
  then have p: "p < i" using assms by (auto simp: parents_ok_def)
  obtain n where n: "length scopes = Suc n" using assms(2) by (cases scopes) auto
  with p assms obtain "is" where "is": "ancestors_upto n scopes p = Some is"
    using ancestors_upto_enough [of scopes p n] by auto
  then have "ancestors_upto (length scopes) scopes p = Some is"
    by (rule ancestors_upto_mono) (simp add: n)
  with "is" n Some assms(2) show ?thesis by (simp add: chain_def scope_ancestors_def)
qed

lemma chain_le: "parents_ok scopes \<Longrightarrow> i < length scopes \<Longrightarrow> a \<in> set (chain scopes i) \<Longrightarrow> a \<le> i"
  using ancestors_upto_enough [of scopes i "length scopes"]
  by (auto simp: chain_def scope_ancestors_def intro: less_imp_le)

lemma chain_self: "parents_ok scopes \<Longrightarrow> i < length scopes \<Longrightarrow> i \<in> set (chain scopes i)"
  by (subst chain_simps) auto

lemma chain_parent:
  "parents_ok scopes \<Longrightarrow> i < length scopes \<Longrightarrow> sc_parent (scopes ! i) = Some p \<Longrightarrow>
     chain scopes i = i # chain scopes p"
  by (subst chain_simps) auto

lemma chain_trans_parent:
  assumes "parents_ok scopes" and "s < length scopes" and "c \<in> set (chain scopes s)"
    and "sc_parent (scopes ! c) = Some p"
  shows "p \<in> set (chain scopes s)"
  using assms(2,3)
proof (induction s rule: less_induct)
  case (less s)
  note cs = chain_simps [OF assms(1) less.prems(1)]
  show ?case
  proof (cases "sc_parent (scopes ! s)")
    case None
    with less.prems cs assms(4) show ?thesis by auto
  next
    case (Some q)
    then have q: "q < s" using assms(1) less.prems(1) by (auto simp: parents_ok_def)
    show ?thesis
    proof (cases "c = s")
      case True
      then show ?thesis using Some cs assms(4) chain_self [OF assms(1), of p] q less.prems(1) by simp
    next
      case False
      then show ?thesis using Some cs less.IH [OF q] less.prems q by simp
    qed
  qed
qed

lemma chain_in_range:
  "parents_ok scopes \<Longrightarrow> i < length scopes \<Longrightarrow> a \<in> set (chain scopes i) \<Longrightarrow> a < length scopes"
  using chain_le by fastforce

text \<open>The chain only depends on the parent links of the scopes up to its start.\<close>

lemma chain_cong:
  assumes ok: "parents_ok scopes" "parents_ok scopes'" and i: "i < length scopes" "i < length scopes'"
    and same: "\<And>j. j \<le> i \<Longrightarrow> sc_parent (scopes' ! j) = sc_parent (scopes ! j)"
  shows "chain scopes' i = chain scopes i"
  using i same
proof (induction i rule: less_induct)
  case (less i)
  show ?case
  proof (cases "sc_parent (scopes ! i)")
    case None
    then show ?thesis using less.prems ok by (simp add: chain_simps)
  next
    case (Some p)
    with ok(1) less.prems have "p < i" by (auto simp: parents_ok_def)
    with less have "chain scopes' p = chain scopes p" by simp
    with Some less.prems ok show ?thesis by (simp add: chain_parent)
  qed
qed

section \<open>Blocks are descendants\<close>

lemma arena_block_nested:
  assumes "arena_at scopes stop" and "j < length scopes" and "i \<in> set (chain scopes j)"
  shows "stop j \<le> stop i"
  using assms(2,3)
proof (induction j rule: less_induct)
  case (less j)
  note ok = arena_at_parents_ok [OF assms(1)]
  show ?case
  proof (cases "i = j")
    case False
    with less.prems ok obtain p where p: "sc_parent (scopes ! j) = Some p" "i \<in> set (chain scopes p)"
      by (cases "sc_parent (scopes ! j)") (auto simp: chain_simps [OF ok less.prems(1)])
    note pj = arena_at_parent [OF assms(1) less.prems(1) p(1)]
    have "stop p \<le> stop i" using less.IH [of p] pj p less.prems by simp
    with pj show ?thesis by simp
  qed simp
qed

theorem arena_block_iff_ancestor:
  assumes "arena_at scopes stop" and "i < length scopes" and "j < length scopes"
  shows "i < j \<and> j < stop i \<longleftrightarrow> i \<noteq> j \<and> i \<in> set (chain scopes j)"
proof
  note ok = arena_at_parents_ok [OF assms(1)]
  show "i < j \<and> j < stop i \<Longrightarrow> i \<noteq> j \<and> i \<in> set (chain scopes j)"
    using assms(3)
  proof (induction j rule: less_induct)
    case (less j)
    then obtain p where p: "sc_parent (scopes ! j) = Some p" "i \<le> p"
      using arena_at_inside [OF assms(1,2)] by blast
    note pj = arena_at_parent [OF assms(1) less.prems(2) p(1)]
    have "i \<in> set (chain scopes p)"
    proof (cases "i = p")
      case True
      then show ?thesis using chain_self [OF ok] pj less.prems by simp
    next
      case False
      with less.IH [of p] p pj less.prems show ?thesis by simp
    qed
    with p less.prems ok show ?case by (simp add: chain_parent)
  qed
  assume a: "i \<noteq> j \<and> i \<in> set (chain scopes j)"
  then have "i < j" using chain_le [OF ok assms(3)] by fastforce
  moreover have "j < stop i"
    using arena_block_nested [OF assms(1,3)] a arena_at_stop [OF assms(1,3)] by fastforce
  ultimately show "i < j \<and> j < stop i" by simp
qed

section \<open>The children of a scope\<close>

lemma children_upto_filter:
  assumes ar: "arena_at scopes stop" and i: "i < length scopes"
    and stop: "\<And>j. i < j \<Longrightarrow> j < stop i \<Longrightarrow> sc_desc_end (scopes ! j) = stop j"
  shows "stop i - c < n \<Longrightarrow> i < c \<Longrightarrow> c \<le> stop i \<Longrightarrow> (\<And>p. i < p \<Longrightarrow> p < c \<Longrightarrow> stop p \<le> c) \<Longrightarrow>
    children_upto n scopes c (stop i) = Some (filter (\<lambda>j. sc_parent (scopes ! j) = Some i) [c..<stop i])"
proof (induction n arbitrary: c)
  case (Suc n)
  note ok = arena_at_parents_ok [OF ar]
  show ?case
  proof (cases "c < stop i")
    case True
    let ?P = "\<lambda>j. sc_parent (scopes ! j) = Some i"
    have le: "stop i \<le> length scopes" using arena_at_stop [OF ar i] by simp
    with True have c: "c < length scopes" by simp
    note sc = arena_at_stop [OF ar c]
    obtain p where p: "sc_parent (scopes ! c) = Some p" "i \<le> p"
      using arena_at_inside [OF ar i] Suc.prems True by blast
    have "p = i"
    proof (rule ccontr)
      assume "p \<noteq> i"
      with p arena_at_parent [OF ar c p(1)] Suc.prems(4) [of p] show False by simp
    qed
    with p have pc: "?P c" by simp
    note nest = arena_at_parent [OF ar c pc]
    have inner: "\<not> ?P j" if "c < j" "j < stop c" for j
      using arena_at_inside [OF ar c that] Suc.prems(2) by auto
    have "children_upto n scopes (stop c) (stop i) = Some (filter ?P [stop c..<stop i])"
    proof (rule Suc.IH)
      show "stop i - stop c < n" using Suc.prems(1) sc True by linarith
      show "i < stop c" using Suc.prems(2) sc by linarith
      show "stop c \<le> stop i" by (rule nest(3))
      show "stop q \<le> stop c" if "i < q" "q < stop c" for q
      proof (cases "q < c")
        case True
        with Suc.prems(4) [OF that(1)] sc show ?thesis by linarith
      next
        case False
        then have "c \<in> set (chain scopes q)"
          using arena_block_iff_ancestor [OF ar c, of q] chain_self [OF ok c] that le nest(3)
          by (cases "q = c") auto
        with arena_block_nested [OF ar, of q c] that le nest(3) show ?thesis by simp
      qed
    qed
    moreover have "filter ?P [c..<stop i] = c # filter ?P [stop c..<stop i]"
    proof -
      have "[c..<stop i] = c # [Suc c..<stop c] @ [stop c..<stop i]"
        using True sc nest(3) upt_split [of "Suc c" "stop c" "stop i"] by (simp add: upt_conv_Cons)
      moreover have "filter ?P [Suc c..<stop c] = []" using inner by (auto simp: filter_empty_conv)
      ultimately show ?thesis using pc by simp
    qed
    ultimately show ?thesis using True c stop [of c] Suc.prems(2) by simp
  qed simp
qed simp

lemma child_scope_ids_closed:
  assumes "arena_closed (ix_scopes ix)" and "i < length (ix_scopes ix)"
  shows "child_scope_ids ix i =
    Some (filter (\<lambda>j. sc_parent (ix_scopes ix ! j) = Some i) [0..<length (ix_scopes ix)])"
proof -
  let ?s = "ix_scopes ix"
  let ?stop = "\<lambda>i. sc_desc_end (?s ! i)"
  have ar: "arena_at ?s ?stop" using assms(1) by (simp add: arena_closed_def)
  note st = arena_at_stop [OF ar assms(2)]
  have "children_upto (Suc (length ?s)) ?s (Suc i) (?stop i) =
      Some (filter (\<lambda>j. sc_parent (?s ! j) = Some i) [Suc i..<?stop i])"
    by (rule children_upto_filter [OF ar assms(2)]) (use st in auto)
  moreover have "filter (\<lambda>j. sc_parent (?s ! j) = Some i) [0..<length ?s] =
      filter (\<lambda>j. sc_parent (?s ! j) = Some i) [Suc i..<?stop i]"
  proof -
    have "[0..<length ?s] = [0..<Suc i] @ [Suc i..<?stop i] @ [?stop i..<length ?s]"
      using st upt_split [of 0 "Suc i" "length ?s"] upt_split [of "Suc i" "?stop i" "length ?s"]
      by (simp del: upt_Suc)
    moreover have "sc_parent (?s ! j) \<noteq> Some i" if "j < Suc i" for j
      using arena_at_parent(1) [OF ar, of j i] assms(2) that by auto
    then have "filter (\<lambda>j. sc_parent (?s ! j) = Some i) [0..<Suc i] = []"
      by (simp add: filter_empty_conv del: upt_Suc)
    moreover have "sc_parent (?s ! j) \<noteq> Some i" if "?stop i \<le> j" "j < length ?s" for j
      using arena_at_parent(2) [OF ar, of j i] that by auto
    then have "filter (\<lambda>j. sc_parent (?s ! j) = Some i) [?stop i..<length ?s] = []"
      by (simp add: filter_empty_conv)
    ultimately show ?thesis by (simp del: upt_Suc)
  qed
  ultimately show ?thesis using st assms(2) by (simp add: child_scope_ids_def del: children_upto.simps)
qed

section \<open>The innermost scope at an offset\<close>

lemma scope_at_upto_ok:
  assumes ar: "arena_closed (ix_scopes ix)"
  shows "i < length (ix_scopes ix) \<Longrightarrow> length (ix_scopes ix) - i \<le> n \<Longrightarrow>
    \<exists>s. scope_at_upto n ix offset i = Some s \<and> s < length (ix_scopes ix) \<and> i \<in> set (chain (ix_scopes ix) s) \<and>
      (s \<noteq> i \<longrightarrow> tr_contains (sc_range (ix_scopes ix ! s)) offset) \<and>
      (\<forall>c<length (ix_scopes ix). sc_parent (ix_scopes ix ! c) = Some s \<longrightarrow>
         \<not> tr_contains (sc_range (ix_scopes ix ! c)) offset)"
proof (induction n arbitrary: i)
  case (Suc n)
  let ?s = "ix_scopes ix"
  let ?in = "\<lambda>c. tr_contains (sc_range (?s ! c)) offset"
  let ?cs = "filter (\<lambda>j. sc_parent (?s ! j) = Some i) [0..<length ?s]"
  have at: "arena_at ?s (\<lambda>i. sc_desc_end (?s ! i))" using ar by (simp add: arena_closed_def)
  note ok = arena_at_parents_ok [OF at]
  have cs: "child_scope_ids ix i = Some ?cs" by (rule child_scope_ids_closed [OF ar Suc.prems(1)])
  show ?case
  proof (cases "find ?in ?cs")
    case None
    then have "scope_at_upto (Suc n) ix offset i = Some i" by (simp add: cs)
    moreover have "\<forall>c<length ?s. sc_parent (?s ! c) = Some i \<longrightarrow> \<not> ?in c" using None by (auto simp: find_None_iff)
    ultimately show ?thesis using Suc.prems(1) chain_self [OF ok Suc.prems(1)] by blast
  next
    case (Some c)
    then have c: "c < length ?s" "sc_parent (?s ! c) = Some i" "?in c" by (auto dest: find_Some_in)
    have "length ?s - c \<le> n" using arena_at_parent(1) [OF at c(1,2)] Suc.prems by linarith
    from Suc.IH [OF c(1) this] obtain s where s: "scope_at_upto n ix offset c = Some s"
      "s < length ?s" "c \<in> set (chain ?s s)" "s \<noteq> c \<longrightarrow> ?in s"
      "\<forall>d<length ?s. sc_parent (?s ! d) = Some s \<longrightarrow> \<not> ?in d"
      by blast
    moreover have "i \<in> set (chain ?s s)"
      using chain_trans_parent [OF ok s(2,3) c(2)] by simp
    moreover have "scope_at_upto (Suc n) ix offset i = Some s" using s(1) by (simp add: cs Some)
    ultimately show ?thesis using c(3) by blast
  qed
qed simp

section \<open>Arenas under construction\<close>

text \<open>
  While the builder works in scope \<open>cur\<close>, the scopes on the chain of \<open>cur\<close> are open: their
  blocks reach to the end of the arena, whatever their recorded end says.
\<close>

definition open_stop :: "scope list \<Rightarrow> nat \<Rightarrow> nat \<Rightarrow> nat" where
  "open_stop scopes cur i = (if i \<in> set (chain scopes cur) then length scopes else sc_desc_end (scopes ! i))"

definition arena_open :: "scope list \<Rightarrow> nat \<Rightarrow> bool" where
  "arena_open scopes cur \<longleftrightarrow> cur < length scopes \<and> arena_at scopes (open_stop scopes cur)"

lemma arena_open_parents_ok: "arena_open scopes cur \<Longrightarrow> parents_ok scopes"
  by (auto simp: arena_open_def arena_at_parents_ok)

definition new_scope :: "nat \<Rightarrow> scope_kind \<Rightarrow> text_range \<Rightarrow> nat \<Rightarrow> scope" where
  "new_scope parent kind rng n = \<lparr>sc_parent = Some parent, sc_kind = kind, sc_range = rng,
     sc_desc_start = n + 1, sc_desc_end = n + 1\<rparr>"

lemma arena_open_push:
  fixes scopes :: "scope list" and kind :: scope_kind and rng :: text_range
  assumes op: "arena_open scopes cur"
  defines "scopes' \<equiv> scopes @ [new_scope cur kind rng (length scopes)]"
  shows "arena_open scopes' (length scopes)" and "chain scopes' (length scopes) = length scopes # chain scopes cur"
    and "\<And>i. i < length scopes \<Longrightarrow> chain scopes' i = chain scopes i"
proof -
  let ?n = "length scopes" and ?e = "open_stop scopes cur"
  have cur: "cur < ?n" and at: "arena_at scopes ?e" using op by (auto simp: arena_open_def)
  note ok = arena_open_parents_ok [OF op]
  have nth: "scopes' ! j = scopes ! j" if "j < ?n" for j using that by (simp add: scopes'_def nth_append)
  have new: "scopes' ! ?n = new_scope cur kind rng ?n" by (simp add: scopes'_def)
  have len: "length scopes' = Suc ?n" by (simp add: scopes'_def)
  have ok': "parents_ok scopes'"
    using ok cur by (auto simp: parents_ok_def len less_Suc_eq nth new new_scope_def)
  show old: "chain scopes' i = chain scopes i" if "i < ?n" for i
    by (rule chain_cong [OF ok ok']) (use that len nth in auto)
  show ch: "chain scopes' ?n = ?n # chain scopes cur"
    using chain_parent [OF ok', of ?n cur] old [OF cur] by (simp add: len new new_scope_def)
  have e: "open_stop scopes' ?n i =
      (if i = ?n then Suc ?n else if i \<in> set (chain scopes cur) then Suc ?n else sc_desc_end (scopes ! i))"
    if "i < Suc ?n" for i
    using that nth [of i] by (auto simp: open_stop_def ch len)
  have lt: "a < ?n" if "a \<in> set (chain scopes cur)" for a using chain_in_range [OF ok cur that] .
  have closed: "?e i \<le> ?n" "?e i = sc_desc_end (scopes ! i)" if "i < ?n" "i \<notin> set (chain scopes cur)" for i
    using arena_at_stop [OF at that(1)] that(2) by (auto simp: open_stop_def)
  have "arena_at scopes' (open_stop scopes' ?n)"
    unfolding arena_at_def
  proof (intro conjI allI impI)
    show "scopes' \<noteq> []" by (simp add: scopes'_def)
    show "sc_parent (scopes' ! 0) = None" using at cur by (auto simp: arena_at_def nth)
  next
    fix i assume i: "i < length scopes'"
    show "sc_desc_start (scopes' ! i) = Suc i"
      using i arena_at_stop [OF at] by (auto simp: len less_Suc_eq nth new new_scope_def)
    show "i < open_stop scopes' ?n i" "open_stop scopes' ?n i \<le> length scopes'"
      using i arena_at_stop [OF at, of i] closed [of i] e [of i] by (auto simp: len less_Suc_eq)
  next
    fix j assume j: "j < length scopes'" "0 < j"
    show "\<exists>p. sc_parent (scopes' ! j) = Some p \<and> p < j \<and> j < open_stop scopes' ?n p \<and>
        open_stop scopes' ?n j \<le> open_stop scopes' ?n p"
    proof (cases "j = ?n")
      case True
      then show ?thesis using cur e [of cur] e [of ?n] chain_self [OF ok cur] by (auto simp: new new_scope_def)
    next
      case False
      with j len have jn: "j < ?n" by simp
      obtain p where p: "sc_parent (scopes ! j) = Some p" using arena_at_child_parent [OF at jn j(2)] by blast
      note pj = arena_at_parent [OF at jn p]
      have "j \<in> set (chain scopes cur) \<Longrightarrow> p \<in> set (chain scopes cur)"
        using chain_trans_parent [OF ok cur _ p] by blast
      then show ?thesis
        using pj p jn nth [OF jn] e [of p] e [of j] closed [of j] closed [of p]
        by (auto simp: open_stop_def)
    qed
  next
    fix i j assume ij: "i < j" "j < open_stop scopes' ?n i" "i < length scopes'"
    show "\<exists>p. sc_parent (scopes' ! j) = Some p \<and> i \<le> p"
    proof (cases "j < ?n")
      case True
      then have "j < ?e i" using ij e [of i] by (auto simp: open_stop_def split: if_splits)
      with arena_at_inside [OF at _ ij(1), of] True ij(1) nth [OF True] show ?thesis by simp
    next
      case False
      have i: "i < ?n" using ij False len by (cases "i = ?n") (auto simp: e less_Suc_eq split: if_splits)
      then have "i \<in> set (chain scopes cur)" using False ij e [of i] closed [of i] by (auto split: if_splits)
      moreover have "j = ?n" using False ij e [of i] i closed [of i] by (auto split: if_splits)
      ultimately show ?thesis using chain_le [OF ok cur] by (auto simp: new new_scope_def)
    qed
  qed
  then show "arena_open scopes' ?n" by (simp add: arena_open_def len)
qed

lemma chain_desc_end [simp]:
  assumes "parents_ok scopes" and "i < length scopes"
  shows "parents_ok (scopes[k := (scopes ! k)\<lparr>sc_desc_end := e\<rparr>])"
    and "chain (scopes[k := (scopes ! k)\<lparr>sc_desc_end := e\<rparr>]) i = chain scopes i"
proof -
  have par: "sc_parent (scopes[k := (scopes ! k)\<lparr>sc_desc_end := e\<rparr>] ! j) = sc_parent (scopes ! j)" for j
    by (cases "j = k \<and> k < length scopes") (auto simp: nth_list_update list_update_beyond)
  then show ok: "parents_ok (scopes[k := (scopes ! k)\<lparr>sc_desc_end := e\<rparr>])"
    using assms(1) by (simp add: parents_ok_def)
  show "chain (scopes[k := (scopes ! k)\<lparr>sc_desc_end := e\<rparr>]) i = chain scopes i"
    by (rule chain_cong [OF assms(1) ok]) (use assms(2) par in auto)
qed

lemma arena_at_cong:
  assumes "arena_at scopes stop" and "length scopes' = length scopes"
    and "\<And>j. j < length scopes \<Longrightarrow> sc_parent (scopes' ! j) = sc_parent (scopes ! j) \<and>
      sc_desc_start (scopes' ! j) = sc_desc_start (scopes ! j) \<and> stop' j = stop j"
  shows "arena_at scopes' stop'"
proof -
  have pos: "0 < length scopes" using assms(1) by (auto simp: arena_at_def)
  note same = assms(3)
  show ?thesis
    unfolding arena_at_def
  proof (intro conjI allI impI)
    show "scopes' \<noteq> []" using pos assms(2) by auto
    show "sc_parent (scopes' ! 0) = None" using assms(1) same [OF pos] by (simp add: arena_at_def)
  next
    fix i assume "i < length scopes'"
    then have i: "i < length scopes" by (simp add: assms(2))
    show "sc_desc_start (scopes' ! i) = Suc i" and "i < stop' i" and "stop' i \<le> length scopes'"
      using arena_at_stop [OF assms(1) i] same [OF i] assms(2) by auto
  next
    fix j assume "j < length scopes'" "0 < j"
    then have j: "j < length scopes" by (simp add: assms(2))
    with arena_at_child_parent [OF assms(1) j \<open>0 < j\<close>] obtain p where p: "sc_parent (scopes ! j) = Some p" "p < j"
      by blast
    with arena_at_parent [OF assms(1) j p(1)] same [OF j] same [of p] j
    show "\<exists>p. sc_parent (scopes' ! j) = Some p \<and> p < j \<and> j < stop' p \<and> stop' j \<le> stop' p" by simp
  next
    fix i j assume ij: "i < j" "j < stop' i" "i < length scopes'"
    then have i: "i < length scopes" by (simp add: assms(2))
    with ij same [OF i] have "j < stop i" by simp
    with arena_at_stop [OF assms(1) i] arena_at_inside [OF assms(1) i ij(1)] same [of j]
    show "\<exists>p. sc_parent (scopes' ! j) = Some p \<and> i \<le> p" by simp
  qed
qed

lemma arena_open_pop:
  fixes scopes :: "scope list"
  assumes op: "arena_open scopes cur" and par: "sc_parent (scopes ! cur) = Some p"
  defines "scopes' \<equiv> scopes[cur := (scopes ! cur)\<lparr>sc_desc_end := length scopes\<rparr>]"
  shows "arena_open scopes' p" and "\<And>i. i < length scopes \<Longrightarrow> chain scopes' i = chain scopes i"
proof -
  have cur: "cur < length scopes" and at: "arena_at scopes (open_stop scopes cur)"
    using op by (auto simp: arena_open_def)
  note ok = arena_open_parents_ok [OF op]
  have p: "p < cur" using ok cur par by (auto simp: parents_ok_def)
  show ch: "chain scopes' i = chain scopes i" if "i < length scopes" for i
    unfolding scopes'_def using ok that by simp
  have "chain scopes cur = cur # chain scopes p" by (rule chain_parent [OF ok cur par])
  then have "open_stop scopes' p j = open_stop scopes cur j" for j
    using ch [of p] p cur by (auto simp: open_stop_def scopes'_def nth_list_update)
  then have "arena_at scopes' (open_stop scopes' p)"
    using cur by (intro arena_at_cong [OF at]) (auto simp: scopes'_def nth_list_update)
  then show "arena_open scopes' p" using p cur by (simp add: arena_open_def scopes'_def)
qed

text \<open>Closing the file scope, as \<open>finish\<close> does, leaves a finished arena.\<close>

lemma arena_open_finish:
  assumes op: "arena_open scopes 0"
  shows "arena_closed (scopes[0 := (scopes ! 0)\<lparr>sc_desc_end := length scopes\<rparr>])"
proof -
  have pos: "0 < length scopes" and at: "arena_at scopes (open_stop scopes 0)"
    using op by (auto simp: arena_open_def)
  have "sc_parent (scopes ! 0) = None" using at by (simp add: arena_at_def)
  then have "chain scopes 0 = [0]"
    using chain_simps [OF arena_open_parents_ok [OF op] pos] by simp
  then show ?thesis
    unfolding arena_closed_def using pos
    by (intro arena_at_cong [OF at]) (auto simp: open_stop_def nth_list_update)
qed

lemma arena_open_file:
  "arena_open [\<lparr>sc_parent = None, sc_kind = File, sc_range = rng, sc_desc_start = 1, sc_desc_end = 1\<rparr>] 0"
  by (auto simp: arena_open_def arena_at_def open_stop_def chain_def scope_ancestors_def)

end
