(* ===== verification/Effects.thy ===== *)
theory Effects
  imports Semantic_Index
begin

text \<open>
  \<open>oak_semantic::effects\<close>: the handlers that compute what a recognised call does (scopes its
  arguments open, packages it attaches, files it sources, names it binds), argument matching and
  the static evaluation of arguments.

  The handler traits are closed datatypes with one constructor per implementation in the crate. A
  handler runs in a \<open>CallContext\<close>: the scope queries are a record of functions, and the list of
  consulted imports is threaded through. In result types the outer \<open>option\<close> is the panic, the
  inner one the \<open>None\<close> of the code.
\<close>

section \<open>Annotations\<close>

type_synonym formals = "string list"

datatype target_access = Write | ReadWrite

datatype dir_walk = Shallow | Recursive

datatype source_target = TargetFile | TargetDir dir_walk | TargetFileOrDir dir_walk

record source_path =
  sp_path :: string
  sp_target :: source_target

datatype argument_effect = AnnEvalQ eval_env eval_timing | AnnQuote

datatype arg_effect = EvalQ eval_env eval_timing | Quote "r_expr list"

text \<open>\<open>ResolvedArgumentEffects\<close>: one entry per call argument.\<close>

type_synonym arg_effects = "arg_effect option list"

record assign_binding =
  ab_name :: string
  ab_name_expr :: r_expr
  ab_value_expr :: "r_expr option"
  ab_target :: target_access

datatype arguments_handler =
    ArgumentsAnnotation formals "(string \<times> argument_effect) list"
  | BquoteHandler
  | SubstituteHandler

datatype attach_handler = LibraryHandler

datatype source_handler = SourceAnnotation formals string source_target "string option"

datatype assign_handler =
    AssignAnnotation formals string string formals
  | BindingOperatorHandler target_access

datatype value_handler = CHandler

record effects_handlers =
  eh_arguments :: "arguments_handler option"
  eh_attach :: "attach_handler option"
  eh_source :: "source_handler option"
  eh_assign :: "assign_handler option"

definition EMPTY :: effects_handlers where
  "EMPTY = \<lparr>eh_arguments = None, eh_attach = None, eh_source = None, eh_assign = None\<rparr>"

definition eh_is_empty :: "effects_handlers \<Rightarrow> bool" where
  "eh_is_empty h \<longleftrightarrow> eh_arguments h = None \<and> eh_attach h = None \<and> eh_source h = None \<and> eh_assign h = None"

record function_handlers =
  fh_effects :: effects_handlers
  fh_value :: "value_handler option"

definition with_effects :: "effects_handlers \<Rightarrow> function_handlers" where
  "with_effects h = \<lparr>fh_effects = h, fh_value = None\<rparr>"

definition with_value :: "value_handler \<Rightarrow> function_handlers" where
  "with_value v = \<lparr>fh_effects = EMPTY, fh_value = Some v\<rparr>"

definition has_effects :: "function_handlers \<Rightarrow> bool" where
  "has_effects h \<longleftrightarrow> \<not> eh_is_empty (fh_effects h)"

definition has_value :: "function_handlers \<Rightarrow> bool" where
  "has_value h \<longleftrightarrow> fh_value h \<noteq> None"

record effects =
  ef_arguments :: "arg_effects option"
  ef_attach :: "string option"
  ef_source :: "source_path list option"
  ef_assign :: "assign_binding list option"

section \<open>Callee resolutions\<close>

datatype callee_origin = OriginLocal | OriginImport | OriginQualified | OriginDynamic

record dropped_attach =
  da_package :: string
  da_attach_range :: text_range
  da_handlers :: function_handlers

datatype callee_uncertainty =
    UncertainLazyShadow text_range
  | UncertainConditionalAttach "dropped_attach list"

record callee_resolution =
  cr_origin :: callee_origin
  cr_handlers :: "function_handlers option"
  cr_uncertainty :: "callee_uncertainty option"

definition settled :: "callee_origin \<Rightarrow> function_handlers option \<Rightarrow> callee_resolution" where
  "settled origin handlers = \<lparr>cr_origin = origin, cr_handlers = handlers, cr_uncertainty = None\<rparr>"

definition ambiguity :: "callee_resolution \<Rightarrow> (function_handlers \<Rightarrow> bool) \<Rightarrow> ambiguity_reason option" where
  "ambiguity r uses =
     (case cr_uncertainty r of
        None \<Rightarrow> None
      | Some (UncertainLazyShadow overwrite_range) \<Rightarrow>
          (case cr_handlers r of
             None \<Rightarrow> None
           | Some h \<Rightarrow> if uses h then Some (LazyShadow overwrite_range) else None)
      | Some (UncertainConditionalAttach dropped) \<Rightarrow>
          map_option (\<lambda>a. ConditionalAttach (da_package a) (da_attach_range a))
            (find (\<lambda>a. uses (da_handlers a)) dropped))"

section \<open>Argument matching\<close>

text \<open>\<open>iter().position(...)\<close>.\<close>

fun position :: "('a \<Rightarrow> bool) \<Rightarrow> 'a list \<Rightarrow> nat option" where
  "position P [] = None"
| "position P (x # xs) = (if P x then Some 0 else map_option Suc (position P xs))"

definition match_named :: "r_argument \<Rightarrow> formals \<Rightarrow> nat option" where
  "match_named arg formals =
     (case arg of
        RArgument (Some (Some (ArgIdentifier text))) _ \<Rightarrow>
          position (\<lambda>f. f \<noteq> ''...'' \<and> f = name_text text) formals
      | RArgument (Some (Some (ArgString tok))) _ \<Rightarrow> do {
          name \<leftarrow> string_text tok;
          position (\<lambda>f. f \<noteq> ''...'' \<and> f = name) formals }
      | _ \<Rightarrow> None)"

definition has_name_clause :: "r_argument \<Rightarrow> bool" where
  "has_name_clause arg = (case arg of RArgument (Some _) _ \<Rightarrow> True | _ \<Rightarrow> False)"

text \<open>The first loop: \<open>None\<close> is its early return on a formal matched twice.\<close>

fun named_step :: "formals \<Rightarrow> nat \<times> r_argument \<Rightarrow> nat option list \<times> bool list \<Rightarrow>
    (nat option list \<times> bool list) option" where
  "named_step formals (i, arg) (matched, consumed) =
     (case match_named arg formals of
        None \<Rightarrow> Some (matched, consumed)
      | Some k \<Rightarrow> if consumed ! k then None else Some (matched[i := Some k], consumed[k := True]))"

text \<open>The \<open>while\<close> of the second loop.\<close>

function skip_consumed :: "bool list \<Rightarrow> nat \<Rightarrow> nat \<Rightarrow> nat" where
  "skip_consumed consumed positional slot =
     (if slot < positional \<and> consumed ! slot then skip_consumed consumed positional (Suc slot) else slot)"
  by pat_completeness auto
termination
  by (relation "measure (\<lambda>(_, positional, slot). positional - slot)") auto

declare skip_consumed.simps [simp del]

fun positional_step :: "nat \<Rightarrow> nat option list \<times> bool list \<times> nat \<Rightarrow> nat \<times> r_argument \<Rightarrow>
    nat option list \<times> bool list \<times> nat" where
  "positional_step positional (matched, consumed, slot) (i, arg) =
     (if arg = RArgumentError \<or> has_name_clause arg then (matched, consumed, slot)
      else
        let slot = skip_consumed consumed positional slot
        in if slot < positional
           then (matched[i := Some slot], consumed[slot := True], Suc slot)
           else (matched, consumed, slot))"

definition match_items :: "r_argument list \<Rightarrow> formals \<Rightarrow> nat option list option" where
  "match_items items formals = do {
     (matched, consumed) \<leftarrow> foldM (named_step formals) (enumerate 0 items)
       (replicate (length items) None, replicate (length formals) False);
     let positional = (case position (\<lambda>f. f = ''...'') formals of Some k \<Rightarrow> k | None \<Rightarrow> length formals);
     Some (fst (foldl (positional_step positional) (matched, consumed, 0) (enumerate 0 items))) }"

text \<open>\<open>call.arguments().ok()\<close>, for the call nodes the effect code is given.\<close>

fun call_arguments :: "r_expr \<Rightarrow> r_argument list option" where
  "call_arguments (RCall _ _ as) = as"
| "call_arguments _ = None"

fun call_function :: "r_expr \<Rightarrow> r_expr option" where
  "call_function (RCall _ f _) = f"
| "call_function _ = None"

definition match_arguments :: "r_expr \<Rightarrow> formals \<Rightarrow> nat option list option" where
  "match_arguments call formals = do { items \<leftarrow> call_arguments call; match_items items formals }"

record bound_arguments =
  ba_formals :: formals
  ba_bound :: "(nat option \<times> r_expr option) list"

definition ba_new :: "r_expr \<Rightarrow> formals \<Rightarrow> bound_arguments option" where
  "ba_new call formals = do {
     matched \<leftarrow> match_arguments call formals;
     items \<leftarrow> call_arguments call;
     Some \<lparr>ba_formals = formals, ba_bound = zip matched (map arg_value items)\<rparr> }"

definition ba_get :: "bound_arguments \<Rightarrow> string \<Rightarrow> r_expr option" where
  "ba_get b formal = do {
     k \<leftarrow> position (\<lambda>f. f = formal) (ba_formals b);
     e \<leftarrow> find (\<lambda>(m, _). m = Some k) (ba_bound b);
     snd e }"

definition ba_arguments :: "bound_arguments \<Rightarrow> (string option \<times> r_expr option) list" where
  "ba_arguments b = map (\<lambda>(m, v). (map_option (\<lambda>k. ba_formals b ! k) m, v)) (ba_bound b)"

definition ba_len :: "bound_arguments \<Rightarrow> nat" where
  "ba_len b = length (ba_bound b)"

definition inert_argument_effects :: "r_expr \<Rightarrow> arg_effects" where
  "inert_argument_effects call =
     replicate (case call_arguments call of Some items \<Rightarrow> length items | None \<Rightarrow> 0) (Some (Quote []))"

section \<open>Static values\<close>

datatype static_value = SNull | SCharacter "string list"

fun into_character :: "static_value \<Rightarrow> string list option" where
  "into_character (SCharacter elements) = Some elements"
| "into_character SNull = None"

record callee_import =
  ci_name :: string
  ci_call_range :: text_range
  ci_ambiguity :: "ambiguity_reason option"

text \<open>\<open>ScopeContext\<close>: what a handler asks the builder.\<close>

record scope_context =
  cx_is_bound :: "string \<Rightarrow> bool \<Rightarrow> bool option"
  cx_is_global :: "bool option"
  cx_resolve_callee :: "r_expr \<Rightarrow> callee_resolution option"

definition record_callee_import ::
    "r_expr \<Rightarrow> callee_resolution \<Rightarrow> callee_import list \<Rightarrow> callee_import list" where
  "record_callee_import call resolution imports =
     (if cr_origin resolution \<noteq> OriginImport then imports
      else case call_function call of
        Some (RIdentifier _ text) \<Rightarrow>
          if list_ex (\<lambda>i. ci_call_range i = trimmed_range call) imports then imports
          else imports @ [\<lparr>ci_name = name_text text, ci_call_range = trimmed_range call,
                          ci_ambiguity = ambiguity resolution has_value\<rparr>]
      | _ \<Rightarrow> imports)"

definition resolve_static_bool :: "r_expr \<Rightarrow> bool option" where
  "resolve_static_bool value = (case value of
     RTrueExpression _ \<Rightarrow> Some True | RFalseExpression _ \<Rightarrow> Some False | _ \<Rightarrow> None)"

text \<open>
  A computation of a handler: it reads the context, threads the consulted imports, can panic
  (outer \<open>None\<close>) and can return nothing (inner \<open>None\<close>).
\<close>

type_synonym 'a handler_run = "callee_import list \<Rightarrow> ('a option \<times> callee_import list) option"

text \<open>
  \<open>CHandler::evaluate\<close>, over the recursive call of \<open>resolve_static_value\<close>. \<open>out\<close> is
  \<open>None\<close> until a character vector was seen.
\<close>

fun c_elements :: "(r_expr \<Rightarrow> static_value handler_run) \<Rightarrow> (string option \<times> r_expr option) list \<Rightarrow>
    string list option \<Rightarrow> static_value handler_run" where
  "c_elements rec [] out is =
     Some (Some (case out of Some elements \<Rightarrow> SCharacter elements | None \<Rightarrow> SNull), is)"
| "c_elements rec ((formal, None) # rest) out is = Some (None, is)"
| "c_elements rec ((formal, Some value) # rest) out is =
     (if formal = Some ''recursive'' \<or> formal = Some ''use.names''
      then (case resolve_static_bool value of
              None \<Rightarrow> Some (None, is)
            | Some _ \<Rightarrow> c_elements rec rest out is)
      else do {
        (v, is') \<leftarrow> rec value is;
        case v of
          None \<Rightarrow> Some (None, is')
        | Some SNull \<Rightarrow> c_elements rec rest out is'
        | Some (SCharacter elements) \<Rightarrow>
            c_elements rec rest (Some ((case out of None \<Rightarrow> [] | Some o' \<Rightarrow> o') @ elements)) is' })"

definition c_evaluate :: "(r_expr \<Rightarrow> static_value handler_run) \<Rightarrow> r_expr \<Rightarrow> static_value handler_run" where
  "c_evaluate rec call is =
     (case ba_new call [''...'', ''recursive'', ''use.names''] of
        None \<Rightarrow> Some (None, is)
      | Some bound \<Rightarrow> c_elements rec (ba_arguments bound) None is)"

fun evaluate :: "value_handler \<Rightarrow> (r_expr \<Rightarrow> static_value handler_run) \<Rightarrow> r_expr \<Rightarrow> static_value handler_run" where
  "evaluate CHandler rec call is = c_evaluate rec call is"

text \<open>
  \<open>resolve_static_value\<close>. Nested calls are evaluated by their value handler, so the recursion
  goes down the syntax tree; the first argument bounds its depth.
\<close>

fun static_value_upto :: "nat \<Rightarrow> scope_context \<Rightarrow> r_expr \<Rightarrow> static_value handler_run" where
  "static_value_upto 0 ctx value is = None"
| "static_value_upto (Suc n) ctx value is =
     (case value of
        RStringValue _ tok \<Rightarrow> Some (map_option (\<lambda>s. SCharacter [s]) (string_text tok), is)
      | RNullExpression _ \<Rightarrow> Some (Some SNull, is)
      | RCall _ _ _ \<Rightarrow> do {
          resolution \<leftarrow> cx_resolve_callee ctx value;
          let is = record_callee_import value resolution is;
          case Option.bind (cr_handlers resolution) fh_value of
            None \<Rightarrow> Some (None, is)
          | Some h \<Rightarrow> evaluate h (static_value_upto n ctx) value is }
      | _ \<Rightarrow> Some (None, is))"

definition resolve_static_value :: "scope_context \<Rightarrow> r_expr \<Rightarrow> static_value handler_run" where
  "resolve_static_value ctx value = static_value_upto (Suc (size value)) ctx value"

definition resolve_static_character :: "scope_context \<Rightarrow> r_expr \<Rightarrow> string list handler_run" where
  "resolve_static_character ctx value is = do {
     (v, is) \<leftarrow> resolve_static_value ctx value is;
     Some (Option.bind v into_character, is) }"

definition resolve_static_string :: "scope_context \<Rightarrow> r_expr \<Rightarrow> string handler_run" where
  "resolve_static_string ctx value is = do {
     (v, is) \<leftarrow> resolve_static_character ctx value is;
     Some (case v of Some [s] \<Rightarrow> Some s | _ \<Rightarrow> None, is) }"

definition resolve_quoted_symbol_or_string :: "r_expr \<Rightarrow> string option" where
  "resolve_quoted_symbol_or_string value = (case value of
     RIdentifier _ text \<Rightarrow> Some (name_text text)
   | RStringValue _ tok \<Rightarrow> string_text tok
   | _ \<Rightarrow> None)"

section \<open>Argument effect handlers\<close>

fun effect_resolve :: "argument_effect \<Rightarrow> arg_effect" where
  "effect_resolve (AnnEvalQ env timing) = EvalQ env timing"
| "effect_resolve AnnQuote = Quote []"

definition annotation_resolve :: "formals \<Rightarrow> (string \<times> argument_effect) list \<Rightarrow> r_expr \<Rightarrow> arg_effects" where
  "annotation_resolve formals arguments call =
     (case ba_new call formals of
        None \<Rightarrow> inert_argument_effects call
      | Some bound \<Rightarrow>
          map (\<lambda>(formal, _). do { f \<leftarrow> formal; a \<leftarrow> find (\<lambda>a. fst a = f) arguments; Some (effect_resolve (snd a)) })
            (ba_arguments bound))"

text \<open>\<open>unquote_hole\<close>, and the preorder walk of \<open>unquote_holes\<close> that skips below a hole.\<close>

definition unquote_hole :: "r_expr \<Rightarrow> bool \<Rightarrow> r_expr option" where
  "unquote_hole call spl =
     (case call_function call of
        Some (RIdentifier _ text) \<Rightarrow>
          if name_text text = ''.'' \<or> name_text text = ''..'' \<and> spl
          then do {
            items \<leftarrow> call_arguments call;
            case items of [] \<Rightarrow> None | item # _ \<Rightarrow> arg_value item }
          else None
      | _ \<Rightarrow> None)"

function unquote_holes :: "r_expr \<Rightarrow> bool \<Rightarrow> r_expr list" where
  "unquote_holes e spl =
     (case unquote_hole e spl of
        Some hole \<Rightarrow> [hole]
      | None \<Rightarrow> concat (map (\<lambda>x. unquote_holes x spl) (children e)))"
  by pat_completeness auto
termination
  by (relation "measure (\<lambda>(e, _). size e)") (auto dest: size_children)

declare unquote_holes.simps [simp del]

definition bquote_resolve :: "r_expr \<Rightarrow> arg_effects" where
  "bquote_resolve call =
     (case ba_new call [''expr'', ''where'', ''splice''] of
        None \<Rightarrow> inert_argument_effects call
      | Some bound \<Rightarrow>
          let spl = (case Option.bind (ba_get bound ''splice'') resolve_static_bool of
                          Some b \<Rightarrow> b | None \<Rightarrow> False)
          in map (\<lambda>(formal, value).
                 if formal \<noteq> Some ''expr'' then None
                 else Some (Quote (case value of Some e \<Rightarrow> unquote_holes e spl | None \<Rightarrow> [])))
               (ba_arguments bound))"

text \<open>
  \<open>substituted_symbols\<close>: every identifier node in preorder, except argument and parameter names.
  Selectors and the loop variable are identifier nodes too.
\<close>

fun own_identifiers :: "r_expr \<Rightarrow> r_expr list" where
  "own_identifiers (RIdentifier r text) = [RIdentifier r text]"
| "own_identifiers _ = []"

fun selector_identifiers :: "r_selector option \<Rightarrow> r_expr list" where
  "selector_identifiers (Some (SelIdentifier r text)) = [RIdentifier r text]"
| "selector_identifiers _ = []"

fun name_identifiers_before :: "r_expr \<Rightarrow> r_expr list" where
  "name_identifiers_before (RForStatement _ (Some (r, text)) _ _) = [RIdentifier r text]"
| "name_identifiers_before (RNamespaceExpression _ l _ r) = selector_identifiers l @ selector_identifiers r"
| "name_identifiers_before _ = []"

fun name_identifiers_after :: "r_expr \<Rightarrow> r_expr list" where
  "name_identifiers_after (RExtractExpression _ _ s) = selector_identifiers s"
| "name_identifiers_after _ = []"

function identifier_nodes :: "r_expr \<Rightarrow> r_expr list" where
  "identifier_nodes e = own_identifiers e @ name_identifiers_before e @
     concat (map identifier_nodes (children e)) @ name_identifiers_after e"
  by pat_completeness auto
termination
  by (relation "measure size") (auto dest: size_children)

declare identifier_nodes.simps [simp del]

fun filterM :: "('a \<Rightarrow> bool option) \<Rightarrow> 'a list \<Rightarrow> 'a list option" where
  "filterM f [] = Some []"
| "filterM f (x # xs) = do { b \<leftarrow> f x; ys \<leftarrow> filterM f xs; Some (if b then x # ys else ys) }"

definition substituted_symbols :: "scope_context \<Rightarrow> r_expr \<Rightarrow> r_expr list option" where
  "substituted_symbols ctx e =
     filterM (\<lambda>x. case x of RIdentifier _ text \<Rightarrow> cx_is_bound ctx (name_text text) False | _ \<Rightarrow> Some False)
       (identifier_nodes e)"

definition substitute_resolve :: "scope_context \<Rightarrow> r_expr \<Rightarrow> arg_effects option option" where
  "substitute_resolve ctx call =
     (case ba_new call [''expr'', ''env''] of
        None \<Rightarrow> Some (Some (inert_argument_effects call))
      | Some bound \<Rightarrow>
          (case position (\<lambda>(formal, _). formal = Some ''expr'') (ba_arguments bound) of
             None \<Rightarrow> Some None
           | Some expr_pos \<Rightarrow> do {
               global \<leftarrow> (if ba_get bound ''env'' = None then cx_is_global ctx else Some True);
               holes \<leftarrow> (case ba_get bound ''expr'' of
                 Some e \<Rightarrow> if ba_get bound ''env'' = None \<and> \<not> global then substituted_symbols ctx e else Some []
               | None \<Rightarrow> Some []);
               Some (Some ((replicate (ba_len bound) None)[expr_pos := Some (Quote holes)])) }))"

fun arguments_resolve :: "arguments_handler \<Rightarrow> scope_context \<Rightarrow> r_expr \<Rightarrow> arg_effects option option" where
  "arguments_resolve (ArgumentsAnnotation formals arguments) ctx call =
     Some (Some (annotation_resolve formals arguments call))"
| "arguments_resolve BquoteHandler ctx call = Some (Some (bquote_resolve call))"
| "arguments_resolve SubstituteHandler ctx call = substitute_resolve ctx call"

section \<open>Attach, source and assign handlers\<close>

fun attach_resolve :: "attach_handler \<Rightarrow> scope_context \<Rightarrow> r_expr \<Rightarrow> string handler_run" where
  "attach_resolve LibraryHandler ctx call is =
     (case ba_new call [''package'', ''help'', ''pos'', ''lib.loc'', ''character.only''] of
        None \<Rightarrow> Some (None, is)
      | Some bound \<Rightarrow>
          (case ba_get bound ''package'' of
             None \<Rightarrow> Some (None, is)
           | Some package \<Rightarrow>
               if Option.bind (ba_get bound ''character.only'') resolve_static_bool = Some True
               then resolve_static_string ctx package is
               else Some (resolve_quoted_symbol_or_string package, is)))"

fun source_resolve :: "source_handler \<Rightarrow> scope_context \<Rightarrow> r_expr \<Rightarrow> source_path list handler_run" where
  "source_resolve (SourceAnnotation formals path target default_path) ctx call is =
     (case ba_new call formals of
        None \<Rightarrow> Some (None, is)
      | Some bound \<Rightarrow>
          if (case ba_get bound ''local'' of Some v \<Rightarrow> resolve_static_bool v = None | None \<Rightarrow> False)
          then Some (None, is)
          else do {
            (paths, is) \<leftarrow> (case ba_get bound path of
                Some value \<Rightarrow> resolve_static_character ctx value is
              | None \<Rightarrow> Some (map_option (\<lambda>p. [p]) default_path, is));
            Some (case paths of
                None \<Rightarrow> None
              | Some ps \<Rightarrow>
                  if target = TargetFile \<and> length ps \<noteq> 1 then None
                  else Some (map (\<lambda>p. \<lparr>sp_path = p, sp_target = target\<rparr>) ps), is) })"

text \<open>\<open>EffectSite\<close>: a call or a binding operator.\<close>

datatype effect_site = SiteCall r_expr | SiteOperator r_expr

fun assign_resolve :: "assign_handler \<Rightarrow> scope_context \<Rightarrow> effect_site \<Rightarrow> assign_binding list handler_run" where
  "assign_resolve (AssignAnnotation formals name value target_env) ctx (SiteCall call) is =
     (case ba_new call formals of
        None \<Rightarrow> Some (None, is)
      | Some bound \<Rightarrow>
          if list_ex (\<lambda>formal. ba_get bound formal \<noteq> None) target_env then Some (None, is)
          else case ba_get bound name of
            None \<Rightarrow> Some (None, is)
          | Some name_expr \<Rightarrow> do {
              (s, is) \<leftarrow> resolve_static_string ctx name_expr is;
              Some (map_option (\<lambda>s. [\<lparr>ab_name = s, ab_name_expr = name_expr,
                ab_value_expr = ba_get bound value, ab_target = Write\<rparr>]) s, is) })"
| "assign_resolve (AssignAnnotation _ _ _ _) ctx (SiteOperator _) is = Some (None, is)"
| "assign_resolve (BindingOperatorHandler target) ctx (SiteOperator (RBinaryExpression _ l _ r)) is =
     Some (do {
       left \<leftarrow> l; right \<leftarrow> r; name \<leftarrow> resolve_quoted_symbol_or_string left;
       Some [\<lparr>ab_name = name, ab_name_expr = left, ab_value_expr = Some right, ab_target = target\<rparr>] }, is)"
| "assign_resolve (BindingOperatorHandler _) ctx _ is = Some (None, is)"

end
