(* ===== verification/Registry.thy ===== *)
theory Registry
  imports Effects
begin

text \<open>
  \<open>oak_semantic::effects::contrib\<close>: the static tables of annotated R functions, one list per
  package, and the name index that \<open>lookup\<close> and \<open>annotates\<close> query. The macros of the source
  are functions that build an entry.
\<close>

record entry =
  en_function :: string
  en_handlers :: function_handlers

record package_entries =
  pe_name :: string
  pe_functions :: "entry list"

section \<open>Entry macros\<close>

definition arguments_entry :: "string \<Rightarrow> formals \<Rightarrow> (string \<times> argument_effect) list \<Rightarrow> entry" where
  "arguments_entry func formals arguments =
     \<lparr>en_function = func,
      en_handlers = with_effects (EMPTY\<lparr>eh_arguments := Some (ArgumentsAnnotation formals arguments)\<rparr>)\<rparr>"

text \<open>\<open>nse!\<close> with an explicit signature, and the short form where the annotated names are it.\<close>

definition nse_formals :: "string \<Rightarrow> formals \<Rightarrow> (string \<times> eval_env \<times> eval_timing) list \<Rightarrow> entry" where
  "nse_formals func formals arguments =
     arguments_entry func formals (map (\<lambda>(name, env, timing). (name, AnnEvalQ env timing)) arguments)"

definition nse :: "string \<Rightarrow> (string \<times> eval_env \<times> eval_timing) list \<Rightarrow> entry" where
  "nse func arguments = nse_formals func (map fst arguments) arguments"

definition quoted :: "string \<Rightarrow> formals \<Rightarrow> entry" where
  "quoted func names = arguments_entry func names (map (\<lambda>name. (name, AnnQuote)) names)"

definition source_target_entry ::
    "string \<Rightarrow> formals \<Rightarrow> string \<Rightarrow> source_target \<Rightarrow> string option \<Rightarrow> entry" where
  "source_target_entry func formals path target default_path =
     \<lparr>en_function = func,
      en_handlers = with_effects (EMPTY\<lparr>eh_source := Some (SourceAnnotation formals path target default_path)\<rparr>)\<rparr>"

definition source_entry :: "string \<Rightarrow> formals \<Rightarrow> string \<Rightarrow> entry" where
  "source_entry func formals path = source_target_entry func formals path TargetFile None"

definition assign_entry :: "string \<Rightarrow> formals \<Rightarrow> string \<Rightarrow> string \<Rightarrow> formals \<Rightarrow> entry" where
  "assign_entry func formals name value target_env =
     \<lparr>en_function = func,
      en_handlers = with_effects (EMPTY\<lparr>eh_assign := Some (AssignAnnotation formals name value target_env)\<rparr>)\<rparr>"

definition assign_op :: "string \<Rightarrow> target_access \<Rightarrow> entry" where
  "assign_op func target =
     \<lparr>en_function = func,
      en_handlers = with_effects (EMPTY\<lparr>eh_assign := Some (BindingOperatorHandler target)\<rparr>)\<rparr>"

definition attach_entry :: "string \<Rightarrow> entry" where
  "attach_entry func =
     \<lparr>en_function = func, en_handlers = with_effects (EMPTY\<lparr>eh_attach := Some LibraryHandler\<rparr>)\<rparr>"

section \<open>The tables\<close>

definition base_entries :: "entry list" where
  "base_entries = [
     nse ''evalq'' [(''expr'', Current, Eager)],
     nse ''on.exit'' [(''expr'', Current, Lazy)],
     nse ''local'' [(''expr'', Nested, Eager)],
     nse_formals ''with'' [''data'', ''expr''] [(''expr'', Nested, Eager)],
     nse_formals ''with.default'' [''data'', ''expr''] [(''expr'', Nested, Eager)],
     nse_formals ''within'' [''data'', ''expr''] [(''expr'', Nested, Eager)],
     nse_formals ''within.data.frame'' [''data'', ''expr''] [(''expr'', Nested, Eager)],
     quoted ''quote'' [''expr''],
     \<lparr>en_function = ''bquote'',
      en_handlers = with_effects (EMPTY\<lparr>eh_arguments := Some BquoteHandler\<rparr>)\<rparr>,
     \<lparr>en_function = ''substitute'',
      en_handlers = with_effects (EMPTY\<lparr>eh_arguments := Some SubstituteHandler\<rparr>)\<rparr>,
     attach_entry ''library'',
     attach_entry ''require'',
     source_entry ''source'' [''file'', ''local''] ''file'',
     assign_entry ''assign'' [''x'', ''value'', ''pos'', ''envir'', ''inherits'', ''immediate'']
       ''x'' ''value'' [''pos'', ''envir''],
     assign_entry ''delayedAssign'' [''x'', ''value'', ''eval.env'', ''assign.env'']
       ''x'' ''value'' [''assign.env''],
     \<lparr>en_function = ''c'', en_handlers = with_value CHandler\<rparr>]"

definition magrittr_entries :: "entry list" where
  "magrittr_entries = [assign_op ''%<>%'' ReadWrite]"

definition rlang_entries :: "entry list" where
  "rlang_entries = [
     assign_op ''%<~%'' Write,
     nse ''on_load'' [(''expr'', Current, Lazy)],
     nse ''defer'' [(''expr'', Current, Lazy)]]"

definition s7_entries :: "entry list" where
  "s7_entries = [assign_op '':='' Write]"

definition shiny_entries :: "entry list" where
  "shiny_entries = [
     nse ''observe'' [(''x'', Nested, Lazy)],
     nse ''reactive'' [(''x'', Nested, Lazy)],
     nse ''renderPlot'' [(''expr'', Nested, Lazy)],
     nse ''renderPrint'' [(''expr'', Nested, Lazy)],
     nse ''renderTable'' [(''expr'', Nested, Lazy)],
     nse ''renderText'' [(''expr'', Nested, Lazy)],
     nse ''renderUI'' [(''expr'', Nested, Lazy)]]"

definition targets_entries :: "entry list" where
  "targets_entries = [
     source_target_entry ''tar_source'' [''files''] ''files'' (TargetFileOrDir Recursive) (Some ''R'')]"

definition testthat_entries :: "entry list" where
  "testthat_entries = [nse_formals ''test_that'' [''desc'', ''code''] [(''code'', Nested, Eager)]]"

definition withr_entries :: "entry list" where
  "withr_entries = [nse ''defer'' [(''expr'', Current, Lazy)]]"

definition REGISTRY :: "package_entries list" where
  "REGISTRY = [
     \<lparr>pe_name = ''base'', pe_functions = base_entries\<rparr>,
     \<lparr>pe_name = ''magrittr'', pe_functions = magrittr_entries\<rparr>,
     \<lparr>pe_name = ''rlang'', pe_functions = rlang_entries\<rparr>,
     \<lparr>pe_name = ''S7'', pe_functions = s7_entries\<rparr>,
     \<lparr>pe_name = ''shiny'', pe_functions = shiny_entries\<rparr>,
     \<lparr>pe_name = ''targets'', pe_functions = targets_entries\<rparr>,
     \<lparr>pe_name = ''testthat'', pe_functions = testthat_entries\<rparr>,
     \<lparr>pe_name = ''withr'', pe_functions = withr_entries\<rparr>]"

section \<open>The name index\<close>

type_synonym registry_index = "string \<rightharpoonup> (string \<times> function_handlers) list"

definition index_insert :: "string \<Rightarrow> registry_index \<Rightarrow> entry \<Rightarrow> registry_index" where
  "index_insert package m e =
     m(en_function e \<mapsto> (case m (en_function e) of None \<Rightarrow> [] | Some l \<Rightarrow> l) @ [(package, en_handlers e)])"

definition index_of :: "package_entries list \<Rightarrow> registry_index" where
  "index_of registry =
     foldl (\<lambda>m p. foldl (index_insert (pe_name p)) m (pe_functions p)) Map.empty registry"

definition INDEX :: registry_index where
  "INDEX = index_of REGISTRY"

definition lookup_in :: "registry_index \<Rightarrow> string \<Rightarrow> string \<Rightarrow> function_handlers option" where
  "lookup_in index package func = do {
     es \<leftarrow> index func;
     map_option snd (find (\<lambda>(p, _). p = package) es) }"

definition lookup_handlers :: "string \<Rightarrow> string \<Rightarrow> function_handlers option" where
  "lookup_handlers package func = lookup_in INDEX package func"

definition annotates :: "string \<Rightarrow> bool" where
  "annotates name \<longleftrightarrow> INDEX name \<noteq> None"

definition source_dir_idiom :: "string \<Rightarrow> function_handlers option" where
  "source_dir_idiom name =
     (if name = ''sourceDir''
      then Some (with_effects (EMPTY\<lparr>eh_source := Some (SourceAnnotation [''path''] ''path'' (TargetDir Shallow) None)\<rparr>))
      else None)"

section \<open>The index answers like a scan of the registry\<close>

definition registry_entries :: "package_entries list \<Rightarrow> (string \<times> entry) list" where
  "registry_entries registry = concat (map (\<lambda>p. map (Pair (pe_name p)) (pe_functions p)) registry)"

definition entries_named :: "(string \<times> entry) list \<Rightarrow> string \<Rightarrow> (string \<times> function_handlers) list" where
  "entries_named es func = map (\<lambda>(p, e). (p, en_handlers e)) (filter (\<lambda>(_, e). en_function e = func) es)"

definition index_for :: "(string \<times> entry) list \<Rightarrow> registry_index \<Rightarrow> bool" where
  "index_for es m \<longleftrightarrow>
     (\<forall>func. m func = (if entries_named es func = [] then None else Some (entries_named es func)))"

lemma index_insert_for: "index_for es m \<Longrightarrow> index_for (es @ [(p, e)]) (index_insert p m e)"
  by (auto simp: index_for_def index_insert_def entries_named_def)

lemma index_package_for:
  "index_for es m \<Longrightarrow> index_for (es @ map (Pair p) fs) (foldl (index_insert p) m fs)"
proof (induction fs arbitrary: es m)
  case (Cons f fs)
  from Cons.IH [OF index_insert_for [OF Cons.prems]] show ?case by simp
qed simp

lemma index_registry_for:
  "index_for es m \<Longrightarrow> index_for (es @ registry_entries registry)
     (foldl (\<lambda>m p. foldl (index_insert (pe_name p)) m (pe_functions p)) m registry)"
proof (induction registry arbitrary: es m)
  case (Cons p registry)
  from Cons.IH [OF index_package_for [OF Cons.prems]] show ?case by (simp add: registry_entries_def)
qed (simp add: registry_entries_def)

lemma index_of_for: "index_for (registry_entries registry) (index_of registry)"
proof -
  have "index_for [] Map.empty" by (simp add: index_for_def entries_named_def)
  from index_registry_for [OF this] show ?thesis by (simp add: index_of_def)
qed

lemma find_entries_named:
  "map_option snd (find (\<lambda>(p, _). p = package) (entries_named es func)) =
   map_option (\<lambda>(p, e). en_handlers e) (find (\<lambda>(p, e). p = package \<and> en_function e = func) es)"
  by (induction es) (auto simp: entries_named_def)

section \<open>Properties\<close>

text \<open>
  C25. The name index answers exactly like a scan of the registry, for every registry: \<open>lookup\<close>
  returns the handlers of the first entry in registry order with that package and function, and a
  name is indexed iff some package has an entry for it.
\<close>

theorem lookup_scans_registry:
  "lookup_in (index_of registry) package func =
     map_option (\<lambda>(p, e). en_handlers e)
       (find (\<lambda>(p, e). p = package \<and> en_function e = func) (registry_entries registry)) \<and>
   (index_of registry func \<noteq> None \<longleftrightarrow> (\<exists>p\<in>set registry. \<exists>e\<in>set (pe_functions p). en_function e = func))"
proof -
  let ?es = "registry_entries registry"
  have ix: "index_of registry func = (if entries_named ?es func = [] then None else Some (entries_named ?es func))"
    using index_of_for by (simp add: index_for_def)
  have "lookup_in (index_of registry) package func =
      map_option snd (find (\<lambda>(p, _). p = package) (entries_named ?es func))"
    by (simp add: lookup_in_def ix)
  moreover have "entries_named ?es func \<noteq> [] \<longleftrightarrow> (\<exists>p\<in>set registry. \<exists>e\<in>set (pe_functions p). en_function e = func)"
    by (force simp: entries_named_def registry_entries_def filter_empty_conv)
  ultimately show ?thesis by (simp add: find_entries_named ix) blast
qed

end
