(* ===== verification/Argument_Matching.thy ===== *)
theory Argument_Matching
  imports Effects
begin

text \<open>
  Correctness of argument matching and of the argument effects computed from it. The two loops of
  \<open>match_arguments\<close> with their mutable tables are shown equal to a direct reading of R's rule:
  exact names first, then the remaining positional slots in order. On top of that, every handler
  returns one effect per argument, and the holes of a quoted argument are parts of that argument.
\<close>

section \<open>Searching\<close>

lemma position_Some_iff:
  "position P xs = Some k \<longleftrightarrow> k < length xs \<and> P (xs ! k) \<and> (\<forall>j<k. \<not> P (xs ! j))"
proof (induction xs arbitrary: k)
  case (Cons x xs)
  show ?case
  proof (cases k)
    case (Suc j)
    then show ?thesis by (auto simp: Cons.IH All_less_Suc2)
  qed auto
qed simp

lemma position_None_iff: "position P xs = None \<longleftrightarrow> (\<forall>x\<in>set xs. \<not> P x)"
  by (induction xs) auto

section \<open>The reference: names first, then free slots in order\<close>

definition is_positional :: "r_argument \<Rightarrow> bool" where
  "is_positional arg \<longleftrightarrow> arg \<noteq> RArgumentError \<and> \<not> has_name_clause arg"

fun assign_slots :: "r_argument list \<Rightarrow> formals \<Rightarrow> nat list \<Rightarrow> nat option list" where
  "assign_slots [] formals free = []"
| "assign_slots (a # as) formals free =
     (if \<not> is_positional a then match_named a formals # assign_slots as formals free
      else case free of
        [] \<Rightarrow> None # assign_slots as formals []
      | k # free' \<Rightarrow> Some k # assign_slots as formals free')"

definition named_slots :: "r_argument list \<Rightarrow> formals \<Rightarrow> nat list" where
  "named_slots items formals = List.map_filter (\<lambda>a. match_named a formals) items"

definition positional_limit :: "formals \<Rightarrow> nat" where
  "positional_limit formals = (case position (\<lambda>f. f = ''...'') formals of Some k \<Rightarrow> k | None \<Rightarrow> length formals)"

definition free_slots :: "r_argument list \<Rightarrow> formals \<Rightarrow> nat list" where
  "free_slots items formals = filter (\<lambda>k. k \<notin> set (named_slots items formals)) [0..<positional_limit formals]"

lemma match_named_props:
  assumes "match_named a formals = Some k"
  shows "k < length formals" and "formals ! k \<noteq> ''...''" and "\<not> is_positional a"
  using assms
  by (auto simp: match_named_def position_Some_iff is_positional_def has_name_clause_def
      split: r_argument.splits option.splits r_argument_name.splits Option.bind_splits)

lemma match_named_positional: "is_positional a \<Longrightarrow> match_named a formals = None"
  using match_named_props(3) by (cases "match_named a formals") auto

section \<open>The first loop\<close>

lemma named_slots_snoc:
  "named_slots (items @ [a]) formals =
     named_slots items formals @ (case match_named a formals of None \<Rightarrow> [] | Some k \<Rightarrow> [k])"
  by (auto simp: named_slots_def map_filter_def split: option.splits)

lemma named_loop:
  fixes rest :: nat
  assumes "length consumed = length formals" and "\<forall>k<length formals. \<not> consumed ! k"
  shows "foldM (named_step formals) (enumerate 0 items) (replicate (length items + rest) None, consumed) =
    (if distinct (named_slots items formals)
     then Some (map (\<lambda>a. match_named a formals) items @ replicate rest None,
       map (\<lambda>k. k \<in> set (named_slots items formals)) [0..<length formals])
     else None)"
proof (induction items arbitrary: rest rule: rev_induct)
  case Nil
  have "consumed = map (\<lambda>k. False) [0..<length formals]" using assms by (intro nth_equalityI) auto
  then show ?case by (simp add: named_slots_def map_filter_simps)
next
  case (snoc a items)
  let ?n = "length items" and ?S = "named_slots items formals"
  have IH: "foldM (named_step formals) (enumerate 0 items) (replicate (?n + Suc rest) None, consumed) =
    (if distinct ?S then Some (map (\<lambda>a. match_named a formals) items @ replicate (Suc rest) None,
       map (\<lambda>k. k \<in> set ?S) [0..<length formals]) else None)"
    by (rule snoc.IH)
  have step: "foldM (named_step formals) (enumerate 0 (items @ [a])) (replicate (length (items @ [a]) + rest) None, consumed)
    = do { s \<leftarrow> foldM (named_step formals) (enumerate 0 items) (replicate (?n + Suc rest) None, consumed);
           named_step formals (?n, a) s }"
    by (simp add: enumerate_append_eq foldM_append del: named_step.simps)
  show ?case
  proof (cases "match_named a formals")
    case None
    then show ?thesis unfolding step IH by (simp add: named_slots_snoc)
  next
    case (Some k)
    note k = match_named_props(1) [OF Some]
    have upd: "(map (\<lambda>j. j \<in> set ?S) [0..<length formals])[k := True] =
        map (\<lambda>j. j = k \<or> j \<in> set ?S) [0..<length formals]"
      using k by (intro nth_equalityI) (auto simp: nth_list_update)
    show ?thesis
      unfolding step IH using Some k by (auto simp: named_slots_snoc upd list_update_append)
  qed
qed

section \<open>The second loop\<close>

lemma skip_consumed_free:
  "filter (\<lambda>k. \<not> consumed ! k) [slot..<limit] =
     (let s = skip_consumed consumed limit slot
      in if s < limit then s # filter (\<lambda>k. \<not> consumed ! k) [Suc s..<limit] else [])"
proof (induction consumed limit slot rule: skip_consumed.induct)
  case (1 consumed limit slot)
  show ?case
  proof (cases "slot < limit \<and> consumed ! slot")
    case True
    then show ?thesis using "1.IH" by (simp add: skip_consumed.simps [of consumed limit slot] upt_conv_Cons)
  next
    case False
    then have "skip_consumed consumed limit slot = slot" by (simp add: skip_consumed.simps)
    with False show ?thesis by (auto simp: upt_conv_Cons)
  qed
qed

lemma positional_loop:
  assumes "length matched = n + length items" and "drop n matched = map (\<lambda>a. match_named a formals) items"
    and "limit \<le> length consumed"
  shows "fst (foldl (positional_step limit) (matched, consumed, slot) (enumerate n items)) =
    take n matched @ assign_slots items formals (filter (\<lambda>k. \<not> consumed ! k) [slot..<limit])"
  using assms
proof (induction items arbitrary: n matched consumed slot)
  case (Cons a items)
  have n: "n < length matched" using Cons.prems(1) by simp
  have hd: "matched ! n = match_named a formals"
    using Cons.prems(2) n by (metis Cons_nth_drop_Suc list.map(2) list.inject)
  have rest: "drop (Suc n) matched = map (\<lambda>a. match_named a formals) items"
    using Cons.prems(2) n by (metis Cons_nth_drop_Suc list.map(2) list.inject)
  have tk: "take (Suc n) matched = take n matched @ [match_named a formals]"
    using n hd by (simp add: take_Suc_conv_app_nth)
  show ?case
  proof (cases "is_positional a")
    case False
    then have "positional_step limit (matched, consumed, slot) (n, a) = (matched, consumed, slot)"
      by (auto simp: is_positional_def)
    with False Cons.IH [of matched "Suc n" consumed slot] Cons.prems rest tk show ?thesis by simp
  next
    case True
    then have none: "match_named a formals = None" by (rule match_named_positional)
    let ?s = "skip_consumed consumed limit slot"
    show ?thesis
    proof (cases "?s < limit")
      case lt: True
      let ?m = "matched[n := Some ?s]" and ?c = "consumed[?s := True]"
      have st: "positional_step limit (matched, consumed, slot) (n, a) = (?m, ?c, Suc ?s)"
        using True lt by (simp add: is_positional_def Let_def)
      have same: "filter (\<lambda>k. \<not> ?c ! k) [Suc ?s..<limit] = filter (\<lambda>k. \<not> consumed ! k) [Suc ?s..<limit]"
        by (intro filter_cong) auto
      have tk': "take (Suc n) ?m = take n matched @ [Some ?s]"
        using n by (simp add: take_Suc_conv_app_nth)
      have "fst (foldl (positional_step limit) (?m, ?c, Suc ?s) (enumerate (Suc n) items)) =
          take (Suc n) ?m @ assign_slots items formals (filter (\<lambda>k. \<not> ?c ! k) [Suc ?s..<limit])"
        using Cons.prems rest by (intro Cons.IH) auto
      moreover have "foldl (positional_step limit) (matched, consumed, slot) (enumerate n (a # items)) =
          foldl (positional_step limit) (?m, ?c, Suc ?s) (enumerate (Suc n) items)"
        by (simp add: st del: positional_step.simps)
      moreover have "filter (\<lambda>k. \<not> consumed ! k) [slot..<limit] = ?s # filter (\<lambda>k. \<not> consumed ! k) [Suc ?s..<limit]"
        using skip_consumed_free [of consumed slot limit] lt by (simp add: Let_def)
      ultimately show ?thesis by (simp add: same tk' True)
    next
      case ge: False
      have st: "positional_step limit (matched, consumed, slot) (n, a) = (matched, consumed, ?s)
          \<or> positional_step limit (matched, consumed, slot) (n, a) = (matched, consumed, slot)"
        using True ge by (simp add: is_positional_def Let_def)
      have "filter (\<lambda>k. \<not> consumed ! k) [slot..<limit] = []"
        using skip_consumed_free [of consumed slot limit] ge by (simp add: Let_def)
      moreover have "filter (\<lambda>k. \<not> consumed ! k) [?s..<limit] = []" using ge by simp
      ultimately show ?thesis
        using st Cons.IH [of matched "Suc n" consumed ?s] Cons.IH [of matched "Suc n" consumed slot]
          Cons.prems rest tk none True by auto
    qed
  qed
qed simp

lemma match_items_eq:
  "match_items items formals =
    (if distinct (named_slots items formals) then Some (assign_slots items formals (free_slots items formals)) else None)"
proof (cases "distinct (named_slots items formals)")
  case True
  let ?c = "map (\<lambda>k. k \<in> set (named_slots items formals)) [0..<length formals]"
  let ?L = "positional_limit formals"
  have L: "?L \<le> length formals" by (auto simp: positional_limit_def position_Some_iff split: option.splits)
  have named: "foldM (named_step formals) (enumerate 0 items)
      (replicate (length items) None, replicate (length formals) False) =
      Some (map (\<lambda>a. match_named a formals) items, ?c)"
    using named_loop [of "replicate (length formals) False" formals items 0] True by simp
  have "fst (foldl (positional_step ?L) (map (\<lambda>a. match_named a formals) items, ?c, 0) (enumerate 0 items)) =
      assign_slots items formals (filter (\<lambda>k. \<not> ?c ! k) [0..<?L])"
    using positional_loop [of "map (\<lambda>a. match_named a formals) items" 0 items formals ?L ?c 0] L by simp
  moreover have "filter (\<lambda>k. \<not> ?c ! k) [0..<?L] = free_slots items formals"
    using L by (auto simp: free_slots_def intro!: filter_cong)
  ultimately show ?thesis using True named by (simp add: match_items_def positional_limit_def)
next
  case False
  then show ?thesis
    using named_loop [of "replicate (length formals) False" formals items 0] by (simp add: match_items_def)
qed

section \<open>What matching guarantees\<close>

lemma length_assign_slots [simp]: "length (assign_slots items formals free) = length items"
  by (induction items formals free rule: assign_slots.induct) (auto split: list.splits)

lemma match_items_length: "match_items items formals = Some m \<Longrightarrow> length m = length items"
  by (auto simp: match_items_eq split: if_splits)

lemma assign_slots_values:
  "k \<in> set (List.map_filter (\<lambda>m. m) (assign_slots items formals free)) \<Longrightarrow>
   k \<in> set (named_slots items formals) \<or> k \<in> set free"
proof (induction items formals free rule: assign_slots.induct)
  case (2 a as formals free)
  then show ?case
    by (cases "is_positional a"; cases free; cases "match_named a formals")
      (auto simp: named_slots_def map_filter_simps)
qed (simp add: map_filter_simps)

lemma assign_slots_distinct:
  "distinct (named_slots items formals) \<Longrightarrow> distinct free \<Longrightarrow> set (named_slots items formals) \<inter> set free = {} \<Longrightarrow>
   distinct (List.map_filter (\<lambda>m. m) (assign_slots items formals free))"
proof (induction items formals free rule: assign_slots.induct)
  case (2 a as formals free)
  have named: "named_slots (a # as) formals =
      (case match_named a formals of None \<Rightarrow> [] | Some k \<Rightarrow> [k]) @ named_slots as formals"
    by (simp add: named_slots_def map_filter_simps split: option.splits)
  show ?case
  proof (cases "is_positional a")
    case False
    have IH: "distinct (List.map_filter (\<lambda>m. m) (assign_slots as formals free))"
      by (rule "2.IH"(1) [OF False]) (use "2.prems" named in auto)
    show ?thesis
    proof (cases "match_named a formals")
      case (Some k)
      have "k \<notin> set (List.map_filter (\<lambda>m. m) (assign_slots as formals free))"
        using assign_slots_values [of k as formals free] "2.prems" named Some by auto
      with IH Some False show ?thesis by (simp add: map_filter_simps)
    qed (use IH False in \<open>simp add: map_filter_simps\<close>)
  next
    case True
    then have none: "match_named a formals = None" by (rule match_named_positional)
    show ?thesis
    proof (cases free)
      case Nil
      with "2.IH"(2) True "2.prems" named none show ?thesis by (simp add: map_filter_simps)
    next
      case (Cons k free')
      have IH: "distinct (List.map_filter (\<lambda>m. m) (assign_slots as formals free'))"
        by (rule "2.IH"(3)) (use "2.prems" named none True Cons in auto)
      have "k \<notin> set (List.map_filter (\<lambda>m. m) (assign_slots as formals free'))"
        using assign_slots_values [of k as formals free'] "2.prems" named none Cons by auto
      with IH Cons True show ?thesis by (simp add: map_filter_simps)
    qed
  qed
qed (simp add: map_filter_simps)

lemma map_filter_nth_mem:
  assumes "i < length ms" and "ms ! i = Some k"
  shows "k \<in> set (List.map_filter (\<lambda>m. m) ms)"
proof -
  have "Some k \<in> set ms" using assms by (metis nth_mem)
  then show ?thesis by (induction ms) (auto simp: map_filter_simps split: option.splits)
qed

lemma map_filter_nth_inj:
  assumes "distinct (List.map_filter (\<lambda>m. m) ms)" and "i < length ms" and "j < length ms"
    and "ms ! i = Some k" and "ms ! j = Some k"
  shows "i = j"
  using assms
proof (induction ms arbitrary: i j)
  case (Cons m ms)
  show ?case
    using Cons map_filter_nth_mem [of _ ms k]
    by (cases i; cases j) (auto simp: map_filter_simps split: option.splits)
qed simp

lemma free_slots_props:
  "distinct (free_slots items formals)" "set (named_slots items formals) \<inter> set (free_slots items formals) = {}"
  "k \<in> set (free_slots items formals) \<Longrightarrow> k < length formals \<and> formals ! k \<noteq> ''...''"
proof -
  show "k \<in> set (free_slots items formals) \<Longrightarrow> k < length formals \<and> formals ! k \<noteq> ''...''"
    by (auto simp: free_slots_def positional_limit_def position_Some_iff position_None_iff split: option.splits)
qed (auto simp: free_slots_def)

lemma match_items_in_range:
  assumes "match_items items formals = Some m" and "i < length items" and "m ! i = Some k"
  shows "k < length formals \<and> formals ! k \<noteq> ''...''"
proof -
  from assms have m: "m = assign_slots items formals (free_slots items formals)"
    by (auto simp: match_items_eq split: if_splits)
  have "k \<in> set (List.map_filter (\<lambda>m. m) m)"
    using assms match_items_length [OF assms(1)] by (intro map_filter_nth_mem [of i]) auto
  then have "k \<in> set (named_slots items formals) \<or> k \<in> set (free_slots items formals)"
    using m assign_slots_values by blast
  then show ?thesis
    using free_slots_props(3) match_named_props(1,2)
    by (auto simp: named_slots_def map_filter_def)
qed

section \<open>Bound arguments\<close>

lemma ba_new_Some:
  assumes "ba_new call formals = Some b"
  obtains items m where "call_arguments call = Some items" and "match_items items formals = Some m"
    and "ba_bound b = zip m (map arg_value items)" and "length m = length items" and "ba_formals b = formals"
  using assms
  by (auto simp: ba_new_def match_arguments_def match_items_length split: Option.bind_splits)

lemma ba_len_items: "ba_new call formals = Some b \<Longrightarrow> call_arguments call = Some items \<Longrightarrow> ba_len b = length items"
  by (erule ba_new_Some) (simp add: ba_len_def)

lemma length_ba_arguments [simp]: "length (ba_arguments b) = ba_len b"
  by (simp add: ba_arguments_def ba_len_def)

lemma ba_arguments_value:
  assumes "ba_new call formals = Some b" and "call_arguments call = Some items" and "i < length items"
  shows "snd (ba_arguments b ! i) = arg_value (items ! i)"
  using assms by (auto elim!: ba_new_Some simp: ba_arguments_def ba_len_def split_beta)

lemma ba_get_value:
  assumes "ba_new call formals = Some b" and "call_arguments call = Some items" and "ba_get b formal = Some e"
  shows "\<exists>i<length items. arg_value (items ! i) = Some e \<and> fst (ba_arguments b ! i) = Some formal"
proof -
  from assms(1) obtain m where m: "match_items items formals = Some m" "ba_bound b = zip m (map arg_value items)"
    "length m = length items" "ba_formals b = formals" using assms(2) by (auto elim!: ba_new_Some)
  from assms(3) obtain k where k: "position (\<lambda>f. f = formal) formals = Some k"
    "find (\<lambda>(x, _). x = Some k) (ba_bound b) = Some (Some k, Some e)"
    by (auto simp: ba_get_def m(4) split: Option.bind_splits dest: find_Some_in)
  from find_Some_in [OF k(2)] obtain i where "i < length items" "m ! i = Some k" "arg_value (items ! i) = Some e"
    by (auto simp: m(2,3) set_zip)
  with k(1) m show ?thesis by (auto simp: ba_arguments_def position_Some_iff intro!: exI [of _ i])
qed

lemma matched_once:
  assumes m: "match_items items formals = Some m" and "i < length items" "j < length items" "m ! i = Some k" "m ! j = Some k"
  shows "i = j"
proof -
  from m have d: "distinct (named_slots items formals)"
    and eq: "m = assign_slots items formals (free_slots items formals)"
    by (auto simp: match_items_eq split: if_splits)
  have "distinct (List.map_filter (\<lambda>m. m) m)"
    unfolding eq by (rule assign_slots_distinct [OF d free_slots_props(1,2)])
  then show ?thesis using assms match_items_length [OF m] by (intro map_filter_nth_inj) auto
qed

lemma formal_taken_once:
  assumes b: "ba_new call formals = Some b" "call_arguments call = Some items" and d: "distinct formals"
    and "i < length items" "j < length items"
    and "fst (ba_arguments b ! i) = Some name" "fst (ba_arguments b ! j) = Some name"
  shows "i = j"
proof -
  from b obtain m where m: "match_items items formals = Some m"
    and eq: "b = \<lparr>ba_formals = formals, ba_bound = zip m (map arg_value items)\<rparr>"
    by (auto simp: ba_new_def match_arguments_def split: Option.bind_splits)
  have len: "length m = length items" by (rule match_items_length [OF m])
  from assms(4-7) obtain k l where "m ! i = Some k" "formals ! k = name" "m ! j = Some l" "formals ! l = name"
    by (auto simp: eq ba_arguments_def len)
  moreover from this match_items_in_range [OF m] assms(4,5) d have "k = l" by (metis nth_eq_iff_index_eq)
  ultimately show ?thesis using matched_once [OF m assms(4,5)] by simp
qed

section \<open>Holes are parts of their argument\<close>

text \<open>
  A hole is an expression inside the argument, or a name that is written in it: an identifier, a loop
  variable, a member name or one side of \<open>::\<close>.
\<close>

fun writes_name :: "r_expr \<Rightarrow> text_range \<Rightarrow> string \<Rightarrow> bool" where
  "writes_name (RIdentifier r' text') r text \<longleftrightarrow> r' = r \<and> text' = text"
| "writes_name (RForStatement _ var _ _) r text \<longleftrightarrow> var = Some (r, text)"
| "writes_name (RNamespaceExpression _ lhs _ rhs) r text \<longleftrightarrow>
     lhs = Some (SelIdentifier r text) \<or> rhs = Some (SelIdentifier r text)"
| "writes_name (RExtractExpression _ _ sel) r text \<longleftrightarrow> sel = Some (SelIdentifier r text)"
| "writes_name _ r text \<longleftrightarrow> False"

definition hole_of :: "r_expr \<Rightarrow> r_expr \<Rightarrow> bool" where
  "hole_of v h \<longleftrightarrow> h \<in> set (subterms v) \<or>
     (\<exists>e\<in>set (subterms v). \<exists>r text. h = RIdentifier r text \<and> writes_name e r text)"

lemma arg_value_child:
  "call_arguments call = Some items \<Longrightarrow> a \<in> set items \<Longrightarrow> arg_value a = Some v \<Longrightarrow> v \<in> set (children call)"
  by (cases call) (auto intro!: bexI [of _ a])

lemma unquote_hole_child: "unquote_hole e spl = Some h \<Longrightarrow> h \<in> set (children e)"
  by (auto simp: unquote_hole_def intro!: arg_value_child [of e]
      split: option.splits r_expr.splits if_splits Option.bind_splits list.splits)

lemma unquote_holes_subterms: "h \<in> set (unquote_holes e spl) \<Longrightarrow> h \<in> set (subterms e)"
proof (induction e spl rule: unquote_holes.induct)
  case (1 e spl)
  show ?case
  proof (cases "unquote_hole e spl")
    case None
    with "1.prems" obtain x where "x \<in> set (children e)" "h \<in> set (unquote_holes x spl)"
      by (subst (asm) unquote_holes.simps) auto
    with "1.IH" [OF None] subterms_child show ?thesis by blast
  next
    case (Some hole)
    with "1.prems" have "h \<in> set (children e)"
      using unquote_hole_child by (subst (asm) unquote_holes.simps) auto
    then show ?thesis using subterms_child [of h e] subterms_self [of h] by blast
  qed
qed

lemma selector_identifiers_written:
  "h \<in> set (selector_identifiers s) \<Longrightarrow> \<exists>r text. h = RIdentifier r text \<and> s = Some (SelIdentifier r text)"
  by (cases s rule: selector_identifiers.cases) auto

lemma identifier_nodes_written:
  "h \<in> set (identifier_nodes e) \<Longrightarrow> \<exists>e'\<in>set (subterms e). \<exists>r text. h = RIdentifier r text \<and> writes_name e' r text"
proof (induction e rule: identifier_nodes.induct)
  case (1 e)
  have own: ?case if "\<exists>r text. h = RIdentifier r text \<and> writes_name e r text"
    using that subterms_self [of e] by blast
  from "1.prems" consider "h \<in> set (own_identifiers e)" | "h \<in> set (name_identifiers_before e)"
    | x where "x \<in> set (children e)" "h \<in> set (identifier_nodes x)" | "h \<in> set (name_identifiers_after e)"
    by (subst (asm) identifier_nodes.simps) auto
  then show ?case
  proof cases
    case 1
    then show ?thesis by (intro own) (cases e rule: own_identifiers.cases; auto)
  next
    case 2
    then show ?thesis
      by (intro own) (cases e rule: name_identifiers_before.cases; auto dest: selector_identifiers_written)
  next
    case (3 x)
    then show ?thesis using "1.IH" [OF 3] subterms_child [OF 3(1)] by blast
  next
    case 4
    then show ?thesis
      by (intro own) (cases e rule: name_identifiers_after.cases; auto dest: selector_identifiers_written)
  qed
qed

lemma filterM_subset: "filterM f xs = Some ys \<Longrightarrow> set ys \<subseteq> set xs"
  by (induction xs arbitrary: ys) (auto split: Option.bind_splits if_splits)

lemma filterM_total: "(\<And>x. x \<in> set xs \<Longrightarrow> \<exists>b. f x = Some b) \<Longrightarrow> \<exists>ys. filterM f xs = Some ys"
proof (induction xs)
  case (Cons x xs)
  obtain b ys where "f x = Some b" "filterM f xs = Some ys" using Cons by force
  then show ?case by simp
qed simp

text \<open>What the builder relies on: one effect per argument, holes from that argument.\<close>

definition effects_for :: "r_argument list \<Rightarrow> arg_effects \<Rightarrow> bool" where
  "effects_for items effs \<longleftrightarrow> length effs = length items \<and>
     (\<forall>i holes v. i < length items \<longrightarrow> effs ! i = Some (Quote holes) \<longrightarrow> arg_value (items ! i) = Some v \<longrightarrow>
        (\<forall>h\<in>set holes. hole_of v h))"

lemma inert_effects_for: "call_arguments call = Some items \<Longrightarrow> effects_for items (inert_argument_effects call)"
  by (simp add: effects_for_def inert_argument_effects_def)

lemma annotation_effects_for:
  assumes "call_arguments call = Some items"
  shows "effects_for items (annotation_resolve formals arguments call)"
proof (cases "ba_new call formals")
  case None
  then show ?thesis by (simp add: annotation_resolve_def inert_effects_for [OF assms])
next
  case (Some b)
  let ?r = "annotation_resolve formals arguments call"
  have "holes = []" if "effect_resolve x = Quote holes" for x holes using that by (cases x) auto
  then have "holes = []" if "i < length items" "?r ! i = Some (Quote holes)" for i holes
    using that Some ba_len_items [OF Some assms]
    by (auto simp: annotation_resolve_def split_beta split: Option.bind_splits)
  then show ?thesis
    using ba_len_items [OF Some assms] Some by (fastforce simp: effects_for_def annotation_resolve_def)
qed

lemma bquote_effects_for:
  assumes "call_arguments call = Some items"
  shows "effects_for items (bquote_resolve call)"
proof (cases "ba_new call [''expr'', ''where'', ''splice'']")
  case None
  then show ?thesis by (simp add: bquote_resolve_def inert_effects_for [OF assms])
next
  case (Some b)
  have "\<forall>h\<in>set holes. hole_of v h"
    if "i < length items" "bquote_resolve call ! i = Some (Quote holes)" "arg_value (items ! i) = Some v" for i holes v
    using that Some ba_len_items [OF Some assms] ba_arguments_value [OF Some assms that(1)]
    by (auto simp: bquote_resolve_def Let_def split_beta hole_of_def
        split: if_splits option.splits dest: unquote_holes_subterms)
  then show ?thesis
    using ba_len_items [OF Some assms] Some by (auto simp: effects_for_def bquote_resolve_def Let_def)
qed

text \<open>The context can answer: the builder's queries do not panic.\<close>

definition ctx_total :: "scope_context \<Rightarrow> bool" where
  "ctx_total ctx \<longleftrightarrow> (\<forall>name inh. cx_is_bound ctx name inh \<noteq> None) \<and> cx_is_global ctx \<noteq> None \<and>
     (\<forall>call. cx_resolve_callee ctx call \<noteq> None)"

lemma substitute_effects_for:
  assumes "call_arguments call = Some items" and ctx: "ctx_total ctx"
  shows "\<exists>r. substitute_resolve ctx call = Some r \<and> (\<forall>effs. r = Some effs \<longrightarrow> effects_for items effs)"
proof (cases "ba_new call [''expr'', ''env'']")
  case None
  then show ?thesis by (simp add: substitute_resolve_def inert_effects_for [OF assms(1)])
next
  case (Some b)
  note len = ba_len_items [OF Some assms(1)]
  show ?thesis
  proof (cases "position (\<lambda>(formal, _). formal = Some ''expr'') (ba_arguments b)")
    case None
    then show ?thesis using Some by (simp add: substitute_resolve_def)
  next
    case (Some p)
    have p: "p < length items" "fst (ba_arguments b ! p) = Some ''expr''"
      using Some len by (auto simp: position_Some_iff split_beta)
    obtain g where g: "(if ba_get b ''env'' = None then cx_is_global ctx else Some True) = Some g"
      using ctx by (cases "ba_get b ''env'' = None") (auto simp: ctx_total_def)
    have subst: "\<exists>hs. substituted_symbols ctx e = Some hs \<and> (\<forall>h\<in>set hs. hole_of e h)" for e
    proof -
      have "\<exists>hs. substituted_symbols ctx e = Some hs"
        unfolding substituted_symbols_def
        by (rule filterM_total) (use ctx in \<open>auto simp: ctx_total_def split: r_expr.splits\<close>)
      then show ?thesis
        using filterM_subset identifier_nodes_written unfolding substituted_symbols_def hole_of_def by blast
    qed
    obtain holes where holes: "(case ba_get b ''expr'' of
        Some e \<Rightarrow> if ba_get b ''env'' = None \<and> \<not> g then substituted_symbols ctx e else Some []
      | None \<Rightarrow> Some []) = Some holes" "\<And>h. h \<in> set holes \<Longrightarrow> \<exists>e. ba_get b ''expr'' = Some e \<and> hole_of e h"
      using subst by (cases "ba_get b ''expr''"; cases "ba_get b ''env'' = None \<and> \<not> g") (auto, metis)
    have eq: "substitute_resolve ctx call = Some (Some ((replicate (ba_len b) None)[p := Some (Quote holes)]))"
      using \<open>ba_new call _ = Some b\<close> Some g holes(1) by (simp add: substitute_resolve_def)
    have "effects_for items ((replicate (ba_len b) None)[p := Some (Quote holes)])"
    proof -
      have "hole_of v h" if h: "h \<in> set holes" and v: "arg_value (items ! p) = Some v" for h v
      proof -
        from holes(2) [OF h] obtain e where e: "ba_get b ''expr'' = Some e" "hole_of e h" by blast
        from ba_get_value [OF \<open>ba_new call _ = Some b\<close> assms(1) e(1)] obtain i where
          i: "i < length items" "arg_value (items ! i) = Some e" "fst (ba_arguments b ! i) = Some ''expr''" by blast
        have "i = p" by (rule formal_taken_once [OF \<open>ba_new call _ = Some b\<close> assms(1) _ i(1) p(1) i(3) p(2)]) simp
        with i(2) v e(2) show ?thesis by simp
      qed
      then show ?thesis using len p(1) by (auto simp: effects_for_def nth_list_update split: if_splits)
    qed
    with eq show ?thesis by simp
  qed
qed

section \<open>Handlers return\<close>

lemma c_elements_total:
  assumes "\<And>f v is. (f, Some v) \<in> set args \<Longrightarrow> \<exists>r. rec v is = Some r"
  shows "\<exists>r. c_elements rec args out is = Some r"
  using assms
proof (induction args arbitrary: out "is")
  case (Cons a args)
  have IH: "\<exists>r. c_elements rec args out' is' = Some r" for out' is'
    by (rule Cons.IH) (erule Cons.prems [OF list.set_intros(2)])
  obtain formal v where a: "a = (formal, v)" by (cases a)
  show ?case
  proof (cases v)
    case (Some e)
    obtain v' is' where "rec e is = Some (v', is')" using Cons.prems [of formal e "is"] a Some by auto
    then show ?thesis using IH by (auto simp: a Some split: option.splits static_value.splits)
  qed (simp add: a)
qed simp

lemma size_arg_of_call:
  "call_arguments call = Some items \<Longrightarrow> i < length items \<Longrightarrow> arg_value (items ! i) = Some v \<Longrightarrow> size v < size call"
  by (auto intro!: size_children arg_value_child)

lemma c_evaluate_total:
  assumes "\<And>v is. size v < size call \<Longrightarrow> \<exists>r. rec v is = Some r"
  shows "\<exists>r. c_evaluate rec call is = Some r"
proof (cases "ba_new call [''...'', ''recursive'', ''use.names'']")
  case (Some b)
  then obtain items where items: "call_arguments call = Some items" by (auto elim: ba_new_Some)
  have "\<exists>r. c_elements rec (ba_arguments b) None is = Some r"
  proof (rule c_elements_total)
    fix f v is' assume "(f, Some v) \<in> set (ba_arguments b)"
    then obtain i where "i < length items" "ba_arguments b ! i = (f, Some v)"
      using ba_len_items [OF Some items] by (auto simp: in_set_conv_nth)
    with ba_arguments_value [OF Some items] have "arg_value (items ! i) = Some v" by fastforce
    with size_arg_of_call [OF items \<open>i < length items\<close>] assms show "\<exists>r. rec v is' = Some r" by blast
  qed
  with Some show ?thesis by (simp add: c_evaluate_def)
qed (simp add: c_evaluate_def)

lemma static_value_upto_total:
  assumes "ctx_total ctx"
  shows "size e < n \<Longrightarrow> \<exists>r. static_value_upto n ctx e is = Some r"
proof (induction n arbitrary: e "is")
  case (Suc n)
  have eval: "\<exists>r. evaluate h (static_value_upto n ctx) e is' = Some r" for h is'
    using Suc.IH Suc.prems by (cases h) (auto intro!: c_evaluate_total simp del: split_paired_Ex)
  have res: "\<exists>r. cx_resolve_callee ctx e = Some r" using assms by (auto simp: ctx_total_def)
  show ?case
  proof (cases e)
    case (RCall r f as)
    with res eval show ?thesis by (auto simp: Let_def split: option.splits)
  qed auto
qed simp

lemma resolve_static_value_total: "ctx_total ctx \<Longrightarrow> \<exists>r. resolve_static_value ctx e is = Some r"
  unfolding resolve_static_value_def by (rule static_value_upto_total) auto

lemma resolve_static_character_total: "ctx_total ctx \<Longrightarrow> \<exists>r. resolve_static_character ctx e is = Some r"
  using resolve_static_value_total [of ctx e "is"] by (auto simp: resolve_static_character_def)

lemma resolve_static_string_total: "ctx_total ctx \<Longrightarrow> \<exists>r. resolve_static_string ctx e is = Some r"
  using resolve_static_character_total [of ctx e "is"] by (auto simp: resolve_static_string_def)

lemma attach_resolve_total: "ctx_total ctx \<Longrightarrow> \<exists>r. attach_resolve h ctx call is = Some r"
  using resolve_static_string_total [of ctx _ "is"] by (cases h) (auto split: option.splits)

lemma source_resolve_total:
  assumes "ctx_total ctx"
  shows "\<exists>r. source_resolve h ctx call is = Some r"
proof (cases h)
  case (SourceAnnotation formals path target default)
  have "\<exists>r. (case ba_get b path of Some value \<Rightarrow> resolve_static_character ctx value is
      | None \<Rightarrow> Some (map_option (\<lambda>p. [p]) default, is)) = Some r" for b
    using resolve_static_character_total [OF assms] by (auto split: option.splits)
  then show ?thesis by (force simp: SourceAnnotation split: option.splits)
qed

lemma assign_resolve_total:
  assumes "ctx_total ctx"
  shows "\<exists>r. assign_resolve h ctx site is = Some r"
proof (cases "(h, ctx, site, is)" rule: assign_resolve.cases)
  case (1 formals name v target_env ctx' call imps)
  have bound: "\<exists>r. do { (s, is) \<leftarrow> resolve_static_string ctx e imps; Some (f s, is) } = Some r"
    for e and f :: "string option \<Rightarrow> assign_binding list option"
    using resolve_static_string_total [OF assms, of e imps] by auto
  show ?thesis
  proof (cases "ba_new call formals")
    case (Some b)
    then show ?thesis
      using 1 bound [of "the (ba_get b name)"] by (cases "ba_get b name") (auto simp del: split_paired_Ex)
  qed (use 1 in simp)
qed auto

lemma arguments_resolve_for:
  assumes "ctx_total ctx" and "call_arguments call = Some items"
  shows "\<exists>r. arguments_resolve h ctx call = Some r \<and> (\<forall>effs. r = Some effs \<longrightarrow> effects_for items effs)"
  using assms substitute_effects_for [OF assms(2,1)]
  by (cases h) (auto simp: annotation_effects_for bquote_effects_for)

section \<open>The matching rule\<close>

text \<open>
  The rule, stated on positions. An argument names a formal when its name is spelled exactly like it;
  of equal formals the first counts, and \<open>...\<close> cannot be named.
\<close>

definition argument_name :: "r_argument \<Rightarrow> string option" where
  "argument_name arg = (case arg of
     RArgument (Some (Some (ArgIdentifier text))) _ \<Rightarrow> Some (name_text text)
   | RArgument (Some (Some (ArgString tok))) _ \<Rightarrow> string_text tok
   | _ \<Rightarrow> None)"

definition names_formal :: "r_argument list \<Rightarrow> formals \<Rightarrow> nat \<Rightarrow> nat \<Rightarrow> bool" where
  "names_formal items formals i k \<longleftrightarrow> i < length items \<and> k < length formals \<and>
     argument_name (items ! i) = Some (formals ! k) \<and> formals ! k \<noteq> ''...'' \<and> (\<forall>j<k. formals ! j \<noteq> formals ! k)"

text \<open>The formals that positions can fill: before \<open>...\<close>, and not named by any argument.\<close>

definition unclaimed :: "r_argument list \<Rightarrow> formals \<Rightarrow> nat \<Rightarrow> bool" where
  "unclaimed items formals k \<longleftrightarrow> k < length formals \<and> (\<forall>j\<le>k. formals ! j \<noteq> ''...'') \<and>
     (\<forall>i<length items. \<not> names_formal items formals i k)"

lemma match_named_iff:
  "i < length items \<Longrightarrow> match_named (items ! i) formals = Some k \<longleftrightarrow> names_formal items formals i k"
  by (auto simp: match_named_def names_formal_def argument_name_def position_Some_iff
      split: r_argument.splits option.splits r_argument_name.splits Option.bind_splits)

lemma map_filter_distinct_iff:
  "distinct (List.map_filter f xs) \<longleftrightarrow>
    (\<forall>i<length xs. \<forall>j<length xs. \<forall>k. f (xs ! i) = Some k \<longrightarrow> f (xs ! j) = Some k \<longrightarrow> i = j)"
proof (induction xs)
  case (Cons x xs)
  have mem: "k \<in> set (List.map_filter f xs) \<longleftrightarrow> (\<exists>j<length xs. f (xs ! j) = Some k)" for k
    by (auto simp: map_filter_def in_set_conv_nth) force+
  show ?case
    by (cases "f x") (auto simp: map_filter_simps Cons.IH mem All_less_Suc2)
qed (simp add: map_filter_simps)

lemma named_slots_iff: "k \<in> set (named_slots items formals) \<longleftrightarrow> (\<exists>i<length items. names_formal items formals i k)"
proof -
  have "k \<in> set (named_slots items formals) \<longleftrightarrow> (\<exists>a\<in>set items. match_named a formals = Some k)"
    by (force simp: named_slots_def map_filter_def)
  also have "\<dots> \<longleftrightarrow> (\<exists>i<length items. match_named (items ! i) formals = Some k)" by (metis in_set_conv_nth)
  also have "\<dots> \<longleftrightarrow> (\<exists>i<length items. names_formal items formals i k)" using match_named_iff by metis
  finally show ?thesis .
qed

lemma named_slots_distinct:
  "distinct (named_slots items formals) \<longleftrightarrow>
    (\<nexists>i j k. i \<noteq> j \<and> names_formal items formals i k \<and> names_formal items formals j k)"
proof -
  have lt: "i < length items" if "names_formal items formals i k" for i k using that by (simp add: names_formal_def)
  have "distinct (named_slots items formals) \<longleftrightarrow> (\<forall>i<length items. \<forall>j<length items. \<forall>k.
      names_formal items formals i k \<longrightarrow> names_formal items formals j k \<longrightarrow> i = j)"
    unfolding named_slots_def map_filter_distinct_iff by (simp add: match_named_iff cong: imp_cong)
  then show ?thesis using lt by blast
qed

lemma filter_upt_nth:
  "r < length (filter P [0..<n]) \<and> filter P [0..<n] ! r = k \<longleftrightarrow> k < n \<and> P k \<and> length (filter P [0..<k]) = r"
proof
  have at: "length (filter P [0..<k]) < length (filter P [0..<n]) \<and> filter P [0..<n] ! length (filter P [0..<k]) = k"
    if "k < n" "P k" for k
  proof -
    have "[0..<n] = [0..<k] @ k # [Suc k..<n]" using that(1) by (metis less_imp_add_positive upt_add_eq_append upt_conv_Cons zero_le le_add1)
    then show ?thesis using that(2) by (simp add: nth_append)
  qed
  { assume r: "r < length (filter P [0..<n]) \<and> filter P [0..<n] ! r = k"
    then have k: "k < n" "P k" using nth_mem [of r "filter P [0..<n]"] by auto
    with at [OF this] r show "k < n \<and> P k \<and> length (filter P [0..<k]) = r"
      by (metis distinct_filter distinct_upt nth_eq_iff_index_eq) }
  { assume "k < n \<and> P k \<and> length (filter P [0..<k]) = r"
    with at [of k] show "r < length (filter P [0..<n]) \<and> filter P [0..<n] ! r = k" by auto }
qed

lemma positional_limit_iff: "k < positional_limit formals \<longleftrightarrow> k < length formals \<and> (\<forall>j\<le>k. formals ! j \<noteq> ''...'')"
proof (cases "position (\<lambda>f. f = ''...'') formals")
  case None
  then have "positional_limit formals = length formals" by (simp add: positional_limit_def)
  moreover have "\<forall>x\<in>set formals. x \<noteq> ''...''" using None by (simp add: position_None_iff)
  ultimately show ?thesis by auto
next
  case (Some d)
  then have "positional_limit formals = d" by (simp add: positional_limit_def)
  moreover have "d < length formals" "formals ! d = ''...''" "\<forall>j<d. formals ! j \<noteq> ''...''"
    using Some by (simp_all add: position_Some_iff)
  ultimately show ?thesis by (metis le_less_trans less_trans not_less)
qed

lemma free_slots_nth:
  "r < length (free_slots items formals) \<and> free_slots items formals ! r = k \<longleftrightarrow>
    unclaimed items formals k \<and> length (filter (unclaimed items formals) [0..<k]) = r"
proof -
  have "filter (\<lambda>j. j \<notin> set (named_slots items formals)) [0..<k] = filter (unclaimed items formals) [0..<k]"
    if "k < positional_limit formals"
    by (rule filter_cong) (use that in \<open>auto simp: positional_limit_iff unclaimed_def named_slots_iff\<close>)
  moreover have "unclaimed items formals k \<longleftrightarrow> k < positional_limit formals \<and> k \<notin> set (named_slots items formals)"
    by (auto simp: positional_limit_iff unclaimed_def named_slots_iff)
  ultimately show ?thesis unfolding free_slots_def filter_upt_nth by auto
qed

lemma assign_slots_nth:
  "i < length items \<Longrightarrow> assign_slots items formals free ! i =
    (if is_positional (items ! i)
     then (let r = length (filter is_positional (take i items)) in if r < length free then Some (free ! r) else None)
     else match_named (items ! i) formals)"
  by (induction items formals free arbitrary: i rule: assign_slots.induct)
    (auto simp: nth_Cons Let_def split: nat.splits list.splits)

section \<open>Properties\<close>

text \<open>
  C21. Argument matching follows the rule \<open>effects.rs\<close> documents, R's rule without partial matching. It
  fails exactly when two arguments name the same formal. Otherwise an argument gets a formal exactly
  when it is named like it, or when it is unnamed, the formal stands before \<open>...\<close> and is named by no
  argument, and as many unnamed arguments come before the one as such formals before the other.
\<close>

theorem match_arguments_rule:
  "(match_items items formals = None \<longleftrightarrow>
      (\<exists>i j k. i \<noteq> j \<and> names_formal items formals i k \<and> names_formal items formals j k)) \<and>
   (\<forall>m. match_items items formals = Some m \<longrightarrow> length m = length items \<and>
      (\<forall>i<length items. \<forall>k. m ! i = Some k \<longleftrightarrow>
         names_formal items formals i k \<or>
         is_positional (items ! i) \<and> unclaimed items formals k \<and>
           length (filter is_positional (take i items)) = length (filter (unclaimed items formals) [0..<k])))"
proof -
  have "m ! i = Some k \<longleftrightarrow> names_formal items formals i k \<or>
      is_positional (items ! i) \<and> unclaimed items formals k \<and>
        length (filter is_positional (take i items)) = length (filter (unclaimed items formals) [0..<k])"
    if m: "match_items items formals = Some m" and i: "i < length items" for m i k
  proof (cases "is_positional (items ! i)")
    case True
    then have "\<not> names_formal items formals i k" using match_named_positional match_named_iff [OF i] by force
    moreover have "m ! i = Some k \<longleftrightarrow> length (filter is_positional (take i items)) < length (free_slots items formals) \<and>
        free_slots items formals ! length (filter is_positional (take i items)) = k"
      using m True by (auto simp: match_items_eq assign_slots_nth [OF i] Let_def split: if_splits)
    ultimately show ?thesis using True unfolding free_slots_nth by auto
  next
    case False
    then show ?thesis using m match_named_iff [OF i] by (auto simp: match_items_eq assign_slots_nth [OF i] split: if_splits)
  qed
  then show ?thesis using match_items_length [of items formals] by (auto simp: match_items_eq named_slots_distinct split: if_splits)
qed

theorem match_arguments_rule_witness:
  "\<exists>m. match_items [RArgument None (Some (RNullExpression (tr_empty 0))),
      RArgument (Some (Some (ArgIdentifier ''x''))) None, RArgument None None, RArgument None None]
     [''x'', ''y'', ''...'', ''z''] = Some m \<and> m ! 0 = Some 1 \<and> m ! 1 = Some 0"
proof -
  let ?items = "[RArgument None (Some (RNullExpression (tr_empty 0))),
      RArgument (Some (Some (ArgIdentifier ''x''))) None, RArgument None None, RArgument None None]"
  let ?formals = "[''x'', ''y'', ''...'', ''z'']"
  have name: "argument_name (?items ! i) = (if i = 1 then Some ''x'' else None)" if "i < length ?items" for i
    using that by (auto simp: argument_name_def name_text_def strip_prefix_char_def nth_Cons split: nat.splits)
  have x: "?formals ! k = ''x'' \<longleftrightarrow> k = 0" if "k < length ?formals" for k
    using that by (auto simp: nth_Cons split: nat.splits)
  have named: "names_formal ?items ?formals i k \<longleftrightarrow> i = 1 \<and> k = 0" for i k
  proof
    assume n: "names_formal ?items ?formals i k"
    then have "argument_name (?items ! i) = Some (?formals ! k)" "i < length ?items" "k < length ?formals"
      unfolding names_formal_def by blast+
    with name [of i] x [of k] show "i = 1 \<and> k = 0" by (metis option.distinct(1) option.inject)
  next
    assume "i = 1 \<and> k = 0"
    then show "names_formal ?items ?formals i k" using name [of 1] by (simp add: names_formal_def)
  qed
  have free: "unclaimed ?items ?formals 1" "\<not> unclaimed ?items ?formals 0"
    by (auto simp: unclaimed_def named le_Suc_eq nth_Cons)
  note rule = match_arguments_rule [of ?items ?formals]
  from rule named obtain m where m: "match_items ?items ?formals = Some m" by (metis option.exhaust)
  with rule have iff: "\<forall>i<length ?items. \<forall>k. m ! i = Some k \<longleftrightarrow> names_formal ?items ?formals i k \<or>
      is_positional (?items ! i) \<and> unclaimed ?items ?formals k \<and>
        length (filter is_positional (take i ?items)) = length (filter (unclaimed ?items ?formals) [0..<k])" by blast
  have "m ! 0 = Some 1" using iff [rule_format, of 0 1] free by (simp add: named is_positional_def has_name_clause_def)
  moreover have "m ! 1 = Some 0" using iff [rule_format, of 1 0] by (simp add: named)
  ultimately show ?thesis using m by blast
qed

text \<open>
  C22. Argument effects line up with the call. Every argument handler returns on a total context, its
  effects have exactly one entry per argument of the call, and each hole of a quoted argument comes
  from that argument: it is one of its sub-expressions or a name written in it, so the builder's
  indexing by argument position is in range and its descent into holes is well founded.
\<close>

theorem argument_effects_aligned:
  assumes "ctx_total ctx" and "call_arguments call = Some items"
  shows "\<exists>r. arguments_resolve h ctx call = Some r \<and>
    (\<forall>effs. r = Some effs \<longrightarrow> length effs = length items \<and>
       (\<forall>i<length items. \<forall>holes v. effs ! i = Some (Quote holes) \<longrightarrow> arg_value (items ! i) = Some v \<longrightarrow>
          (\<forall>h\<in>set holes. h \<in> set (subterms v) \<or>
             (\<exists>e\<in>set (subterms v). \<exists>r text. h = RIdentifier r text \<and> writes_name e r text))))"
  using arguments_resolve_for [OF assms, of h] unfolding effects_for_def hole_of_def by fast

text \<open>\<^verbatim>\<open>substitute(x$y)\<close> in a frame that binds both names: two holes, one of them a member name.\<close>

definition frame_context :: scope_context where
  "frame_context = \<lparr>cx_is_bound = (\<lambda>_ _. Some True), cx_is_global = Some False,
     cx_resolve_callee = (\<lambda>_. Some (settled OriginDynamic None))\<rparr>"

definition member_access :: r_expr where
  "member_access = RExtractExpression (tr_empty 1) (Some (RIdentifier (tr_empty 1) ''x'')) (Some (SelIdentifier (tr_empty 3) ''y''))"

theorem argument_effects_aligned_witness:
  "\<exists>effs holes. arguments_resolve SubstituteHandler frame_context
      (RCall (tr_empty 0) None (Some [RArgument None (Some member_access)])) = Some (Some effs) \<and>
    length effs = 1 \<and> effs ! 0 = Some (Quote holes) \<and> RIdentifier (tr_empty 3) ''y'' \<in> set holes \<and>
    (\<exists>e\<in>set (subterms member_access). writes_name e (tr_empty 3) ''y'')"
proof -
  let ?y = "RIdentifier (tr_empty 3) ''y''"
  let ?call = "RCall (tr_empty 0) None (Some [RArgument None (Some member_access)])"
  have run: "arguments_resolve SubstituteHandler frame_context ?call =
      Some (Some [Some (Quote [RIdentifier (tr_empty 1) ''x'', ?y])])" by code_simp
  have "ctx_total frame_context" by (simp add: ctx_total_def frame_context_def)
  from argument_effects_aligned [OF this, of ?call "[RArgument None (Some member_access)]" SubstituteHandler] run
  have "length [Some (Quote [RIdentifier (tr_empty 1) ''x'', ?y])] = 1"
    "?y \<in> set (subterms member_access) \<or> (\<exists>e\<in>set (subterms member_access). \<exists>r text. ?y = RIdentifier r text \<and> writes_name e r text)"
    by simp_all
  moreover have "?y \<notin> set (subterms member_access)" by code_simp
  ultimately show ?thesis using run by auto
qed

end
