(* ===== verification/Builder.thy ===== *)
theory Builder
  imports Scope_Arena Registry Argument_Matching "HOL-Library.Product_Lexorder"
begin

text \<open>
  \<open>oak_semantic::builder\<close>: the state of the index builder, the scope arena operations and the
  lookups shared by the scan and the walk, and \<open>finish\<close>. The record \<open>builder\<close> extends the
  record of the walk's state, which extends the record of the scan's state, so every field of the
  three Rust structs is a field of one record.

  The imports resolver is code outside this crate: it is a record of functions, an argument of
  the operations that consult it. Its methods take \<open>&mut self\<close> only to fill caches, so they are
  functions of their arguments here.

  \<open>stdext::debug_panic!\<close> panics in debug builds only; the model follows the release build, where
  it logs and execution continues.
\<close>

section \<open>The imports resolver\<close>

record source_resolution =
  sr_url :: url
  sr_names :: "string list"
  sr_packages :: "string list"

record imports_resolver =
  ir_resolve_source :: "string \<Rightarrow> source_resolution option"
  ir_resolve_source_dir :: "string \<Rightarrow> dir_walk \<Rightarrow> source_resolution list"
  ir_resolve_effects :: "string \<Rightarrow> string list \<Rightarrow> function_handlers option"
  ir_resolve_qualified_effects :: "string \<Rightarrow> string \<Rightarrow> function_handlers option"
  ir_binding_package :: "string \<Rightarrow> string list \<Rightarrow> string option"
  ir_package_exists :: "string \<Rightarrow> bool"

text \<open>\<open>NoopImportsResolver\<close>, with the trait's default methods.\<close>

definition noop_imports_resolver :: imports_resolver where
  "noop_imports_resolver = \<lparr>ir_resolve_source = (\<lambda>_. None), ir_resolve_source_dir = (\<lambda>_ _. []),
     ir_resolve_effects = (\<lambda>_ _. None), ir_resolve_qualified_effects = lookup_handlers,
     ir_binding_package = (\<lambda>_ _. None), ir_package_exists = (\<lambda>_. True)\<rparr>"

section \<open>Scan state\<close>

record sourced_file =
  sf_path :: string
  sf_resolution :: "source_resolution option"

record call_resolution =
  cl_arguments :: "arg_effects option"
  cl_attach :: "string option"
  cl_source :: "sourced_file list"
  cl_assign :: "assign_binding list"

definition cl_default :: call_resolution where
  "cl_default = \<lparr>cl_arguments = None, cl_attach = None, cl_source = [], cl_assign = []\<rparr>"

record attach_site =
  as_package :: string
  as_offset :: text_size

record flow_attaches =
  fa_packages :: "string list"
  fa_offsets :: "text_size list"

definition fa_default :: flow_attaches where
  "fa_default = \<lparr>fa_packages = [], fa_offsets = []\<rparr>"

definition fa_len :: "flow_attaches \<Rightarrow> nat" where
  "fa_len f = length (fa_packages f)"

definition fa_push :: "string \<Rightarrow> text_size \<Rightarrow> flow_attaches \<Rightarrow> flow_attaches" where
  "fa_push package offset f =
     f\<lparr>fa_packages := fa_packages f @ [package], fa_offsets := fa_offsets f @ [offset]\<rparr>"

definition fa_truncate :: "nat \<Rightarrow> flow_attaches \<Rightarrow> flow_attaches" where
  "fa_truncate watermark f =
     f\<lparr>fa_packages := take watermark (fa_packages f), fa_offsets := take watermark (fa_offsets f)\<rparr>"

text \<open>\<open>Vec::split_off\<close> panics past the end.\<close>

definition split_off :: "nat \<Rightarrow> 'a list \<Rightarrow> ('a list \<times> 'a list) option" where
  "split_off i xs = (if i \<le> length xs then Some (take i xs, drop i xs) else None)"

definition fa_split_off :: "nat \<Rightarrow> flow_attaches \<Rightarrow> (attach_site list \<times> flow_attaches) option" where
  "fa_split_off watermark f = do {
     (kept_offsets, offsets) \<leftarrow> split_off watermark (fa_offsets f);
     (kept_packages, packages) \<leftarrow> split_off watermark (fa_packages f);
     Some (map (\<lambda>(p, off). \<lparr>as_package = p, as_offset = off\<rparr>) (zip packages offsets),
           f\<lparr>fa_packages := kept_packages, fa_offsets := kept_offsets\<rparr>) }"

text \<open>\<open>FlowState\<close>: the names bound on every path. \<open>snapshot\<close> and \<open>restore\<close> copy the value.\<close>

type_synonym flow_state = "string set"

definition fs_is_bound :: "flow_state \<Rightarrow> string \<Rightarrow> bool" where
  "fs_is_bound s name \<longleftrightarrow> name \<in> s"

definition fs_merge :: "flow_state \<Rightarrow> flow_state \<Rightarrow> flow_state" where
  "fs_merge other s = {name \<in> s. name \<in> other}"

definition fs_bind :: "string \<Rightarrow> flow_state \<Rightarrow> flow_state" where
  "fs_bind name s = insert name s"

definition fs_clear :: flow_state where
  "fs_clear = {}"

text \<open>\<open>BindingSites\<close>: the earliest binding site of each name.\<close>

type_synonym binding_sites = "string \<rightharpoonup> text_range"

definition bs_binds :: "binding_sites \<Rightarrow> string \<Rightarrow> bool" where
  "bs_binds s name \<longleftrightarrow> s name \<noteq> None"

definition bs_binding_range :: "binding_sites \<Rightarrow> string \<Rightarrow> text_range option" where
  "bs_binding_range s name = s name"

definition bs_add :: "string \<Rightarrow> text_range \<Rightarrow> binding_sites \<Rightarrow> binding_sites" where
  "bs_add name rng s = (case s name of Some _ \<Rightarrow> s | None \<Rightarrow> s(name \<mapsto> rng))"

record open_scope =
  os_kind :: scope_kind
  os_bindings :: binding_sites

datatype body_scan =
    BodyDeferred flow_state "string list"
  | BodyScanned binding_sites

record deferred_body =
  db_body :: r_expr
  db_bound_so_far :: flow_state
  db_attached_inherited :: "string list"

text \<open>\<open>ScanState\<close>; the stack of open scopes has the innermost last, as in the code.\<close>

record scan_state =
  sn_bound_anywhere :: "binding_sites list"
  sn_bound_so_far :: flow_state
  sn_open_scopes :: "open_scope list"
  sn_body_scans :: "text_range \<rightharpoonup> body_scan"
  sn_attached_so_far :: flow_attaches
  sn_attach_effect_ends :: "text_size \<rightharpoonup> (string \<times> text_size) list"
  sn_attached_inherited :: "string list"
  sn_attached_anywhere :: "(string \<times> text_range) list"
  sn_call_resolutions :: "text_range \<rightharpoonup> call_resolution"
  sn_super_binding_packages :: "text_range \<rightharpoonup> string"
  sn_deferred_bodies :: "deferred_body list"

section \<open>Walk state and the builder\<close>

record walk_state = scan_state +
  wk_symbol_tables :: "symbol_table list"
  wk_definitions :: "defn list list"
  wk_uses :: "use_site list list"
  wk_use_def_maps :: "udm_builder list"
  wk_enclosing_snapshots :: "snapshot_key \<rightharpoonup> (nat \<times> nat) list"
  wk_lazy_snapshots :: "(nat \<times> nat \<times> nat) \<rightharpoonup> nat"
  wk_semantic_calls :: "semantic_call list"
  wk_namespace_accesses :: "namespace_access list"
  wk_bindings_at_sources :: timeline_builder

record builder = walk_state +
  bu_scopes :: "scope list"
  bu_current_scope :: nat
  bu_diagnostics :: "semantic_diagnostic list"
  bu_callee_dependencies :: "callee_dependency list"

definition file_scope_entry :: "text_range \<Rightarrow> scope" where
  "file_scope_entry rng = \<lparr>sc_parent = None, sc_kind = File, sc_range = rng, sc_desc_start = 1, sc_desc_end = 1\<rparr>"

definition builder_new :: "text_range \<Rightarrow> builder" where
  "builder_new rng = \<lparr>sn_bound_anywhere = [Map.empty], sn_bound_so_far = {}, sn_open_scopes = [],
     sn_body_scans = Map.empty, sn_attached_so_far = fa_default, sn_attach_effect_ends = Map.empty,
     sn_attached_inherited = [], sn_attached_anywhere = [], sn_call_resolutions = Map.empty,
     sn_super_binding_packages = Map.empty, sn_deferred_bodies = [],
     wk_symbol_tables = [st_new], wk_definitions = [[]], wk_uses = [[]], wk_use_def_maps = [udm_new],
     wk_enclosing_snapshots = Map.empty, wk_lazy_snapshots = Map.empty, wk_semantic_calls = [],
     wk_namespace_accesses = [], wk_bindings_at_sources = tb_default,
     bu_scopes = [file_scope_entry rng], bu_current_scope = 0, bu_diagnostics = [],
     bu_callee_dependencies = []\<rparr>"

section \<open>Scopes\<close>

definition push_scope :: "scope_kind \<Rightarrow> text_range \<Rightarrow> builder \<Rightarrow> nat \<times> builder" where
  "push_scope kind rng b =
     (let next_raw = iv_next_id (bu_scopes b);
          (i, scopes) = iv_push (bu_scopes b) (new_scope (bu_current_scope b) kind rng next_raw)
      in (i, b\<lparr>bu_scopes := scopes, bu_current_scope := i,
              wk_symbol_tables := wk_symbol_tables b @ [st_new],
              wk_definitions := wk_definitions b @ [[]],
              wk_uses := wk_uses b @ [[]],
              wk_use_def_maps := wk_use_def_maps b @ [udm_new],
              sn_bound_anywhere := sn_bound_anywhere b @ [Map.empty]\<rparr>))"

text \<open>The file scope has no parent to return to: \<open>pop_scope\<close> panics on it.\<close>

definition pop_scope :: "nat \<Rightarrow> builder \<Rightarrow> builder option" where
  "pop_scope i b = do {
     scopes \<leftarrow> iv_modify (bu_scopes b) i (\<lambda>s. s\<lparr>sc_desc_end := iv_next_id (bu_scopes b)\<rparr>);
     sc \<leftarrow> iv_get scopes i;
     parent \<leftarrow> sc_parent sc;
     Some (b\<lparr>bu_scopes := scopes, bu_current_scope := parent\<rparr>) }"

definition current_kind :: "builder \<Rightarrow> scope_kind option" where
  "current_kind b = map_option sc_kind (iv_get (bu_scopes b) (bu_current_scope b))"

definition enclosing_owner :: "builder \<Rightarrow> nat option option" where
  "enclosing_owner b = do {
     sc \<leftarrow> iv_get (bu_scopes b) (bu_current_scope b);
     case sc_parent sc of
       None \<Rightarrow> Some None
     | Some parent \<Rightarrow> do {
         is \<leftarrow> scope_ancestors (bu_scopes b) parent;
         Some (find (\<lambda>s. kind_owns_bindings (sc_kind (bu_scopes b ! s))) is) } }"

definition builder_enclosing_lazy_scope :: "builder \<Rightarrow> nat \<Rightarrow> nat option option" where
  "builder_enclosing_lazy_scope b s = do {
     is \<leftarrow> scope_ancestors (bu_scopes b) s;
     Some (find (\<lambda>s. kind_is_lazy (sc_kind (bu_scopes b ! s))) is) }"

section \<open>Bindings anywhere in a scope\<close>

definition walked_binding :: "builder \<Rightarrow> nat \<Rightarrow> string \<Rightarrow> nat option option" where
  "walked_binding b s name = do {
     table \<leftarrow> iv_get (wk_symbol_tables b) s;
     case st_id table name of
       None \<Rightarrow> Some None
     | Some sid \<Rightarrow> do {
         sy \<leftarrow> st_symbol table sid;
         Some (if flags_contains (sy_flags sy) IS_BOUND then Some sid else None) } }"

definition scope_binds_anywhere :: "builder \<Rightarrow> nat \<Rightarrow> string \<Rightarrow> bool option" where
  "scope_binds_anywhere b s name = do {
     w \<leftarrow> walked_binding b s name;
     sites \<leftarrow> iv_get (sn_bound_anywhere b) s;
     Some (w \<noteq> None \<or> bs_binds sites name) }"

definition scope_binding_range :: "builder \<Rightarrow> nat \<Rightarrow> string \<Rightarrow> text_range option option" where
  "scope_binding_range b s name = do {
     sites \<leftarrow> iv_get (sn_bound_anywhere b) s;
     case bs_binding_range sites name of
       Some rng \<Rightarrow> Some (Some rng)
     | None \<Rightarrow> do {
         w \<leftarrow> walked_binding b s name;
         case w of
           None \<Rightarrow> Some None
         | Some sid \<Rightarrow> do {
             ds \<leftarrow> iv_get (wk_definitions b) s;
             Some (map_option (\<lambda>(_, d). df_range d) (find (\<lambda>(_, d). df_symbol d = sid) (iv_iter ds))) } } }"

section \<open>Finishing\<close>

definition dependency_key :: "callee_dependency \<Rightarrow> nat \<times> nat" where
  "dependency_key d = (tr_start (cd_range d), tr_end (cd_range d))"

definition builder_finish :: "builder \<Rightarrow> semantic_index option" where
  "builder_finish b = do {
     scopes \<leftarrow> iv_modify (bu_scopes b) 0 (\<lambda>s. s\<lparr>sc_desc_end := iv_next_id (bu_scopes b)\<rparr>);
     file_map \<leftarrow> iv_get (wk_use_def_maps b) 0;
     folded \<leftarrow> udm_fold_lazy_defs file_map;
     let (timeline, ranks) = tb_finish (wk_bindings_at_sources b);
     Some \<lparr>ix_scopes = scopes, ix_symbol_tables = wk_symbol_tables b, ix_definitions = wk_definitions b,
       ix_uses = wk_uses b, ix_use_def_maps = map udm_finish ((wk_use_def_maps b)[0 := folded]),
       ix_enclosing_snapshots = wk_enclosing_snapshots b, ix_semantic_calls = wk_semantic_calls b,
       ix_callee_dependencies = sort_key dependency_key (bu_callee_dependencies b),
       ix_namespace_accesses = wk_namespace_accesses b, ix_diagnostics = bu_diagnostics b,
       ix_final_bindings = udm_final_bindings folded,
       ix_bindings_at_sources = timeline, ix_source_ranks = ranks\<rparr> }"

section \<open>Assignments\<close>

fun bin_operator_kind :: "r_expr \<Rightarrow> syntax_kind option" where
  "bin_operator_kind (RBinaryExpression _ _ tok _) = map_option tk_kind tok"
| "bin_operator_kind _ = None"

definition is_assignment :: "r_expr \<Rightarrow> bool" where
  "is_assignment bin = (case bin_operator_kind bin of
     Some k \<Rightarrow> k \<in> {ASSIGN, EQUAL, ASSIGN_RIGHT, SUPER_ASSIGN, SUPER_ASSIGN_RIGHT} | None \<Rightarrow> False)"

definition is_right_assignment :: "r_expr \<Rightarrow> bool" where
  "is_right_assignment bin = (case bin_operator_kind bin of
     Some k \<Rightarrow> k \<in> {ASSIGN_RIGHT, SUPER_ASSIGN_RIGHT} | None \<Rightarrow> False)"

definition is_super_assignment :: "r_expr \<Rightarrow> bool" where
  "is_super_assignment bin = (case bin_operator_kind bin of
     Some k \<Rightarrow> k \<in> {SUPER_ASSIGN, SUPER_ASSIGN_RIGHT} | None \<Rightarrow> False)"

definition assignment_name :: "r_expr \<Rightarrow> (string \<times> text_range) option" where
  "assignment_name target = (case target of
     RIdentifier r text \<Rightarrow> Some (name_text text, r)
   | RStringValue r tok \<Rightarrow> map_option (\<lambda>name. (name, r)) (string_text tok)
   | _ \<Rightarrow> None)"

fun bin_left :: "r_expr \<Rightarrow> r_expr option" where
  "bin_left (RBinaryExpression _ l _ _) = l"
| "bin_left _ = None"

fun bin_right :: "r_expr \<Rightarrow> r_expr option" where
  "bin_right (RBinaryExpression _ _ _ r) = r"
| "bin_right _ = None"

end
