(* ===== verification/Builder_Effects.thy ===== *)
theory Builder_Effects
  imports Builder
begin

text \<open>
  \<open>oak_semantic::builder::effects\<close> and the scope context of \<open>builder::scan\<close>: how a callee is
  resolved at its call site (local bindings, imports, qualified names), what can make the
  resolution ambiguous, and how the handlers of the callee are run against the scan state.
\<close>

section \<open>The current evaluation frame\<close>

datatype scan_scope = ScanOpen binding_sites | ScanArena nat

definition scan_scope_of :: "builder \<Rightarrow> scan_scope" where
  "scan_scope_of b =
     (case find (\<lambda>s. kind_owns_bindings (os_kind s)) (rev (sn_open_scopes b)) of
        Some s \<Rightarrow> ScanOpen (os_bindings s)
      | None \<Rightarrow> ScanArena (bu_current_scope b))"

definition scan_scope_binds :: "builder \<Rightarrow> string \<Rightarrow> bool option" where
  "scan_scope_binds b name =
     (case scan_scope_of b of
        ScanOpen s \<Rightarrow> Some (bs_binds s name)
      | ScanArena s \<Rightarrow> scope_binds_anywhere b s name)"

definition scan_scope_binding_range :: "builder \<Rightarrow> string \<Rightarrow> text_range option option" where
  "scan_scope_binding_range b name =
     (case scan_scope_of b of
        ScanOpen s \<Rightarrow> Some (bs_binding_range s name)
      | ScanArena s \<Rightarrow> scope_binding_range b s name)"

definition scan_scope_is_global :: "builder \<Rightarrow> bool option" where
  "scan_scope_is_global b =
     (case scan_scope_of b of
        ScanOpen _ \<Rightarrow> Some False
      | ScanArena s \<Rightarrow> map_option (\<lambda>sc. sc_kind sc = File) (iv_get (bu_scopes b) s))"

section \<open>Lazy shadows and dropped attaches\<close>

definition attach_search_path :: "string list \<Rightarrow> string list \<Rightarrow> string list" where
  "attach_search_path inherited so_far = (if inherited = [] then so_far else inherited @ so_far)"

definition builder_search_path :: "builder \<Rightarrow> string list" where
  "builder_search_path b = attach_search_path (sn_attached_inherited b) (fa_packages (sn_attached_so_far b))"

text \<open>The loop of \<open>lazy_shadow_in_arena\<close> over the parent chain.\<close>

fun lazy_shadow_chain :: "builder \<Rightarrow> string \<Rightarrow> nat list \<Rightarrow> bool \<Rightarrow> text_range option option" where
  "lazy_shadow_chain b name [] crossed = Some None"
| "lazy_shadow_chain b name (s # ss) crossed = do {
     r \<leftarrow> (if crossed then scope_binding_range b s name else Some None);
     case r of
       Some rng \<Rightarrow> Some (Some rng)
     | None \<Rightarrow> do {
         sc \<leftarrow> iv_get (bu_scopes b) s;
         lazy_shadow_chain b name ss (crossed \<or> kind_is_lazy (sc_kind sc)) } }"

definition lazy_shadow_in_arena :: "builder \<Rightarrow> string \<Rightarrow> nat option \<Rightarrow> bool \<Rightarrow> text_range option option" where
  "lazy_shadow_in_arena b name start crossed =
     (case start of
        None \<Rightarrow> Some None
      | Some s \<Rightarrow> do { is \<leftarrow> scope_ancestors (bu_scopes b) s; lazy_shadow_chain b name is crossed })"

text \<open>The loop over the open scopes below the innermost one: a hit, or the laziness crossed.\<close>

fun lazy_shadow_open :: "string \<Rightarrow> open_scope list \<Rightarrow> bool \<Rightarrow> text_range option \<times> bool" where
  "lazy_shadow_open name [] crossed = (None, crossed)"
| "lazy_shadow_open name (s # ss) crossed =
     (case (if crossed then bs_binding_range (os_bindings s) name else None) of
        Some rng \<Rightarrow> (Some rng, crossed)
      | None \<Rightarrow> lazy_shadow_open name ss (crossed \<or> kind_is_lazy (os_kind s)))"

definition is_lazily_shadowed :: "builder \<Rightarrow> string \<Rightarrow> text_range option option" where
  "is_lazily_shadowed b name =
     (case rev (sn_open_scopes b) of
        body # below \<Rightarrow>
          (case lazy_shadow_open name below (kind_is_lazy (os_kind body)) of
             (Some rng, _) \<Rightarrow> Some (Some rng)
           | (None, crossed) \<Rightarrow> lazy_shadow_in_arena b name (Some (bu_current_scope b)) crossed)
      | [] \<Rightarrow> do {
          sc \<leftarrow> iv_get (bu_scopes b) (bu_current_scope b);
          lazy_shadow_in_arena b name (sc_parent sc) (kind_is_lazy (sc_kind sc)) })"

definition conditional_attach_uncertainty :: "imports_resolver \<Rightarrow> builder \<Rightarrow> string \<Rightarrow> callee_uncertainty option" where
  "conditional_attach_uncertainty R b name =
     (let path = builder_search_path b;
          dropped = filter (\<lambda>(package, _). package \<notin> set path) (sn_attached_anywhere b);
          candidates = List.map_filter (\<lambda>(package, rng).
            map_option (\<lambda>h. \<lparr>da_package = package, da_attach_range = rng, da_handlers = h\<rparr>)
              (ir_resolve_effects R name [package])) (rev dropped)
      in if candidates = [] then None else Some (UncertainConditionalAttach candidates))"

section \<open>Resolving callees\<close>

definition resolve_local_effects :: "string \<Rightarrow> function_handlers option" where
  "resolve_local_effects name = None"

definition resolve_symbol :: "imports_resolver \<Rightarrow> builder \<Rightarrow> string \<Rightarrow> callee_resolution option" where
  "resolve_symbol R b name =
     (if fs_is_bound (sn_bound_so_far b) name then Some (settled OriginLocal (resolve_local_effects name))
      else if \<not> annotates name then Some (settled OriginImport None)
      else
        let handlers = ir_resolve_effects R name (builder_search_path b)
        in do {
          uncertainty \<leftarrow> (case handlers of
              Some _ \<Rightarrow> map_option (map_option UncertainLazyShadow) (is_lazily_shadowed b name)
            | None \<Rightarrow> Some (conditional_attach_uncertainty R b name));
          Some \<lparr>cr_origin = OriginImport, cr_handlers = handlers, cr_uncertainty = uncertainty\<rparr> })"

definition resolve_qualified :: "imports_resolver \<Rightarrow> r_selector option \<Rightarrow> r_selector option \<Rightarrow> function_handlers option" where
  "resolve_qualified R left right = do {
     l \<leftarrow> left; pkg \<leftarrow> identifier_text l;
     r \<leftarrow> right; func \<leftarrow> identifier_text r;
     if annotates func then ir_resolve_qualified_effects R pkg func else None }"

definition resolve_callee :: "imports_resolver \<Rightarrow> builder \<Rightarrow> r_expr \<Rightarrow> callee_resolution option" where
  "resolve_callee R b call =
     (case call_function call of
        Some (RIdentifier _ text) \<Rightarrow> do {
          resolution \<leftarrow> resolve_symbol R b (name_text text);
          Some (case source_dir_idiom (name_text text) of
              Some handlers \<Rightarrow> settled (cr_origin resolution) (Some handlers)
            | None \<Rightarrow> resolution) }
      | Some (RNamespaceExpression _ l _ r) \<Rightarrow> Some (settled OriginQualified (resolve_qualified R l r))
      | _ \<Rightarrow> Some (settled OriginDynamic None))"

text \<open>\<open>ScanBindings\<close> as the \<open>ScopeContext\<close> of the handlers.\<close>

definition scan_context :: "imports_resolver \<Rightarrow> builder \<Rightarrow> scope_context" where
  "scan_context R b =
     \<lparr>cx_is_bound = (\<lambda>name inherits. if inherits then Some (fs_is_bound (sn_bound_so_far b) name)
                                   else scan_scope_binds b name),
      cx_is_global = scan_scope_is_global b,
      cx_resolve_callee = resolve_callee R b\<rparr>"

section \<open>Recording\<close>

definition record_ambiguity :: "string \<Rightarrow> text_range \<Rightarrow> ambiguity_reason \<Rightarrow> builder \<Rightarrow> builder" where
  "record_ambiguity name call_range reason b =
     b\<lparr>bu_diagnostics := bu_diagnostics b @ [AmbiguousCalleeResolution name call_range reason]\<rparr>"

definition record_call_ambiguity :: "r_expr \<Rightarrow> ambiguity_reason \<Rightarrow> builder \<Rightarrow> builder" where
  "record_call_ambiguity call reason b =
     (case call_function call of
        Some (RIdentifier _ text) \<Rightarrow> record_ambiguity (name_text text) (trimmed_range call) reason b
      | _ \<Rightarrow> b)"

definition record_callee_imports :: "callee_import list \<Rightarrow> builder \<Rightarrow> builder" where
  "record_callee_imports imports b =
     foldl (\<lambda>b i.
         let b = (case ci_ambiguity i of Some reason \<Rightarrow> record_ambiguity (ci_name i) (ci_call_range i) reason b | None \<Rightarrow> b)
         in b\<lparr>bu_callee_dependencies := bu_callee_dependencies b @
              [\<lparr>cd_name = ci_name i, cd_range = ci_call_range i, cd_usage = UsageValue\<rparr>]\<rparr>)
       b imports"

section \<open>Running the handlers\<close>

text \<open>\<open>handler.and_then(|h| h.resolve(...))\<close>.\<close>

definition run_handler :: "('h \<Rightarrow> 'a handler_run) \<Rightarrow> 'h option \<Rightarrow> 'a handler_run" where
  "run_handler f h is = (case h of None \<Rightarrow> Some (None, is) | Some h \<Rightarrow> f h is)"

definition run_handlers :: "effects_handlers \<Rightarrow> scope_context \<Rightarrow> r_expr \<Rightarrow> (effects \<times> callee_import list) option" where
  "run_handlers handlers ctx call = do {
     arguments \<leftarrow> (case eh_arguments handlers of None \<Rightarrow> Some None | Some h \<Rightarrow> arguments_resolve h ctx call);
     (attach, is) \<leftarrow> run_handler (\<lambda>h. attach_resolve h ctx call) (eh_attach handlers) [];
     (source, is) \<leftarrow> run_handler (\<lambda>h. source_resolve h ctx call) (eh_source handlers) is;
     (assign, is) \<leftarrow> run_handler (\<lambda>h. assign_resolve h ctx (SiteCall call)) (eh_assign handlers) is;
     Some (\<lparr>ef_arguments = arguments, ef_attach = attach, ef_source = source, ef_assign = assign\<rparr>, is) }"

definition resolve_effects :: "imports_resolver \<Rightarrow> r_expr \<Rightarrow> builder \<Rightarrow> (effects option \<times> builder) option" where
  "resolve_effects R call b = do {
     resolution \<leftarrow> resolve_callee R b call;
     let b = (case ambiguity resolution has_effects of Some reason \<Rightarrow> record_call_ambiguity call reason b | None \<Rightarrow> b);
     case cr_handlers resolution of
       None \<Rightarrow> Some (None, b)
     | Some h \<Rightarrow> do {
         (effs, is) \<leftarrow> run_handlers (fh_effects h) (scan_context R b) call;
         Some (Some effs, record_callee_imports is b) } }"

definition resolve_operator_assign ::
    "imports_resolver \<Rightarrow> r_expr \<Rightarrow> builder \<Rightarrow> (assign_binding list option \<times> builder) option" where
  "resolve_operator_assign R bin b =
     (case bin of
        RBinaryExpression rng _ (Some tok) _ \<Rightarrow>
          if tk_kind tok \<noteq> SPECIAL \<and> tk_kind tok \<noteq> WALRUS then Some (None, b)
          else if \<not> annotates (tk_text tok) then Some (None, b)
          else do {
            resolution \<leftarrow> resolve_symbol R b (tk_text tok);
            let b = (case ambiguity resolution has_effects of
                       Some reason \<Rightarrow> record_ambiguity (tk_text tok) rng reason b | None \<Rightarrow> b);
            case Option.bind (cr_handlers resolution) (\<lambda>h. eh_assign (fh_effects h)) of
              None \<Rightarrow> Some (None, b)
            | Some h \<Rightarrow> do {
                (assigned, is) \<leftarrow> assign_resolve h (scan_context R b) (SiteOperator bin) [];
                Some (assigned, record_callee_imports is b) } }
      | _ \<Rightarrow> Some (None, b))"

end
