(* ===== verification/Builder_Scan.thy ===== *)
theory Builder_Scan
  imports Builder_Effects
begin

text \<open>
  \<open>oak_semantic::builder::scan\<close>: the pass that decides, in flow order, which calls have effects
  and which names each scope binds. The recursive functions take the recursive call as a
  parameter \<open>rec\<close>; \<open>scan_expression\<close> closes the knot with a bound on the depth, so that
  \<open>None\<close> is a panic or an exhausted bound. \<open>Scan_Total\<close> shows that neither happens.
\<close>

type_synonym scan_rec = "r_expr \<Rightarrow> builder \<Rightarrow> builder option"

section \<open>Bindings\<close>

text \<open>The innermost open frame that owns its bindings, searched from the end of the stack.\<close>

fun add_to_frame :: "string \<Rightarrow> text_range \<Rightarrow> open_scope list \<Rightarrow> open_scope list option" where
  "add_to_frame name rng [] = None"
| "add_to_frame name rng (s # ss) =
     (case add_to_frame name rng ss of
        Some ss' \<Rightarrow> Some (s # ss')
      | None \<Rightarrow> if kind_owns_bindings (os_kind s)
               then Some (s\<lparr>os_bindings := bs_add name rng (os_bindings s)\<rparr> # ss) else None)"

definition record_binding :: "string \<Rightarrow> text_range \<Rightarrow> builder \<Rightarrow> builder option" where
  "record_binding name rng b =
     (let b = b\<lparr>sn_bound_so_far := fs_bind name (sn_bound_so_far b)\<rparr>
      in case add_to_frame name rng (sn_open_scopes b) of
           Some frames \<Rightarrow> Some (b\<lparr>sn_open_scopes := frames\<rparr>)
         | None \<Rightarrow> do {
             sites \<leftarrow> iv_modify (sn_bound_anywhere b) (bu_current_scope b) (bs_add name rng);
             Some (b\<lparr>sn_bound_anywhere := sites\<rparr>) })"

definition record_enclosing_flow :: "text_range \<Rightarrow> builder \<Rightarrow> builder" where
  "record_enclosing_flow rng b =
     b\<lparr>sn_body_scans := (sn_body_scans b)(rng \<mapsto> BodyDeferred (sn_bound_so_far b) (builder_search_path b))\<rparr>"

text \<open>The names the walk has already flagged as bound in a scope.\<close>

definition table_bound_names :: "symbol_table \<Rightarrow> string list" where
  "table_bound_names t =
     map (\<lambda>(_, s). sy_name s) (filter (\<lambda>(_, s). flags_contains (sy_flags s) IS_BOUND) (st_iter t))"

definition begin_scan :: "builder \<Rightarrow> builder option" where
  "begin_scan b = do {
     sc \<leftarrow> iv_get (bu_scopes b) (bu_current_scope b);
     table \<leftarrow> iv_get (wk_symbol_tables b) (bu_current_scope b);
     let b = (case sn_body_scans b (sc_range sc) of
         None \<Rightarrow> b\<lparr>sn_bound_so_far := fs_clear, sn_attached_inherited := []\<rparr>
       | Some (BodyDeferred bound_so_far attached_inherited) \<Rightarrow>
           b\<lparr>sn_bound_so_far := bound_so_far, sn_attached_inherited := attached_inherited\<rparr>
       | Some (BodyScanned _) \<Rightarrow> b\<lparr>sn_bound_so_far := fs_clear, sn_attached_inherited := []\<rparr>);
     Some (b\<lparr>sn_bound_so_far := foldl (\<lambda>s name. fs_bind name s) (sn_bound_so_far b) (table_bound_names table)\<rparr>) }"

section \<open>Attaches at joins\<close>

definition end_attach_effects :: "attach_site list \<Rightarrow> text_size option \<Rightarrow> builder \<Rightarrow> builder" where
  "end_attach_effects sites stop b =
     (case stop of
        None \<Rightarrow> b
      | Some stop \<Rightarrow> b\<lparr>sn_attach_effect_ends :=
          foldl (\<lambda>m site. m(as_offset site \<mapsto>
              (case m (as_offset site) of None \<Rightarrow> [] | Some l \<Rightarrow> l) @ [(as_package site, stop)]))
            (sn_attach_effect_ends b) sites\<rparr>)"

definition search_order :: "attach_site list \<Rightarrow> string set \<Rightarrow> string list" where
  "search_order sites packages =
     foldl (\<lambda>order site. if as_package site \<notin> packages then order
                         else filter (\<lambda>kept. kept \<noteq> as_package site) order @ [as_package site])
       [] sites"

definition record_attach_order_ambiguity ::
    "attach_site list \<Rightarrow> attach_site list \<Rightarrow> text_range \<Rightarrow> builder \<Rightarrow> builder" where
  "record_attach_order_ambiguity consequence rejoined rng b =
     (if length rejoined < 2 then b
      else
        let packages = set (map as_package rejoined);
            kept = search_order rejoined packages
        in if search_order consequence packages = kept then b
           else b\<lparr>bu_diagnostics := bu_diagnostics b @ [AmbiguousAttachOrder kept rng]\<rparr>)"

definition join_attaches :: "attach_site list \<Rightarrow> text_size option \<Rightarrow> attach_site list \<Rightarrow> text_size option \<Rightarrow>
    text_range \<Rightarrow> builder \<Rightarrow> builder" where
  "join_attaches consequence consequence_end alternative alternative_end rng b =
     (let attached_in_consequence = (\<lambda>site. list_ex (\<lambda>other. as_package other = as_package site) consequence);
          (rejoined, dropped) = partition attached_in_consequence alternative;
          b = record_attach_order_ambiguity consequence rejoined rng b;
          b = end_attach_effects consequence consequence_end b;
          b = end_attach_effects dropped alternative_end b
      in b\<lparr>sn_attached_so_far :=
           foldl (\<lambda>f site. fa_push (as_package site) (as_offset site) f) (sn_attached_so_far b) rejoined\<rparr>)"

section \<open>Control flow\<close>

definition scan_conditional :: "scan_rec \<Rightarrow> r_expr option \<Rightarrow> builder \<Rightarrow> (text_size option \<times> builder) option" where
  "scan_conditional rec region b =
     (case region of
        None \<Rightarrow> Some (None, b)
      | Some e \<Rightarrow> do { b \<leftarrow> rec e b; Some (Some (tr_end (trimmed_range e)), b) })"

definition scan_branch :: "scan_rec \<Rightarrow> r_expr option \<Rightarrow> r_expr option \<Rightarrow> text_range \<Rightarrow> builder \<Rightarrow> builder option" where
  "scan_branch rec consequence alternative rng b = do {
     let pre = sn_bound_so_far b;
     let attach_watermark = fa_len (sn_attached_so_far b);
     (consequence_end, b) \<leftarrow> scan_conditional rec consequence b;
     let post = sn_bound_so_far b;
     (consequence_attaches, attaches) \<leftarrow> fa_split_off attach_watermark (sn_attached_so_far b);
     let b = b\<lparr>sn_attached_so_far := attaches, sn_bound_so_far := pre\<rparr>;
     (alternative_end, b) \<leftarrow> scan_conditional rec alternative b;
     let b = b\<lparr>sn_bound_so_far := fs_merge post (sn_bound_so_far b)\<rparr>;
     (alternative_attaches, attaches) \<leftarrow> fa_split_off attach_watermark (sn_attached_so_far b);
     let b = b\<lparr>sn_attached_so_far := attaches\<rparr>;
     Some (join_attaches consequence_attaches consequence_end alternative_attaches alternative_end rng b) }"

definition scan_loop_body :: "scan_rec \<Rightarrow> r_expr option \<Rightarrow> builder \<Rightarrow> builder option" where
  "scan_loop_body rec body b = do {
     let attach_watermark = fa_len (sn_attached_so_far b);
     let pre_body = sn_bound_so_far b;
     (body_end, b) \<leftarrow> scan_conditional rec body b;
     let b = b\<lparr>sn_bound_so_far := fs_merge pre_body (sn_bound_so_far b)\<rparr>;
     (dropped, attaches) \<leftarrow> fa_split_off attach_watermark (sn_attached_so_far b);
     Some (end_attach_effects dropped body_end (b\<lparr>sn_attached_so_far := attaches\<rparr>)) }"

section \<open>Deferred bodies\<close>

definition scan_deferred_body :: "scan_rec \<Rightarrow> deferred_body \<Rightarrow> builder \<Rightarrow> builder option" where
  "scan_deferred_body rec d b = do {
     let old = sn_bound_so_far b;
     let old_attached = sn_attached_inherited b;
     let b = b\<lparr>sn_attached_inherited := db_attached_inherited d, sn_bound_so_far := db_bound_so_far d,
               sn_open_scopes := sn_open_scopes b @ [\<lparr>os_kind = Nse Current Lazy, os_bindings = Map.empty\<rparr>]\<rparr>;
     b \<leftarrow> rec (db_body d) b;
     Some (b\<lparr>sn_open_scopes := butlast (sn_open_scopes b), sn_bound_so_far := old,
             sn_attached_inherited := old_attached\<rparr>) }"

text \<open>\<open>scan_deferred_bodies\<close>: rounds until no body above the watermark is left.\<close>

fun scan_deferred_bodies :: "nat \<Rightarrow> scan_rec \<Rightarrow> nat \<Rightarrow> builder \<Rightarrow> builder option" where
  "scan_deferred_bodies 0 rec watermark b = None"
| "scan_deferred_bodies (Suc n) rec watermark b = do {
     (kept, batch) \<leftarrow> split_off watermark (sn_deferred_bodies b);
     let b = b\<lparr>sn_deferred_bodies := kept\<rparr>;
     if batch = [] then Some b
     else do {
       b \<leftarrow> foldM (scan_deferred_body rec) batch b;
       scan_deferred_bodies n rec watermark b } }"

section \<open>Sources and operators\<close>

definition record_source_resolution :: "source_resolution \<Rightarrow> text_range \<Rightarrow> builder \<Rightarrow> builder option" where
  "record_source_resolution resolution source_range b = do {
     b \<leftarrow> foldM (\<lambda>name b. record_binding name source_range b) (sr_names resolution) b;
     kind \<leftarrow> current_kind b;
     if kind_is_lazy kind then Some b
     else Some (foldl (\<lambda>b pkg.
         b\<lparr>sn_attached_anywhere := sn_attached_anywhere b @ [(pkg, source_range)],
           sn_attached_so_far := fa_push pkg (tr_start source_range) (sn_attached_so_far b)\<rparr>)
       b (sr_packages resolution)) }"

definition source_resolutions :: "imports_resolver \<Rightarrow> source_path \<Rightarrow> source_resolution list" where
  "source_resolutions R sourced =
     (case sp_target sourced of
        TargetFile \<Rightarrow> opt_list (ir_resolve_source R (sp_path sourced))
      | TargetDir walk \<Rightarrow> ir_resolve_source_dir R (sp_path sourced) walk
      | TargetFileOrDir walk \<Rightarrow>
          (case ir_resolve_source R (sp_path sourced) of
             Some resolution \<Rightarrow> [resolution]
           | None \<Rightarrow> ir_resolve_source_dir R (sp_path sourced) walk))"

definition scan_source_call ::
    "imports_resolver \<Rightarrow> source_path \<Rightarrow> text_range \<Rightarrow> builder \<Rightarrow> (source_resolution list \<times> builder) option" where
  "scan_source_call R sourced source_range b = do {
     let resolutions = source_resolutions R sourced;
     b \<leftarrow> foldM (\<lambda>r b. record_source_resolution r source_range b) resolutions b;
     Some (resolutions, b) }"

text \<open>\<open>call_resolutions.entry(range).or_default()\<close>, updated by a function.\<close>

definition update_resolution :: "text_range \<Rightarrow> (call_resolution \<Rightarrow> call_resolution) \<Rightarrow> builder \<Rightarrow> builder" where
  "update_resolution rng f b =
     b\<lparr>sn_call_resolutions := (sn_call_resolutions b)(rng \<mapsto>
        f (case sn_call_resolutions b rng of Some r \<Rightarrow> r | None \<Rightarrow> cl_default))\<rparr>"

definition scan_assigned :: "text_range \<Rightarrow> assign_binding \<Rightarrow> builder \<Rightarrow> builder option" where
  "scan_assigned rng binding b = do {
     b \<leftarrow> record_binding (ab_name binding) rng b;
     Some (update_resolution rng (\<lambda>r. r\<lparr>cl_assign := cl_assign r @ [binding]\<rparr>) b) }"

definition scan_operator_assign :: "imports_resolver \<Rightarrow> r_expr \<Rightarrow> builder \<Rightarrow> builder option" where
  "scan_operator_assign R bin b = do {
     (bindings, b) \<leftarrow> resolve_operator_assign R bin b;
     case bindings of
       None \<Rightarrow> Some b
     | Some bs \<Rightarrow> foldM (scan_assigned (trimmed_range bin)) bs b }"

definition scan_super_binding_package :: "imports_resolver \<Rightarrow> string \<Rightarrow> text_range \<Rightarrow> builder \<Rightarrow> builder" where
  "scan_super_binding_package R name rng b =
     (case ir_binding_package R name (builder_search_path b) of
        Some package \<Rightarrow> b\<lparr>sn_super_binding_packages := (sn_super_binding_packages b)(rng \<mapsto> package)\<rparr>
      | None \<Rightarrow> b)"

section \<open>Calls\<close>

text \<open>\<open>record_conditional_shadow_ambiguity\<close>.\<close>

definition creates_scope :: "arg_effects \<Rightarrow> bool" where
  "creates_scope effs = list_ex (\<lambda>e. case e of
     Some (EvalQ env timing) \<Rightarrow> \<not> (env = Current \<and> timing = Eager) | _ \<Rightarrow> False) effs"

definition record_conditional_shadow_ambiguity :: "r_expr \<Rightarrow> arg_effects \<Rightarrow> builder \<Rightarrow> builder option" where
  "record_conditional_shadow_ambiguity call effs b =
     (if \<not> creates_scope effs then Some b
      else case call_function call of
        Some (RIdentifier _ text) \<Rightarrow> do {
          r \<leftarrow> scan_scope_binding_range b (name_text text);
          Some (case r of
              None \<Rightarrow> b
            | Some binding_range \<Rightarrow>
                if fs_is_bound (sn_bound_so_far b) (name_text text) then b
                else b\<lparr>bu_diagnostics := bu_diagnostics b @
                  [AmbiguousCalleeResolution (name_text text) (trimmed_range call) (ConditionalShadow binding_range)]\<rparr>) }
      | _ \<Rightarrow> Some b)"

text \<open>\<open>local()\<close>-like argument: an eager descent into its own frame.\<close>

definition scan_nested_eager :: "nat \<Rightarrow> scan_rec \<Rightarrow> r_expr \<Rightarrow> builder \<Rightarrow> builder option" where
  "scan_nested_eager n rec v b = do {
     let old = sn_bound_so_far b;
     let watermark = length (sn_deferred_bodies b);
     let b = b\<lparr>sn_open_scopes := sn_open_scopes b @ [\<lparr>os_kind = Nse Nested Eager, os_bindings = Map.empty\<rparr>]\<rparr>;
     b \<leftarrow> rec v b;
     b \<leftarrow> scan_deferred_bodies n rec watermark b;
     let b = (if sn_open_scopes b = [] then b
              else b\<lparr>sn_open_scopes := butlast (sn_open_scopes b),
                     sn_body_scans := (sn_body_scans b)(trimmed_range v \<mapsto>
                        BodyScanned (os_bindings (last (sn_open_scopes b))))\<rparr>);
     Some (b\<lparr>sn_bound_so_far := old\<rparr>) }"

fun scan_evalq :: "nat \<Rightarrow> scan_rec \<Rightarrow> eval_env \<Rightarrow> eval_timing \<Rightarrow> r_expr \<Rightarrow> builder \<Rightarrow> builder option" where
  "scan_evalq n rec Current Eager v b = rec v b"
| "scan_evalq n rec Current Lazy v b =
     Some (b\<lparr>sn_deferred_bodies := sn_deferred_bodies b @
       [\<lparr>db_body = v, db_bound_so_far = sn_bound_so_far b, db_attached_inherited = builder_search_path b\<rparr>]\<rparr>)"
| "scan_evalq n rec Nested Eager v b = scan_nested_eager n rec v b"
| "scan_evalq n rec Nested Lazy v b = Some (record_enclosing_flow (trimmed_range v) b)"

definition scan_argument :: "nat \<Rightarrow> scan_rec \<Rightarrow> arg_effects \<Rightarrow> nat \<times> r_argument \<Rightarrow> builder \<Rightarrow> builder option" where
  "scan_argument n rec effs ia b =
     (case arg_value (snd ia) of
        None \<Rightarrow> Some b
      | Some v \<Rightarrow> do {
          eff \<leftarrow> iv_get effs (fst ia);
          case eff of
            None \<Rightarrow> rec v b
          | Some (Quote holes) \<Rightarrow> foldM rec holes b
          | Some (EvalQ env timing) \<Rightarrow> scan_evalq n rec env timing v b })"

definition scan_plain_arguments :: "scan_rec \<Rightarrow> r_argument list \<Rightarrow> builder \<Rightarrow> builder option" where
  "scan_plain_arguments rec items b = foldM (\<lambda>a b. opt_step rec (arg_value a) b) items b"

definition scan_call_arguments ::
    "nat \<Rightarrow> scan_rec \<Rightarrow> r_expr \<Rightarrow> arg_effects option \<Rightarrow> builder \<Rightarrow> builder option" where
  "scan_call_arguments n rec call arg_effs b =
     (case arg_effs of
        None \<Rightarrow> scan_plain_arguments rec (the_list (call_arguments call)) b
      | Some effs \<Rightarrow> do {
          b \<leftarrow> record_conditional_shadow_ambiguity call effs b;
          case call_arguments call of
            None \<Rightarrow> Some b
          | Some items \<Rightarrow> do {
              b \<leftarrow> foldM (scan_argument n rec effs) (enumerate 0 items) b;
              Some (update_resolution (trimmed_range call) (\<lambda>r. r\<lparr>cl_arguments := Some effs\<rparr>) b) } })"

definition scan_attach :: "imports_resolver \<Rightarrow> r_expr \<Rightarrow> string \<Rightarrow> builder \<Rightarrow> builder option" where
  "scan_attach R call package b = do {
     let call_range = trimmed_range call;
     let b = (if ir_package_exists R package then b
              else b\<lparr>bu_diagnostics := bu_diagnostics b @ [UninstalledPackage package call_range]\<rparr>);
     let b = update_resolution call_range (\<lambda>r. r\<lparr>cl_attach := Some package\<rparr>) b;
     kind \<leftarrow> current_kind b;
     let b = (if kind_is_lazy kind then b
              else b\<lparr>sn_attached_anywhere := sn_attached_anywhere b @ [(package, call_range)]\<rparr>);
     Some (b\<lparr>sn_attached_so_far := fa_push package (tr_start call_range) (sn_attached_so_far b)\<rparr>) }"

definition scan_sourced :: "imports_resolver \<Rightarrow> text_range \<Rightarrow> source_path \<Rightarrow> builder \<Rightarrow> builder option" where
  "scan_sourced R rng sourced b = do {
     (resolutions, b) \<leftarrow> scan_source_call R sourced rng b;
     let entries = (if resolutions = [] then [\<lparr>sf_path = sp_path sourced, sf_resolution = None\<rparr>]
                    else map (\<lambda>r. \<lparr>sf_path = sp_path sourced, sf_resolution = Some r\<rparr>) resolutions);
     Some (update_resolution rng (\<lambda>r. r\<lparr>cl_source := cl_source r @ entries\<rparr>) b) }"

definition scan_call :: "imports_resolver \<Rightarrow> nat \<Rightarrow> scan_rec \<Rightarrow> r_expr \<Rightarrow> builder \<Rightarrow> builder option" where
  "scan_call R n rec call b = do {
     (effs, b) \<leftarrow> resolve_effects R call b;
     b \<leftarrow> scan_call_arguments n rec call (Option.bind effs ef_arguments) b;
     b \<leftarrow> opt_step (scan_attach R call) (Option.bind effs ef_attach) b;
     b \<leftarrow> opt_step (foldM (scan_sourced R (trimmed_range call))) (Option.bind effs ef_source) b;
     opt_step (foldM (scan_assigned (trimmed_range call))) (Option.bind effs ef_assign) b }"

section \<open>Expressions\<close>

definition scan_target :: "imports_resolver \<Rightarrow> scan_rec \<Rightarrow> r_expr \<Rightarrow> r_expr \<Rightarrow> builder \<Rightarrow> builder option" where
  "scan_target R rec bin target b =
     (case assignment_name target of
        Some (name, rng) \<Rightarrow>
          if is_super_assignment bin then Some (scan_super_binding_package R name rng b)
          else record_binding name rng b
      | None \<Rightarrow> rec target b)"

definition scan_binary :: "imports_resolver \<Rightarrow> scan_rec \<Rightarrow> r_expr \<Rightarrow> builder \<Rightarrow> builder option" where
  "scan_binary R rec bin b =
     (if is_assignment bin then
        let right = is_right_assignment bin
        in do {
          b \<leftarrow> opt_step rec (if right then bin_left bin else bin_right bin) b;
          opt_step (scan_target R rec bin) (if right then bin_right bin else bin_left bin) b }
      else do {
        b \<leftarrow> opt_step rec (bin_left bin) b;
        b \<leftarrow> opt_step rec (bin_right bin) b;
        scan_operator_assign R bin b })"

definition scan_node :: "imports_resolver \<Rightarrow> nat \<Rightarrow> scan_rec \<Rightarrow> r_expr \<Rightarrow> builder \<Rightarrow> builder option" where
  "scan_node R n rec e b =
     (case e of
        RFunctionDefinition rng _ _ \<Rightarrow> Some (record_enclosing_flow rng b)
      | RBracedExpressions _ es \<Rightarrow> foldM rec es b
      | RBinaryExpression _ _ _ _ \<Rightarrow> scan_binary R rec e b
      | RCall _ f _ \<Rightarrow> do { b \<leftarrow> opt_step rec f b; scan_call R n rec e b }
      | RForStatement _ var sequence body \<Rightarrow> do {
          b \<leftarrow> opt_step (\<lambda>(rng, text) b. record_binding (name_text text) rng b) var b;
          b \<leftarrow> opt_step rec sequence b;
          scan_loop_body rec body b }
      | RIfStatement rng condition consequence alternative \<Rightarrow> do {
          b \<leftarrow> opt_step rec condition b;
          scan_branch rec consequence alternative rng b }
      | RWhileStatement _ condition body \<Rightarrow> do {
          b \<leftarrow> opt_step rec condition b;
          scan_loop_body rec body b }
      | _ \<Rightarrow> foldM rec (children e) b)"

fun scan_expression :: "imports_resolver \<Rightarrow> nat \<Rightarrow> r_expr \<Rightarrow> builder \<Rightarrow> builder option" where
  "scan_expression R 0 e b = None"
| "scan_expression R (Suc n) e b = scan_node R n (scan_expression R n) e b"

definition scan_expression_list :: "imports_resolver \<Rightarrow> nat \<Rightarrow> r_expr list \<Rightarrow> builder \<Rightarrow> builder option" where
  "scan_expression_list R n es b = foldM (scan_expression R n) es b"

section \<open>Parameters\<close>

fun parameter_text :: "r_parameter_name \<Rightarrow> string" where
  "parameter_text (ParIdentifier _ text) = name_text text"
| "parameter_text (ParDots _) = ''...''"
| "parameter_text (ParDotDotI _ text) = text"

fun parameter_range :: "r_parameter_name \<Rightarrow> text_range" where
  "parameter_range (ParIdentifier r _) = r"
| "parameter_range (ParDots r) = r"
| "parameter_range (ParDotDotI r _) = r"

fun par_name :: "r_parameter \<Rightarrow> r_parameter_name option" where
  "par_name (RParameter name _) = name"
| "par_name RParameterError = None"

definition scan_parameter_defaults :: "scan_rec \<Rightarrow> r_parameter list \<Rightarrow> builder \<Rightarrow> builder option" where
  "scan_parameter_defaults rec params b = do {
     b \<leftarrow> foldM (\<lambda>p b. opt_step (\<lambda>name b. record_binding (parameter_text name) (parameter_range name) b)
            (par_name p) b) params b;
     foldM (\<lambda>p b. opt_step rec (par_default p) b) params b }"

section \<open>Properties\<close>

lemma fa_push_all:
  "foldl (\<lambda>f site. fa_push (as_package site) (as_offset site) f) f sites =
     f\<lparr>fa_packages := fa_packages f @ map as_package sites, fa_offsets := fa_offsets f @ map as_offset sites\<rparr>"
  by (induction sites arbitrary: f) (simp_all add: fa_push_def)

lemma end_attach_effects_frame [simp]:
  "sn_attached_so_far (end_attach_effects sites stop b) = sn_attached_so_far b"
  "bu_diagnostics (end_attach_effects sites stop b) = bu_diagnostics b"
  by (simp_all add: end_attach_effects_def split: option.splits)

lemma record_attach_order_frame [simp]:
  "sn_attached_so_far (record_attach_order_ambiguity c rj rng b) = sn_attached_so_far b"
  "sn_attach_effect_ends (record_attach_order_ambiguity c rj rng b) = sn_attach_effect_ends b"
  by (simp_all add: record_attach_order_ambiguity_def Let_def)

text \<open>The regions that end at a join, read as the set of their offsets, packages and ends.\<close>

definition effect_ends :: "(text_size \<rightharpoonup> (string \<times> text_size) list) \<Rightarrow> (text_size \<times> string \<times> text_size) set" where
  "effect_ends m = {(off, p, stop). (p, stop) \<in> set (case m off of None \<Rightarrow> [] | Some l \<Rightarrow> l)}"

lemma effect_ends_update:
  "effect_ends (m(off \<mapsto> (case m off of None \<Rightarrow> [] | Some l \<Rightarrow> l) @ [(p, stop)])) = insert (off, p, stop) (effect_ends m)"
  by (auto simp: effect_ends_def split: if_splits)

lemma effect_ends_fold:
  "effect_ends (foldl (\<lambda>m site. m(as_offset site \<mapsto>
       (case m (as_offset site) of None \<Rightarrow> [] | Some l \<Rightarrow> l) @ [(as_package site, stop)])) m sites) =
     effect_ends m \<union> (\<lambda>s. (as_offset s, as_package s, stop)) ` set sites"
  by (induction sites arbitrary: m) (auto simp: effect_ends_update)

lemma effect_ends_end_attach:
  "effect_ends (sn_attach_effect_ends (end_attach_effects sites stop b)) = effect_ends (sn_attach_effect_ends b) \<union>
     (case stop of None \<Rightarrow> {} | Some e \<Rightarrow> (\<lambda>s. (as_offset s, as_package s, e)) ` set sites)"
  by (simp add: end_attach_effects_def effect_ends_fold split: option.splits)

text \<open>
  C23. A branch attaches what both arms attach. After the join of an \<open>if\<close> the search path has the
  packages of before, then the packages the alternative attached that the consequence attached too;
  the effect of every attach of the consequence, and of every other attach of the alternative, is
  recorded to end with its arm; earlier records are kept and nothing else is recorded.
\<close>

theorem join_attaches_keeps_common:
  "fa_packages (sn_attached_so_far (join_attaches cons cons_end alt alt_end rng b)) =
     fa_packages (sn_attached_so_far b) @ filter (\<lambda>p. p \<in> as_package ` set cons) (map as_package alt) \<and>
   effect_ends (sn_attach_effect_ends (join_attaches cons cons_end alt alt_end rng b)) =
     effect_ends (sn_attach_effect_ends b) \<union>
     (case cons_end of None \<Rightarrow> {} | Some e \<Rightarrow> (\<lambda>s. (as_offset s, as_package s, e)) ` set cons) \<union>
     (case alt_end of None \<Rightarrow> {} | Some e \<Rightarrow> (\<lambda>s. (as_offset s, as_package s, e)) `
        {s \<in> set alt. as_package s \<notin> as_package ` set cons})"
proof -
  have both: "list_ex (\<lambda>other. as_package other = as_package s) cons \<longleftrightarrow> as_package s \<in> as_package ` set cons" for s
    by (auto simp: list_ex_iff image_iff eq_commute)
  show ?thesis
    by (simp add: join_attaches_def Let_def fa_push_all both filter_map comp_def effect_ends_end_attach
        split: option.splits)
qed

end
