(* ===== verification/Builder_Walk.thy ===== *)
theory Builder_Walk
  imports Builder_Scan
begin

text \<open>
  \<open>oak_semantic::builder::walk\<close>: the recursive descent that writes the arenas, reusing the
  decisions the scan recorded, and \<open>build_index\<close>. As for the scan, each function takes the
  recursive call as a parameter and \<open>walk_expression\<close> closes the knot with a bound on the depth.
\<close>

type_synonym walk_rec = "r_expr \<Rightarrow> builder \<Rightarrow> builder option"

section \<open>Definitions\<close>

text \<open>Intern a symbol in a scope and push a definition for it.\<close>

definition push_definition ::
    "nat \<Rightarrow> string \<Rightarrow> symbol_flags \<Rightarrow> definition_kind \<Rightarrow> text_range \<Rightarrow> builder \<Rightarrow> (nat \<times> nat \<times> builder) option" where
  "push_definition s name flags kind rng b = do {
     table \<leftarrow> iv_get (wk_symbol_tables b) s;
     (sid, table') \<leftarrow> st_intern table name flags;
     ds \<leftarrow> iv_get (wk_definitions b) s;
     let (did, ds') = iv_push ds \<lparr>df_kind = kind, df_symbol = sid, df_range = rng\<rparr>;
     Some (sid, did, b\<lparr>wk_symbol_tables := (wk_symbol_tables b)[s := table'],
                       wk_definitions := (wk_definitions b)[s := ds']\<rparr>) }"

text \<open>\<open>use_def_maps[s].ensure_symbol(sid)\<close>, then one recording operation on that map.\<close>

definition record_in_map ::
    "nat \<Rightarrow> nat \<Rightarrow> (udm_builder \<Rightarrow> udm_builder option) \<Rightarrow> builder \<Rightarrow> builder option" where
  "record_in_map s sid rec_op b = do {
     m \<leftarrow> iv_get (wk_use_def_maps b) s;
     m' \<leftarrow> rec_op (udm_ensure_symbol sid m);
     Some (b\<lparr>wk_use_def_maps := (wk_use_def_maps b)[s := m']\<rparr>) }"

definition add_definition_to_owner ::
    "string \<Rightarrow> symbol_flags \<Rightarrow> definition_kind \<Rightarrow> text_range \<Rightarrow> builder \<Rightarrow> builder option" where
  "add_definition_to_owner name flags kind rng b = do {
     owner \<leftarrow> enclosing_owner b;
     case owner of
       None \<Rightarrow> Some b
     | Some s \<Rightarrow> do {
         (sid, did, b) \<leftarrow> push_definition s name flags kind rng b;
         record_in_map s sid (udm_record_lazy_definition sid did) b } }"

definition add_definition ::
    "string \<Rightarrow> symbol_flags \<Rightarrow> definition_kind \<Rightarrow> text_range \<Rightarrow> builder \<Rightarrow> builder option" where
  "add_definition name flags kind rng b = do {
     k \<leftarrow> current_kind b;
     if \<not> kind_owns_bindings k then add_definition_to_owner name flags kind rng b
     else do {
       (sid, did, b) \<leftarrow> push_definition (bu_current_scope b) name flags kind rng b;
       record_in_map (bu_current_scope b) sid (udm_record_definition sid did) b } }"

section \<open>Super-assignments\<close>

definition super_name_is_locked :: "string \<Rightarrow> text_range \<Rightarrow> builder \<Rightarrow> bool \<times> builder" where
  "super_name_is_locked name rng b =
     (case sn_super_binding_packages b rng of
        None \<Rightarrow> (False, b)
      | Some package \<Rightarrow>
          (True, b\<lparr>sn_super_binding_packages := (sn_super_binding_packages b)(rng := None),
                   bu_diagnostics := bu_diagnostics b @ [LockedSuperAssignment name package rng]\<rparr>))"

text \<open>The loop of \<open>resolve_super_target\<close>: the first bound ancestor and whether it depends on timing.\<close>

fun super_target :: "builder \<Rightarrow> string \<Rightarrow> nat option \<Rightarrow> nat list \<Rightarrow> (nat \<times> bool) option option" where
  "super_target b name site_unit [] = Some None"
| "super_target b name site_unit (s # ss) = do {
     unit \<leftarrow> builder_enclosing_lazy_scope b s;
     w \<leftarrow> walked_binding b s name;
     bound \<leftarrow> (if unit = site_unit then Some (w \<noteq> None) else scope_binds_anywhere b s name);
     if bound then Some (Some (s, unit \<noteq> site_unit \<and> w = None))
     else super_target b name site_unit ss }"

definition resolve_super_target :: "string \<Rightarrow> nat \<Rightarrow> text_range \<Rightarrow> builder \<Rightarrow> (nat option \<times> builder) option" where
  "resolve_super_target name start rng b = do {
     site_unit \<leftarrow> builder_enclosing_lazy_scope b (bu_current_scope b);
     is \<leftarrow> scope_ancestors (bu_scopes b) start;
     target \<leftarrow> super_target b name site_unit is;
     case target of
       None \<Rightarrow>
         (let (locked, b) = super_name_is_locked name rng b
          in Some (if locked then None else Some 0, b))
     | Some (s, timing_dependent) \<Rightarrow> do {
         r \<leftarrow> (if timing_dependent then scope_binding_range b s name else Some None);
         Some (Some s, case r of
             Some binding_range \<Rightarrow>
               b\<lparr>bu_diagnostics := bu_diagnostics b @ [AmbiguousSuperAssignment name rng binding_range]\<rparr>
           | None \<Rightarrow> b) } }"

definition super_frame :: "builder \<Rightarrow> nat option option" where
  "super_frame b = do {
     k \<leftarrow> current_kind b;
     if kind_owns_bindings k then Some (Some (bu_current_scope b)) else enclosing_owner b }"

definition add_super_definition :: "string \<Rightarrow> definition_kind \<Rightarrow> text_range \<Rightarrow> builder \<Rightarrow> builder option" where
  "add_super_definition name kind rng b = do {
     frame \<leftarrow> super_frame b;
     case frame of
       None \<Rightarrow> Some b
     | Some frame \<Rightarrow> do {
         sc \<leftarrow> iv_get (bu_scopes b) frame;
         case sc_parent sc of
           None \<Rightarrow>
             (let (locked, b) = super_name_is_locked name rng b;
                  flags = (if locked then IS_SUPER_BOUND else flags_union IS_SUPER_BOUND IS_BOUND)
              in do {
                (sid, did, b) \<leftarrow> push_definition frame name flags kind rng b;
                record_in_map frame sid (udm_record_super_definition sid did) b })
         | Some start \<Rightarrow> do {
             (target, b) \<leftarrow> resolve_super_target name start rng b;
             (_, _, b) \<leftarrow> push_definition (bu_current_scope b) name IS_SUPER_BOUND kind rng b;
             case target of
               None \<Rightarrow> Some b
             | Some s \<Rightarrow> do {
                 (sid, did, b) \<leftarrow> push_definition s name IS_BOUND kind rng b;
                 record_in_map s sid (udm_record_super_definition sid did) b } } } }"

definition add_assign_definition :: "r_expr \<Rightarrow> assign_binding \<Rightarrow> builder \<Rightarrow> builder option" where
  "add_assign_definition node binding b =
     add_definition (ab_name binding) IS_BOUND
       (Assign node (ab_name_expr binding) (ab_value_expr binding)) (trimmed_range (ab_name_expr binding)) b"

definition add_assign_definitions :: "r_expr \<Rightarrow> assign_binding list \<Rightarrow> builder \<Rightarrow> builder option" where
  "add_assign_definitions node bindings b = foldM (add_assign_definition node) bindings b"

section \<open>Uses\<close>

text \<open>One binding ancestor of a free variable: its snapshot in that ancestor's map.\<close>

definition register_snapshot_in ::
    "string \<Rightarrow> nat \<Rightarrow> bool \<Rightarrow> nat \<Rightarrow> builder \<Rightarrow> ((nat \<times> nat) \<times> builder) option" where
  "register_snapshot_in name nested_symbol all_eager s b = do {
     table \<leftarrow> iv_get (wk_symbol_tables b) s;
     (sid, table') \<leftarrow> st_intern table name flags_empty;
     m \<leftarrow> iv_get (wk_use_def_maps b) s;
     let m = udm_ensure_symbol sid m;
     let b = b\<lparr>wk_symbol_tables := (wk_symbol_tables b)[s := table']\<rparr>;
     if all_eager then do {
       (k, m) \<leftarrow> udm_register_eager_snapshot sid m;
       Some ((s, k), b\<lparr>wk_use_def_maps := (wk_use_def_maps b)[s := m]\<rparr>) }
     else
       let key = (bu_current_scope b, nested_symbol, s)
       in case wk_lazy_snapshots b key of
            Some k \<Rightarrow> Some ((s, k), b\<lparr>wk_use_def_maps := (wk_use_def_maps b)[s := m]\<rparr>)
          | None \<Rightarrow> do {
              (k, m) \<leftarrow> udm_register_lazy_snapshot sid m;
              Some ((s, k), b\<lparr>wk_use_def_maps := (wk_use_def_maps b)[s := m],
                             wk_lazy_snapshots := (wk_lazy_snapshots b)(key \<mapsto> k)\<rparr>) } }"

text \<open>The loop over the ancestors, innermost first.\<close>

fun snapshot_chain :: "string \<Rightarrow> nat \<Rightarrow> bool \<Rightarrow> nat list \<Rightarrow> (nat \<times> nat) list \<Rightarrow> builder \<Rightarrow>
    ((nat \<times> nat) list \<times> builder) option" where
  "snapshot_chain name nested_symbol all_eager [] acc b = Some (acc, b)"
| "snapshot_chain name nested_symbol all_eager (s # ss) acc b = do {
     binds \<leftarrow> scope_binds_anywhere b s name;
     (acc, b) \<leftarrow> (if binds then do {
         (e, b) \<leftarrow> register_snapshot_in name nested_symbol all_eager s b;
         Some (acc @ [e], b) } else Some (acc, b));
     sc \<leftarrow> iv_get (bu_scopes b) s;
     snapshot_chain name nested_symbol (all_eager \<and> \<not> kind_is_lazy (sc_kind sc)) ss acc b }"

definition register_enclosing_snapshot :: "string \<Rightarrow> nat \<Rightarrow> nat \<Rightarrow> builder \<Rightarrow> builder option" where
  "register_enclosing_snapshot name nested_symbol use_id b = do {
     sc \<leftarrow> iv_get (bu_scopes b) (bu_current_scope b);
     case sc_parent sc of
       None \<Rightarrow> Some b
     | Some parent \<Rightarrow> do {
         is \<leftarrow> scope_ancestors (bu_scopes b) parent;
         (chn, b) \<leftarrow> snapshot_chain name nested_symbol (\<not> kind_is_lazy (sc_kind sc)) is [] b;
         Some (if chn = [] then b
               else b\<lparr>wk_enclosing_snapshots :=
                  (wk_enclosing_snapshots b)((bu_current_scope b, use_id) \<mapsto> chn)\<rparr>) } }"

definition push_use :: "string \<Rightarrow> text_range \<Rightarrow> builder \<Rightarrow> (nat \<times> nat \<times> builder) option" where
  "push_use name rng b = do {
     table \<leftarrow> iv_get (wk_symbol_tables b) (bu_current_scope b);
     (sid, table') \<leftarrow> st_intern table name IS_USED;
     us \<leftarrow> iv_get (wk_uses b) (bu_current_scope b);
     let (uid, us') = iv_push us \<lparr>us_symbol = sid, us_range = rng\<rparr>;
     let b = b\<lparr>wk_symbol_tables := (wk_symbol_tables b)[bu_current_scope b := table'],
               wk_uses := (wk_uses b)[bu_current_scope b := us']\<rparr>;
     b \<leftarrow> record_in_map (bu_current_scope b) sid (udm_record_use sid uid) b;
     Some (sid, uid, b) }"

definition add_use :: "string \<Rightarrow> text_range \<Rightarrow> builder \<Rightarrow> builder option" where
  "add_use name rng b = do {
     (sid, uid, b) \<leftarrow> push_use name rng b;
     m \<leftarrow> iv_get (wk_use_def_maps b) (bu_current_scope b);
     free \<leftarrow> udm_is_may_be_unbound sid m;
     if free then register_enclosing_snapshot name sid uid b else Some b }"

section \<open>Control flow\<close>

definition current_map :: "builder \<Rightarrow> udm_builder option" where
  "current_map b = iv_get (wk_use_def_maps b) (bu_current_scope b)"

definition modify_current_map :: "(udm_builder \<Rightarrow> udm_builder) \<Rightarrow> builder \<Rightarrow> builder option" where
  "modify_current_map f b = do {
     maps \<leftarrow> iv_modify (wk_use_def_maps b) (bu_current_scope b) f;
     Some (b\<lparr>wk_use_def_maps := maps\<rparr>) }"

definition walk_branch :: "walk_rec \<Rightarrow> r_expr option \<Rightarrow> r_expr option \<Rightarrow> builder \<Rightarrow> builder option" where
  "walk_branch rec consequence alternative b = do {
     m \<leftarrow> current_map b;
     let pre = udm_snapshot m;
     b \<leftarrow> opt_step rec consequence b;
     m \<leftarrow> current_map b;
     let post = udm_snapshot m;
     b \<leftarrow> modify_current_map (udm_restore pre) b;
     b \<leftarrow> opt_step rec alternative b;
     modify_current_map (udm_merge post) b }"

definition finish_loop :: "flow_snapshot \<Rightarrow> nat \<Rightarrow> builder \<Rightarrow> builder option" where
  "finish_loop pre_loop first_use b = do {
     us \<leftarrow> iv_get (wk_uses b) (bu_current_scope b);
     m \<leftarrow> current_map b;
     m \<leftarrow> udm_finish_loop_defs pre_loop first_use (map us_symbol us) m;
     modify_current_map (\<lambda>_. m) b }"

definition walk_loop_body :: "walk_rec \<Rightarrow> r_expr option \<Rightarrow> bool \<Rightarrow> builder \<Rightarrow> builder option" where
  "walk_loop_body rec body may_skip_body b = do {
     m \<leftarrow> current_map b;
     let pre_loop = udm_snapshot m;
     b \<leftarrow> opt_step (\<lambda>e b. do {
         us \<leftarrow> iv_get (wk_uses b) (bu_current_scope b);
         let first_use = iv_next_id us;
         b \<leftarrow> rec e b;
         finish_loop pre_loop first_use b }) body b;
     if may_skip_body then modify_current_map (udm_merge pre_loop) b else Some b }"

section \<open>Assignments and parameters\<close>

definition walk_target :: "walk_rec \<Rightarrow> r_expr \<Rightarrow> r_expr \<Rightarrow> builder \<Rightarrow> builder option" where
  "walk_target rec bin target b =
     (case assignment_name target of
        None \<Rightarrow> rec target b
      | Some (name, rng) \<Rightarrow>
          if is_super_assignment bin then add_super_definition name (SuperAssignment bin) rng b
          else add_definition name IS_BOUND (Assignment bin) rng b)"

definition walk_assignment :: "walk_rec \<Rightarrow> r_expr \<Rightarrow> builder \<Rightarrow> builder option" where
  "walk_assignment rec bin b =
     (let right = is_right_assignment bin
      in do {
        b \<leftarrow> opt_step rec (if right then bin_left bin else bin_right bin) b;
        opt_step (walk_target rec bin) (if right then bin_right bin else bin_left bin) b })"

definition walk_parameter :: "walk_rec \<Rightarrow> r_parameter \<Rightarrow> builder \<Rightarrow> builder option" where
  "walk_parameter rec param b = do {
     b \<leftarrow> opt_step (\<lambda>name b. add_definition (parameter_text name) (flags_union IS_BOUND IS_PARAMETER)
            (Parameter param) (parameter_range name) b) (par_name param) b;
     opt_step rec (par_default param) b }"

definition walk_parameters :: "walk_rec \<Rightarrow> r_parameter list \<Rightarrow> builder \<Rightarrow> builder option" where
  "walk_parameters rec params b = foldM (walk_parameter rec) params b"

definition walk_function :: "imports_resolver \<Rightarrow> nat \<Rightarrow> walk_rec \<Rightarrow> text_range \<Rightarrow>
    r_parameter list option \<Rightarrow> r_expr option \<Rightarrow> builder \<Rightarrow> builder option" where
  "walk_function R fuel rec rng params body b = do {
     let watermark = length (sn_deferred_bodies b);
     let (s, b) = push_scope Function rng b;
     let attached = fa_len (sn_attached_so_far b);
     b \<leftarrow> begin_scan b;
     b \<leftarrow> opt_step (scan_parameter_defaults (scan_expression R fuel)) params b;
     b \<leftarrow> opt_step (scan_expression R fuel) body b;
     b \<leftarrow> scan_deferred_bodies fuel (scan_expression R fuel) watermark b;
     b \<leftarrow> opt_step (walk_parameters rec) params b;
     b \<leftarrow> opt_step rec body b;
     pop_scope s (b\<lparr>sn_attached_so_far := fa_truncate attached (sn_attached_so_far b)\<rparr>) }"

section \<open>Calls\<close>

definition bare_callee_name :: "r_expr \<Rightarrow> string option" where
  "bare_callee_name call =
     (case call_function call of Some (RIdentifier _ text) \<Rightarrow> Some (name_text text) | _ \<Rightarrow> None)"

definition record_effects_callee :: "r_expr \<Rightarrow> text_range \<Rightarrow> builder \<Rightarrow> builder" where
  "record_effects_callee call rng b =
     (case bare_callee_name call of
        None \<Rightarrow> b
      | Some name \<Rightarrow> b\<lparr>bu_callee_dependencies := bu_callee_dependencies b @
          [\<lparr>cd_name = name, cd_range = rng, cd_usage = UsageEffects\<rparr>]\<rparr>)"

definition attach_region_at :: "builder \<Rightarrow> text_size \<Rightarrow> string \<Rightarrow> attach_region" where
  "attach_region_at b offset package =
     (case Option.bind (sn_attach_effect_ends b offset) (\<lambda>ends. find (\<lambda>(p, _). p = package) ends) of
        Some (_, stop) \<Rightarrow> Conditional stop
      | None \<Rightarrow> Unconditional)"

definition push_semantic_call :: "semantic_call_kind \<Rightarrow> text_range \<Rightarrow> builder \<Rightarrow> builder" where
  "push_semantic_call kind rng b =
     b\<lparr>wk_semantic_calls := wk_semantic_calls b @
        [\<lparr>ca_kind = kind, ca_range = rng, ca_scope = bu_current_scope b\<rparr>]\<rparr>"

definition walk_attach_call :: "r_expr \<Rightarrow> string \<Rightarrow> builder \<Rightarrow> builder" where
  "walk_attach_call call package b =
     (let rng = trimmed_range call;
          region = attach_region_at b (tr_start rng) package
      in record_effects_callee call rng (push_semantic_call (Attach package region) rng b))"

text \<open>The names bound in the file scope at a load-time \<open>source()\<close> call.\<close>

definition file_bound_names :: "builder \<Rightarrow> string list option" where
  "file_bound_names b = do {
     symbols \<leftarrow> iv_get (wk_symbol_tables b) 0;
     m \<leftarrow> iv_get (wk_use_def_maps b) 0;
     those (map (\<lambda>sid. map_option sy_name (st_symbol symbols sid)) (udm_bound_symbol_ids m)) }"

definition record_timeline :: "text_size \<Rightarrow> builder \<Rightarrow> builder option" where
  "record_timeline call_offset b = do {
     lz \<leftarrow> builder_enclosing_lazy_scope b (bu_current_scope b);
     if lz \<noteq> None then Some b
     else do {
       bound \<leftarrow> file_bound_names b;
       Some (b\<lparr>wk_bindings_at_sources := record_source_call call_offset bound (wk_bindings_at_sources b)\<rparr>) } }"

definition walk_sourced_file :: "r_expr \<Rightarrow> sourced_file \<Rightarrow> builder \<Rightarrow> builder option" where
  "walk_sourced_file call sourced b =
     (let rng = trimmed_range call;
          call_offset = tr_start rng;
          b = push_semantic_call (Source (sf_path sourced) (map_option sr_url (sf_resolution sourced))) rng b
      in case sf_resolution sourced of
           None \<Rightarrow> Some b
         | Some resolution \<Rightarrow> do {
             b \<leftarrow> foldM (\<lambda>name b. add_definition name IS_BOUND (Import call (sr_url resolution) name)
                    (tr_empty call_offset) b) (sr_names resolution) b;
             Some (foldl (\<lambda>b pkg. push_semantic_call (Attach pkg (attach_region_at b call_offset pkg)) rng b)
               b (sr_packages resolution)) })"

definition resolution_at :: "builder \<Rightarrow> r_expr \<Rightarrow> call_resolution" where
  "resolution_at b e = (case sn_call_resolutions b (trimmed_range e) of Some r \<Rightarrow> r | None \<Rightarrow> cl_default)"

definition walk_source_call :: "r_expr \<Rightarrow> builder \<Rightarrow> builder option" where
  "walk_source_call call b =
     (case sn_call_resolutions b (trimmed_range call) of
        None \<Rightarrow> Some b
      | Some resolution \<Rightarrow> do {
          b \<leftarrow> record_timeline (tr_start (trimmed_range call)) (record_effects_callee call (trimmed_range call) b);
          foldM (walk_sourced_file call) (cl_source resolution) b })"

definition walk_assign_call :: "r_expr \<Rightarrow> builder \<Rightarrow> builder option" where
  "walk_assign_call call b =
     (case sn_call_resolutions b (trimmed_range call) of
        None \<Rightarrow> Some b
      | Some resolution \<Rightarrow> add_assign_definitions call (cl_assign resolution) b)"

definition walk_assign_operator :: "r_expr \<Rightarrow> builder \<Rightarrow> builder option" where
  "walk_assign_operator bin b =
     (case sn_call_resolutions b (trimmed_range bin) of
        Some resolution \<Rightarrow>
          if cl_assign resolution \<noteq> [] then add_assign_definitions bin (cl_assign resolution) b else Some b
      | None \<Rightarrow> Some b)"

definition walk_semantic_call :: "r_expr \<Rightarrow> builder \<Rightarrow> builder option" where
  "walk_semantic_call call b = do {
     let b = (case cl_attach (resolution_at b call) of
                Some package \<Rightarrow> walk_attach_call call package b | None \<Rightarrow> b);
     b \<leftarrow> (if cl_source (resolution_at b call) \<noteq> [] then walk_source_call call b else Some b);
     if cl_assign (resolution_at b call) \<noteq> [] then walk_assign_call call b else Some b }"

section \<open>Non-standard evaluation\<close>

text \<open>The missing-scan arm is the release-build fallback after \<open>debug_panic!\<close>.\<close>

definition install_body_scan :: "imports_resolver \<Rightarrow> nat \<Rightarrow> nat \<Rightarrow> r_expr \<Rightarrow> builder \<Rightarrow> builder option" where
  "install_body_scan R fuel s v b =
     (let rng = trimmed_range v;
          entry = sn_body_scans b rng;
          b = b\<lparr>sn_body_scans := (sn_body_scans b)(rng := None)\<rparr>
      in case entry of
           Some (BodyScanned bound) \<Rightarrow> do {
             sites \<leftarrow> iv_modify (sn_bound_anywhere b) s (\<lambda>_. bound);
             Some (b\<lparr>sn_bound_anywhere := sites\<rparr>) }
         | _ \<Rightarrow> do { b \<leftarrow> begin_scan b; scan_expression R fuel v b })"

fun walk_nse_argument :: "imports_resolver \<Rightarrow> nat \<Rightarrow> walk_rec \<Rightarrow> eval_env \<Rightarrow> eval_timing \<Rightarrow> r_expr \<Rightarrow>
    builder \<Rightarrow> builder option" where
  "walk_nse_argument R fuel rec Current Eager v b = rec v b"
| "walk_nse_argument R fuel rec Nested Eager v b = do {
     let (s, b) = push_scope (Nse Nested Eager) (trimmed_range v) b;
     b \<leftarrow> install_body_scan R fuel s v b;
     b \<leftarrow> rec v b;
     pop_scope s b }"
| "walk_nse_argument R fuel rec Current Lazy v b = do {
     let (s, b) = push_scope (Nse Current Lazy) (trimmed_range v) b;
     b \<leftarrow> rec v b;
     pop_scope s b }"
| "walk_nse_argument R fuel rec Nested Lazy v b = do {
     let (s, b) = push_scope (Nse Nested Lazy) (trimmed_range v) b;
     let attached = fa_len (sn_attached_so_far b);
     b \<leftarrow> begin_scan b;
     let watermark = length (sn_deferred_bodies b);
     b \<leftarrow> scan_expression R fuel v b;
     b \<leftarrow> scan_deferred_bodies fuel (scan_expression R fuel) watermark b;
     b \<leftarrow> rec v b;
     pop_scope s (b\<lparr>sn_attached_so_far := fa_truncate attached (sn_attached_so_far b)\<rparr>) }"

definition walk_effect_argument :: "imports_resolver \<Rightarrow> nat \<Rightarrow> walk_rec \<Rightarrow> arg_effects \<Rightarrow> nat \<times> r_argument \<Rightarrow>
    builder \<Rightarrow> builder option" where
  "walk_effect_argument R fuel rec effs ia b =
     (case arg_value (snd ia) of
        None \<Rightarrow> Some b
      | Some v \<Rightarrow> do {
          eff \<leftarrow> iv_get effs (fst ia);
          case eff of
            None \<Rightarrow> rec v b
          | Some (EvalQ env timing) \<Rightarrow> walk_nse_argument R fuel rec env timing v b
          | Some (Quote holes) \<Rightarrow> foldM rec holes b })"

definition walk_nse_call :: "imports_resolver \<Rightarrow> nat \<Rightarrow> walk_rec \<Rightarrow> r_expr \<Rightarrow> arg_effects \<Rightarrow> builder \<Rightarrow> builder option" where
  "walk_nse_call R fuel rec call effs b =
     foldM (walk_effect_argument R fuel rec effs) (enumerate 0 (the_list (call_arguments call))) b"

definition walk_arguments :: "walk_rec \<Rightarrow> r_argument list \<Rightarrow> builder \<Rightarrow> builder option" where
  "walk_arguments rec items b = foldM (\<lambda>a b. opt_step rec (arg_value a) b) items b"

definition walk_call :: "imports_resolver \<Rightarrow> nat \<Rightarrow> walk_rec \<Rightarrow> r_expr \<Rightarrow> builder \<Rightarrow> builder option" where
  "walk_call R fuel rec call b = do {
     b \<leftarrow> opt_step rec (call_function call) b;
     b \<leftarrow> (case cl_arguments (resolution_at b call) of
         Some effs \<Rightarrow> walk_nse_call R fuel rec call effs b
       | None \<Rightarrow> walk_arguments rec (the_list (call_arguments call)) b);
     walk_semantic_call call b }"

section \<open>Expressions\<close>

definition walk_namespace_access :: "text_range \<Rightarrow> r_selector option \<Rightarrow> op_token option \<Rightarrow> r_selector option \<Rightarrow>
    builder \<Rightarrow> builder" where
  "walk_namespace_access rng left tok right b =
     (case do {
        t \<leftarrow> tok;
        kind \<leftarrow> (if tk_kind t = COLON2 then Some Export else if tk_kind t = COLON3 then Some Internal else None);
        l \<leftarrow> left; package \<leftarrow> identifier_text l;
        r \<leftarrow> right; symbol \<leftarrow> identifier_text r;
        Some \<lparr>na_package = package, na_symbol = symbol, na_kind = kind, na_offset = tr_start rng\<rparr> } of
      Some access \<Rightarrow> b\<lparr>wk_namespace_accesses := wk_namespace_accesses b @ [access]\<rparr>
    | None \<Rightarrow> b)"

definition walk_operator :: "walk_rec \<Rightarrow> r_expr \<Rightarrow> builder \<Rightarrow> builder option" where
  "walk_operator rec bin b =
     (let assign = cl_assign (resolution_at b bin);
          reads_lhs = (if assign \<noteq> [] then list_ex (\<lambda>binding. ab_target binding = ReadWrite) assign else True)
      in do {
        b \<leftarrow> (if reads_lhs then opt_step rec (bin_left bin) b else Some b);
        b \<leftarrow> opt_step rec (bin_right bin) b;
        walk_assign_operator bin b })"

definition walk_for_variable :: "r_expr \<Rightarrow> text_range \<times> string \<Rightarrow> builder \<Rightarrow> builder option" where
  "walk_for_variable stmt var b = add_definition (name_text (snd var)) IS_BOUND (ForVariable stmt) (fst var) b"

definition walk_node :: "imports_resolver \<Rightarrow> nat \<Rightarrow> walk_rec \<Rightarrow> r_expr \<Rightarrow> builder \<Rightarrow> builder option" where
  "walk_node R fuel rec e b =
     (case e of
        RIdentifier rng text \<Rightarrow> add_use (name_text text) rng b
      | RDots rng \<Rightarrow> add_use ''...'' rng b
      | RDotDotI rng text \<Rightarrow> add_use text rng b
      | RFunctionDefinition rng params body \<Rightarrow> walk_function R fuel rec rng params body b
      | RBracedExpressions _ es \<Rightarrow> foldM rec es b
      | RBinaryExpression _ _ _ _ \<Rightarrow>
          if is_assignment e then walk_assignment rec e b else walk_operator rec e b
      | RCall _ _ _ \<Rightarrow> walk_call R fuel rec e b
      | RSubset _ f as \<Rightarrow> do { b \<leftarrow> opt_step rec f b; walk_arguments rec (the_list as) b }
      | RSubset2 _ f as \<Rightarrow> do { b \<leftarrow> opt_step rec f b; walk_arguments rec (the_list as) b }
      | RExtractExpression _ l _ \<Rightarrow> opt_step rec l b
      | RNamespaceExpression rng l tok r \<Rightarrow> Some (walk_namespace_access rng l tok r b)
      | RForStatement _ var sequence body \<Rightarrow> do {
          b \<leftarrow> opt_step (walk_for_variable e) var b;
          b \<leftarrow> opt_step rec sequence b;
          walk_loop_body rec body True b }
      | RIfStatement _ condition consequence alternative \<Rightarrow> do {
          b \<leftarrow> opt_step rec condition b;
          walk_branch rec consequence alternative b }
      | RWhileStatement _ condition body \<Rightarrow> do {
          b \<leftarrow> opt_step rec condition b;
          walk_loop_body rec body True b }
      | RRepeatStatement _ body \<Rightarrow> walk_loop_body rec body False b
      | RBogusExpression _ _ \<Rightarrow> Some b
      | _ \<Rightarrow> foldM rec (children e) b)"

fun walk_expression :: "imports_resolver \<Rightarrow> nat \<Rightarrow> nat \<Rightarrow> r_expr \<Rightarrow> builder \<Rightarrow> builder option" where
  "walk_expression R fuel 0 e b = None"
| "walk_expression R fuel (Suc n) e b = walk_node R fuel (walk_expression R fuel n) e b"

definition walk_expression_list :: "imports_resolver \<Rightarrow> nat \<Rightarrow> r_expr list \<Rightarrow> builder \<Rightarrow> builder option" where
  "walk_expression_list R fuel es b = foldM (walk_expression R fuel fuel) es b"

section \<open>Building the index\<close>

text \<open>The depth of every recursion is bounded by the size of the file's syntax tree.\<close>

definition file_fuel :: "r_expr list \<Rightarrow> nat" where
  "file_fuel es = Suc (Suc (size_list size es))"

definition build_state :: "imports_resolver \<Rightarrow> text_range \<Rightarrow> r_expr list \<Rightarrow> builder option" where
  "build_state R rng es = do {
     let fuel = file_fuel es;
     b \<leftarrow> begin_scan (builder_new rng);
     b \<leftarrow> scan_expression_list R fuel es b;
     b \<leftarrow> scan_deferred_bodies fuel (scan_expression R fuel) 0 b;
     walk_expression_list R fuel es b }"

definition build_index :: "imports_resolver \<Rightarrow> text_range \<Rightarrow> r_expr list \<Rightarrow> semantic_index option" where
  "build_index R rng es = do { b \<leftarrow> build_state R rng es; builder_finish b }"

end
