(* ===== verification/Scan_Total.thy ===== *)
theory Scan_Total
  imports Builder_Walk
begin

text \<open>
  The scan returns. \<open>arenas_ok\<close> is the invariant of the walk's arenas, which the scan reads but
  never writes; \<open>scan_inv\<close> adds what the scan keeps of its own state. Every scan function is
  shown to return (no panic, no exhausted bound), to keep the invariant, to leave the arenas alone
  and to queue only deferred bodies that are smaller than what it scans.
\<close>

section \<open>The invariant of the arenas\<close>

definition scope_ok :: "symbol_table \<Rightarrow> defn list \<Rightarrow> use_site list \<Rightarrow> udm_builder \<Rightarrow> bool" where
  "scope_ok table ds us m \<longleftrightarrow>
     st_wf table \<and> udm_wf (st_len table) (map df_symbol ds) (map us_symbol us) m \<and>
     (\<forall>d\<in>set ds. df_symbol d < st_len table) \<and> (\<forall>u\<in>set us. us_symbol u < st_len table) \<and>
     (\<forall>sid < st_len table. flags_contains (sy_flags (st_symbols table ! sid)) IS_BOUND \<longrightarrow>
        (\<exists>d\<in>set ds. df_symbol d = sid))"

text \<open>
  Snapshot \<open>k\<close> of scope \<open>s\<close> belongs to the symbol called \<open>name\<close> there. A recorded chain
  leads from a use to snapshots of the name it uses, in scopes on the chain of its own.
\<close>

definition snap_named :: "builder \<Rightarrow> string \<Rightarrow> nat \<Rightarrow> nat \<Rightarrow> bool" where
  "snap_named b name s k \<longleftrightarrow> s < length (bu_scopes b) \<and>
     (\<exists>sid. st_id (wk_symbol_tables b ! s) name = Some sid \<and>
        snap_of (map df_symbol (wk_definitions b ! s)) sid k (wk_use_def_maps b ! s))"

definition snapshots_ok :: "builder \<Rightarrow> bool" where
  "snapshots_ok b \<longleftrightarrow>
     (\<forall>c u chn s k. wk_enclosing_snapshots b (c, u) = Some chn \<longrightarrow> (s, k) \<in> set chn \<longrightarrow>
        c < length (bu_scopes b) \<and> u < length (wk_uses b ! c) \<and> s \<in> set (chain (bu_scopes b) c) \<and> s \<noteq> c \<and>
        (\<exists>name. st_id (wk_symbol_tables b ! c) name = Some (us_symbol (wk_uses b ! c ! u)) \<and> snap_named b name s k)) \<and>
     (\<forall>c n s k. wk_lazy_snapshots b (c, n, s) = Some k \<longrightarrow> c < length (bu_scopes b) \<and>
        (\<exists>name. st_id (wk_symbol_tables b ! c) name = Some n \<and> snap_named b name s k))"

definition arenas_ok :: "builder \<Rightarrow> bool" where
  "arenas_ok b \<longleftrightarrow>
     arena_open (bu_scopes b) (bu_current_scope b) \<and>
     length (wk_symbol_tables b) = length (bu_scopes b) \<and> length (wk_definitions b) = length (bu_scopes b) \<and>
     length (wk_uses b) = length (bu_scopes b) \<and> length (wk_use_def_maps b) = length (bu_scopes b) \<and>
     length (sn_bound_anywhere b) = length (bu_scopes b) \<and>
     (\<forall>s<length (bu_scopes b). scope_ok (wk_symbol_tables b ! s) (wk_definitions b ! s) (wk_uses b ! s)
        (wk_use_def_maps b ! s)) \<and>
     snapshots_ok b \<and> (\<forall>c\<in>set (wk_semantic_calls b). ca_scope c < length (bu_scopes b))"

lemma arenas_okD:
  assumes "arenas_ok b"
  shows "arena_open (bu_scopes b) (bu_current_scope b)" and "bu_current_scope b < length (bu_scopes b)"
    and "parents_ok (bu_scopes b)"
    and "length (wk_symbol_tables b) = length (bu_scopes b)" and "length (wk_definitions b) = length (bu_scopes b)"
    and "length (wk_uses b) = length (bu_scopes b)" and "length (wk_use_def_maps b) = length (bu_scopes b)"
    and "length (sn_bound_anywhere b) = length (bu_scopes b)"
    and "\<And>s. s < length (bu_scopes b) \<Longrightarrow> scope_ok (wk_symbol_tables b ! s) (wk_definitions b ! s) (wk_uses b ! s)
        (wk_use_def_maps b ! s)"
    and "snapshots_ok b" and "\<And>c. c \<in> set (wk_semantic_calls b) \<Longrightarrow> ca_scope c < length (bu_scopes b)"
  using assms by (auto simp: arenas_ok_def arena_open_def intro: arena_at_parents_ok)

text \<open>The part of the state the scan does not write.\<close>

definition arenas :: "builder \<Rightarrow> scope list \<times> nat \<times> symbol_table list \<times> defn list list \<times> use_site list list \<times>
    udm_builder list \<times> (snapshot_key \<rightharpoonup> (nat \<times> nat) list) \<times> ((nat \<times> nat \<times> nat) \<rightharpoonup> nat) \<times>
    semantic_call list \<times> nat" where
  "arenas b = (bu_scopes b, bu_current_scope b, wk_symbol_tables b, wk_definitions b, wk_uses b,
     wk_use_def_maps b, wk_enclosing_snapshots b, wk_lazy_snapshots b, wk_semantic_calls b,
     length (sn_bound_anywhere b))"

lemma arenas_ok_cong: "arenas b' = arenas b \<Longrightarrow> arenas_ok b' \<longleftrightarrow> arenas_ok b"
  by (simp add: arenas_def arenas_ok_def snapshots_ok_def snap_named_def)

lemma arenas_simps [simp]:
  "arenas (b\<lparr>sn_bound_so_far := x1\<rparr>) = arenas b"
  "arenas (b\<lparr>sn_open_scopes := x2\<rparr>) = arenas b"
  "arenas (b\<lparr>sn_body_scans := x3\<rparr>) = arenas b"
  "arenas (b\<lparr>sn_attached_so_far := x4\<rparr>) = arenas b"
  "arenas (b\<lparr>sn_attach_effect_ends := x5\<rparr>) = arenas b"
  "arenas (b\<lparr>sn_attached_inherited := x6\<rparr>) = arenas b"
  "arenas (b\<lparr>sn_attached_anywhere := x7\<rparr>) = arenas b"
  "arenas (b\<lparr>sn_call_resolutions := x8\<rparr>) = arenas b"
  "arenas (b\<lparr>sn_super_binding_packages := x9\<rparr>) = arenas b"
  "arenas (b\<lparr>sn_deferred_bodies := x10\<rparr>) = arenas b"
  "arenas (b\<lparr>wk_namespace_accesses := x11\<rparr>) = arenas b"
  "arenas (b\<lparr>wk_bindings_at_sources := x12\<rparr>) = arenas b"
  "arenas (b\<lparr>bu_diagnostics := x13\<rparr>) = arenas b"
  "arenas (b\<lparr>bu_callee_dependencies := x14\<rparr>) = arenas b"
  "length x15 = length (sn_bound_anywhere b) \<Longrightarrow> arenas (b\<lparr>sn_bound_anywhere := x15\<rparr>) = arenas b"
  by (simp_all add: arenas_def)

lemma arenas_current:
  "arenas b' = arenas b \<Longrightarrow> bu_current_scope b' = bu_current_scope b \<and> bu_scopes b' = bu_scopes b \<and>
     length (sn_bound_anywhere b') = length (sn_bound_anywhere b) \<and> wk_symbol_tables b' = wk_symbol_tables b"
  by (simp add: arenas_def)

section \<open>The syntax the scan is given\<close>

text \<open>
  \<open>U\<close> is the set of nodes of the file, closed under sub-expressions. Two different calls of a file
  have different ranges, since each covers its own tokens; the builder identifies calls by range.
\<close>

definition nodes_ok :: "r_expr set \<Rightarrow> bool" where
  "nodes_ok U \<longleftrightarrow> (\<forall>e\<in>U. set (children e) \<subseteq> U) \<and>
     (\<forall>r f as f' as'. RCall r f as \<in> U \<longrightarrow> RCall r f' as' \<in> U \<longrightarrow> f = f' \<and> as = as')"

definition resolutions_ok :: "r_expr set \<Rightarrow> (text_range \<rightharpoonup> call_resolution) \<Rightarrow> bool" where
  "resolutions_ok U rs \<longleftrightarrow> (\<forall>r f items cr effs. RCall r f (Some items) \<in> U \<longrightarrow> rs r = Some cr \<longrightarrow>
     cl_arguments cr = Some effs \<longrightarrow> effects_for items effs)"

definition scan_inv :: "r_expr set \<Rightarrow> builder \<Rightarrow> bool" where
  "scan_inv U b \<longleftrightarrow> arenas_ok b \<and>
     length (fa_offsets (sn_attached_so_far b)) = length (fa_packages (sn_attached_so_far b)) \<and>
     resolutions_ok U (sn_call_resolutions b) \<and> (\<forall>d\<in>set (sn_deferred_bodies b). db_body d \<in> U)"

definition scan_frame :: "nat \<Rightarrow> builder \<Rightarrow> builder \<Rightarrow> bool" where
  "scan_frame z b b' \<longleftrightarrow> arenas b' = arenas b \<and> fa_len (sn_attached_so_far b) \<le> fa_len (sn_attached_so_far b') \<and>
     (\<exists>ds. sn_deferred_bodies b' = sn_deferred_bodies b @ ds \<and> (\<forall>d\<in>set ds. size (db_body d) < z))"

lemma scan_frame_preorder: "preorder_rel (scan_frame z)"
  by (rule preorder_relI) (auto simp: scan_frame_def)

lemmas scan_frame_trans = preorder_rel_trans [OF scan_frame_preorder]

lemma scan_frame_mono: "scan_frame z b b' \<Longrightarrow> z \<le> z' \<Longrightarrow> scan_frame z' b b'"
  by (fastforce simp: scan_frame_def)

abbreviation scans :: "r_expr set \<Rightarrow> nat \<Rightarrow> (builder \<Rightarrow> builder option) \<Rightarrow> bool" where
  "scans U z m \<equiv> keeps (scan_inv U) (scan_frame z) m"

lemma scans_mono: "scans U z m \<Longrightarrow> z \<le> z' \<Longrightarrow> scans U z' m"
  unfolding keeps_def using scan_frame_mono by blast

lemmas scans_bind = keeps_bind [OF scan_frame_preorder]
  and scans_foldM = keeps_foldM [OF scan_frame_preorder]
  and scans_opt_step = keeps_opt_step [OF scan_frame_preorder]
  and scans_return = keeps_return [OF scan_frame_preorder]

text \<open>Steps that touch none of the fields the invariant is about.\<close>

definition core :: "builder \<Rightarrow> _ \<times> flow_attaches \<times> (text_range \<rightharpoonup> call_resolution) \<times> deferred_body list" where
  "core b = (arenas b, sn_attached_so_far b, sn_call_resolutions b, sn_deferred_bodies b)"

lemma core_same:
  assumes "core b' = core b"
  shows "scan_inv U b' \<longleftrightarrow> scan_inv U b" and "scan_frame z b b'"
  using assms arenas_ok_cong [of b' b] by (auto simp: core_def scan_inv_def scan_frame_def)

lemma core_simps [simp]:
  "core (b\<lparr>sn_bound_so_far := x1\<rparr>) = core b"
  "core (b\<lparr>sn_open_scopes := x2\<rparr>) = core b"
  "core (b\<lparr>sn_body_scans := x3\<rparr>) = core b"
  "core (b\<lparr>sn_attach_effect_ends := x5\<rparr>) = core b"
  "core (b\<lparr>sn_attached_inherited := x6\<rparr>) = core b"
  "core (b\<lparr>sn_attached_anywhere := x7\<rparr>) = core b"
  "core (b\<lparr>sn_super_binding_packages := x9\<rparr>) = core b"
  "core (b\<lparr>bu_diagnostics := x13\<rparr>) = core b"
  "core (b\<lparr>bu_callee_dependencies := x14\<rparr>) = core b"
  "length x15 = length (sn_bound_anywhere b) \<Longrightarrow> core (b\<lparr>sn_bound_anywhere := x15\<rparr>) = core b"
  by (simp_all add: core_def)

lemma scans_core:
  assumes "\<And>b. arenas_ok b \<Longrightarrow> \<exists>b'. m b = Some b' \<and> core b' = core b"
  shows "scans U z m"
proof (rule keepsI)
  fix b assume "scan_inv U b"
  moreover from this assms obtain b' where "m b = Some b'" "core b' = core b" by (auto simp: scan_inv_def)
  ultimately show "\<exists>b'. m b = Some b' \<and> scan_inv U b' \<and> scan_frame z b b'"
    using core_same [of b' b] by auto
qed

section \<open>Lookups return\<close>

lemma scope_ancestors_total:
  "arenas_ok b \<Longrightarrow> s < length (bu_scopes b) \<Longrightarrow> scope_ancestors (bu_scopes b) s = Some (chain (bu_scopes b) s)"
  by (simp add: scope_ancestors_chain arenas_okD)

lemma chain_current:
  "arenas_ok b \<Longrightarrow> s < length (bu_scopes b) \<Longrightarrow> a \<in> set (chain (bu_scopes b) s) \<Longrightarrow> a < length (bu_scopes b)"
  using chain_in_range arenas_okD(3) by blast

lemma parent_in_range:
  "arenas_ok b \<Longrightarrow> s < length (bu_scopes b) \<Longrightarrow> sc_parent (bu_scopes b ! s) = Some p \<Longrightarrow> p < length (bu_scopes b)"
  using arenas_okD(3) [of b] unfolding parents_ok_def by fastforce

lemma st_id_symbol: "st_wf t \<Longrightarrow> st_id t name = Some sid \<Longrightarrow> sid < st_len t \<and> st_symbol t sid = Some (st_symbols t ! sid)"
  by (simp add: st_wf_id st_symbol_def st_len_def)

lemma walked_binding_total:
  "arenas_ok b \<Longrightarrow> s < length (bu_scopes b) \<Longrightarrow> \<exists>w. walked_binding b s name = Some w"
  using arenas_okD(4,9) [of b] st_id_symbol [of "wk_symbol_tables b ! s" name]
  by (auto simp: walked_binding_def scope_ok_def split: option.splits)

lemma scope_binds_anywhere_total:
  "arenas_ok b \<Longrightarrow> s < length (bu_scopes b) \<Longrightarrow> \<exists>w. scope_binds_anywhere b s name = Some w"
  using walked_binding_total [of b s name] arenas_okD(8) [of b] by (auto simp: scope_binds_anywhere_def)

lemma scope_binding_range_total:
  "arenas_ok b \<Longrightarrow> s < length (bu_scopes b) \<Longrightarrow> \<exists>w. scope_binding_range b s name = Some w"
  using walked_binding_total [of b s name] arenas_okD(5,8) [of b]
  by (auto simp: scope_binding_range_def split: option.splits)

lemma current_kind_total: "arenas_ok b \<Longrightarrow> current_kind b = Some (sc_kind (bu_scopes b ! bu_current_scope b))"
  using arenas_okD(2) [of b] by (simp add: current_kind_def)

lemma enclosing_lazy_total:
  "arenas_ok b \<Longrightarrow> s < length (bu_scopes b) \<Longrightarrow> \<exists>w. builder_enclosing_lazy_scope b s = Some w"
  by (simp add: builder_enclosing_lazy_scope_def scope_ancestors_total)

lemma lazy_shadow_chain_total:
  "arenas_ok b \<Longrightarrow> \<forall>s\<in>set is. s < length (bu_scopes b) \<Longrightarrow> \<exists>r. lazy_shadow_chain b name is crossed = Some r"
proof (induction "is" arbitrary: crossed)
  case (Cons s ss)
  then obtain r where "(if crossed then scope_binding_range b s name else Some None) = Some r"
    using scope_binding_range_total [of b s name] by (cases crossed) auto
  with Cons show ?case by (cases r) auto
qed simp

lemma lazy_shadow_in_arena_total:
  assumes "arenas_ok b" and "\<And>s. start = Some s \<Longrightarrow> s < length (bu_scopes b)"
  shows "\<exists>r. lazy_shadow_in_arena b name start crossed = Some r"
proof (cases start)
  case (Some s)
  with assms have "s < length (bu_scopes b)" by simp
  with assms(1) Some lazy_shadow_chain_total [OF assms(1), of "chain (bu_scopes b) s"] chain_current [OF assms(1)]
  show ?thesis by (simp add: lazy_shadow_in_arena_def scope_ancestors_total)
qed (simp add: lazy_shadow_in_arena_def)

lemma is_lazily_shadowed_total:
  assumes "arenas_ok b"
  shows "\<exists>r. is_lazily_shadowed b name = Some r"
proof (cases "rev (sn_open_scopes b)")
  case Nil
  let ?sc = "bu_scopes b ! bu_current_scope b"
  have "\<exists>r. lazy_shadow_in_arena b name (sc_parent ?sc) (kind_is_lazy (sc_kind ?sc)) = Some r"
    using assms arenas_okD(2) [OF assms] parent_in_range [OF assms] by (intro lazy_shadow_in_arena_total) auto
  with Nil show ?thesis using arenas_okD(2) [OF assms] by (simp add: is_lazily_shadowed_def)
next
  case (Cons body below)
  have arena: "\<exists>r. lazy_shadow_in_arena b name (Some (bu_current_scope b)) crossed = Some r" for crossed
    using assms arenas_okD(2) [OF assms] by (intro lazy_shadow_in_arena_total) auto
  obtain hit crossed where "lazy_shadow_open name below (kind_is_lazy (os_kind body)) = (hit, crossed)" by fastforce
  with Cons arena [of crossed] show ?thesis by (cases hit) (auto simp: is_lazily_shadowed_def)
qed

lemma resolve_symbol_total: "arenas_ok b \<Longrightarrow> \<exists>r. resolve_symbol R b name = Some r"
  using is_lazily_shadowed_total [of b name] by (auto simp: resolve_symbol_def Let_def split: option.splits)

lemma resolve_callee_total:
  assumes "arenas_ok b"
  shows "\<exists>r. resolve_callee R b call = Some r"
proof (cases "call_function call")
  case (Some f)
  show ?thesis
  proof (cases f)
    case (RIdentifier rng nm)
    obtain r where "resolve_symbol R b (name_text nm) = Some r" using resolve_symbol_total [OF assms] by blast
    with Some RIdentifier show ?thesis by (simp add: resolve_callee_def)
  qed (use Some in \<open>simp_all add: resolve_callee_def\<close>)
qed (simp add: resolve_callee_def)

lemma scan_context_total: "arenas_ok b \<Longrightarrow> ctx_total (scan_context R b)"
  using resolve_callee_total [of b R] scope_binds_anywhere_total [of b "bu_current_scope b"] arenas_okD(2) [of b]
  by (auto simp: ctx_total_def scan_context_def scan_scope_binds_def scan_scope_is_global_def scan_scope_of_def
      split: option.splits)

section \<open>Bindings and resolutions\<close>

lemma record_binding_core:
  assumes "arenas_ok b"
  shows "\<exists>b'. record_binding name rng b = Some b' \<and> core b' = core b"
  using arenas_okD(2,8) [OF assms] by (simp add: record_binding_def Let_def split: option.splits)

lemma scans_record_binding [total_intros]: "scans U z (record_binding name rng)"
  by (rule scans_core) (rule record_binding_core)

lemma scans_enclosing_flow [total_intros]: "scans U z (\<lambda>b. Some (record_enclosing_flow rng b))"
  by (rule scans_core) (simp add: record_enclosing_flow_def)

lemma scans_super_binding [total_intros]: "scans U z (\<lambda>b. Some (scan_super_binding_package R name rng b))"
  by (rule scans_core) (simp add: scan_super_binding_package_def split: option.splits)

lemma begin_scan_core:
  assumes "arenas_ok b"
  shows "\<exists>b'. begin_scan b = Some b' \<and> core b' = core b"
  using arenas_okD(2,4) [OF assms]
  by (auto simp: begin_scan_def Let_def split: option.splits body_scan.splits)

lemma scans_begin [total_intros]: "scans U z begin_scan"
  by (rule scans_core) (rule begin_scan_core)

lemma update_resolution_frame:
  "arenas (update_resolution rng f b) = arenas b" "sn_attached_so_far (update_resolution rng f b) = sn_attached_so_far b"
  "sn_deferred_bodies (update_resolution rng f b) = sn_deferred_bodies b"
  by (simp_all add: update_resolution_def)

lemma update_resolution_inv:
  assumes "scan_inv U b" and "resolutions_ok U (sn_call_resolutions (update_resolution rng f b))"
  shows "scan_inv U (update_resolution rng f b)" and "scan_frame z b (update_resolution rng f b)"
  using assms arenas_ok_cong [OF update_resolution_frame(1), of rng f b]
  by (auto simp: scan_inv_def scan_frame_def update_resolution_frame)

lemma scans_update_resolution [total_intros]:
  assumes "\<And>r. cl_arguments (f r) = cl_arguments r"
  shows "scans U z (\<lambda>b. Some (update_resolution rng f b))"
proof (rule keepsI)
  fix b assume inv: "scan_inv U b"
  then have "resolutions_ok U (sn_call_resolutions (update_resolution rng f b))"
    using assms by (auto simp: scan_inv_def resolutions_ok_def update_resolution_def cl_default_def
        split: option.splits if_splits)
  with update_resolution_inv [OF inv this]
  show "\<exists>b'. Some (update_resolution rng f b) = Some b' \<and> scan_inv U b' \<and> scan_frame z b b'" by auto
qed

lemma scans_record_arguments:
  assumes U: "nodes_ok U" "call \<in> U" and call: "call_arguments call = Some items" and effs: "effects_for items effs"
  shows "scans U z (\<lambda>b. Some (update_resolution (trimmed_range call) (\<lambda>r. r\<lparr>cl_arguments := Some effs\<rparr>) b))"
proof (rule keepsI)
  fix b assume inv: "scan_inv U b"
  obtain rng f where c: "call = RCall rng f (Some items)" using call by (cases call) auto
  have "f' = f \<and> as' = Some items" if "RCall rng f' as' \<in> U" for f' as'
    using U that c unfolding nodes_ok_def by blast
  then have "resolutions_ok U (sn_call_resolutions (update_resolution rng (\<lambda>r. r\<lparr>cl_arguments := Some effs\<rparr>) b))"
    using inv effs by (auto simp: scan_inv_def resolutions_ok_def update_resolution_def split: if_splits)
  with update_resolution_inv [OF inv this] c show "\<exists>b'. Some (update_resolution (trimmed_range call)
      (\<lambda>r. r\<lparr>cl_arguments := Some effs\<rparr>) b) = Some b' \<and> scan_inv U b' \<and> scan_frame z b b'" by auto
qed

section \<open>Attaches\<close>

definition fa_ok :: "flow_attaches \<Rightarrow> bool" where
  "fa_ok f \<longleftrightarrow> length (fa_offsets f) = length (fa_packages f)"

lemma scan_inv_fa_ok: "scan_inv U b \<Longrightarrow> fa_ok (sn_attached_so_far b)"
  by (simp add: scan_inv_def fa_ok_def)

lemma attached_frame:
  assumes "scan_inv U b'" and "scan_frame z b b'" and "fa_ok f" and "fa_len (sn_attached_so_far b) \<le> fa_len f"
  shows "scan_inv U (b'\<lparr>sn_attached_so_far := f\<rparr>)" and "scan_frame z b (b'\<lparr>sn_attached_so_far := f\<rparr>)"
  using assms arenas_ok_cong [of "b'\<lparr>sn_attached_so_far := f\<rparr>" b']
  by (auto simp: scan_inv_def scan_frame_def fa_ok_def)

lemma fa_push_ok [simp]:
  "fa_ok f \<Longrightarrow> fa_ok (fa_push p off f)" "fa_len (fa_push p off f) = Suc (fa_len f)"
  by (simp_all add: fa_ok_def fa_push_def fa_len_def)

lemma fa_pushes_ok:
  "fa_ok f \<Longrightarrow> fa_ok (foldl (\<lambda>f site. fa_push (g site) (h site) f) f sites)"
  "fa_len f \<le> fa_len (foldl (\<lambda>f site. fa_push (g site) (h site) f) f sites)"
proof -
  show "fa_ok f \<Longrightarrow> fa_ok (foldl (\<lambda>f site. fa_push (g site) (h site) f) f sites)"
    by (induction sites arbitrary: f) auto
  show "fa_len f \<le> fa_len (foldl (\<lambda>f site. fa_push (g site) (h site) f) f sites)"
  proof (induction sites arbitrary: f)
    case (Cons site sites)
    from Cons.IH [of "fa_push (g site) (h site) f"] show ?case by simp
  qed simp
qed

lemma fa_split_off_ok:
  assumes "fa_ok f" and "w \<le> fa_len f"
  obtains sites f' where "fa_split_off w f = Some (sites, f')" and "fa_ok f'" and "fa_len f' = w"
  using assms by (auto simp: fa_split_off_def split_off_def fa_ok_def fa_len_def)

lemma end_attach_effects_core [simp]: "core (end_attach_effects sites stop b) = core b"
  by (simp add: end_attach_effects_def split: option.splits)

lemma end_attach_effects_attached [simp]:
  "sn_attached_so_far (end_attach_effects sites stop b) = sn_attached_so_far b"
  by (simp add: end_attach_effects_def split: option.splits)

lemma record_attach_order_core [simp]:
  "core (record_attach_order_ambiguity c r rng b) = core b"
  "sn_attached_so_far (record_attach_order_ambiguity c r rng b) = sn_attached_so_far b"
  by (simp_all add: record_attach_order_ambiguity_def Let_def)

lemma join_attaches_frame:
  assumes inv: "scan_inv U b'" and fr: "scan_frame z b b'"
  shows "scan_inv U (join_attaches c ce a ae rng b')" and "scan_frame z b (join_attaches c ce a ae rng b')"
proof -
  obtain rejoined dropped where p: "partition (\<lambda>site. list_ex (\<lambda>other. as_package other = as_package site) c) a = (rejoined, dropped)"
    by fastforce
  let ?b = "end_attach_effects dropped ae (end_attach_effects c ce (record_attach_order_ambiguity c rejoined rng b'))"
  let ?f = "foldl (\<lambda>f site. fa_push (as_package site) (as_offset site) f) (sn_attached_so_far ?b) rejoined"
  have eq: "join_attaches c ce a ae rng b' = ?b\<lparr>sn_attached_so_far := ?f\<rparr>"
    using p by (simp add: join_attaches_def Let_def)
  have "core ?b = core b'" by simp
  note same = core_same [OF this]
  have inv': "scan_inv U ?b" using same(1) inv by blast
  have fr': "scan_frame z b ?b" using fr same(2) scan_frame_trans by blast
  have "fa_ok ?f" by (rule fa_pushes_ok(1)) (use scan_inv_fa_ok [OF inv] in simp)
  moreover have "fa_len (sn_attached_so_far b) \<le> fa_len ?f"
    using fa_pushes_ok(2) [of "sn_attached_so_far ?b" as_package as_offset rejoined] fr by (simp add: scan_frame_def)
  ultimately show "scan_inv U (join_attaches c ce a ae rng b')" and "scan_frame z b (join_attaches c ce a ae rng b')"
    unfolding eq using attached_frame [OF inv' fr'] by blast+
qed

section \<open>Branches and loops\<close>

lemma scan_conditional_total:
  assumes "\<And>e. region = Some e \<Longrightarrow> scans U z (rec e)" and "scan_inv U b"
  obtains stop b' where "scan_conditional rec region b = Some (stop, b')" and "scan_inv U b'" and "scan_frame z b b'"
proof (cases region)
  case None
  then show ?thesis
    using that assms(2) preorder_rel_refl [OF scan_frame_preorder] by (simp add: scan_conditional_def)
next
  case (Some e)
  with assms obtain b' where "rec e b = Some b'" "scan_inv U b'" "scan_frame z b b'" by (metis keepsE)
  with that Some show ?thesis by (simp add: scan_conditional_def)
qed

lemma scans_set_flow:
  assumes "scan_inv U b'" and "scan_frame z b b'"
  shows "scan_inv U (b'\<lparr>sn_bound_so_far := s\<rparr>)" and "scan_frame z b (b'\<lparr>sn_bound_so_far := s\<rparr>)"
  using assms core_same [of "b'\<lparr>sn_bound_so_far := s\<rparr>" b'] scan_frame_trans by auto

lemma scans_branch [total_intros]:
  assumes "\<And>e. consequence = Some e \<Longrightarrow> scans U z (rec e)" and "\<And>e. alternative = Some e \<Longrightarrow> scans U z (rec e)"
  shows "scans U z (scan_branch rec consequence alternative rng)"
proof (rule keepsI)
  fix b assume inv: "scan_inv U b"
  let ?w = "fa_len (sn_attached_so_far b)"
  obtain ce b1 where b1: "scan_conditional rec consequence b = Some (ce, b1)" "scan_inv U b1" "scan_frame z b b1"
    by (rule scan_conditional_total [of consequence U z rec b, OF assms(1) inv])
  have "?w \<le> fa_len (sn_attached_so_far b1)" using b1(3) by (simp add: scan_frame_def)
  then obtain c f1 where f1: "fa_split_off ?w (sn_attached_so_far b1) = Some (c, f1)" "fa_ok f1" "fa_len f1 = ?w"
    using fa_split_off_ok [OF scan_inv_fa_ok [OF b1(2)]] by blast
  let ?b2 = "b1\<lparr>sn_attached_so_far := f1, sn_bound_so_far := sn_bound_so_far b\<rparr>"
  have b2: "scan_inv U ?b2" "scan_frame z b ?b2"
  proof -
    have len: "fa_len (sn_attached_so_far b) \<le> fa_len f1" by (simp add: f1(3))
    note fr = attached_frame [OF b1(2,3) f1(2) len]
    show "scan_inv U ?b2" "scan_frame z b ?b2" using scans_set_flow [OF fr, of "sn_bound_so_far b"] by auto
  qed
  obtain ae b3 where b3: "scan_conditional rec alternative ?b2 = Some (ae, b3)" "scan_inv U b3" "scan_frame z ?b2 b3"
    by (rule scan_conditional_total [of alternative U z rec ?b2, OF assms(2) b2(1)])
  let ?b4 = "b3\<lparr>sn_bound_so_far := fs_merge (sn_bound_so_far b1) (sn_bound_so_far b3)\<rparr>"
  have fr3: "scan_frame z b b3" using b2(2) b3(3) scan_frame_trans by blast
  have b4: "scan_inv U ?b4" "scan_frame z b ?b4" using scans_set_flow [OF b3(2) fr3] by blast+
  have "?w \<le> fa_len (sn_attached_so_far ?b4)" using b4(2) by (simp add: scan_frame_def)
  then obtain a f2 where f2: "fa_split_off ?w (sn_attached_so_far ?b4) = Some (a, f2)" "fa_ok f2" "fa_len f2 = ?w"
    using fa_split_off_ok [OF scan_inv_fa_ok [OF b4(1)]] by blast
  let ?b5 = "?b4\<lparr>sn_attached_so_far := f2\<rparr>"
  have b5: "scan_inv U ?b5" "scan_frame z b ?b5" using attached_frame [OF b4 f2(2)] f2(3) by simp_all
  have "scan_branch rec consequence alternative rng b = Some (join_attaches c ce a ae rng ?b5)"
    using b1(1) f1(1) b3(1) f2(1) by (simp add: scan_branch_def Let_def)
  with join_attaches_frame [OF b5]
  show "\<exists>b'. scan_branch rec consequence alternative rng b = Some b' \<and> scan_inv U b' \<and> scan_frame z b b'" by auto
qed

lemma scans_loop_body [total_intros]:
  assumes "\<And>e. body = Some e \<Longrightarrow> scans U z (rec e)"
  shows "scans U z (scan_loop_body rec body)"
proof (rule keepsI)
  fix b assume inv: "scan_inv U b"
  let ?w = "fa_len (sn_attached_so_far b)"
  obtain stop b1 where b1: "scan_conditional rec body b = Some (stop, b1)" "scan_inv U b1" "scan_frame z b b1"
    by (rule scan_conditional_total [of body U z rec b, OF assms inv])
  let ?b2 = "b1\<lparr>sn_bound_so_far := fs_merge (sn_bound_so_far b) (sn_bound_so_far b1)\<rparr>"
  have b2: "scan_inv U ?b2" "scan_frame z b ?b2" using scans_set_flow [OF b1(2,3)] by blast+
  have "?w \<le> fa_len (sn_attached_so_far ?b2)" using b2(2) by (simp add: scan_frame_def)
  then obtain d f where f: "fa_split_off ?w (sn_attached_so_far ?b2) = Some (d, f)" "fa_ok f" "fa_len f = ?w"
    using fa_split_off_ok [OF scan_inv_fa_ok [OF b2(1)]] by blast
  let ?b3 = "?b2\<lparr>sn_attached_so_far := f\<rparr>"
  have b3: "scan_inv U ?b3" "scan_frame z b ?b3" using attached_frame [OF b2 f(2)] f(3) by simp_all
  have eq: "scan_loop_body rec body b = Some (end_attach_effects d stop ?b3)"
    using b1(1) f(1) by (simp add: scan_loop_body_def Let_def)
  have "core (end_attach_effects d stop ?b3) = core ?b3" by simp
  note same = core_same [OF this]
  have "scan_inv U (end_attach_effects d stop ?b3)" using same(1) b3(1) by blast
  moreover have "scan_frame z b (end_attach_effects d stop ?b3)"
    by (rule scan_frame_trans [OF b3(2) same(2)])
  ultimately show "\<exists>b'. scan_loop_body rec body b = Some b' \<and> scan_inv U b' \<and> scan_frame z b b'"
    using eq by blast
qed

section \<open>Deferred bodies\<close>

lemma scans_deferred_body:
  assumes "scans U z (rec (db_body d))"
  shows "scans U z (scan_deferred_body rec d)"
proof (rule keepsI)
  fix b assume inv: "scan_inv U b"
  let ?b1 = "b\<lparr>sn_attached_inherited := db_attached_inherited d, sn_bound_so_far := db_bound_so_far d,
     sn_open_scopes := sn_open_scopes b @ [\<lparr>os_kind = Nse Current Lazy, os_bindings = Map.empty\<rparr>]\<rparr>"
  have "core ?b1 = core b" by simp
  note b1 = core_same [OF this]
  have inv1: "scan_inv U ?b1" using b1(1) inv by blast
  obtain b2 where b2: "rec (db_body d) ?b1 = Some b2" "scan_inv U b2" "scan_frame z ?b1 b2"
    by (rule keepsE [OF assms inv1])
  let ?b3 = "b2\<lparr>sn_open_scopes := butlast (sn_open_scopes b2), sn_bound_so_far := sn_bound_so_far b,
     sn_attached_inherited := sn_attached_inherited b\<rparr>"
  have "core ?b3 = core b2" by simp
  note b3 = core_same [OF this]
  have "scan_frame z b ?b3"
    using b1(2) b2(3) b3(2) scan_frame_trans [of z] by blast
  moreover have "scan_inv U ?b3" using b3(1) b2(2) by blast
  moreover have "scan_deferred_body rec d b = Some ?b3" using b2(1) by (simp add: scan_deferred_body_def Let_def)
  ultimately show "\<exists>b'. scan_deferred_body rec d b = Some b' \<and> scan_inv U b' \<and> scan_frame z b b'" by blast
qed

lemma set_deferred_inv:
  assumes "scan_inv U b" and "set ds \<subseteq> set (sn_deferred_bodies b)"
  shows "scan_inv U (b\<lparr>sn_deferred_bodies := ds\<rparr>)"
  using assms arenas_ok_cong [of "b\<lparr>sn_deferred_bodies := ds\<rparr>" b] by (auto simp: scan_inv_def)

text \<open>Each round scans bodies that are smaller than those of the round before, so the rounds end.\<close>

lemma scan_deferred_bodies_total:
  assumes rec: "\<And>e. e \<in> U \<Longrightarrow> size e < z \<Longrightarrow> scans U (size e) (rec e)"
  shows "scan_inv U b \<Longrightarrow> w \<le> length (sn_deferred_bodies b) \<Longrightarrow>
    \<forall>d\<in>set (drop w (sn_deferred_bodies b)). size (db_body d) < k \<Longrightarrow> k \<le> z \<Longrightarrow> k < n \<Longrightarrow>
    \<exists>b'. scan_deferred_bodies n rec w b = Some b' \<and> scan_inv U b' \<and> arenas b' = arenas b \<and>
      fa_len (sn_attached_so_far b) \<le> fa_len (sn_attached_so_far b') \<and>
      sn_deferred_bodies b' = take w (sn_deferred_bodies b)"
proof (induction n arbitrary: b k)
  case (Suc n)
  let ?kept = "take w (sn_deferred_bodies b)" and ?batch = "drop w (sn_deferred_bodies b)"
  let ?b1 = "b\<lparr>sn_deferred_bodies := ?kept\<rparr>"
  have inv1: "scan_inv U ?b1" using Suc.prems(1) by (rule set_deferred_inv) (auto dest: in_set_takeD)
  have split: "split_off w (sn_deferred_bodies b) = Some (?kept, ?batch)" using Suc.prems(2) by (simp add: split_off_def)
  show ?case
  proof (cases "?batch = []")
    case True
    with split inv1 show ?thesis by simp
  next
    case False
    then obtain d where "d \<in> set ?batch" by (cases ?batch) auto
    with Suc.prems(3) have k: "0 < k" by fastforce
    have "scans U (k - 1) (scan_deferred_body rec d)" if "d \<in> set ?batch" for d
    proof (rule scans_deferred_body)
      have d: "db_body d \<in> U" "size (db_body d) < k"
        using that Suc.prems(1,3) by (auto simp: scan_inv_def dest: in_set_dropD)
      with rec Suc.prems(4) have "scans U (size (db_body d)) (rec (db_body d))" by simp
      then show "scans U (k - 1) (rec (db_body d))" by (rule scans_mono) (use d(2) in simp)
    qed
    then have batch: "scans U (k - 1) (foldM (scan_deferred_body rec) ?batch)" by (rule scans_foldM)
    obtain b2 where b2: "foldM (scan_deferred_body rec) ?batch ?b1 = Some b2" "scan_inv U b2"
      "scan_frame (k - 1) ?b1 b2" by (rule keepsE [OF batch inv1])
    then obtain ds where ds: "sn_deferred_bodies b2 = ?kept @ ds" "\<forall>d\<in>set ds. size (db_body d) < k - 1"
      by (auto simp: scan_frame_def)
    have w: "length ?kept = w" using Suc.prems(2) by simp
    have "\<exists>b'. scan_deferred_bodies n rec w b2 = Some b' \<and> scan_inv U b' \<and> arenas b' = arenas b2 \<and>
      fa_len (sn_attached_so_far b2) \<le> fa_len (sn_attached_so_far b') \<and>
      sn_deferred_bodies b' = take w (sn_deferred_bodies b2)"
      by (rule Suc.IH [of b2 "k - 1"]) (use b2(2) ds w Suc.prems(4,5) k in auto)
    then obtain b' where b': "scan_deferred_bodies n rec w b2 = Some b'" "scan_inv U b'" "arenas b' = arenas b2"
      "fa_len (sn_attached_so_far b2) \<le> fa_len (sn_attached_so_far b')"
      "sn_deferred_bodies b' = take w (sn_deferred_bodies b2)" by blast
    have "scan_deferred_bodies (Suc n) rec w b = Some b'" using split False b2(1) b'(1) by simp
    moreover have "arenas b' = arenas b" "fa_len (sn_attached_so_far b) \<le> fa_len (sn_attached_so_far b')"
      using b'(3,4) b2(3) by (auto simp: scan_frame_def)
    moreover have "sn_deferred_bodies b' = ?kept" using b'(5) ds(1) w by simp
    ultimately show ?thesis using b'(2) by blast
  qed
qed simp

lemma scans_drained:
  assumes "scan_inv U b" and rec: "\<And>e. e \<in> U \<Longrightarrow> size e < z \<Longrightarrow> scans U (size e) (rec e)"
    and "scan_frame z b b1" and "scan_inv U b1" and "z < n"
  obtains b' where "scan_deferred_bodies n rec (length (sn_deferred_bodies b)) b1 = Some b'" and "scan_inv U b'"
    and "scan_frame z b b'" and "sn_deferred_bodies b' = sn_deferred_bodies b"
proof -
  let ?w = "length (sn_deferred_bodies b)"
  obtain ds where ds: "sn_deferred_bodies b1 = sn_deferred_bodies b @ ds" "\<forall>d\<in>set ds. size (db_body d) < z"
    using assms(3) by (auto simp: scan_frame_def)
  have w: "?w \<le> length (sn_deferred_bodies b1)" using ds by simp
  have small: "\<forall>d\<in>set (drop ?w (sn_deferred_bodies b1)). size (db_body d) < z" using ds by simp
  from scan_deferred_bodies_total [of U z rec b1 ?w z n, OF rec assms(4) w small order_refl assms(5)]
  obtain b' where b': "scan_deferred_bodies n rec ?w b1 = Some b'" "scan_inv U b'" "arenas b' = arenas b1"
    "fa_len (sn_attached_so_far b1) \<le> fa_len (sn_attached_so_far b')"
    "sn_deferred_bodies b' = take ?w (sn_deferred_bodies b1)" by blast
  have "sn_deferred_bodies b' = sn_deferred_bodies b" using b'(5) ds(1) by simp
  moreover have "scan_frame z b b'" using assms(3) b' calculation by (auto simp: scan_frame_def)
  ultimately show ?thesis using that b' by blast
qed

section \<open>Effects of a call\<close>

lemma record_callee_imports_core [simp]: "core (record_callee_imports cis b) = core b"
proof (induction cis arbitrary: b)
  case (Cons i cis)
  let ?f = "\<lambda>b i.
    let b = (case ci_ambiguity i of Some reason \<Rightarrow> record_ambiguity (ci_name i) (ci_call_range i) reason b | None \<Rightarrow> b)
    in b\<lparr>bu_callee_dependencies := bu_callee_dependencies b @
         [\<lparr>cd_name = ci_name i, cd_range = ci_call_range i, cd_usage = UsageValue\<rparr>]\<rparr>"
  have "core (?f b i) = core b" by (simp add: Let_def record_ambiguity_def split: option.splits)
  with Cons show ?case by (simp add: record_callee_imports_def)
qed (simp add: record_callee_imports_def)

lemma record_ambiguity_core [simp]:
  "core (record_ambiguity name rng reason b) = core b" "core (record_call_ambiguity call reason b) = core b"
  by (simp_all add: record_ambiguity_def record_call_ambiguity_def split: option.splits r_expr.splits)

lemma core_arenas_ok: "core b' = core b \<Longrightarrow> arenas_ok b' \<longleftrightarrow> arenas_ok b"
  by (rule arenas_ok_cong) (simp add: core_def)

lemma run_handlers_total:
  assumes ctx: "ctx_total ctx"
  shows "\<exists>effs is. run_handlers handlers ctx call = Some (effs, is) \<and>
    (\<forall>items ae. call_arguments call = Some items \<longrightarrow> ef_arguments effs = Some ae \<longrightarrow> effects_for items ae)"
proof -
  have args: "\<exists>r. (case eh_arguments handlers of None \<Rightarrow> Some None | Some h \<Rightarrow> arguments_resolve h ctx call) = Some r \<and>
      (\<forall>items ae. call_arguments call = Some items \<longrightarrow> r = Some ae \<longrightarrow> effects_for items ae)"
  proof (cases "eh_arguments handlers")
    case (Some h)
    show ?thesis
    proof (cases "call_arguments call")
      case None
      then have "ba_new call formals = None" for formals by (simp add: ba_new_def match_arguments_def)
      then have "\<exists>r. arguments_resolve h ctx call = Some r" by (cases h) (simp_all add: substitute_resolve_def)
      with Some None show ?thesis by simp
    next
      case (Some items)
      with arguments_resolve_for [OF ctx Some, of h] \<open>eh_arguments handlers = Some h\<close> show ?thesis by auto
    qed
  qed simp
  have run: "\<exists>r. run_handler f h is = Some r" if "\<And>h is. \<exists>r. f h is = Some r" for f h and "is" :: "callee_import list"
    using that by (cases h) (auto simp: run_handler_def)
  obtain arguments where a: "(case eh_arguments handlers of None \<Rightarrow> Some None | Some h \<Rightarrow> arguments_resolve h ctx call) =
      Some arguments" "\<forall>items ae. call_arguments call = Some items \<longrightarrow> arguments = Some ae \<longrightarrow> effects_for items ae"
    using args by blast
  obtain attach is1 where "run_handler (\<lambda>h. attach_resolve h ctx call) (eh_attach handlers) [] = Some (attach, is1)"
    using run [of "\<lambda>h. attach_resolve h ctx call"] attach_resolve_total [OF ctx] by (metis surj_pair)
  moreover obtain source is2 where
    "run_handler (\<lambda>h. source_resolve h ctx call) (eh_source handlers) is1 = Some (source, is2)"
    using run [of "\<lambda>h. source_resolve h ctx call"] source_resolve_total [OF ctx] by (metis surj_pair)
  moreover obtain assign is3 where
    "run_handler (\<lambda>h. assign_resolve h ctx (SiteCall call)) (eh_assign handlers) is2 = Some (assign, is3)"
    using run [of "\<lambda>h. assign_resolve h ctx (SiteCall call)"] assign_resolve_total [OF ctx] by (metis surj_pair)
  ultimately show ?thesis using a by (simp add: run_handlers_def)
qed

lemma resolve_effects_total:
  assumes ok: "arenas_ok b"
  shows "\<exists>effs b'. resolve_effects R call b = Some (effs, b') \<and> core b' = core b \<and>
    (\<forall>items ae. call_arguments call = Some items \<longrightarrow> Option.bind effs ef_arguments = Some ae \<longrightarrow> effects_for items ae)"
proof -
  obtain r where r: "resolve_callee R b call = Some r" using resolve_callee_total [OF ok] by blast
  let ?b = "case ambiguity r has_effects of Some reason \<Rightarrow> record_call_ambiguity call reason b | None \<Rightarrow> b"
  have core: "core ?b = core b" by (simp split: option.splits)
  show ?thesis
  proof (cases "cr_handlers r")
    case None
    with r core show ?thesis by (simp add: resolve_effects_def Let_def)
  next
    case (Some h)
    have "ctx_total (scan_context R ?b)" using scan_context_total core_arenas_ok [OF core] ok by blast
    from run_handlers_total [OF this, of "fh_effects h" call] obtain effs "is" where
      "run_handlers (fh_effects h) (scan_context R ?b) call = Some (effs, is)"
      "\<forall>items ae. call_arguments call = Some items \<longrightarrow> ef_arguments effs = Some ae \<longrightarrow> effects_for items ae" by blast
    with r Some core show ?thesis by (simp add: resolve_effects_def Let_def)
  qed
qed

section \<open>Arguments\<close>

text \<open>
  What a scan function may assume of the recursive scan it is given: it works on the nodes of the
  file smaller than \<open>z\<close>, and on an identifier, which need not be a node of its own (a hole of
  \<open>substitute()\<close>).
\<close>

definition rec_scans :: "r_expr set \<Rightarrow> nat \<Rightarrow> scan_rec \<Rightarrow> bool" where
  "rec_scans U z rec \<longleftrightarrow> (\<forall>e\<in>U. size e < z \<longrightarrow> scans U (size e) (rec e)) \<and>
     (0 < z \<longrightarrow> (\<forall>r t. scans U 0 (rec (RIdentifier r t))))"

lemma rec_scansD:
  assumes "rec_scans U z rec" and "e \<in> U" and "size e < z"
  shows "scans U (size e) (rec e)" and "size e \<le> k \<Longrightarrow> scans U k (rec e)"
proof -
  show *: "scans U (size e) (rec e)" using assms by (simp add: rec_scans_def)
  show "scans U k (rec e)" if "size e \<le> k" by (rule scans_mono [OF * that])
qed

lemma rec_scans_ident: "rec_scans U z rec \<Longrightarrow> 0 < z \<Longrightarrow> scans U k (rec (RIdentifier r t))"
  using scans_mono [of U 0 "rec (RIdentifier r t)" k] by (simp add: rec_scans_def)

lemma nodes_ok_children: "nodes_ok U \<Longrightarrow> e \<in> U \<Longrightarrow> c \<in> set (children e) \<Longrightarrow> c \<in> U"
  by (auto simp: nodes_ok_def)

lemma nodes_ok_subterms: "nodes_ok U \<Longrightarrow> e \<in> U \<Longrightarrow> c \<in> set (subterms e) \<Longrightarrow> c \<in> U"
proof (induction e rule: subterms.induct)
  case (1 e)
  then show ?case by (subst (asm) (2) subterms.simps) (auto simp: nodes_ok_def)
qed

lemma rec_scans_child:
  assumes "nodes_ok U" and "rec_scans U (size e) rec" and "e \<in> U" and "c \<in> set (children e)"
  shows "scans U (size e) (rec c)"
  using assms rec_scansD(2) [of U "size e" rec c] nodes_ok_children [of U e c] size_children [of c e] by simp

lemma rec_scans_hole:
  assumes U: "nodes_ok U" "v \<in> U" and rec: "rec_scans U z rec" and v: "size v < z" and h: "hole_of v h"
  shows "scans U z (rec h)"
proof (cases "\<exists>r t. h = RIdentifier r t")
  case True
  then obtain r t where "h = RIdentifier r t" by blast
  with v show ?thesis using rec_scans_ident [OF rec, of z r t] by simp
next
  case False
  with h have "h \<in> set (subterms v)" by (simp add: hole_of_def)
  with U v nodes_ok_subterms [OF U this] size_subterms [OF this] show ?thesis
    by (intro rec_scansD(2) [OF rec]) auto
qed

lemma scans_nested_eager:
  assumes rec: "rec_scans U z rec" and v: "v \<in> U" "size v < z" "size v < n"
  shows "scans U (size v) (scan_nested_eager n rec v)"
proof (rule keepsI)
  fix b assume inv: "scan_inv U b"
  let ?b1 = "b\<lparr>sn_open_scopes := sn_open_scopes b @ [\<lparr>os_kind = Nse Nested Eager, os_bindings = Map.empty\<rparr>]\<rparr>"
  have "core ?b1 = core b" by simp
  note b1 = core_same [OF this]
  have inv1: "scan_inv U ?b1" using b1(1) inv by blast
  obtain b2 where b2: "rec v ?b1 = Some b2" "scan_inv U b2" "scan_frame (size v) ?b1 b2"
    by (rule keepsE [OF rec_scansD(1) [OF rec v(1,2)] inv1])
  have small: "scans U (size e) (rec e)" if "e \<in> U" "size e < size v" for e
    using rec_scansD(1) [OF rec that(1)] that(2) v(2) by simp
  obtain b3 where b3: "scan_deferred_bodies n rec (length (sn_deferred_bodies ?b1)) b2 = Some b3" "scan_inv U b3"
    "scan_frame (size v) ?b1 b3" by (rule scans_drained [OF inv1 small b2(3,2) v(3)]) blast+
  let ?b4 = "(if sn_open_scopes b3 = [] then b3 else b3\<lparr>sn_open_scopes := butlast (sn_open_scopes b3),
      sn_body_scans := (sn_body_scans b3)(trimmed_range v \<mapsto> BodyScanned (os_bindings (last (sn_open_scopes b3))))\<rparr>)
      \<lparr>sn_bound_so_far := sn_bound_so_far b\<rparr>"
  have "core ?b4 = core b3" by simp
  note b4 = core_same [OF this]
  have "scan_nested_eager n rec v b = Some ?b4" using b2(1) b3(1) by (simp add: scan_nested_eager_def Let_def)
  moreover have "scan_frame (size v) b ?b4"
    by (rule scan_frame_trans [OF scan_frame_trans [OF b1(2) b3(3)] b4(2)])
  moreover have "scan_inv U ?b4" using b4(1) b3(2) by blast
  ultimately show "\<exists>b'. scan_nested_eager n rec v b = Some b' \<and> scan_inv U b' \<and> scan_frame (size v) b b'" by blast
qed

lemma scans_defer:
  assumes "v \<in> U" and "size v < z"
  shows "scans U z (\<lambda>b. Some (b\<lparr>sn_deferred_bodies := sn_deferred_bodies b @
    [\<lparr>db_body = v, db_bound_so_far = sn_bound_so_far b, db_attached_inherited = builder_search_path b\<rparr>]\<rparr>))"
proof (rule keepsI)
  fix b assume inv: "scan_inv U b"
  let ?b = "b\<lparr>sn_deferred_bodies := sn_deferred_bodies b @
    [\<lparr>db_body = v, db_bound_so_far = sn_bound_so_far b, db_attached_inherited = builder_search_path b\<rparr>]\<rparr>"
  have "scan_inv U ?b" using inv assms arenas_ok_cong [of ?b b] by (simp add: scan_inv_def)
  moreover have "scan_frame z b ?b" using assms by (simp add: scan_frame_def)
  ultimately show "\<exists>b'. Some ?b = Some b' \<and> scan_inv U b' \<and> scan_frame z b b'" by blast
qed

lemma scans_evalq:
  assumes rec: "rec_scans U z rec" and v: "v \<in> U" "size v < z" and n: "z \<le> n"
  shows "scans U z (scan_evalq n rec env timing v)"
proof -
  have "scans U z (rec v)" using rec_scansD(2) [OF rec v] v(2) by simp
  moreover have "scans U z (scan_nested_eager n rec v)"
    by (rule scans_mono [OF scans_nested_eager [OF rec v]]) (use v(2) n in simp_all)
  ultimately show ?thesis
    by (cases env; cases timing)
      (auto intro: keeps_ext [OF scans_defer [OF v]] keeps_ext [OF scans_enclosing_flow] elim: keeps_ext)
qed

lemma scans_argument:
  assumes U: "nodes_ok U" and rec: "rec_scans U z rec" and n: "z \<le> n" and effs: "effects_for items effs"
    and ia: "(i, a) \<in> set (enumerate 0 items)" and v: "\<And>v. arg_value a = Some v \<Longrightarrow> v \<in> U \<and> size v < z"
  shows "scans U z (scan_argument n rec effs (i, a))"
proof (cases "arg_value a")
  case None
  then show ?thesis by (intro keeps_ext [OF scans_return]) (simp add: scan_argument_def)
next
  case (Some e)
  have i: "i < length items" "items ! i = a" using ia by (auto simp: in_set_enumerate_eq)
  then have get: "iv_get effs i = Some (effs ! i)" using effs by (simp add: effects_for_def)
  have e: "e \<in> U" "size e < z" using v [OF Some] by blast+
  show ?thesis
  proof (cases "effs ! i")
    case None
    with Some get show ?thesis
      by (intro keeps_ext [OF rec_scansD(2) [OF rec e]]) (use e(2) in \<open>simp_all add: scan_argument_def\<close>)
  next
    case (Some eff)
    show ?thesis
    proof (cases eff)
      case (EvalQ env timing)
      with Some get \<open>arg_value a = Some e\<close> show ?thesis
        by (intro keeps_ext [OF scans_evalq [OF rec e n]]) (simp add: scan_argument_def)
    next
      case (Quote holes)
      have "\<forall>h\<in>set holes. hole_of e h"
        using effs i Some Quote \<open>arg_value a = Some e\<close> unfolding effects_for_def by blast
      then have "scans U z (foldM rec holes)" using rec_scans_hole [OF U e(1) rec e(2)] by (intro scans_foldM) blast
      then show ?thesis
        by (rule keeps_ext) (use Some Quote get \<open>arg_value a = Some e\<close> in \<open>simp add: scan_argument_def\<close>)
    qed
  qed
qed

lemma scans_conditional_shadow [total_intros]: "scans U z (record_conditional_shadow_ambiguity call effs)"
proof (rule scans_core)
  fix b assume ok: "arenas_ok b"
  have "\<exists>r. scan_scope_binding_range b name = Some r" for name
    using scope_binding_range_total [OF ok arenas_okD(2) [OF ok], of name]
    by (auto simp: scan_scope_binding_range_def split: scan_scope.splits)
      (auto simp: scan_scope_of_def split: option.splits)
  then obtain r where r: "scan_scope_binding_range b name = Some (r name)" for name by metis
  have "core (case r name of None \<Rightarrow> b | Some rng \<Rightarrow> if fs_is_bound (sn_bound_so_far b) name then b
      else b\<lparr>bu_diagnostics := d rng\<rparr>) = core b" for name d by (simp split: option.splits)
  then show "\<exists>b'. record_conditional_shadow_ambiguity call effs b = Some b' \<and> core b' = core b"
    by (simp add: record_conditional_shadow_ambiguity_def r split: option.splits r_expr.splits)
qed

lemma scans_call_arguments:
  assumes U: "nodes_ok U" "call \<in> U" and rec: "rec_scans U (size call) rec" and n: "size call \<le> n"
    and effs: "\<And>items ae. call_arguments call = Some items \<Longrightarrow> arg_effs = Some ae \<Longrightarrow> effects_for items ae"
  shows "scans U (size call) (scan_call_arguments n rec call arg_effs)"
proof -
  have v: "v \<in> U \<and> size v < size call" if "call_arguments call = Some items" "a \<in> set items" "arg_value a = Some v"
    for items a v
    using nodes_ok_children [OF U] arg_value_child [OF that] size_children by blast
  show ?thesis
  proof (cases arg_effs)
    case None
    have "scans U (size call) (opt_step rec (arg_value a))" if "a \<in> set (the_list (call_arguments call))" for a
    proof (rule scans_opt_step)
      fix x assume "arg_value a = Some x"
      then have "x \<in> U \<and> size x < size call" using that v by (cases "call_arguments call") auto
      then show "scans U (size call) (rec x)" using rec_scansD(2) [OF rec] by simp
    qed
    then have "scans U (size call) (foldM (\<lambda>a. opt_step rec (arg_value a)) (the_list (call_arguments call)))"
      by (rule scans_foldM)
    then show ?thesis by (rule keeps_ext) (simp add: None scan_call_arguments_def scan_plain_arguments_def)
  next
    case (Some ae)
    show ?thesis
    proof (cases "call_arguments call")
      case None
      with Some show ?thesis
        by (intro keeps_ext [OF scans_conditional_shadow]) (simp add: scan_call_arguments_def)
    next
      case items: (Some items)
      have "effects_for items ae" by (rule effs [OF items Some])
      then have "scans U (size call) (\<lambda>b. do { b \<leftarrow> record_conditional_shadow_ambiguity call ae b;
          b \<leftarrow> foldM (scan_argument n rec ae) (enumerate 0 items) b;
          Some (update_resolution (trimmed_range call) (\<lambda>r. r\<lparr>cl_arguments := Some ae\<rparr>) b) })"
        using v [OF items] in_set_enumerate_eq [of _ 0 items]
        by (intro scans_bind scans_conditional_shadow scans_foldM scans_record_arguments [OF U items])
          (force intro: scans_argument [OF U(1) rec n])+
      then show ?thesis by (rule keeps_ext) (simp add: scan_call_arguments_def Some items)
    qed
  qed
qed

section \<open>Calls\<close>

lemma scans_push_attach:
  assumes "scan_inv U b'" and "scan_frame z b b'"
  shows "scan_inv U (b'\<lparr>sn_attached_so_far := fa_push p off (sn_attached_so_far b')\<rparr>)"
    and "scan_frame z b (b'\<lparr>sn_attached_so_far := fa_push p off (sn_attached_so_far b')\<rparr>)"
  using attached_frame [OF assms, of "fa_push p off (sn_attached_so_far b')"] scan_inv_fa_ok [OF assms(1)] assms(2)
  by (auto simp: scan_frame_def)

lemma scans_attach: "scans U z (scan_attach R call package)"
proof (rule keepsI)
  fix b assume inv: "scan_inv U b"
  let ?b1 = "if ir_package_exists R package then b
              else b\<lparr>bu_diagnostics := bu_diagnostics b @ [UninstalledPackage package (trimmed_range call)]\<rparr>"
  let ?b2 = "update_resolution (trimmed_range call) (\<lambda>r. r\<lparr>cl_attach := Some package\<rparr>) ?b1"
  have "core ?b1 = core b" by simp
  note b1 = core_same [OF this]
  have inv1: "scan_inv U ?b1" using b1(1) inv by blast
  have "scans U z (\<lambda>b. Some (update_resolution (trimmed_range call) (\<lambda>r. r\<lparr>cl_attach := Some package\<rparr>) b))"
    by (rule scans_update_resolution) simp
  from keepsE [OF this inv1] have b2: "scan_inv U ?b2" "scan_frame z ?b1 ?b2"
    by (simp_all only: option.inject) blast+
  have fr2: "scan_frame z b ?b2" by (rule scan_frame_trans [OF b1(2) b2(2)])
  obtain kind where kind: "current_kind ?b2 = Some kind"
    using current_kind_total [of ?b2] b2(1) by (auto simp: scan_inv_def)
  let ?b3 = "if kind_is_lazy kind then ?b2
     else ?b2\<lparr>sn_attached_anywhere := sn_attached_anywhere ?b2 @ [(package, trimmed_range call)]\<rparr>"
  have "core ?b3 = core ?b2" by simp
  note same = core_same [OF this]
  have b3: "scan_inv U ?b3" "scan_frame z b ?b3"
    using same(1) b2(1) scan_frame_trans [OF fr2 same(2)] by blast+
  have "scan_attach R call package b =
      Some (?b3\<lparr>sn_attached_so_far := fa_push package (tr_start (trimmed_range call)) (sn_attached_so_far ?b3)\<rparr>)"
    using kind by (simp add: scan_attach_def Let_def)
  with scans_push_attach [OF b3]
  show "\<exists>b'. scan_attach R call package b = Some b' \<and> scan_inv U b' \<and> scan_frame z b b'" by blast
qed

lemma scans_source_packages:
  fixes rng :: text_range
  assumes "scan_inv U b'" and "scan_frame z b b'"
  defines "g \<equiv> foldl (\<lambda>b pkg.
      b\<lparr>sn_attached_anywhere := sn_attached_anywhere b @ [(pkg, rng)],
        sn_attached_so_far := fa_push pkg (tr_start rng) (sn_attached_so_far b)\<rparr>)"
  shows "scan_inv U (g b' packages) \<and> scan_frame z b (g b' packages)"
  using assms(1,2)
proof (induction packages arbitrary: b')
  case (Cons pkg packages)
  let ?b = "b'\<lparr>sn_attached_anywhere := sn_attached_anywhere b' @ [(pkg, rng)]\<rparr>"
  have "core ?b = core b'" by simp
  note same = core_same [OF this]
  have "scan_inv U ?b" "scan_frame z b ?b"
    using same(1) Cons.prems(1) scan_frame_trans [OF Cons.prems(2) same(2)] by blast+
  from scans_push_attach [OF this, of pkg "tr_start rng"] show ?case
    using Cons.IH by (simp add: g_def)
qed (simp add: g_def)

lemma scans_source_resolution: "scans U z (record_source_resolution resolution rng)"
proof (rule keepsI)
  fix b assume inv: "scan_inv U b"
  have names: "scans U z (foldM (\<lambda>name. record_binding name rng) (sr_names resolution))"
    by (intro scans_foldM scans_record_binding)
  obtain b1 where b1: "foldM (\<lambda>name. record_binding name rng) (sr_names resolution) b = Some b1" "scan_inv U b1"
    "scan_frame z b b1" by (rule keepsE [OF names inv])
  obtain kind where "current_kind b1 = Some kind" using current_kind_total [of b1] b1(2) by (auto simp: scan_inv_def)
  with b1 scans_source_packages [OF b1(2,3), of rng "sr_packages resolution"]
  show "\<exists>b'. record_source_resolution resolution rng b = Some b' \<and> scan_inv U b' \<and> scan_frame z b b'"
    by (simp add: record_source_resolution_def)
qed

lemma scans_sourced: "scans U z (scan_sourced R rng sourced)"
proof -
  let ?rs = "source_resolutions R sourced"
  let ?entries = "if ?rs = [] then [\<lparr>sf_path = sp_path sourced, sf_resolution = None\<rparr>]
                    else map (\<lambda>r. \<lparr>sf_path = sp_path sourced, sf_resolution = Some r\<rparr>) ?rs"
  have "scans U z (\<lambda>b. do { b \<leftarrow> foldM (\<lambda>r b. record_source_resolution r rng b) ?rs b;
      Some (update_resolution rng (\<lambda>r. r\<lparr>cl_source := cl_source r @ ?entries\<rparr>) b) })"
    by (intro scans_bind scans_foldM scans_source_resolution scans_update_resolution) simp
  then show ?thesis by (rule keeps_ext) (simp add: scan_sourced_def scan_source_call_def Let_def)
qed

lemma scans_assigned: "scans U z (scan_assigned rng binding)"
proof -
  have "scans U z (\<lambda>b. do { b \<leftarrow> record_binding (ab_name binding) rng b;
      Some (update_resolution rng (\<lambda>r. r\<lparr>cl_assign := cl_assign r @ [binding]\<rparr>) b) })"
    by (intro scans_bind scans_record_binding scans_update_resolution) simp
  then show ?thesis by (rule keeps_ext) (simp add: scan_assigned_def)
qed

text \<open>A step that resolves, then goes on with what it resolved.\<close>

lemma scans_resolve:
  assumes m: "\<And>b. arenas_ok b \<Longrightarrow> \<exists>x b'. m b = Some (x, b') \<and> core b' = core b \<and> P x"
    and k: "\<And>x. P x \<Longrightarrow> scans U z (k x)"
  shows "scans U z (\<lambda>b. do { (x, b) \<leftarrow> m b; k x b })"
proof (rule keepsI)
  fix b assume inv: "scan_inv U b"
  then have "arenas_ok b" by (simp add: scan_inv_def)
  from m [OF this] obtain x b1 where b1: "m b = Some (x, b1)" "core b1 = core b" "P x" by blast
  note same = core_same [OF b1(2)]
  have inv1: "scan_inv U b1" using same(1) inv by blast
  obtain b2 where b2: "k x b1 = Some b2" "scan_inv U b2" "scan_frame z b1 b2" by (rule keepsE [OF k [OF b1(3)] inv1])
  with b1(1) scan_frame_trans [OF same(2) b2(3)]
  show "\<exists>b'. (do { (x, b) \<leftarrow> m b; k x b }) = Some b' \<and> scan_inv U b' \<and> scan_frame z b b'" by simp
qed

lemma scans_call:
  assumes U: "nodes_ok U" "call \<in> U" and rec: "rec_scans U (size call) rec" and n: "size call \<le> n"
  shows "scans U (size call) (scan_call R n rec call)"
proof -
  let ?P = "\<lambda>effs. \<forall>items ae. call_arguments call = Some items \<longrightarrow> Option.bind effs ef_arguments = Some ae \<longrightarrow>
    effects_for items ae"
  let ?k = "\<lambda>effs b. do {
     b \<leftarrow> scan_call_arguments n rec call (Option.bind effs ef_arguments) b;
     b \<leftarrow> opt_step (scan_attach R call) (Option.bind effs ef_attach) b;
     b \<leftarrow> opt_step (foldM (scan_sourced R (trimmed_range call))) (Option.bind effs ef_source) b;
     opt_step (foldM (scan_assigned (trimmed_range call))) (Option.bind effs ef_assign) b }"
  have "scans U (size call) (?k effs)" if "?P effs" for effs
    using that
    by (intro scans_bind scans_call_arguments [OF U rec n] scans_opt_step scans_foldM scans_attach scans_sourced
        scans_assigned) blast+
  then have "scans U (size call) (\<lambda>b. do { (effs, b) \<leftarrow> resolve_effects R call b; ?k effs b })"
    using resolve_effects_total by (intro scans_resolve [where P = ?P]) blast+
  then show ?thesis by (rule keeps_ext) (simp add: scan_call_def)
qed

section \<open>Expressions\<close>

lemma resolve_operator_assign_total:
  assumes ok: "arenas_ok b"
  shows "\<exists>x b'. resolve_operator_assign R bin b = Some (x, b') \<and> core b' = core b"
proof (cases bin)
  case (RBinaryExpression rng l tok r)
  show ?thesis
  proof (cases tok)
    case (Some t)
    show ?thesis
    proof (cases "tk_kind t \<noteq> SPECIAL \<and> tk_kind t \<noteq> WALRUS \<or> \<not> annotates (tk_text t)")
      case False
      obtain res where res: "resolve_symbol R b (tk_text t) = Some res" using resolve_symbol_total [OF ok] by blast
      let ?b = "case ambiguity res has_effects of
          Some reason \<Rightarrow> record_ambiguity (tk_text t) rng reason b | None \<Rightarrow> b"
      have core: "core ?b = core b" by (simp split: option.splits)
      have ctx: "ctx_total (scan_context R ?b)" using scan_context_total core_arenas_ok [OF core] ok by blast
      show ?thesis
      proof (cases "Option.bind (cr_handlers res) (\<lambda>h. eh_assign (fh_effects h))")
        case None
        with RBinaryExpression Some False res core show ?thesis by (simp add: resolve_operator_assign_def Let_def)
      next
        case h: (Some h)
        obtain x "is" where "assign_resolve h (scan_context R ?b) (SiteOperator bin) [] = Some (x, is)"
          using assign_resolve_total [OF ctx] by fastforce
        with RBinaryExpression Some False res core h show ?thesis by (simp add: resolve_operator_assign_def Let_def)
      qed
    qed (use RBinaryExpression Some in \<open>auto simp: resolve_operator_assign_def\<close>)
  qed (use RBinaryExpression in \<open>simp add: resolve_operator_assign_def\<close>)
qed (simp_all add: resolve_operator_assign_def)

lemma scans_operator_assign: "scans U z (scan_operator_assign R bin)"
proof -
  let ?k = "\<lambda>bs b. case bs of None \<Rightarrow> Some b | Some bs \<Rightarrow> foldM (scan_assigned (trimmed_range bin)) bs b"
  have "scans U z (?k bs)" for bs
    by (cases bs) (auto intro: keeps_ext [OF scans_return] keeps_ext [OF scans_foldM [OF scans_assigned]])
  then have "scans U z (\<lambda>b. do { (bs, b) \<leftarrow> resolve_operator_assign R bin b; ?k bs b })"
    using resolve_operator_assign_total by (intro scans_resolve [where P = "\<lambda>_. True"]) blast+
  then show ?thesis by (rule keeps_ext) (simp add: scan_operator_assign_def)
qed

lemma scans_target:
  assumes "scans U z (rec target)"
  shows "scans U z (scan_target R rec bin target)"
proof (cases "assignment_name target")
  case None
  then show ?thesis by (intro keeps_ext [OF assms]) (simp add: scan_target_def)
next
  case (Some nr)
  then show ?thesis
    by (cases "is_super_assignment bin")
      (auto simp: scan_target_def split: prod.splits
        intro: keeps_ext [OF scans_super_binding, of _ _ "fst nr" "snd nr"]
          keeps_ext [OF scans_record_binding, of _ "fst nr" "snd nr"])
qed

lemma scans_binary:
  assumes "bin = RBinaryExpression rng l tok r" and "\<And>x. x \<in> set (children bin) \<Longrightarrow> scans U z (rec x)"
  shows "scans U z (scan_binary R rec bin)"
proof -
  have l: "scans U z (rec x)" if "bin_left bin = Some x" for x using assms that by simp
  have r: "scans U z (rec x)" if "bin_right bin = Some x" for x using assms that by simp
  show ?thesis
  proof (cases "is_assignment bin")
    case True
    let ?right = "is_right_assignment bin"
    have "scans U z (\<lambda>b. do { b \<leftarrow> opt_step rec (if ?right then bin_left bin else bin_right bin) b;
        opt_step (scan_target R rec bin) (if ?right then bin_right bin else bin_left bin) b })"
      by (intro scans_bind scans_opt_step scans_target) (auto intro: l r split: if_splits)
    then show ?thesis by (rule keeps_ext) (simp add: scan_binary_def True Let_def)
  next
    case False
    have "scans U z (\<lambda>b. do { b \<leftarrow> opt_step rec (bin_left bin) b; b \<leftarrow> opt_step rec (bin_right bin) b;
        scan_operator_assign R bin b })"
      by (intro scans_bind scans_opt_step scans_operator_assign) (auto intro: l r)
    then show ?thesis by (rule keeps_ext) (simp add: scan_binary_def False)
  qed
qed

lemma scans_for_variable: "scans U z (opt_step (\<lambda>(rng, text) b. record_binding (name_text text) rng b) var)"
proof (rule scans_opt_step)
  fix x :: "text_range \<times> string"
  show "scans U z ((\<lambda>(rng, text) b. record_binding (name_text text) rng b) x)"
    by (cases x) (auto intro: keeps_ext [OF scans_record_binding])
qed

lemma scans_node:
  assumes U: "nodes_ok U" "e \<in> U" and rec: "rec_scans U (size e) rec" and n: "size e \<le> n"
  shows "scans U (size e) (scan_node R n rec e)"
proof -
  have child: "scans U (size e) (rec x)" if "x \<in> set (children e)" for x by (rule rec_scans_child [OF U(1) rec U(2) that])
  then have all: "scans U (size e) (foldM rec (children e))" by (rule scans_foldM)
  show ?thesis
  proof (cases e)
    case (RFunctionDefinition rng ps body)
    then show ?thesis by (intro keeps_ext [OF scans_enclosing_flow]) (simp add: scan_node_def)
  next
    case (RBinaryExpression rng l tok r)
    show ?thesis by (rule keeps_ext [OF scans_binary [OF RBinaryExpression child]])
      (simp_all add: scan_node_def RBinaryExpression)
  next
    case (RCall rng f as)
    have "scans U (size e) (\<lambda>b. do { b \<leftarrow> opt_step rec f b; scan_call R n rec e b })"
      by (intro scans_bind scans_opt_step scans_call [OF U rec n] child) (simp add: RCall)
    then show ?thesis by (rule keeps_ext) (simp add: scan_node_def RCall)
  next
    case (RForStatement rng var sq body)
    have "scans U (size e) (\<lambda>b. do { b \<leftarrow> opt_step (\<lambda>(rng, text) b. record_binding (name_text text) rng b) var b;
        b \<leftarrow> opt_step rec sq b; scan_loop_body rec body b })"
      by (intro scans_bind scans_opt_step scans_for_variable scans_loop_body child) (simp_all add: RForStatement)
    then show ?thesis by (rule keeps_ext) (simp add: scan_node_def RForStatement)
  next
    case (RIfStatement rng c t a)
    have "scans U (size e) (\<lambda>b. do { b \<leftarrow> opt_step rec c b; scan_branch rec t a rng b })"
      by (intro scans_bind scans_opt_step scans_branch child) (simp_all add: RIfStatement)
    then show ?thesis by (rule keeps_ext) (simp add: scan_node_def RIfStatement)
  next
    case (RWhileStatement rng c body)
    have "scans U (size e) (\<lambda>b. do { b \<leftarrow> opt_step rec c b; scan_loop_body rec body b })"
      by (intro scans_bind scans_opt_step scans_loop_body child) (simp_all add: RWhileStatement)
    then show ?thesis by (rule keeps_ext) (simp add: scan_node_def RWhileStatement)
  qed (rule keeps_ext [OF all], simp add: scan_node_def)+
qed

text \<open>With a bound above the size of the expression, the scan returns.\<close>

lemma rec_scans_expression:
  assumes U: "nodes_ok U"
  shows "z \<le> n \<Longrightarrow> rec_scans U z (scan_expression R n)"
proof (induction n arbitrary: z)
  case (Suc n)
  have "scans U (size e) (scan_expression R (Suc n) e)" if "e \<in> U" "size e < z" for e
  proof -
    have "scans U (size e) (scan_node R n (scan_expression R n) e)"
      by (rule scans_node [OF U that(1) Suc.IH]) (use that(2) Suc.prems in simp_all)
    then show ?thesis by (rule keeps_ext) simp
  qed
  moreover have "scans U 0 (scan_expression R (Suc n) (RIdentifier r t))" for r t
    by (rule keeps_ext [OF scans_return]) (simp add: scan_node_def)
  ultimately show ?case unfolding rec_scans_def by blast
qed (simp add: rec_scans_def)

lemma scans_expression:
  assumes "nodes_ok U" and "e \<in> U" and "size e < n"
  shows "scans U (size e) (scan_expression R n e)"
  using rec_scansD(1) [OF rec_scans_expression [OF assms(1) order_refl] assms(2,3)] .

lemma scans_parameter_defaults:
  assumes "\<And>p x. p \<in> set params \<Longrightarrow> par_default p = Some x \<Longrightarrow> scans U z (rec x)"
  shows "scans U z (scan_parameter_defaults rec params)"
proof -
  have "scans U z (\<lambda>b. do {
     b \<leftarrow> foldM (\<lambda>p b. opt_step (\<lambda>name b. record_binding (parameter_text name) (parameter_range name) b)
            (par_name p) b) params b;
     foldM (\<lambda>p b. opt_step rec (par_default p) b) params b })"
    by (intro scans_bind scans_foldM scans_opt_step scans_record_binding) (rule assms)
  then show ?thesis by (rule keeps_ext) (simp add: scan_parameter_defaults_def)
qed

end
