(* ===== verification/Walk_Total.thy ===== *)
theory Walk_Total
  imports Scan_Total
begin

text \<open>
  The walk returns, and \<open>build_index\<close> with it. Every walk function keeps the invariant of the
  scan, returns to the scope it was entered in and only appends: scopes keep their parent, kind
  and range, and the definitions and uses of a scope keep their ids.
\<close>

section \<open>What a walk function leaves behind\<close>

definition slot_le :: "builder \<Rightarrow> builder \<Rightarrow> nat \<Rightarrow> bool" where
  "slot_le b b' s \<longleftrightarrow>
     prefix (wk_definitions b ! s) (wk_definitions b' ! s) \<and> prefix (wk_uses b ! s) (wk_uses b' ! s) \<and>
     (\<forall>name sid. st_id (wk_symbol_tables b ! s) name = Some sid \<longrightarrow> st_id (wk_symbol_tables b' ! s) name = Some sid) \<and>
     (\<forall>sid k. snap_of (map df_symbol (wk_definitions b ! s)) sid k (wk_use_def_maps b ! s) \<longrightarrow>
        snap_of (map df_symbol (wk_definitions b' ! s)) sid k (wk_use_def_maps b' ! s)) \<and>
     length (ub_symbol_states (wk_use_def_maps b ! s)) \<le> length (ub_symbol_states (wk_use_def_maps b' ! s)) \<and>
     length (ub_enclosing_snapshots (wk_use_def_maps b ! s)) \<le> length (ub_enclosing_snapshots (wk_use_def_maps b' ! s))"

definition walk_frame :: "builder \<Rightarrow> builder \<Rightarrow> bool" where
  "walk_frame b b' \<longleftrightarrow> bu_current_scope b' = bu_current_scope b \<and> length (bu_scopes b) \<le> length (bu_scopes b') \<and>
     (\<forall>i<length (bu_scopes b). sc_parent (bu_scopes b' ! i) = sc_parent (bu_scopes b ! i) \<and>
        sc_kind (bu_scopes b' ! i) = sc_kind (bu_scopes b ! i) \<and>
        sc_range (bu_scopes b' ! i) = sc_range (bu_scopes b ! i) \<and> slot_le b b' i)"

lemma slot_le_refl [simp]: "slot_le b b s"
  by (simp add: slot_le_def)

lemma slot_le_trans: "slot_le b b1 s \<Longrightarrow> slot_le b1 b2 s \<Longrightarrow> slot_le b b2 s"
  by (auto simp: slot_le_def intro: prefix_order.order_trans)

lemma walk_frame_preorder: "preorder_rel walk_frame"
proof (rule preorder_relI)
  show "walk_frame b b" for b by (simp add: walk_frame_def)
  show "walk_frame b b2" if "walk_frame b b1" "walk_frame b1 b2" for b b1 b2
    using that by (auto simp: walk_frame_def intro: slot_le_trans)
qed

lemmas walk_frame_trans = preorder_rel_trans [OF walk_frame_preorder]
  and walk_frame_refl = preorder_rel_refl [OF walk_frame_preorder]

lemma walk_frameD:
  assumes "walk_frame b b'"
  shows "bu_current_scope b' = bu_current_scope b" and "length (bu_scopes b) \<le> length (bu_scopes b')"
    and "\<And>i. i < length (bu_scopes b) \<Longrightarrow> sc_parent (bu_scopes b' ! i) = sc_parent (bu_scopes b ! i)"
    and "\<And>i. i < length (bu_scopes b) \<Longrightarrow> slot_le b b' i"
  using assms by (auto simp: walk_frame_def)

abbreviation walks :: "r_expr set \<Rightarrow> (builder \<Rightarrow> builder option) \<Rightarrow> bool" where
  "walks U m \<equiv> keeps (scan_inv U) walk_frame m"

lemmas walks_bind = keeps_bind [OF walk_frame_preorder]
  and walks_foldM = keeps_foldM [OF walk_frame_preorder]
  and walks_opt_step = keeps_opt_step [OF walk_frame_preorder]
  and walks_return = keeps_return [OF walk_frame_preorder]

lemma scan_frame_walk: "scan_frame z b b' \<Longrightarrow> walk_frame b b'"
  by (auto simp: scan_frame_def arenas_def walk_frame_def slot_le_def)

lemma scans_walks: "scans U z m \<Longrightarrow> walks U m"
  unfolding keeps_def using scan_frame_walk by blast

lemma core_walk:
  assumes "core b' = core b" and "scan_inv U b"
  shows "scan_inv U b'" and "walk_frame b b'"
  using core_same [OF assms(1)] assms(2) scan_frame_walk [of 0 b b'] by blast+

section \<open>Updating one scope\<close>

definition set_slot :: "nat \<Rightarrow> symbol_table \<Rightarrow> defn list \<Rightarrow> use_site list \<Rightarrow> udm_builder \<Rightarrow> builder \<Rightarrow> builder" where
  "set_slot s t ds us m b = b\<lparr>wk_symbol_tables := (wk_symbol_tables b)[s := t],
     wk_definitions := (wk_definitions b)[s := ds], wk_uses := (wk_uses b)[s := us],
     wk_use_def_maps := (wk_use_def_maps b)[s := m]\<rparr>"

text \<open>The recorded snapshots stay valid when every scope they mention only grew.\<close>

lemma snapshots_ok_grow:
  assumes ok: "snapshots_ok b" and par: "parents_ok (bu_scopes b)"
    and same: "wk_enclosing_snapshots b' = wk_enclosing_snapshots b" "wk_lazy_snapshots b' = wk_lazy_snapshots b"
    and len: "length (bu_scopes b) \<le> length (bu_scopes b')"
    and slots: "\<And>i. i < length (bu_scopes b) \<Longrightarrow> slot_le b b' i"
    and chains: "\<And>i. i < length (bu_scopes b) \<Longrightarrow> chain (bu_scopes b') i = chain (bu_scopes b) i"
  shows "snapshots_ok b'"
proof -
  have named: "snap_named b' name s k" if "snap_named b name s k" for name s k
    using that len slots [of s] unfolding snap_named_def slot_le_def by (meson less_le_trans)
  have use: "u < length (wk_uses b' ! c) \<and> wk_uses b' ! c ! u = wk_uses b ! c ! u"
    if "c < length (bu_scopes b)" "u < length (wk_uses b ! c)" for c u
    using that slots [of c] by (auto simp: slot_le_def prefix_def nth_append)
  have id: "st_id (wk_symbol_tables b' ! c) name = Some sid"
    if "c < length (bu_scopes b)" "st_id (wk_symbol_tables b ! c) name = Some sid" for c name sid
    using that slots [of c] by (simp add: slot_le_def)
  show ?thesis
    unfolding snapshots_ok_def same
  proof (intro conjI allI impI)
    fix c u chn s k assume e: "wk_enclosing_snapshots b (c, u) = Some chn" "(s, k) \<in> set chn"
    with ok obtain name where c: "c < length (bu_scopes b)" "u < length (wk_uses b ! c)"
      "s \<in> set (chain (bu_scopes b) c)" "s \<noteq> c"
      "st_id (wk_symbol_tables b ! c) name = Some (us_symbol (wk_uses b ! c ! u))" "snap_named b name s k"
      unfolding snapshots_ok_def by metis
    show "c < length (bu_scopes b')" using c(1) len by simp
    show "u < length (wk_uses b' ! c)" using use [OF c(1,2)] by simp
    show "s \<in> set (chain (bu_scopes b') c)" using c(1,3) chains by simp
    show "s \<noteq> c" by (rule c(4))
    show "\<exists>name. st_id (wk_symbol_tables b' ! c) name = Some (us_symbol (wk_uses b' ! c ! u)) \<and> snap_named b' name s k"
      using id [OF c(1,5)] use [OF c(1,2)] named [OF c(6)] by auto
  next
    fix c n s k assume "wk_lazy_snapshots b (c, n, s) = Some k"
    with ok obtain name where c: "c < length (bu_scopes b)" "st_id (wk_symbol_tables b ! c) name = Some n" "snap_named b name s k"
      unfolding snapshots_ok_def by metis
    show "c < length (bu_scopes b')" using c(1) len by simp
    show "\<exists>name. st_id (wk_symbol_tables b' ! c) name = Some n \<and> snap_named b' name s k"
      using id [OF c(1,2)] named [OF c(3)] by blast
  qed
qed

lemma set_slot_inv:
  assumes inv: "scan_inv U b" and s: "s < length (bu_scopes b)" and ok: "scope_ok t ds us m"
    and ds: "prefix (wk_definitions b ! s) ds" and us: "prefix (wk_uses b ! s) us"
    and ids: "\<And>name sid. st_id (wk_symbol_tables b ! s) name = Some sid \<Longrightarrow> st_id t name = Some sid"
    and snap: "\<And>sid k. snap_of (map df_symbol (wk_definitions b ! s)) sid k (wk_use_def_maps b ! s) \<Longrightarrow>
      snap_of (map df_symbol ds) sid k m"
    and states: "length (ub_symbol_states (wk_use_def_maps b ! s)) \<le> length (ub_symbol_states m)"
    and snaps: "length (ub_enclosing_snapshots (wk_use_def_maps b ! s)) \<le> length (ub_enclosing_snapshots m)"
  shows "scan_inv U (set_slot s t ds us m b)" and "walk_frame b (set_slot s t ds us m b)"
proof -
  have a: "arenas_ok b" using inv by (simp add: scan_inv_def)
  note len = arenas_okD(4-7) [OF a]
  have slots: "slot_le b (set_slot s t ds us m b) i" if "i < length (bu_scopes b)" for i
    using that s len ds us ids snap states snaps by (cases "i = s") (auto simp: slot_le_def set_slot_def)
  then show "walk_frame b (set_slot s t ds us m b)" by (simp add: walk_frame_def set_slot_def)
  have "snapshots_ok (set_slot s t ds us m b)"
    by (rule snapshots_ok_grow [OF arenas_okD(10,3) [OF a] _ _ _ slots]) (simp_all add: set_slot_def)
  moreover have "scope_ok ((wk_symbol_tables b)[s := t] ! i) ((wk_definitions b)[s := ds] ! i)
      ((wk_uses b)[s := us] ! i) ((wk_use_def_maps b)[s := m] ! i)" if "i < length (bu_scopes b)" for i
    using that s len ok arenas_okD(9) [OF a that] by (cases "i = s") auto
  ultimately have "arenas_ok (set_slot s t ds us m b)"
    using a by (simp add: arenas_ok_def set_slot_def)
  then show "scan_inv U (set_slot s t ds us m b)" using inv by (simp add: scan_inv_def set_slot_def)
qed

lemma scope_ok_map: "scope_ok t ds us m \<Longrightarrow> udm_wf (st_len t) (map df_symbol ds) (map us_symbol us) m' \<Longrightarrow> scope_ok t ds us m'"
  by (simp add: scope_ok_def)

lemma scope_ok_udm: "scope_ok t ds us m \<Longrightarrow> udm_wf (st_len t) (map df_symbol ds) (map us_symbol us) m"
  by (simp add: scope_ok_def)

text \<open>Interning a symbol for a definition that is pushed with it.\<close>

lemma scope_ok_define:
  assumes ok: "scope_ok t ds us m" and t': "st_intern t name flags = Some (sid, t')" and d: "df_symbol d = sid"
  shows "scope_ok t' (ds @ [d]) us m"
proof -
  have wf: "st_wf t" using ok by (simp add: scope_ok_def)
  note p = st_intern_props [OF wf t']
  have "\<exists>d'\<in>set (ds @ [d]). df_symbol d' = j" if "j < st_len t'" "flags_contains (sy_flags (st_symbols t' ! j)) IS_BOUND" for j
  proof (cases "j = sid")
    case False
    with p(10) [OF that(1)] p(7) [of j] ok that(2) show ?thesis by (auto simp: scope_ok_def)
  qed (use d in auto)
  moreover have "udm_wf (st_len t') (map df_symbol (ds @ [d])) (map us_symbol us) m"
    by (rule udm_wf_mono [OF scope_ok_udm [OF ok] p(3)]) simp
  moreover have "\<forall>d'\<in>set (ds @ [d]). df_symbol d' < st_len t'" "\<forall>u\<in>set us. us_symbol u < st_len t'"
  proof -
    have "\<forall>d'\<in>set ds. df_symbol d' < st_len t" "\<forall>u\<in>set us. us_symbol u < st_len t" using ok by (simp_all add: scope_ok_def)
    then show "\<forall>d'\<in>set (ds @ [d]). df_symbol d' < st_len t'" "\<forall>u\<in>set us. us_symbol u < st_len t'"
      using p(2,3) d by fastforce+
  qed
  ultimately show ?thesis
    unfolding scope_ok_def using st_intern_wf [OF wf t'] by blast
qed

text \<open>Interning a symbol for a use or a snapshot adds no binding flag.\<close>

lemma not_IS_BOUND:
  "flags = flags_empty \<or> flags = IS_USED \<Longrightarrow> flags_contains (flags_insert f flags) IS_BOUND \<longleftrightarrow> flags_contains f IS_BOUND"
  "flags = flags_empty \<or> flags = IS_USED \<Longrightarrow> \<not> flags_contains flags IS_BOUND"
proof -
  have bit: "bit IS_BOUND n \<longleftrightarrow> n = 1" for n
    by (cases n) (auto simp: IS_BOUND_def bit_1_iff)
  have off: "\<not> bit flags 1" if "flags = flags_empty \<or> flags = IS_USED"
    using that by (auto simp: flags_empty_def IS_USED_def)
  show "flags_contains (flags_insert f flags) IS_BOUND \<longleftrightarrow> flags_contains f IS_BOUND"
    if "flags = flags_empty \<or> flags = IS_USED"
    using off [OF that] by (auto simp: flags_contains_iff bit flags_insert_def flags_union_def bit_or_iff)
  show "\<not> flags_contains flags IS_BOUND" if "flags = flags_empty \<or> flags = IS_USED"
    using off [OF that] by (auto simp: flags_contains_iff bit)
qed

lemma scope_ok_intern:
  assumes ok: "scope_ok t ds us m" and t': "st_intern t name flags = Some (sid, t')"
    and flags: "flags = flags_empty \<or> flags = IS_USED"
  shows "scope_ok t' ds us m"
proof -
  have wf: "st_wf t" using ok by (simp add: scope_ok_def)
  note p = st_intern_props [OF wf t']
  have bound: "j < st_len t \<and> flags_contains (sy_flags (st_symbols t ! j)) IS_BOUND"
    if "j < st_len t'" "flags_contains (sy_flags (st_symbols t' ! j)) IS_BOUND" for j
  proof (cases rule: st_intern_cases [OF wf, of name flags])
    case (1 i)
    then have "t' = t\<lparr>st_symbols := (st_symbols t)[i := (st_symbols t ! i)
        \<lparr>sy_flags := flags_insert (sy_flags (st_symbols t ! i)) flags\<rparr>]\<rparr>" using t' by simp
    with that show ?thesis using not_IS_BOUND(1) [OF flags] by (cases "j = i") (auto simp: st_len_def)
  next
    case 2
    then have t'': "t' = t\<lparr>st_symbols := st_symbols t @ [\<lparr>sy_name = name, sy_flags = flags\<rparr>],
        st_by_name := (st_by_name t)(name \<mapsto> st_len t)\<rparr>" using t' by simp
    show ?thesis
    proof (cases "j < st_len t")
      case True
      with that t'' show ?thesis by (simp add: st_len_def nth_append)
    next
      case False
      with that(1) t'' have "st_symbols t' ! j = \<lparr>sy_name = name, sy_flags = flags\<rparr>"
        by (simp add: st_len_def nth_append)
      with that(2) not_IS_BOUND(2) [OF flags] show ?thesis by simp
    qed
  qed
  have "udm_wf (st_len t') (map df_symbol ds) (map us_symbol us) m"
    by (rule udm_wf_mono [OF scope_ok_udm [OF ok] p(3)]) simp
  moreover have "\<forall>d\<in>set ds. df_symbol d < st_len t'" "\<forall>u\<in>set us. us_symbol u < st_len t'"
  proof -
    have "\<forall>d\<in>set ds. df_symbol d < st_len t" "\<forall>u\<in>set us. us_symbol u < st_len t" using ok by (simp_all add: scope_ok_def)
    then show "\<forall>d\<in>set ds. df_symbol d < st_len t'" "\<forall>u\<in>set us. us_symbol u < st_len t'"
      using p(3) by fastforce+
  qed
  moreover have "\<exists>d\<in>set ds. df_symbol d = j"
    if "j < st_len t'" "flags_contains (sy_flags (st_symbols t' ! j)) IS_BOUND" for j
    using bound [OF that] ok unfolding scope_ok_def by blast
  ultimately show ?thesis
    unfolding scope_ok_def using st_intern_wf [OF wf t'] by blast
qed

section \<open>Definitions\<close>

lemma scan_invD: "scan_inv U b \<Longrightarrow> arenas_ok b"
  by (simp add: scan_inv_def)

lemma push_definition_total:
  assumes inv: "scan_inv U b" and s: "s < length (bu_scopes b)"
  obtains sid t d where
    "push_definition s name flags kind rng b = Some (sid, length (wk_definitions b ! s),
       set_slot s t (wk_definitions b ! s @ [d]) (wk_uses b ! s) (wk_use_def_maps b ! s) b)"
    and "scope_ok t (wk_definitions b ! s @ [d]) (wk_uses b ! s) (wk_use_def_maps b ! s)"
    and "df_symbol d = sid" and "sid < st_len t"
    and "\<forall>n i. st_id (wk_symbol_tables b ! s) n = Some i \<longrightarrow> st_id t n = Some i"
proof -
  note a = scan_invD [OF inv]
  note len = arenas_okD(4-7) [OF a]
  have ok: "scope_ok (wk_symbol_tables b ! s) (wk_definitions b ! s) (wk_uses b ! s) (wk_use_def_maps b ! s)"
    by (rule arenas_okD(9) [OF a s])
  then have wf: "st_wf (wk_symbol_tables b ! s)" by (simp add: scope_ok_def)
  obtain sid t where t: "st_intern (wk_symbol_tables b ! s) name flags = Some (sid, t)"
    using st_intern_total [OF wf] by blast
  let ?d = "\<lparr>df_kind = kind, df_symbol = sid, df_range = rng\<rparr>"
  have "push_definition s name flags kind rng b = Some (sid, length (wk_definitions b ! s),
       set_slot s t (wk_definitions b ! s @ [?d]) (wk_uses b ! s) (wk_use_def_maps b ! s) b)"
    using s len t by (simp add: push_definition_def set_slot_def iv_push_def iv_next_id_def)
  then show ?thesis
    by (rule that) (use scope_ok_define [OF ok t, of ?d] st_intern_props(2,8) [OF wf t] in simp_all)
qed

lemma set_slot_slots [simp]:
  assumes "arenas_ok b" and "s < length (bu_scopes b)"
  shows "wk_symbol_tables (set_slot s t ds us m b) ! s = t" and "wk_definitions (set_slot s t ds us m b) ! s = ds"
    and "wk_uses (set_slot s t ds us m b) ! s = us" and "wk_use_def_maps (set_slot s t ds us m b) ! s = m"
  using arenas_okD(4-7) [OF assms(1)] assms(2) by (simp_all add: set_slot_def)

lemma set_slot_fields [simp]:
  "bu_scopes (set_slot s t ds us m b) = bu_scopes b"
  "bu_current_scope (set_slot s t ds us m b) = bu_current_scope b"
  "length (wk_use_def_maps (set_slot s t ds us m b)) = length (wk_use_def_maps b)"
  "(set_slot s t ds us m b)\<lparr>wk_use_def_maps := (wk_use_def_maps (set_slot s t ds us m b))[s := m']\<rparr> =
     set_slot s t ds us m' b"
  by (simp_all add: set_slot_def)

lemma walks_push_definition:
  assumes inv: "scan_inv U b" and s: "s < length (bu_scopes b)"
  obtains sid did b' where "push_definition s name flags kind rng b = Some (sid, did, b')"
    and "scan_inv U b'" and "walk_frame b b'"
proof -
  from inv s obtain sid t d where p: "push_definition s name flags kind rng b = Some (sid, length (wk_definitions b ! s),
       set_slot s t (wk_definitions b ! s @ [d]) (wk_uses b ! s) (wk_use_def_maps b ! s) b)"
    and ok: "scope_ok t (wk_definitions b ! s @ [d]) (wk_uses b ! s) (wk_use_def_maps b ! s)"
    and ids: "\<forall>n i. st_id (wk_symbol_tables b ! s) n = Some i \<longrightarrow> st_id t n = Some i"
    by (rule push_definition_total [of U b s name flags kind rng])
  have snap: "snap_of (map df_symbol (wk_definitions b ! s @ [d])) sid' k (wk_use_def_maps b ! s)"
    if "snap_of (map df_symbol (wk_definitions b ! s)) sid' k (wk_use_def_maps b ! s)" for sid' k
    by (rule snap_of_mono [OF that]) simp
  from that [OF p] set_slot_inv [OF inv s ok _ _ _ snap] ids show ?thesis by simp
qed

text \<open>
  The contract between the walk and the three ways a use-def map records a definition that has
  just been pushed: they return, keep the map well formed and drop no snapshot and no state.
\<close>

locale definition_recorder =
  fixes record_def :: "nat \<Rightarrow> nat \<Rightarrow> udm_builder \<Rightarrow> udm_builder option"
  assumes record_def: "udm_wf nsyms dsyms usyms m \<Longrightarrow> sid < length (ub_symbol_states m) \<Longrightarrow>
    d < length dsyms \<Longrightarrow> dsyms ! d = sid \<Longrightarrow>
    \<exists>m'. record_def sid d m = Some m' \<and> udm_wf nsyms dsyms usyms m' \<and>
      length (ub_enclosing_snapshots m') = length (ub_enclosing_snapshots m) \<and>
      length (ub_symbol_states m') = length (ub_symbol_states m)"
    and record_snaps: "udm_wf nsyms dsyms usyms m \<Longrightarrow> d < length dsyms \<Longrightarrow> dsyms ! d = sid \<Longrightarrow>
      record_def sid d m = Some m' \<Longrightarrow> snap_of dsyms sid' k m \<Longrightarrow> snap_of dsyms sid' k m'"
begin

lemma define_ok:
  assumes inv: "scan_inv U b" and s: "s < length (bu_scopes b)"
  shows "\<exists>b'. (do { (sid, did, b) \<leftarrow> push_definition s name flags kind rng b;
    record_in_map s sid (record_def sid did) b }) = Some b' \<and> scan_inv U b' \<and> walk_frame b b'"
proof -
  note a = scan_invD [OF inv]
  let ?ds = "wk_definitions b ! s" and ?us = "wk_uses b ! s" and ?m = "wk_use_def_maps b ! s"
  from inv s obtain sid t d where
    p: "push_definition s name flags kind rng b = Some (sid, length ?ds, set_slot s t (?ds @ [d]) ?us ?m b)"
    and ok: "scope_ok t (?ds @ [d]) ?us ?m" and d: "df_symbol d = sid" "sid < st_len t"
    and ids: "\<forall>n i. st_id (wk_symbol_tables b ! s) n = Some i \<longrightarrow> st_id t n = Some i"
    by (rule push_definition_total [of U b s name flags kind rng])
  have wf: "udm_wf (st_len t) (map df_symbol (?ds @ [d])) (map us_symbol ?us) (udm_ensure_symbol sid ?m)"
    by (rule udm_ensure_symbol_wf [OF scope_ok_udm [OF ok] d(2)])
  have sid: "sid < length (ub_symbol_states (udm_ensure_symbol sid ?m))" by simp
  from record_def [OF wf sid, of "length ?ds"] d obtain m' where
    m': "record_def sid (length ?ds) (udm_ensure_symbol sid ?m) = Some m'"
    "udm_wf (st_len t) (map df_symbol (?ds @ [d])) (map us_symbol ?us) m'"
    "length (ub_enclosing_snapshots m') = length (ub_enclosing_snapshots ?m)"
    "length (ub_symbol_states m') = max (Suc sid) (length (ub_symbol_states ?m))"
    by (auto simp: nth_append udm_ensure_symbol_def)
  have ok': "scope_ok t (?ds @ [d]) ?us m'" by (rule scope_ok_map [OF ok m'(2)])
  have snap: "snap_of (map df_symbol (?ds @ [d])) sid' k m'" if k: "snap_of (map df_symbol ?ds) sid' k ?m" for sid' k
  proof (rule record_snaps [OF wf _ _ m'(1)])
    show "snap_of (map df_symbol (?ds @ [d])) sid' k (udm_ensure_symbol sid ?m)"
      using snap_of_mono [OF k, of "map df_symbol (?ds @ [d])"] by simp
  qed (use d in \<open>simp_all add: nth_append\<close>)
  have "record_in_map s sid (record_def sid (length ?ds)) (set_slot s t (?ds @ [d]) ?us ?m b) =
      Some (set_slot s t (?ds @ [d]) ?us m' b)"
    using a s m'(1) arenas_okD(7) [OF a] by (simp add: record_in_map_def)
  with p set_slot_inv [OF inv s ok' _ _ _ snap] ids m'(3,4) show ?thesis by simp
qed

end

lemma record_snap_of:
  assumes "udm_wf nsyms dsyms usyms m" and "d < length dsyms" and "dsyms ! d = sid" and "snap_of dsyms sid' k m"
  shows "udm_record_definition sid d m = Some m' \<Longrightarrow> snap_of dsyms sid' k m'"
    and "udm_record_super_definition sid d m = Some m' \<Longrightarrow> snap_of dsyms sid' k m'"
    and "udm_record_lazy_definition sid d m = Some m' \<Longrightarrow> snap_of dsyms sid' k m'"
proof -
  note notify = snap_of_notify [OF assms(1-3) _ _ assms(4)]
  show "udm_record_definition sid d m = Some m' \<Longrightarrow> snap_of dsyms sid' k m'"
    using notify record_notifies(1) by simp
  show "udm_record_super_definition sid d m = Some m' \<Longrightarrow> snap_of dsyms sid' k m'"
    using notify record_notifies(2) by simp
  show "udm_record_lazy_definition sid d m = Some m' \<Longrightarrow> snap_of dsyms sid' k m'"
    using notify record_notifies(3) by simp
qed

interpretation plain: definition_recorder udm_record_definition
proof unfold_locales
  fix nsyms dsyms usyms m sid d
  assume "udm_wf nsyms dsyms usyms m" "sid < length (ub_symbol_states m)" "d < length dsyms" "dsyms ! d = sid"
  from udm_record_definition_wf [OF this] show "\<exists>m'. udm_record_definition sid d m = Some m' \<and> udm_wf nsyms dsyms usyms m' \<and>
    length (ub_enclosing_snapshots m') = length (ub_enclosing_snapshots m) \<and>
    length (ub_symbol_states m') = length (ub_symbol_states m)" by blast
qed (rule record_snap_of(1))

interpretation super: definition_recorder udm_record_super_definition
proof unfold_locales
  fix nsyms dsyms usyms m sid d
  assume "udm_wf nsyms dsyms usyms m" "sid < length (ub_symbol_states m)" "d < length dsyms" "dsyms ! d = sid"
  from udm_record_super_definition_wf [OF this] show "\<exists>m'. udm_record_super_definition sid d m = Some m' \<and> udm_wf nsyms dsyms usyms m' \<and>
    length (ub_enclosing_snapshots m') = length (ub_enclosing_snapshots m) \<and>
    length (ub_symbol_states m') = length (ub_symbol_states m)" by blast
qed (rule record_snap_of(2))

interpretation lazy: definition_recorder udm_record_lazy_definition
proof unfold_locales
  fix nsyms dsyms usyms m sid d
  assume "udm_wf nsyms dsyms usyms m" "sid < length (ub_symbol_states m)" "d < length dsyms" "dsyms ! d = sid"
  from udm_record_lazy_definition_wf [OF this] show "\<exists>m'. udm_record_lazy_definition sid d m = Some m' \<and> udm_wf nsyms dsyms usyms m' \<and>
    length (ub_enclosing_snapshots m') = length (ub_enclosing_snapshots m) \<and>
    length (ub_symbol_states m') = length (ub_symbol_states m)" by auto
qed (rule record_snap_of(3))

lemma enclosing_owner_total:
  assumes "arenas_ok b"
  obtains r where "enclosing_owner b = Some r" and "\<forall>s. r = Some s \<longrightarrow> s < length (bu_scopes b)"
proof (cases "sc_parent (bu_scopes b ! bu_current_scope b)")
  case None
  with that [of None] show ?thesis using arenas_okD(2) [OF assms] by (simp add: enclosing_owner_def)
next
  case (Some p)
  let ?r = "find (\<lambda>s. kind_owns_bindings (sc_kind (bu_scopes b ! s))) (chain (bu_scopes b) p)"
  have p: "p < length (bu_scopes b)" using parent_in_range [OF assms arenas_okD(2) [OF assms] Some] .
  have "enclosing_owner b = Some ?r"
    using Some p arenas_okD(2) [OF assms] scope_ancestors_total [OF assms p] by (simp add: enclosing_owner_def)
  then show ?thesis by (rule that) (use chain_current [OF assms p] find_Some_in in fast)
qed

lemma walks_add_definition [total_intros]: "walks U (add_definition name flags kind rng)"
proof (rule keepsI)
  fix b assume inv: "scan_inv U b"
  note a = scan_invD [OF inv]
  obtain r where r: "enclosing_owner b = Some r" "\<forall>s. r = Some s \<longrightarrow> s < length (bu_scopes b)"
    by (rule enclosing_owner_total [OF a])
  have owner: "\<exists>b'. add_definition_to_owner name flags kind rng b = Some b' \<and> scan_inv U b' \<and> walk_frame b b'"
  proof (cases r)
    case None
    with r(1) inv walk_frame_refl show ?thesis by (simp add: add_definition_to_owner_def)
  next
    case (Some s)
    with r(2) have s: "s < length (bu_scopes b)" by blast
    from Some r(1) lazy.define_ok [OF inv s, of name flags kind rng] show ?thesis
      by (simp add: add_definition_to_owner_def)
  qed
  have "current_kind b = Some (sc_kind (bu_scopes b ! bu_current_scope b))" by (rule current_kind_total [OF a])
  moreover have current: "bu_current_scope b' = bu_current_scope b"
    if "push_definition (bu_current_scope b) name flags kind rng b = Some (sid, did, b')" for sid did b'
    using that by (auto simp: push_definition_def iv_push_def split: Option.bind_splits)
  ultimately show "\<exists>b'. add_definition name flags kind rng b = Some b' \<and> scan_inv U b' \<and> walk_frame b b'"
    using owner plain.define_ok [OF inv arenas_okD(2) [OF a], of name flags kind rng]
    by (cases "push_definition (bu_current_scope b) name flags kind rng b") (auto simp: add_definition_def)
qed

section \<open>Super-assignments\<close>

lemma super_target_total:
  assumes a: "arenas_ok b"
  shows "\<forall>s\<in>set is. s < length (bu_scopes b) \<Longrightarrow>
    \<exists>r. super_target b name u is = Some r \<and> (\<forall>s t. r = Some (s, t) \<longrightarrow> s < length (bu_scopes b))"
proof (induction "is")
  case (Cons s ss)
  then have s: "s < length (bu_scopes b)" by simp
  obtain lz w bd where "builder_enclosing_lazy_scope b s = Some lz" "walked_binding b s name = Some w"
    "scope_binds_anywhere b s name = Some bd"
    using enclosing_lazy_total [OF a s] walked_binding_total [OF a s] scope_binds_anywhere_total [OF a s] by metis
  with Cons s show ?case by (cases "lz = u") auto
qed simp

lemma super_name_is_locked_core: "super_name_is_locked name rng b = (l, b') \<Longrightarrow> core b' = core b"
  by (auto simp: super_name_is_locked_def split: option.splits)

lemma resolve_super_target_total:
  assumes a: "arenas_ok b" and start: "start < length (bu_scopes b)"
  shows "\<exists>r b'. resolve_super_target name start rng b = Some (r, b') \<and> core b' = core b \<and>
    (\<forall>s. r = Some s \<longrightarrow> s < length (bu_scopes b))"
proof -
  obtain u where u: "builder_enclosing_lazy_scope b (bu_current_scope b) = Some u"
    using enclosing_lazy_total [OF a arenas_okD(2) [OF a]] by blast
  have "\<forall>s\<in>set (chain (bu_scopes b) start). s < length (bu_scopes b)" using chain_current [OF a start] by blast
  from super_target_total [OF a this, of name u] obtain t where
    t: "super_target b name u (chain (bu_scopes b) start) = Some t"
      "\<forall>s td. t = Some (s, td) \<longrightarrow> s < length (bu_scopes b)" by blast
  note anc = scope_ancestors_total [OF a start]
  show ?thesis
  proof (cases t)
    case None
    obtain l b' where l: "super_name_is_locked name rng b = (l, b')" by fastforce
    moreover have "bu_scopes b \<noteq> []" using arenas_okD(2) [OF a] by auto
    ultimately show ?thesis
      using u anc t(1) None super_name_is_locked_core [OF l] by (simp add: resolve_super_target_def)
  next
    case (Some st)
    obtain s td where st: "st = (s, td)" by fastforce
    then have s: "s < length (bu_scopes b)" using t(2) Some by simp
    obtain r where "(if td then scope_binding_range b s name else Some None) = Some r"
      using scope_binding_range_total [OF a s] by (cases td) auto
    with u anc t(1) Some st s show ?thesis by (simp add: resolve_super_target_def split: option.splits)
  qed
qed

lemma core_scopes: "core b' = core b \<Longrightarrow> bu_scopes b' = bu_scopes b \<and> bu_current_scope b' = bu_current_scope b"
  by (simp add: core_def arenas_def)

lemma walks_add_super_definition [total_intros]: "walks U (add_super_definition name kind rng)"
proof (rule keepsI)
  fix b assume inv: "scan_inv U b"
  note a = scan_invD [OF inv]
  obtain f where f: "super_frame b = Some f" "\<And>s. f = Some s \<Longrightarrow> s < length (bu_scopes b)"
  proof -
    obtain r where "enclosing_owner b = Some r" "\<forall>s. r = Some s \<longrightarrow> s < length (bu_scopes b)"
      by (rule enclosing_owner_total [OF a])
    then show ?thesis using that [of r] that [of "Some (bu_current_scope b)"] current_kind_total [OF a] arenas_okD(2) [OF a]
      by (cases "kind_owns_bindings (sc_kind (bu_scopes b ! bu_current_scope b))") (simp_all add: super_frame_def)
  qed
  show "\<exists>b'. add_super_definition name kind rng b = Some b' \<and> scan_inv U b' \<and> walk_frame b b'"
  proof (cases f)
    case None
    with f(1) inv walk_frame_refl show ?thesis by (simp add: add_super_definition_def)
  next
    case (Some frame)
    have fr: "frame < length (bu_scopes b)" by (rule f(2) [OF Some])
    show ?thesis
    proof (cases "sc_parent (bu_scopes b ! frame)")
      case None
      obtain l b1 where l: "super_name_is_locked name rng b = (l, b1)" by fastforce
      note b1 = super_name_is_locked_core [OF l]
      note w1 = core_walk [OF b1 inv]
      have "frame < length (bu_scopes b1)" using fr core_scopes [OF b1] by simp
      from super.define_ok [OF w1(1) this] obtain b' where b':
        "(do { (sid, did, b) \<leftarrow> push_definition frame name (if l then IS_SUPER_BOUND else flags_union IS_SUPER_BOUND IS_BOUND)
            kind rng b1; record_in_map frame sid (udm_record_super_definition sid did) b }) = Some b'"
        "scan_inv U b'" "walk_frame b1 b'" by blast
      have "add_super_definition name kind rng b = Some b'"
        using f(1) Some fr None l b'(1) by (simp add: add_super_definition_def)
      with b'(2) walk_frame_trans [OF w1(2) b'(3)] show ?thesis by blast
    next
      case parent: (Some start)
      obtain r b1 where r: "resolve_super_target name start rng b = Some (r, b1)" "core b1 = core b"
        "\<forall>s. r = Some s \<longrightarrow> s < length (bu_scopes b)"
        using resolve_super_target_total [OF a parent_in_range [OF a fr parent]] by metis
      note w1 = core_walk [OF r(2) inv]
      have cur: "bu_current_scope b1 < length (bu_scopes b1)" using arenas_okD(2) [OF scan_invD [OF w1(1)]] .
      obtain sid did b2 where b2: "push_definition (bu_current_scope b1) name IS_SUPER_BOUND kind rng b1 = Some (sid, did, b2)"
        "scan_inv U b2" "walk_frame b1 b2" by (rule walks_push_definition [OF w1(1) cur])
      have w2: "walk_frame b b2" by (rule walk_frame_trans [OF w1(2) b2(3)])
      note unfold = f(1) Some fr parent r(1) b2(1)
      show ?thesis
      proof (cases r)
        case None
        with unfold b2(2) w2 show ?thesis by (simp add: add_super_definition_def)
      next
        case target: (Some s)
        have "s < length (bu_scopes b2)" using r(3) target walk_frameD(2) [OF w2] by auto
        from super.define_ok [OF b2(2) this] obtain b' where b':
          "(do { (sid, did, b) \<leftarrow> push_definition s name IS_BOUND kind rng b2;
            record_in_map s sid (udm_record_super_definition sid did) b }) = Some b'"
          "scan_inv U b'" "walk_frame b2 b'" by blast
        have "add_super_definition name kind rng b = Some b'"
          using unfold target b'(1) by (simp add: add_super_definition_def)
        with b'(2) walk_frame_trans [OF w2 b'(3)] show ?thesis by blast
      qed
    qed
  qed
qed

section \<open>Uses\<close>

lemma snap_named_frame: "snap_named b name s k \<Longrightarrow> walk_frame b b' \<Longrightarrow> snap_named b' name s k"
  unfolding snap_named_def walk_frame_def slot_le_def by (meson less_le_trans)

lemma st_id_inj: "st_wf t \<Longrightarrow> st_id t m = Some i \<Longrightarrow> st_id t n = Some i \<Longrightarrow> m = n"
  by (simp add: st_wf_id)

lemma lazy_snapshot_inv:
  assumes inv: "scan_inv U b" and c: "c < length (bu_scopes b)"
    and n: "st_id (wk_symbol_tables b ! c) name = Some n" and k: "snap_named b name s k"
  shows "scan_inv U (b\<lparr>wk_lazy_snapshots := (wk_lazy_snapshots b)((c, n, s) \<mapsto> k)\<rparr>)"
    and "walk_frame b (b\<lparr>wk_lazy_snapshots := (wk_lazy_snapshots b)((c, n, s) \<mapsto> k)\<rparr>)"
proof -
  have "snapshots_ok (b\<lparr>wk_lazy_snapshots := (wk_lazy_snapshots b)((c, n, s) \<mapsto> k)\<rparr>)"
    using arenas_okD(10) [OF scan_invD [OF inv]] c n k by (auto simp: snapshots_ok_def snap_named_def)
  then show "scan_inv U (b\<lparr>wk_lazy_snapshots := (wk_lazy_snapshots b)((c, n, s) \<mapsto> k)\<rparr>)"
    using inv by (simp add: scan_inv_def arenas_ok_def)
qed (simp add: walk_frame_def slot_le_def)

text \<open>Registering a snapshot in one ancestor returns a snapshot of the same name there.\<close>

lemma register_snapshot_in_total:
  assumes inv: "scan_inv U b" and s: "s < length (bu_scopes b)"
    and ns: "st_id (wk_symbol_tables b ! bu_current_scope b) name = Some ns"
  shows "\<exists>k b'. register_snapshot_in name ns eager s b = Some ((s, k), b') \<and> scan_inv U b' \<and> walk_frame b b' \<and>
    bu_scopes b' = bu_scopes b \<and> snap_named b' name s k"
proof -
  note a = scan_invD [OF inv]
  note len = arenas_okD(4-7) [OF a]
  let ?ds = "wk_definitions b ! s" and ?us = "wk_uses b ! s" and ?m = "wk_use_def_maps b ! s"
  have ok: "scope_ok (wk_symbol_tables b ! s) ?ds ?us ?m" by (rule arenas_okD(9) [OF a s])
  then have wft: "st_wf (wk_symbol_tables b ! s)" by (simp add: scope_ok_def)
  obtain sid t where t: "st_intern (wk_symbol_tables b ! s) name flags_empty = Some (sid, t)"
    using st_intern_total [OF wft] by blast
  note interned = st_intern_props [OF wft t]
  have ok1: "scope_ok t ?ds ?us ?m" by (rule scope_ok_intern [OF ok t]) simp
  let ?m1 = "udm_ensure_symbol sid ?m"
  have wf1: "udm_wf (st_len t) (map df_symbol ?ds) (map us_symbol ?us) ?m1"
    by (rule udm_ensure_symbol_wf [OF scope_ok_udm [OF ok1] interned(2)])
  have sid: "sid < length (ub_symbol_states ?m1)" by simp
  have snaps1: "ub_enclosing_snapshots ?m1 = ub_enclosing_snapshots ?m" by (simp add: udm_ensure_symbol_def)
  have slot: "scan_inv U (set_slot s t ?ds ?us m b)" "walk_frame b (set_slot s t ?ds ?us m b)"
    if "udm_wf (st_len t) (map df_symbol ?ds) (map us_symbol ?us) m" "ub_symbol_states m = ub_symbol_states ?m1"
      "length (ub_enclosing_snapshots ?m) \<le> length (ub_enclosing_snapshots m)"
      "\<And>sid' k. snap_of (map df_symbol ?ds) sid' k ?m1 \<Longrightarrow> snap_of (map df_symbol ?ds) sid' k m" for m
    using set_slot_inv [OF inv s scope_ok_map [OF ok1 that(1)], OF _ _ interned(8)] that(2-4) by simp_all
  have slot_eq: "set_slot s t ?ds ?us m b = b\<lparr>wk_symbol_tables := (wk_symbol_tables b)[s := t],
      wk_use_def_maps := (wk_use_def_maps b)[s := m]\<rparr>" for m
    using s len by (simp add: set_slot_def list_update_id)
  have named: "snap_named (set_slot s t ?ds ?us m b) name s k" if "snap_of (map df_symbol ?ds) sid k m" for m k
    using that s a interned(1) by (simp add: snap_named_def)
  show ?thesis
  proof (cases eager)
    case True
    obtain k m where m: "udm_register_eager_snapshot sid ?m1 = Some (k, m)"
      "udm_wf (st_len t) (map df_symbol ?ds) (map us_symbol ?us) m"
      "length (ub_enclosing_snapshots m) = Suc (length (ub_enclosing_snapshots ?m1))"
      "ub_symbol_states m = ub_symbol_states ?m1"
      using udm_register_eager_snapshot_wf [OF wf1 sid] by blast
    note reg = snap_of_register_eager [OF wf1 sid m(1)]
    have "register_snapshot_in name ns eager s b = Some ((s, k), set_slot s t ?ds ?us m b)"
      using True t m(1) s len by (simp add: register_snapshot_in_def slot_eq)
    with slot [OF m(2,4) _ reg(2)] m(3) snaps1 named [OF reg(1)] show ?thesis by simp
  next
    case False
    show ?thesis
    proof (cases "wk_lazy_snapshots b (bu_current_scope b, ns, s)")
      case (Some k)
      obtain name' where n: "st_id (wk_symbol_tables b ! bu_current_scope b) name' = Some ns" "snap_named b name' s k"
        using Some arenas_okD(10) [OF a] unfolding snapshots_ok_def by blast
      have "st_wf (wk_symbol_tables b ! bu_current_scope b)"
        using arenas_okD(9) [OF a arenas_okD(2) [OF a]] by (simp add: scope_ok_def)
      from st_id_inj [OF this n(1) ns] n(2) have k: "snap_named b name s k" by simp
      have "register_snapshot_in name ns eager s b = Some ((s, k), set_slot s t ?ds ?us ?m1 b)"
        using False Some t s len by (simp add: register_snapshot_in_def slot_eq)
      with slot [OF wf1] snaps1 snap_named_frame [OF k] show ?thesis by simp
    next
      case None
      obtain k m where m: "udm_register_lazy_snapshot sid ?m1 = Some (k, m)"
        "udm_wf (st_len t) (map df_symbol ?ds) (map us_symbol ?us) m"
        "length (ub_enclosing_snapshots m) = Suc (length (ub_enclosing_snapshots ?m1))"
        "ub_symbol_states m = ub_symbol_states ?m1"
        using udm_register_lazy_snapshot_wf [OF wf1 sid] by blast
      note reg = snap_of_register_lazy [OF wf1 sid m(1)]
      let ?b1 = "set_slot s t ?ds ?us m b"
      let ?b2 = "?b1\<lparr>wk_lazy_snapshots := (wk_lazy_snapshots ?b1)((bu_current_scope b, ns, s) \<mapsto> k)\<rparr>"
      have b1: "scan_inv U ?b1" "walk_frame b ?b1" using slot [OF m(2,4) _ reg(2)] m(3) snaps1 by simp_all
      have cur: "bu_current_scope b < length (bu_scopes ?b1)" using arenas_okD(2) [OF a] by simp
      have ns1: "st_id (wk_symbol_tables ?b1 ! bu_current_scope b) name = Some ns"
        using walk_frameD(4) [OF b1(2) arenas_okD(2) [OF a]] ns by (simp add: slot_le_def)
      note b2 = lazy_snapshot_inv [OF b1(1) cur ns1 named [OF reg(1)]]
      have "register_snapshot_in name ns eager s b = Some ((s, k), ?b2)"
        using False None t m(1) s len by (simp add: register_snapshot_in_def slot_eq)
      then show ?thesis
        using b2(1) walk_frame_trans [OF b1(2) b2(2)] snap_named_frame [OF named [OF reg(1)] b2(2)] by simp
    qed
  qed
qed

text \<open>The loop over the ancestors collects snapshots of the name in scopes of the chain.\<close>

definition chain_ok :: "builder \<Rightarrow> string \<Rightarrow> nat set \<Rightarrow> (nat \<times> nat) list \<Rightarrow> bool" where
  "chain_ok b name S chn \<longleftrightarrow> (\<forall>(s, k)\<in>set chn. s \<in> S \<and> snap_named b name s k)"

lemma chain_ok_frame: "chain_ok b name S chn \<Longrightarrow> walk_frame b b' \<Longrightarrow> chain_ok b' name S chn"
  using snap_named_frame unfolding chain_ok_def by blast

lemma snapshot_chain_total:
  "scan_inv U b \<Longrightarrow> \<forall>s\<in>set is. s < length (bu_scopes b) \<and> s \<in> S \<Longrightarrow> chain_ok b name S acc \<Longrightarrow>
    st_id (wk_symbol_tables b ! bu_current_scope b) name = Some ns \<Longrightarrow>
    \<exists>chn b'. snapshot_chain name ns eager is acc b = Some (chn, b') \<and> scan_inv U b' \<and> walk_frame b b' \<and>
      bu_scopes b' = bu_scopes b \<and> chain_ok b' name S chn"
proof (induction "is" arbitrary: eager acc b)
  case Nil
  then show ?case using walk_frame_refl by simp
next
  case (Cons s ss)
  note inv = Cons.prems(1)
  have s: "s < length (bu_scopes b)" "s \<in> S" using Cons.prems(2) by simp_all
  obtain binds where binds: "scope_binds_anywhere b s name = Some binds"
    using scope_binds_anywhere_total [OF scan_invD [OF inv] s(1)] by blast
  obtain acc1 b1 where b1: "(if binds then do { (e, b) \<leftarrow> register_snapshot_in name ns eager s b; Some (acc @ [e], b) }
      else Some (acc, b)) = Some (acc1, b1)" "scan_inv U b1" "walk_frame b b1" "bu_scopes b1 = bu_scopes b" "chain_ok b1 name S acc1"
  proof (cases binds)
    case True
    obtain k b' where b': "register_snapshot_in name ns eager s b = Some ((s, k), b')" "scan_inv U b'" "walk_frame b b'"
      "bu_scopes b' = bu_scopes b" "snap_named b' name s k"
      using register_snapshot_in_total [OF inv s(1) Cons.prems(4)] by metis
    have "chain_ok b' name S (acc @ [(s, k)])"
      using chain_ok_frame [OF Cons.prems(3) b'(3)] b'(5) s(2) by (simp add: chain_ok_def)
    with that b' True show ?thesis by simp
  next
    case False
    with that [of acc b] inv Cons.prems(3) walk_frame_refl show ?thesis by simp
  qed
  have ss: "\<forall>s\<in>set ss. s < length (bu_scopes b1) \<and> s \<in> S" using Cons.prems(2) b1(4) by simp
  have "slot_le b b1 (bu_current_scope b)"
    using walk_frameD(4) [OF b1(3) arenas_okD(2) [OF scan_invD [OF inv]]] .
  then have ns: "st_id (wk_symbol_tables b1 ! bu_current_scope b1) name = Some ns"
    using Cons.prems(4) walk_frameD(1) [OF b1(3)] by (simp add: slot_le_def)
  from Cons.IH [OF b1(2) ss b1(5) ns, of "eager \<and> \<not> kind_is_lazy (sc_kind (bu_scopes b1 ! s))"] obtain chn b' where b':
    "snapshot_chain name ns (eager \<and> \<not> kind_is_lazy (sc_kind (bu_scopes b1 ! s))) ss acc1 b1 = Some (chn, b')"
    "scan_inv U b'" "walk_frame b1 b'" "bu_scopes b' = bu_scopes b1" "chain_ok b' name S chn" by blast
  have "snapshot_chain name ns eager (s # ss) acc b = Some (chn, b')"
    using binds b1(1,4) b'(1) s(1) by simp
  with b'(2,4,5) b1(4) walk_frame_trans [OF b1(3) b'(3)] show ?case by simp
qed

lemma enclosing_snapshots_inv:
  assumes inv: "scan_inv U b" and c: "c < length (bu_scopes b)" "u < length (wk_uses b ! c)"
    "st_id (wk_symbol_tables b ! c) name = Some (us_symbol (wk_uses b ! c ! u))"
    and chn: "chain_ok b name (set (chain (bu_scopes b) c) - {c}) chn"
  shows "scan_inv U (b\<lparr>wk_enclosing_snapshots := (wk_enclosing_snapshots b)((c, u) \<mapsto> chn)\<rparr>)"
    and "walk_frame b (b\<lparr>wk_enclosing_snapshots := (wk_enclosing_snapshots b)((c, u) \<mapsto> chn)\<rparr>)"
proof -
  let ?b = "b\<lparr>wk_enclosing_snapshots := (wk_enclosing_snapshots b)((c, u) \<mapsto> chn)\<rparr>"
  have named: "snap_named ?b n s k \<longleftrightarrow> snap_named b n s k" for n s k by (simp add: snap_named_def)
  have "snapshots_ok ?b"
    using arenas_okD(10) [OF scan_invD [OF inv]] c chn unfolding snapshots_ok_def chain_ok_def named by auto
  then show "scan_inv U ?b" using inv by (simp add: scan_inv_def arenas_ok_def)
qed (simp add: walk_frame_def slot_le_def)

lemma register_enclosing_snapshot_total:
  assumes inv: "scan_inv U b" and use: "uid < length (wk_uses b ! bu_current_scope b)"
    "us_symbol (wk_uses b ! bu_current_scope b ! uid) = ns"
    and ns: "st_id (wk_symbol_tables b ! bu_current_scope b) name = Some ns"
  shows "\<exists>b'. register_enclosing_snapshot name ns uid b = Some b' \<and> scan_inv U b' \<and> walk_frame b b'"
proof (cases "sc_parent (bu_scopes b ! bu_current_scope b)")
  case None
  with arenas_okD(2) [OF scan_invD [OF inv]] inv walk_frame_refl show ?thesis by (simp add: register_enclosing_snapshot_def)
next
  case (Some p)
  note a = scan_invD [OF inv]
  note cur = arenas_okD(2) [OF a] and par = arenas_okD(3) [OF a]
  let ?c = "bu_current_scope b"
  have p: "p < length (bu_scopes b)" by (rule parent_in_range [OF a cur Some])
  have pc: "p < ?c" using par cur Some unfolding parents_ok_def by blast
  have ch: "chain (bu_scopes b) ?c = ?c # chain (bu_scopes b) p" by (rule chain_parent [OF par cur Some])
  have "\<forall>s\<in>set (chain (bu_scopes b) p). s < length (bu_scopes b) \<and> s \<in> set (chain (bu_scopes b) ?c) - {?c}"
    using chain_current [OF a p] chain_le [OF par p] pc ch by fastforce
  moreover have "chain_ok b name (set (chain (bu_scopes b) ?c) - {?c}) []" by (simp add: chain_ok_def)
  ultimately obtain chn b' where b': "snapshot_chain name ns (\<not> kind_is_lazy (sc_kind (bu_scopes b ! ?c)))
      (chain (bu_scopes b) p) [] b = Some (chn, b')" "scan_inv U b'" "walk_frame b b'" "bu_scopes b' = bu_scopes b"
      "chain_ok b' name (set (chain (bu_scopes b) ?c) - {?c}) chn"
    using snapshot_chain_total [OF inv _ _ ns] by blast
  have slot: "slot_le b b' ?c" "bu_current_scope b' = ?c" using walk_frameD [OF b'(3)] cur by blast+
  have c': "?c < length (bu_scopes b')" "uid < length (wk_uses b' ! ?c)"
    "st_id (wk_symbol_tables b' ! ?c) name = Some (us_symbol (wk_uses b' ! ?c ! uid))"
    "chain_ok b' name (set (chain (bu_scopes b') ?c) - {?c}) chn"
    using cur use ns slot b'(4,5) by (auto simp: slot_le_def prefix_def nth_append)
  note b'' = enclosing_snapshots_inv [OF b'(2) c']
  have "register_enclosing_snapshot name ns uid b = Some (if chn = [] then b'
      else b'\<lparr>wk_enclosing_snapshots := (wk_enclosing_snapshots b')((?c, uid) \<mapsto> chn)\<rparr>)"
    using Some cur b'(1) slot(2) scope_ancestors_total [OF a p] by (simp add: register_enclosing_snapshot_def)
  with b'(2,3) b''(1) walk_frame_trans [OF b'(3) b''(2)] show ?thesis by simp
qed

lemma walks_push_use:
  assumes inv: "scan_inv U b"
  obtains sid uid b' where "push_use name rng b = Some (sid, uid, b')" and "scan_inv U b'" and "walk_frame b b'"
    and "sid < length (ub_symbol_states (wk_use_def_maps b' ! bu_current_scope b'))"
    and "uid < length (wk_uses b' ! bu_current_scope b')" and "us_symbol (wk_uses b' ! bu_current_scope b' ! uid) = sid"
    and "st_id (wk_symbol_tables b' ! bu_current_scope b') name = Some sid"
proof -
  note a = scan_invD [OF inv]
  note s = arenas_okD(2) [OF a] and len = arenas_okD(4-7) [OF a]
  let ?s = "bu_current_scope b"
  let ?ds = "wk_definitions b ! ?s" and ?us = "wk_uses b ! ?s" and ?m = "wk_use_def_maps b ! ?s"
  have ok: "scope_ok (wk_symbol_tables b ! ?s) ?ds ?us ?m" by (rule arenas_okD(9) [OF a s])
  then have wft: "st_wf (wk_symbol_tables b ! ?s)" by (simp add: scope_ok_def)
  obtain sid t where t: "st_intern (wk_symbol_tables b ! ?s) name IS_USED = Some (sid, t)"
    using st_intern_total [OF wft] by blast
  note interned = st_intern_props [OF wft t]
  let ?us' = "?us @ [\<lparr>us_symbol = sid, us_range = rng\<rparr>]" and ?m1 = "udm_ensure_symbol sid ?m"
  have ok1: "scope_ok t ?ds ?us ?m" by (rule scope_ok_intern [OF ok t]) simp
  have sid: "sid < st_len t" by (rule interned(2))
  have wf1: "udm_wf (st_len t) (map df_symbol ?ds) (map us_symbol ?us) ?m1"
    by (rule udm_ensure_symbol_wf [OF scope_ok_udm [OF ok1] sid])
  have sid1: "sid < length (ub_symbol_states ?m1)" by simp
  let ?m2 = "?m1\<lparr>ub_bindings_by_use := ub_bindings_by_use ?m1 @ [ub_symbol_states ?m1 ! sid]\<rparr>"
  have m2: "udm_record_use sid (length ?us) ?m1 = Some ?m2" "udm_wf (st_len t) (map df_symbol ?ds) (map us_symbol ?us') ?m2"
    using udm_record_use_wf [OF wf1 sid1, of "length ?us"] by auto
  have ok2: "scope_ok t ?ds ?us' ?m2" using ok1 m2(2) sid by (simp add: scope_ok_def)
  let ?b' = "set_slot ?s t ?ds ?us' ?m2 b"
  have snap: "snap_of (map df_symbol ?ds) sid' k ?m2" if "snap_of (map df_symbol ?ds) sid' k ?m" for sid' k
    using that snap_of_cong [of ?m2 ?m1] by simp
  have "scan_inv U ?b'" "walk_frame b ?b'"
    using set_slot_inv [OF inv s ok2 _ _ interned(8) snap] by (simp_all add: udm_ensure_symbol_def)
  moreover have "push_use name rng b = Some (sid, length ?us, ?b')"
    using t m2(1) s len by (simp add: push_use_def record_in_map_def set_slot_def iv_push_def iv_next_id_def list_update_id)
  moreover have "sid < length (ub_symbol_states (wk_use_def_maps ?b' ! bu_current_scope ?b'))" using s a by simp
  moreover have "length ?us < length (wk_uses ?b' ! bu_current_scope ?b')"
    "us_symbol (wk_uses ?b' ! bu_current_scope ?b' ! length ?us) = sid"
    "st_id (wk_symbol_tables ?b' ! bu_current_scope ?b') name = Some sid"
    using s a interned(1) by simp_all
  ultimately show ?thesis using that by blast
qed

lemma walks_add_use [total_intros]: "walks U (add_use name rng)"
proof (rule keepsI)
  fix b assume inv: "scan_inv U b"
  obtain sid uid b1 where b1: "push_use name rng b = Some (sid, uid, b1)" "scan_inv U b1" "walk_frame b b1"
    "sid < length (ub_symbol_states (wk_use_def_maps b1 ! bu_current_scope b1))"
    and use: "uid < length (wk_uses b1 ! bu_current_scope b1)" "us_symbol (wk_uses b1 ! bu_current_scope b1 ! uid) = sid"
      "st_id (wk_symbol_tables b1 ! bu_current_scope b1) name = Some sid" by (rule walks_push_use [OF inv])
  note a1 = scan_invD [OF b1(2)]
  obtain b2 where b2: "register_enclosing_snapshot name sid uid b1 = Some b2" "scan_inv U b2" "walk_frame b1 b2"
    using register_enclosing_snapshot_total [OF b1(2) use] by blast
  have "add_use name rng b = Some (if bd_may_be_unbound (ub_symbol_states (wk_use_def_maps b1 ! bu_current_scope b1) ! sid)
      then b2 else b1)"
    using b1(1,4) b2(1) arenas_okD(2,7) [OF a1] by (simp add: add_use_def udm_is_may_be_unbound_def)
  with b1(2,3) b2(2) walk_frame_trans [OF b1(3) b2(3)]
  show "\<exists>b'. add_use name rng b = Some b' \<and> scan_inv U b' \<and> walk_frame b b'" by simp
qed

section \<open>Control flow\<close>

lemma current_map_total:
  "arenas_ok b \<Longrightarrow> current_map b = Some (wk_use_def_maps b ! bu_current_scope b)"
  using arenas_okD(2,7) [of b] by (simp add: current_map_def)

lemma current_wf:
  assumes "scan_inv U b"
  defines "s \<equiv> bu_current_scope b"
  shows "udm_wf (st_len (wk_symbol_tables b ! s)) (map df_symbol (wk_definitions b ! s)) (map us_symbol (wk_uses b ! s))
    (wk_use_def_maps b ! s)"
  unfolding s_def by (rule scope_ok_udm [OF arenas_okD(9)]) (use arenas_okD(2) scan_invD [OF assms(1)] in blast)+

lemma modify_current_map_total:
  assumes inv: "scan_inv U b"
  defines "s \<equiv> bu_current_scope b"
  assumes wf: "udm_wf (st_len (wk_symbol_tables b ! s)) (map df_symbol (wk_definitions b ! s)) (map us_symbol (wk_uses b ! s))
      (f (wk_use_def_maps b ! s))"
    and states: "length (ub_symbol_states (wk_use_def_maps b ! s)) \<le> length (ub_symbol_states (f (wk_use_def_maps b ! s)))"
    and snaps: "ub_enclosing_snapshots (f (wk_use_def_maps b ! s)) = ub_enclosing_snapshots (wk_use_def_maps b ! s)"
      "ub_lazy_watchers (f (wk_use_def_maps b ! s)) = ub_lazy_watchers (wk_use_def_maps b ! s)"
  shows "\<exists>b'. modify_current_map f b = Some b' \<and> scan_inv U b' \<and> walk_frame b b' \<and> wk_uses b' = wk_uses b \<and>
    wk_definitions b' = wk_definitions b \<and> wk_use_def_maps b' ! s = f (wk_use_def_maps b ! s)"
proof -
  note a = scan_invD [OF inv]
  have s: "s < length (bu_scopes b)" unfolding s_def by (rule arenas_okD(2) [OF a])
  note len = arenas_okD(4-7) [OF a]
  let ?b = "set_slot s (wk_symbol_tables b ! s) (wk_definitions b ! s) (wk_uses b ! s) (f (wk_use_def_maps b ! s)) b"
  have ok: "scope_ok (wk_symbol_tables b ! s) (wk_definitions b ! s) (wk_uses b ! s) (f (wk_use_def_maps b ! s))"
    by (rule scope_ok_map [OF arenas_okD(9) [OF a s] wf])
  have "scan_inv U ?b" "walk_frame b ?b" using set_slot_inv [OF inv s ok _ _ _ _ states] snaps snap_of_cong [OF snaps] by simp_all
  moreover have "modify_current_map f b = Some ?b"
    using s len by (simp add: modify_current_map_def set_slot_def s_def list_update_id)
  moreover have "wk_uses ?b = wk_uses b" "wk_definitions ?b = wk_definitions b"
    using s len by (simp_all add: set_slot_def list_update_id)
  ultimately show ?thesis using s a by (simp del: set_slot_fields)
qed

text \<open>A snapshot taken earlier in the same scope still fits the map.\<close>

lemma snapshot_fits:
  assumes inv: "scan_inv U b" and fr: "walk_frame b b'"
  defines "snap \<equiv> udm_snapshot (wk_use_def_maps b ! bu_current_scope b)"
  shows "snap_for (map df_symbol (wk_definitions b' ! bu_current_scope b')) snap"
    and "length snap \<le> length (ub_symbol_states (wk_use_def_maps b' ! bu_current_scope b'))"
proof -
  let ?s = "bu_current_scope b"
  have s: "?s < length (bu_scopes b)" using arenas_okD(2) scan_invD [OF inv] by blast
  have le: "slot_le b b' ?s" using walk_frameD(4) [OF fr s] .
  have "prefix (map df_symbol (wk_definitions b ! ?s)) (map df_symbol (wk_definitions b' ! ?s))"
    using le by (simp add: slot_le_def map_mono_prefix)
  from snap_for_mono [OF udm_snapshot_for [OF current_wf [OF inv]] this]
  show "snap_for (map df_symbol (wk_definitions b' ! bu_current_scope b')) snap"
    by (simp add: snap_def walk_frameD(1) [OF fr])
  show "length snap \<le> length (ub_symbol_states (wk_use_def_maps b' ! bu_current_scope b'))"
    using le by (simp add: snap_def udm_snapshot_def slot_le_def walk_frameD(1) [OF fr])
qed

lemma restore_total:
  assumes inv: "scan_inv U b" and inv': "scan_inv U b'" and fr: "walk_frame b b'"
  shows "\<exists>b''. modify_current_map (udm_restore (udm_snapshot (wk_use_def_maps b ! bu_current_scope b))) b' = Some b'' \<and>
    scan_inv U b'' \<and> walk_frame b' b''"
proof -
  note fit = snapshot_fits [OF inv fr]
  have "udm_wf (st_len (wk_symbol_tables b' ! bu_current_scope b')) (map df_symbol (wk_definitions b' ! bu_current_scope b'))
      (map us_symbol (wk_uses b' ! bu_current_scope b')) (udm_restore (udm_snapshot (wk_use_def_maps b ! bu_current_scope b))
      (wk_use_def_maps b' ! bu_current_scope b'))"
    by (rule udm_restore_wf [OF current_wf [OF inv'] fit])
  from modify_current_map_total [of U b' "udm_restore (udm_snapshot (wk_use_def_maps b ! bu_current_scope b))", OF inv' this] fit(2) show ?thesis by (auto simp: udm_restore_def)
qed

lemma merge_total:
  assumes inv: "scan_inv U b" and inv': "scan_inv U b'" and fr: "walk_frame b b'"
  shows "\<exists>b''. modify_current_map (udm_merge (udm_snapshot (wk_use_def_maps b ! bu_current_scope b))) b' = Some b'' \<and>
    scan_inv U b'' \<and> walk_frame b' b''"
proof -
  note fit = snapshot_fits [OF inv fr]
  have "udm_wf (st_len (wk_symbol_tables b' ! bu_current_scope b')) (map df_symbol (wk_definitions b' ! bu_current_scope b'))
      (map us_symbol (wk_uses b' ! bu_current_scope b')) (udm_merge (udm_snapshot (wk_use_def_maps b ! bu_current_scope b))
      (wk_use_def_maps b' ! bu_current_scope b'))"
    by (rule udm_merge_wf [OF current_wf [OF inv'] fit(1)])
  from modify_current_map_total [of U b' "udm_merge (udm_snapshot (wk_use_def_maps b ! bu_current_scope b))", OF inv' this] show ?thesis by (auto simp: udm_merge_def)
qed

lemma walks_branch [total_intros]:
  assumes c: "\<And>e. consequence = Some e \<Longrightarrow> walks U (rec e)" and a: "\<And>e. alternative = Some e \<Longrightarrow> walks U (rec e)"
  shows "walks U (walk_branch rec consequence alternative)"
proof (rule keepsI)
  fix b assume inv: "scan_inv U b"
  have C: "walks U (opt_step rec consequence)" by (rule walks_opt_step [OF c])
  have A: "walks U (opt_step rec alternative)" by (rule walks_opt_step [OF a])
  obtain b1 where b1: "opt_step rec consequence b = Some b1" "scan_inv U b1" "walk_frame b b1" by (rule keepsE [OF C inv])
  obtain b2 where b2: "modify_current_map (udm_restore (udm_snapshot (wk_use_def_maps b ! bu_current_scope b))) b1 = Some b2"
    "scan_inv U b2" "walk_frame b1 b2" using restore_total [OF inv b1(2,3)] by blast
  obtain b3 where b3: "opt_step rec alternative b2 = Some b3" "scan_inv U b3" "walk_frame b2 b3" by (rule keepsE [OF A b2(2)])
  obtain b4 where b4: "modify_current_map (udm_merge (udm_snapshot (wk_use_def_maps b1 ! bu_current_scope b1))) b3 = Some b4"
    "scan_inv U b4" "walk_frame b3 b4" using merge_total [OF b1(2) b3(2) walk_frame_trans [OF b2(3) b3(3)]] by blast
  have "walk_branch rec consequence alternative b = Some b4"
    using b1(1) b2(1) b3(1) b4(1) scan_invD [OF inv] scan_invD [OF b1(2)] by (simp add: walk_branch_def current_map_total)
  moreover have "walk_frame b b4"
    by (rule walk_frame_trans [OF walk_frame_trans [OF b1(3) b2(3)] walk_frame_trans [OF b3(3) b4(3)]])
  ultimately show "\<exists>b'. walk_branch rec consequence alternative b = Some b' \<and> scan_inv U b' \<and> walk_frame b b'"
    using b4(2) by blast
qed

lemma finish_loop_total: "walks U (finish_loop pre first_use)"
proof (rule keepsI)
  fix b assume inv: "scan_inv U b"
  note a = scan_invD [OF inv]
  let ?s = "bu_current_scope b"
  obtain m' where m': "udm_finish_loop_defs pre first_use (map us_symbol (wk_uses b ! ?s)) (wk_use_def_maps b ! ?s) = Some m'"
    "udm_wf (st_len (wk_symbol_tables b ! ?s)) (map df_symbol (wk_definitions b ! ?s)) (map us_symbol (wk_uses b ! ?s)) m'"
    "m' = (wk_use_def_maps b ! ?s)\<lparr>ub_bindings_by_use := ub_bindings_by_use m'\<rparr>"
    by (rule udm_finish_loop_defs_wf [OF current_wf [OF inv]])
  have "length (ub_symbol_states (wk_use_def_maps b ! ?s)) \<le> length (ub_symbol_states m')"
    "ub_enclosing_snapshots m' = ub_enclosing_snapshots (wk_use_def_maps b ! ?s)"
    "ub_lazy_watchers m' = ub_lazy_watchers (wk_use_def_maps b ! ?s)"
    by (subst m'(3), simp)+
  with m'(1,2) modify_current_map_total [OF inv, of "\<lambda>_. m'"] arenas_okD(2,6) [OF a]
  show "\<exists>b'. finish_loop pre first_use b = Some b' \<and> scan_inv U b' \<and> walk_frame b b'"
    by (auto simp: finish_loop_def current_map_total [OF a])
qed

lemma walks_loop_body [total_intros]:
  assumes "\<And>e. body = Some e \<Longrightarrow> walks U (rec e)"
  shows "walks U (walk_loop_body rec body may_skip)"
proof (rule keepsI)
  fix b assume inv: "scan_inv U b"
  note a = scan_invD [OF inv]
  let ?pre = "udm_snapshot (wk_use_def_maps b ! bu_current_scope b)"
  have step: "walks U (\<lambda>b. do { us \<leftarrow> iv_get (wk_uses b) (bu_current_scope b); b \<leftarrow> rec e b; finish_loop ?pre (iv_next_id us) b })"
    if "body = Some e" for e
  proof (rule keepsI)
    fix b1 assume inv1: "scan_inv U b1"
    have n: "walks U (\<lambda>b. do { b \<leftarrow> rec e b; finish_loop ?pre (iv_next_id (wk_uses b1 ! bu_current_scope b1)) b })"
      by (intro walks_bind assms [OF that] finish_loop_total)
    obtain b2 where "(do { b \<leftarrow> rec e b1; finish_loop ?pre (iv_next_id (wk_uses b1 ! bu_current_scope b1)) b }) = Some b2"
      "scan_inv U b2" "walk_frame b1 b2" by (rule keepsE [OF n inv1])
    with arenas_okD(2,6) [OF scan_invD [OF inv1]]
    show "\<exists>b'. (do { us \<leftarrow> iv_get (wk_uses b1) (bu_current_scope b1); b \<leftarrow> rec e b1; finish_loop ?pre (iv_next_id us) b }) = Some b' \<and>
      scan_inv U b' \<and> walk_frame b1 b'" by simp
  qed
  have loop: "walks U (opt_step (\<lambda>e b. do { us \<leftarrow> iv_get (wk_uses b) (bu_current_scope b);
      b \<leftarrow> rec e b; finish_loop ?pre (iv_next_id us) b }) body)"
    by (rule walks_opt_step [OF step])
  obtain b1 where b1: "opt_step (\<lambda>e b. do { us \<leftarrow> iv_get (wk_uses b) (bu_current_scope b);
      b \<leftarrow> rec e b; finish_loop ?pre (iv_next_id us) b }) body b = Some b1" "scan_inv U b1" "walk_frame b b1"
    by (rule keepsE [OF loop inv])
  obtain b2 where b2: "modify_current_map (udm_merge ?pre) b1 = Some b2" "scan_inv U b2" "walk_frame b1 b2"
    using merge_total [OF inv b1(2,3)] by blast
  have "walk_loop_body rec body may_skip b = Some (if may_skip then b2 else b1)"
    using b1(1) b2(1) by (simp add: walk_loop_body_def current_map_total [OF a])
  with b1(2,3) b2(2) walk_frame_trans [OF b1(3) b2(3)]
  show "\<exists>b'. walk_loop_body rec body may_skip b = Some b' \<and> scan_inv U b' \<and> walk_frame b b'" by simp
qed

section \<open>Scopes\<close>

lemma push_scope_inv:
  fixes kind :: scope_kind and rng :: text_range
  assumes inv: "scan_inv U b"
  defines "b1 \<equiv> snd (push_scope kind rng b)"
  shows "scan_inv U b1" and "push_scope kind rng b = (length (bu_scopes b), b1)"
    and "bu_current_scope b1 = length (bu_scopes b)" and "length (bu_scopes b1) = Suc (length (bu_scopes b))"
    and "sc_parent (bu_scopes b1 ! length (bu_scopes b)) = Some (bu_current_scope b)"
    and "\<And>i. i < length (bu_scopes b) \<Longrightarrow> bu_scopes b1 ! i = bu_scopes b ! i \<and> slot_le b b1 i"
    and "sn_deferred_bodies b1 = sn_deferred_bodies b" and "sn_attached_so_far b1 = sn_attached_so_far b"
proof -
  note a = scan_invD [OF inv]
  note len = arenas_okD(4-8) [OF a]
  let ?n = "length (bu_scopes b)"
  have b1: "b1 = b\<lparr>bu_scopes := bu_scopes b @ [new_scope (bu_current_scope b) kind rng ?n], bu_current_scope := ?n,
      wk_symbol_tables := wk_symbol_tables b @ [st_new], wk_definitions := wk_definitions b @ [[]],
      wk_uses := wk_uses b @ [[]], wk_use_def_maps := wk_use_def_maps b @ [udm_new],
      sn_bound_anywhere := sn_bound_anywhere b @ [Map.empty]\<rparr>"
    by (simp add: b1_def push_scope_def Let_def iv_push_def iv_next_id_def)
  show "push_scope kind rng b = (?n, b1)" by (simp add: b1_def push_scope_def Let_def iv_push_def iv_next_id_def)
  show "bu_current_scope b1 = ?n" "length (bu_scopes b1) = Suc ?n" by (simp_all add: b1)
  show "sc_parent (bu_scopes b1 ! ?n) = Some (bu_current_scope b)" by (simp add: b1 new_scope_def)
  show "sn_deferred_bodies b1 = sn_deferred_bodies b" "sn_attached_so_far b1 = sn_attached_so_far b" by (simp_all add: b1)
  show "bu_scopes b1 ! i = bu_scopes b ! i \<and> slot_le b b1 i" if "i < ?n" for i
    using that len by (simp add: b1 slot_le_def nth_append)
  have old: "scope_ok (wk_symbol_tables b1 ! i) (wk_definitions b1 ! i) (wk_uses b1 ! i) (wk_use_def_maps b1 ! i)" if "i < ?n" for i
    using that len arenas_okD(9) [OF a that] by (simp add: b1 nth_append)
  have new: "scope_ok (wk_symbol_tables b1 ! ?n) (wk_definitions b1 ! ?n) (wk_uses b1 ! ?n) (wk_use_def_maps b1 ! ?n)"
    using len by (simp add: b1 nth_append scope_ok_def st_len_def st_new_def [unfolded st_len_def])
      (simp add: st_wf_new [unfolded st_new_def])
  have same: "length (bu_scopes b1) = Suc ?n" by (simp add: b1)
  have "snapshots_ok b1"
  proof (rule snapshots_ok_grow [OF arenas_okD(10,3) [OF a]])
    show "slot_le b b1 i" if "i < ?n" for i using that len by (simp add: b1 slot_le_def nth_append)
    show "chain (bu_scopes b1) i = chain (bu_scopes b) i" if "i < ?n" for i
      using arena_open_push(3) [OF arenas_okD(1) [OF a] that] by (simp add: b1)
  qed (simp_all add: b1)
  moreover have "arena_open (bu_scopes b1) (bu_current_scope b1)"
    using arena_open_push(1) [OF arenas_okD(1) [OF a]] by (simp add: b1)
  moreover have "\<forall>c\<in>set (wk_semantic_calls b1). ca_scope c < length (bu_scopes b1)"
    using arenas_okD(11) [OF a] by (auto simp: b1 less_Suc_eq)
  moreover have "\<forall>i<length (bu_scopes b1). scope_ok (wk_symbol_tables b1 ! i) (wk_definitions b1 ! i) (wk_uses b1 ! i)
      (wk_use_def_maps b1 ! i)" using old new by (auto simp: same less_Suc_eq)
  ultimately have "arenas_ok b1" using len by (simp add: arenas_ok_def b1)
  then show "scan_inv U b1" using inv by (simp add: scan_inv_def b1)
qed

lemma push_scope_fst: "fst (push_scope kind rng b) = length (bu_scopes b)"
  by (simp add: push_scope_def Let_def iv_push_def iv_next_id_def)

lemma pop_scope_total:
  assumes inv: "scan_inv U b" and inv2: "scan_inv U b2" and fr: "walk_frame (snd (push_scope kind rng b)) b2"
  shows "\<exists>b'. pop_scope (length (bu_scopes b)) b2 = Some b' \<and> scan_inv U b' \<and> walk_frame b b'"
proof -
  let ?b1 = "snd (push_scope kind rng b)" and ?n = "length (bu_scopes b)"
  note b1 = push_scope_inv [where kind = kind and rng = rng, OF inv]
  note a2 = scan_invD [OF inv2]
  have cur: "bu_current_scope b2 = ?n" using walk_frameD(1) [OF fr] b1(3) by simp
  have n: "?n < length (bu_scopes b2)" using walk_frameD(2) [OF fr] b1(4) by simp
  have par: "sc_parent (bu_scopes b2 ! ?n) = Some (bu_current_scope b)"
    using walk_frameD(3) [OF fr, of ?n] b1(4,5) by simp
  let ?scopes = "(bu_scopes b2)[?n := (bu_scopes b2 ! ?n)\<lparr>sc_desc_end := length (bu_scopes b2)\<rparr>]"
  let ?b' = "b2\<lparr>bu_scopes := ?scopes, bu_current_scope := bu_current_scope b\<rparr>"
  have pop: "pop_scope ?n b2 = Some ?b'" using n par by (simp add: pop_scope_def iv_next_id_def)
  have "arena_open ?scopes (bu_current_scope b)"
    by (rule arena_open_pop(1)) (use arenas_okD(1) [OF a2] cur par in simp_all)
  moreover have "snapshots_ok ?b'"
  proof (rule snapshots_ok_grow [OF arenas_okD(10,3) [OF a2]])
    show "chain (bu_scopes ?b') i = chain (bu_scopes b2) i" if "i < length (bu_scopes b2)" for i
      using arena_open_pop(2) [OF arenas_okD(1) [OF a2], of "bu_current_scope b" i] that cur par by simp
  qed (simp_all add: slot_le_def)
  ultimately have "arenas_ok ?b'" using a2 by (simp add: arenas_ok_def)
  then have "scan_inv U ?b'" using inv2 by (simp add: scan_inv_def)
  moreover have "walk_frame b ?b'"
  proof -
    have "sc_parent (?scopes ! i) = sc_parent (bu_scopes b ! i) \<and> sc_kind (?scopes ! i) = sc_kind (bu_scopes b ! i) \<and>
        sc_range (?scopes ! i) = sc_range (bu_scopes b ! i) \<and> slot_le b ?b' i" if i: "i < ?n" for i
    proof -
      have "slot_le b b2 i" using slot_le_trans [of b ?b1 i b2] b1(6) [OF i] walk_frameD(4) [OF fr, of i] b1(4) i by simp
      moreover have "sc_parent (bu_scopes b2 ! i) = sc_parent (bu_scopes b ! i) \<and>
          sc_kind (bu_scopes b2 ! i) = sc_kind (bu_scopes b ! i) \<and> sc_range (bu_scopes b2 ! i) = sc_range (bu_scopes b ! i)"
        using fr b1(4,6) i unfolding walk_frame_def by (metis less_SucI)
      ultimately show ?thesis using i by (simp add: slot_le_def)
    qed
    then show ?thesis using n by (simp add: walk_frame_def)
  qed
  ultimately show ?thesis using pop by blast
qed

text \<open>A body walked in a scope of its own.\<close>

lemma scoped_total:
  assumes inv: "scan_inv U b" and m: "walks U m"
  shows "\<exists>b'. (do { c \<leftarrow> m (snd (push_scope kind rng b)); pop_scope (length (bu_scopes b)) c }) = Some b' \<and>
    scan_inv U b' \<and> walk_frame b b'"
proof -
  obtain c where c: "m (snd (push_scope kind rng b)) = Some c" "scan_inv U c" "walk_frame (snd (push_scope kind rng b)) c"
    by (rule keepsE [OF m push_scope_inv(1) [OF inv]])
  from pop_scope_total [OF inv c(2,3)] c(1) show ?thesis by simp
qed

lemma walks_truncate [total_intros]:
  "walks U (\<lambda>b. Some (b\<lparr>sn_attached_so_far := fa_truncate n (sn_attached_so_far b)\<rparr>))"
proof (rule keepsI)
  fix b assume inv: "scan_inv U b"
  let ?b = "b\<lparr>sn_attached_so_far := fa_truncate n (sn_attached_so_far b)\<rparr>"
  have "scan_inv U ?b" using inv arenas_ok_cong [of ?b b] by (simp add: scan_inv_def fa_truncate_def)
  moreover have "walk_frame b ?b" by (simp add: walk_frame_def slot_le_def)
  ultimately show "\<exists>b'. Some ?b = Some b' \<and> scan_inv U b' \<and> walk_frame b b'" by blast
qed

section \<open>Functions and parameters\<close>

definition rec_walks :: "r_expr set \<Rightarrow> nat \<Rightarrow> walk_rec \<Rightarrow> bool" where
  "rec_walks U z rec \<longleftrightarrow> (\<forall>e\<in>U. size e < z \<longrightarrow> walks U (rec e)) \<and>
     (0 < z \<longrightarrow> (\<forall>r t. walks U (rec (RIdentifier r t))))"

lemma rec_walksD: "rec_walks U z rec \<Longrightarrow> e \<in> U \<Longrightarrow> size e < z \<Longrightarrow> walks U (rec e)"
  by (simp add: rec_walks_def)

lemma rec_walks_hole:
  assumes U: "nodes_ok U" "v \<in> U" and rec: "rec_walks U z rec" and v: "size v < z" and h: "hole_of v h"
  shows "walks U (rec h)"
proof (cases "\<exists>r t. h = RIdentifier r t")
  case False
  with h have "h \<in> set (subterms v)" by (simp add: hole_of_def)
  with U v nodes_ok_subterms [OF U this] size_subterms [OF this] show ?thesis by (intro rec_walksD [OF rec]) auto
qed (use rec v in \<open>auto simp: rec_walks_def\<close>)

lemma walks_parameters:
  assumes "\<And>p x. p \<in> set params \<Longrightarrow> par_default p = Some x \<Longrightarrow> walks U (rec x)"
  shows "walks U (walk_parameters rec params)"
proof -
  have "walks U (walk_parameter rec p)" if "p \<in> set params" for p
  proof -
    have "walks U (\<lambda>b. do { b \<leftarrow> opt_step (\<lambda>name b. add_definition (parameter_text name) (flags_union IS_BOUND IS_PARAMETER)
            (Parameter p) (parameter_range name) b) (par_name p) b; opt_step rec (par_default p) b })"
      by (intro walks_bind walks_opt_step walks_add_definition assms [OF that])
    then show ?thesis by (rule keeps_ext) (simp add: walk_parameter_def)
  qed
  then have "walks U (foldM (walk_parameter rec) params)" by (rule walks_foldM)
  then show ?thesis by (rule keeps_ext) (simp add: walk_parameters_def)
qed

text \<open>A deferred unit is scanned and its queue drained before it is walked.\<close>

lemma unit_scan_total:
  assumes U: "nodes_ok U" and scan: "scans U z m" and z: "z < fuel" and inv: "scan_inv U b"
  obtains b' where "(do { c \<leftarrow> m b; scan_deferred_bodies fuel (scan_expression R fuel) (length (sn_deferred_bodies b)) c }) = Some b'"
    and "scan_inv U b'" and "walk_frame b b'"
proof -
  obtain c where c: "m b = Some c" "scan_inv U c" "scan_frame z b c" by (rule keepsE [OF scan inv])
  have rec: "scans U (size e) (scan_expression R fuel e)" if "e \<in> U" "size e < z" for e
    using scans_expression [OF U that(1)] that(2) z by simp
  obtain b' where b': "scan_deferred_bodies fuel (scan_expression R fuel) (length (sn_deferred_bodies b)) c = Some b'"
    "scan_inv U b'" "scan_frame z b b'" by (rule scans_drained [OF inv rec c(3,2) z]) blast+
  from that [of b'] c(1) b' scan_frame_walk show ?thesis by simp
qed

lemma walks_function:
  assumes U: "nodes_ok U" "e \<in> U" and e: "e = RFunctionDefinition rng params body"
    and rec: "rec_walks U (size e) rec" and fuel: "size e < fuel"
  shows "walks U (walk_function R fuel rec rng params body)"
proof (rule keepsI)
  fix b assume inv: "scan_inv U b"
  let ?b1 = "snd (push_scope Function rng b)" and ?att = "fa_len (sn_attached_so_far b)"
  note b1 = push_scope_inv [where kind = Function and rng = rng, OF inv]
  have child: "x \<in> U \<and> size x < size e" if "x \<in> set (children e)" for x
    using nodes_ok_children [OF U that] size_children [OF that] by simp
  have scan: "scans U (size e) (scan_expression R fuel x)" and walk: "walks U (rec x)" if "x \<in> set (children e)" for x
    using child [OF that] scans_mono [OF scans_expression [OF U(1)], of x fuel "size e"] fuel rec_walksD [OF rec] by simp_all
  have params: "x \<in> set (children e)" if "params = Some ps" "p \<in> set ps" "par_default p = Some x" for ps p x
    using that e by (auto intro!: bexI [of _ p])
  have body: "x \<in> set (children e)" if "body = Some x" for x using that e by simp
  have "scans U (size e) (\<lambda>b. do { b \<leftarrow> begin_scan b; b \<leftarrow> opt_step (scan_parameter_defaults (scan_expression R fuel)) params b;
      opt_step (scan_expression R fuel) body b })"
    by (intro scans_bind scans_begin scans_opt_step scans_parameter_defaults scan)
      (erule (2) params, erule body)
  from unit_scan_total [OF U(1) this fuel b1(1), of R] obtain b2 where
    b2: "(do { c \<leftarrow> (do { b \<leftarrow> begin_scan ?b1; b \<leftarrow> opt_step (scan_parameter_defaults (scan_expression R fuel)) params b;
      opt_step (scan_expression R fuel) body b });
      scan_deferred_bodies fuel (scan_expression R fuel) (length (sn_deferred_bodies ?b1)) c }) = Some b2"
    "scan_inv U b2" "walk_frame ?b1 b2" by blast
  have "walks U (\<lambda>b. do { b \<leftarrow> opt_step (walk_parameters rec) params b; b \<leftarrow> opt_step rec body b;
      Some (b\<lparr>sn_attached_so_far := fa_truncate ?att (sn_attached_so_far b)\<rparr>) })"
    by (intro walks_bind walks_opt_step walks_parameters walks_truncate walk)
      (erule (2) params, erule body)
  from keepsE [OF this b2(2)] obtain b3 where
    b3: "(do { b \<leftarrow> opt_step (walk_parameters rec) params b2; b \<leftarrow> opt_step rec body b;
      Some (b\<lparr>sn_attached_so_far := fa_truncate ?att (sn_attached_so_far b)\<rparr>) }) = Some b3"
    "scan_inv U b3" "walk_frame b2 b3" by blast
  from pop_scope_total [OF inv b3(2) walk_frame_trans [OF b2(3) b3(3)]] obtain b4 where
    b4: "pop_scope (length (bu_scopes b)) b3 = Some b4" "scan_inv U b4" "walk_frame b b4" by blast
  have "walk_function R fuel rec rng params body b = Some b4"
    using b1(7,8) b2(1) b3(1) b4(1)
    by (auto simp: walk_function_def Let_def split_beta push_scope_fst split: Option.bind_splits)
  with b4 show "\<exists>b'. walk_function R fuel rec rng params body b = Some b' \<and> scan_inv U b' \<and> walk_frame b b'" by blast
qed

section \<open>Calls\<close>

lemma push_semantic_call_inv:
  assumes inv: "scan_inv U b"
  shows "scan_inv U (push_semantic_call kind rng b)" and "walk_frame b (push_semantic_call kind rng b)"
proof -
  have "arenas_ok (push_semantic_call kind rng b)"
    using scan_invD [OF inv] arenas_okD(2) [OF scan_invD [OF inv]]
    by (simp add: push_semantic_call_def arenas_ok_def snapshots_ok_def snap_named_def)
  then show "scan_inv U (push_semantic_call kind rng b)" using inv by (simp add: scan_inv_def push_semantic_call_def)
  show "walk_frame b (push_semantic_call kind rng b)" by (simp add: push_semantic_call_def walk_frame_def slot_le_def)
qed

lemma walks_pure:
  assumes "\<And>b. scan_inv U b \<Longrightarrow> scan_inv U (f b) \<and> walk_frame b (f b)"
  shows "walks U (\<lambda>b. Some (f b))"
  using assms by (intro keepsI) blast

lemma record_effects_callee_core [simp]: "core (record_effects_callee call rng b) = core b"
  by (simp add: record_effects_callee_def split: option.splits)

lemma walks_effects_callee: "walks U (\<lambda>b. Some (record_effects_callee call rng b))"
proof (rule walks_pure)
  fix b assume inv: "scan_inv U b"
  have "core (record_effects_callee call rng b) = core b" by simp
  from core_walk [OF this inv] show "scan_inv U (record_effects_callee call rng b) \<and> walk_frame b (record_effects_callee call rng b)"
    by blast
qed

lemma walks_attach_call: "walks U (\<lambda>b. Some (walk_attach_call call package b))"
proof (rule walks_pure)
  fix b assume inv: "scan_inv U b"
  let ?b = "push_semantic_call (Attach package (attach_region_at b (tr_start (trimmed_range call)) package)) (trimmed_range call) b"
  note b = push_semantic_call_inv [OF inv, of "Attach package (attach_region_at b (tr_start (trimmed_range call)) package)" "trimmed_range call"]
  have "core (record_effects_callee call (trimmed_range call) ?b) = core ?b" by simp
  from core_walk [OF this b(1)] b(2) show "scan_inv U (walk_attach_call call package b) \<and> walk_frame b (walk_attach_call call package b)"
    using walk_frame_trans [OF b(2)] by (simp add: walk_attach_call_def Let_def)
qed

lemma file_bound_names_total:
  assumes a: "arenas_ok b"
  shows "\<exists>names. file_bound_names b = Some names"
proof -
  have pos: "0 < length (bu_scopes b)" using arenas_okD(2) [OF a] by linarith
  note ok = arenas_okD(9) [OF a pos]
  let ?t = "wk_symbol_tables b ! 0" and ?m = "wk_use_def_maps b ! 0"
  have "length (ub_symbol_states ?m) \<le> st_len ?t" using scope_ok_udm [OF ok] by (simp add: udm_wf_def)
  then have "\<forall>i\<in>set (udm_bound_symbol_ids ?m). st_symbol ?t i \<noteq> None"
    by (auto simp: udm_bound_symbol_ids_def st_symbol_def st_len_def iv_iter_def iv_get_def dest: set_zip_leftD)
  moreover have "\<exists>ys. those (map (\<lambda>i. map_option sy_name (f i)) is) = Some ys" if "\<forall>i\<in>set is. f i \<noteq> None"
    for f :: "nat \<Rightarrow> symbol option" and "is" using that by (induction "is") auto
  ultimately show ?thesis
    using pos arenas_okD(4,7) [OF a] by (simp add: file_bound_names_def)
qed

lemma walks_timeline: "walks U (record_timeline offset)"
proof (rule keepsI)
  fix b assume inv: "scan_inv U b"
  note a = scan_invD [OF inv]
  obtain lz names where lz: "builder_enclosing_lazy_scope b (bu_current_scope b) = Some lz" "file_bound_names b = Some names"
    using enclosing_lazy_total [OF a arenas_okD(2) [OF a]] file_bound_names_total [OF a] by blast
  let ?b = "b\<lparr>wk_bindings_at_sources := record_source_call offset names (wk_bindings_at_sources b)\<rparr>"
  have "scan_inv U ?b" using inv arenas_ok_cong [of ?b b] by (simp add: scan_inv_def)
  moreover have "walk_frame b ?b" by (simp add: walk_frame_def slot_le_def)
  ultimately show "\<exists>b'. record_timeline offset b = Some b' \<and> scan_inv U b' \<and> walk_frame b b'"
    using lz inv walk_frame_refl by (simp add: record_timeline_def)
qed

lemma walks_attach_packages:
  "walks U (\<lambda>b. Some (foldl (\<lambda>b pkg. push_semantic_call (Attach pkg (attach_region_at b off pkg)) rng b) b packages))"
proof (rule walks_pure)
  fix b assume "scan_inv U b"
  then show "scan_inv U (foldl (\<lambda>b pkg. push_semantic_call (Attach pkg (attach_region_at b off pkg)) rng b) b packages) \<and>
    walk_frame b (foldl (\<lambda>b pkg. push_semantic_call (Attach pkg (attach_region_at b off pkg)) rng b) b packages)"
  proof (induction packages arbitrary: b)
    case (Cons pkg packages)
    note b = push_semantic_call_inv [OF Cons.prems, of "Attach pkg (attach_region_at b off pkg)" rng]
    from Cons.IH [OF b(1)] walk_frame_trans [OF b(2)] show ?case by simp
  qed (simp add: walk_frame_refl)
qed

lemma walks_sourced_file: "walks U (walk_sourced_file call sourced)"
proof -
  let ?rng = "trimmed_range call"
  have push: "walks U (\<lambda>b. Some (push_semantic_call (Source (sf_path sourced) (map_option sr_url (sf_resolution sourced))) ?rng b))"
    by (intro walks_pure conjI push_semantic_call_inv)
  show ?thesis
  proof (cases "sf_resolution sourced")
    case None
    with push show ?thesis by (elim keeps_ext) (simp add: walk_sourced_file_def Let_def)
  next
    case (Some r)
    have "walks U (\<lambda>b. do { b \<leftarrow> Some (push_semantic_call (Source (sf_path sourced) (map_option sr_url (sf_resolution sourced))) ?rng b);
        b \<leftarrow> foldM (\<lambda>name b. add_definition name IS_BOUND (Import call (sr_url r) name) (tr_empty (tr_start ?rng)) b) (sr_names r) b;
        Some (foldl (\<lambda>b pkg. push_semantic_call (Attach pkg (attach_region_at b (tr_start ?rng) pkg)) ?rng b) b (sr_packages r)) })"
      by (intro walks_bind push walks_foldM walks_add_definition walks_attach_packages)
    then show ?thesis by (rule keeps_ext) (simp add: walk_sourced_file_def Let_def Some)
  qed
qed

text \<open>A step that depends on the recorded resolution of a call.\<close>

lemma walks_resolution:
  assumes "\<And>r. walks U (k r)"
  shows "walks U (\<lambda>b. k (g (sn_call_resolutions b)) b)"
  using assms unfolding keeps_def by blast

lemma walks_source_call: "walks U (walk_source_call call)"
proof -
  let ?rng = "trimmed_range call"
  let ?k = "\<lambda>r. case r of None \<Rightarrow> Some | Some r \<Rightarrow> (\<lambda>b. do { b \<leftarrow> Some (record_effects_callee call ?rng b);
      b \<leftarrow> record_timeline (tr_start ?rng) b; foldM (walk_sourced_file call) (cl_source r) b })"
  have "walks U (\<lambda>b. do { b \<leftarrow> Some (record_effects_callee call ?rng b); b \<leftarrow> record_timeline (tr_start ?rng) b;
      foldM (walk_sourced_file call) files b })" for files
    by (intro walks_bind walks_effects_callee walks_timeline walks_foldM walks_sourced_file)
  then have "walks U (?k r)" for r using walks_return by (cases r) simp_all
  from walks_resolution [of U ?k, OF this, of "\<lambda>rs. rs ?rng"] show ?thesis
    by (rule keeps_ext) (simp add: walk_source_call_def split: option.splits)
qed

lemma walks_assign_definitions: "walks U (add_assign_definitions node bindings)"
proof -
  have "walks U (add_assign_definition node b)" for b
    by (rule keeps_ext [OF walks_add_definition]) (simp add: add_assign_definition_def)
  then have "walks U (foldM (add_assign_definition node) bindings)" by (intro walks_foldM) blast
  then show ?thesis by (rule keeps_ext) (simp add: add_assign_definitions_def)
qed

lemma walks_assign_call: "walks U (walk_assign_call call)"
proof -
  let ?k = "\<lambda>r. case r of None \<Rightarrow> Some | Some r \<Rightarrow> add_assign_definitions call (cl_assign r)"
  have "walks U (?k r)" for r using walks_return walks_assign_definitions by (cases r) simp_all
  from walks_resolution [of U ?k, OF this, of "\<lambda>rs. rs (trimmed_range call)"] show ?thesis
    by (rule keeps_ext) (simp add: walk_assign_call_def split: option.splits)
qed

lemma walks_assign_operator: "walks U (walk_assign_operator bin)"
proof -
  let ?k = "\<lambda>r. case r of None \<Rightarrow> Some | Some r \<Rightarrow> if cl_assign r \<noteq> [] then add_assign_definitions bin (cl_assign r) else Some"
  have "walks U (?k r)" for r using walks_return walks_assign_definitions by (cases r) simp_all
  from walks_resolution [of U ?k, OF this, of "\<lambda>rs. rs (trimmed_range bin)"] show ?thesis
    by (rule keeps_ext) (simp add: walk_assign_operator_def split: option.splits)
qed

lemma walks_semantic_call: "walks U (walk_semantic_call call)"
proof -
  let ?at = "\<lambda>rs. case rs (trimmed_range call) of Some r \<Rightarrow> r | None \<Rightarrow> cl_default"
  have 1: "walks U (\<lambda>b. Some (case cl_attach (resolution_at b call) of Some p \<Rightarrow> walk_attach_call call p b | None \<Rightarrow> b))"
  proof -
    let ?k = "\<lambda>r b. Some (case cl_attach r of Some p \<Rightarrow> walk_attach_call call p b | None \<Rightarrow> b)"
    have "walks U (?k r)" for r
      using walks_attach_call walks_return by (cases "cl_attach r") simp_all
    from walks_resolution [of U ?k, OF this, of ?at] show ?thesis by (rule keeps_ext) (simp add: resolution_at_def)
  qed
  have 2: "walks U (\<lambda>b. if cl_source (resolution_at b call) \<noteq> [] then walk_source_call call b else Some b)"
  proof -
    let ?k = "\<lambda>r b. if cl_source r \<noteq> [] then walk_source_call call b else Some b"
    have "walks U (?k r)" for r
      using walks_source_call walks_return by (cases "cl_source r = []") simp_all
    from walks_resolution [of U ?k, OF this, of ?at] show ?thesis by (rule keeps_ext) (simp add: resolution_at_def)
  qed
  have 3: "walks U (\<lambda>b. if cl_assign (resolution_at b call) \<noteq> [] then walk_assign_call call b else Some b)"
  proof -
    let ?k = "\<lambda>r b. if cl_assign r \<noteq> [] then walk_assign_call call b else Some b"
    have "walks U (?k r)" for r
      using walks_assign_call walks_return by (cases "cl_assign r = []") simp_all
    from walks_resolution [of U ?k, OF this, of ?at] show ?thesis by (rule keeps_ext) (simp add: resolution_at_def)
  qed
  from walks_bind [OF 1 walks_bind [OF 2 3]] show ?thesis
    by (rule keeps_ext) (simp add: walk_semantic_call_def Let_def)
qed

section \<open>Non-standard evaluation\<close>

lemma begin_and_scan:
  assumes "nodes_ok U" and "v \<in> U" and "size v < fuel"
  shows "scans U (size v) (\<lambda>b. do { b \<leftarrow> begin_scan b; scan_expression R fuel v b })"
  by (intro scans_bind scans_begin scans_expression [OF assms])

lemma install_body_scan_total:
  assumes U: "nodes_ok U" "v \<in> U" "size v < fuel" and inv: "scan_inv U b" and s: "s < length (bu_scopes b)"
  obtains b' where "install_body_scan R fuel s v b = Some b'" and "scan_inv U b'" and "walk_frame b b'"
proof -
  let ?b1 = "b\<lparr>sn_body_scans := (sn_body_scans b)(trimmed_range v := None)\<rparr>"
  have "core ?b1 = core b" by simp
  note b1 = core_walk [OF this inv]
  have s1: "s < length (sn_bound_anywhere ?b1)" using s arenas_okD(8) [OF scan_invD [OF inv]] by simp
  have scan: "walks U (\<lambda>b. do { b \<leftarrow> begin_scan b; scan_expression R fuel v b })"
    by (rule scans_walks [OF begin_and_scan [OF U]])
  obtain b2 where b2: "(do { b \<leftarrow> begin_scan ?b1; scan_expression R fuel v b }) = Some b2" "scan_inv U b2" "walk_frame ?b1 b2"
    by (rule keepsE [OF scan b1(1)])
  show ?thesis
  proof (cases "\<exists>bound. sn_body_scans b (trimmed_range v) = Some (BodyScanned bound)")
    case True
    then obtain bound where bound: "sn_body_scans b (trimmed_range v) = Some (BodyScanned bound)" by blast
    let ?b3 = "?b1\<lparr>sn_bound_anywhere := (sn_bound_anywhere ?b1)[s := bound]\<rparr>"
    have "core ?b3 = core b" by simp
    note b3 = core_walk [OF this inv]
    have "install_body_scan R fuel s v b = Some ?b3"
      using bound s1 by (simp add: install_body_scan_def Let_def)
    with that b3 show ?thesis by blast
  next
    case False
    then have "install_body_scan R fuel s v b = Some b2"
      using b2(1) by (auto simp: install_body_scan_def Let_def split: option.splits body_scan.splits)
    with that b2(2) walk_frame_trans [OF b1(2) b2(3)] show ?thesis by blast
  qed
qed

lemma walks_nested_eager:
  assumes U: "nodes_ok U" "v \<in> U" "size v < fuel" and rec: "walks U (rec v)"
  shows "walks U (walk_nse_argument R fuel rec Nested Eager v)"
proof (rule keepsI)
  fix b assume inv: "scan_inv U b"
  let ?b1 = "snd (push_scope (Nse Nested Eager) (trimmed_range v) b)" and ?n = "length (bu_scopes b)"
  note b1 = push_scope_inv [where kind = "Nse Nested Eager" and rng = "trimmed_range v", OF inv]
  have "?n < length (bu_scopes ?b1)" using b1(4) by simp
  then obtain b2 where b2: "install_body_scan R fuel ?n v ?b1 = Some b2" "scan_inv U b2" "walk_frame ?b1 b2"
    by (rule install_body_scan_total [OF U b1(1), of ?n R])
  obtain b3 where b3: "rec v b2 = Some b3" "scan_inv U b3" "walk_frame b2 b3" by (rule keepsE [OF rec b2(2)])
  from pop_scope_total [OF inv b3(2) walk_frame_trans [OF b2(3) b3(3)]] b2(1) b3(1)
  show "\<exists>b'. walk_nse_argument R fuel rec Nested Eager v b = Some b' \<and> scan_inv U b' \<and> walk_frame b b'"
    by (simp add: split_beta push_scope_fst)
qed

lemma walks_current_lazy:
  assumes rec: "walks U (rec v)"
  shows "walks U (walk_nse_argument R fuel rec Current Lazy v)"
proof (rule keepsI)
  fix b assume inv: "scan_inv U b"
  from scoped_total [OF inv rec, of "Nse Current Lazy" "trimmed_range v"]
  show "\<exists>b'. walk_nse_argument R fuel rec Current Lazy v b = Some b' \<and> scan_inv U b' \<and> walk_frame b b'"
    by (simp add: split_beta push_scope_fst)
qed

lemma walks_nested_lazy:
  assumes U: "nodes_ok U" "v \<in> U" "size v < fuel" and rec: "walks U (rec v)"
  shows "walks U (walk_nse_argument R fuel rec Nested Lazy v)"
proof (rule keepsI)
  fix b assume inv: "scan_inv U b"
  let ?b1 = "snd (push_scope (Nse Nested Lazy) (trimmed_range v) b)"
  note b1 = push_scope_inv [where kind = "Nse Nested Lazy" and rng = "trimmed_range v", OF inv]
  obtain c where c: "begin_scan ?b1 = Some c" "scan_inv U c" "scan_frame 0 ?b1 c" by (rule keepsE [OF scans_begin b1(1)])
  obtain b2 where b2: "(do { d \<leftarrow> scan_expression R fuel v c;
      scan_deferred_bodies fuel (scan_expression R fuel) (length (sn_deferred_bodies c)) d }) = Some b2"
    "scan_inv U b2" "walk_frame c b2" by (rule unit_scan_total [OF U(1) scans_expression [OF U] U(3) c(2)])
  have r: "walks U (\<lambda>b. do { b \<leftarrow> rec v b;
      Some (b\<lparr>sn_attached_so_far := fa_truncate (fa_len (sn_attached_so_far ?b1)) (sn_attached_so_far b)\<rparr>) })"
    by (intro walks_bind rec walks_truncate)
  obtain b3 where b3: "(do { b \<leftarrow> rec v b2;
      Some (b\<lparr>sn_attached_so_far := fa_truncate (fa_len (sn_attached_so_far ?b1)) (sn_attached_so_far b)\<rparr>) }) = Some b3"
    "scan_inv U b3" "walk_frame b2 b3" by (rule keepsE [OF r b2(2)])
  have "walk_frame ?b1 b3"
    by (rule walk_frame_trans [OF walk_frame_trans [OF scan_frame_walk [OF c(3)] b2(3)] b3(3)])
  from pop_scope_total [OF inv b3(2) this] obtain b4 where
    b4: "pop_scope (length (bu_scopes b)) b3 = Some b4" "scan_inv U b4" "walk_frame b b4" by blast
  have "walk_nse_argument R fuel rec Nested Lazy v b = Some b4"
    using c(1) b2(1) b3(1) b4(1) by (auto simp: split_beta push_scope_fst split: Option.bind_splits)
  with b4 show "\<exists>b'. walk_nse_argument R fuel rec Nested Lazy v b = Some b' \<and> scan_inv U b' \<and> walk_frame b b'" by blast
qed

lemma walks_nse_argument:
  assumes U: "nodes_ok U" "v \<in> U" "size v < fuel" and rec: "walks U (rec v)"
  shows "walks U (walk_nse_argument R fuel rec env timing v)"
proof -
  have "walks U (walk_nse_argument R fuel rec Current Eager v)" by (rule keeps_ext [OF rec]) simp
  then show ?thesis
    using walks_nested_eager [of U v fuel rec R, OF assms] walks_current_lazy [of U rec v R fuel, OF rec]
      walks_nested_lazy [of U v fuel rec R, OF assms]
    by (cases env; cases timing) blast+
qed

lemma walks_effect_argument:
  assumes U: "nodes_ok U" and rec: "rec_walks U z rec" and z: "z \<le> fuel" and effs: "effects_for items effs"
    and ia: "(i, a) \<in> set (enumerate 0 items)" and v: "\<And>v. arg_value a = Some v \<Longrightarrow> v \<in> U \<and> size v < z"
  shows "walks U (walk_effect_argument R fuel rec effs (i, a))"
proof (cases "arg_value a")
  case None
  then show ?thesis by (intro keeps_ext [OF walks_return]) (simp add: walk_effect_argument_def)
next
  case (Some e)
  have i: "i < length items" "items ! i = a" using ia by (auto simp: in_set_enumerate_eq)
  then have get: "iv_get effs i = Some (effs ! i)" using effs by (simp add: effects_for_def)
  have e: "e \<in> U" "size e < z" using v [OF Some] by blast+
  have e': "size e < fuel" using e(2) z by simp
  note re = rec_walksD [OF rec e]
  note val = \<open>arg_value a = Some e\<close>
  show ?thesis
  proof (cases "effs ! i")
    case None
    show ?thesis by (rule keeps_ext [OF re]) (simp add: walk_effect_argument_def get val None)
  next
    case eff: (Some eff)
    show ?thesis
    proof (cases eff)
      case (EvalQ env timing)
      show ?thesis by (rule keeps_ext [OF walks_nse_argument [of U e fuel rec R env timing, OF U e(1) e' re]])
        (simp add: walk_effect_argument_def get val eff EvalQ)
    next
      case (Quote holes)
      have "\<forall>h\<in>set holes. hole_of e h" using effs i eff Quote val unfolding effects_for_def by blast
      then have "walks U (foldM rec holes)" using rec_walks_hole [OF U e(1) rec e(2)] by (intro walks_foldM) blast
      then show ?thesis by (rule keeps_ext) (simp add: walk_effect_argument_def get val eff Quote)
    qed
  qed
qed

lemma walks_arguments:
  assumes "\<And>a v. a \<in> set items \<Longrightarrow> arg_value a = Some v \<Longrightarrow> walks U (rec v)"
  shows "walks U (walk_arguments rec items)"
proof -
  have "walks U (foldM (\<lambda>a. opt_step rec (arg_value a)) items)" by (intro walks_foldM walks_opt_step) (rule assms)
  then show ?thesis by (rule keeps_ext) (simp add: walk_arguments_def)
qed

text \<open>The walk of the arguments reads the effects the scan recorded for this very call.\<close>

lemma walks_call_arguments:
  assumes U: "nodes_ok U" "call \<in> U" and call: "call = RCall rng f as" and rec: "rec_walks U (size call) rec"
    and fuel: "size call \<le> fuel"
  shows "walks U (\<lambda>b. case cl_arguments (resolution_at b call) of
      Some effs \<Rightarrow> walk_nse_call R fuel rec call effs b | None \<Rightarrow> walk_arguments rec (the_list (call_arguments call)) b)"
proof (rule keepsI)
  fix b assume inv: "scan_inv U b"
  have v: "v \<in> U \<and> size v < size call" if "as = Some items" "a \<in> set items" "arg_value a = Some v" for items a v
    using nodes_ok_children [OF U] arg_value_child [of call items a v] size_children [of v call] that call by simp
  show "\<exists>b'. (case cl_arguments (resolution_at b call) of
      Some effs \<Rightarrow> walk_nse_call R fuel rec call effs b | None \<Rightarrow> walk_arguments rec (the_list (call_arguments call)) b) =
      Some b' \<and> scan_inv U b' \<and> walk_frame b b'"
  proof (cases "cl_arguments (resolution_at b call)")
    case None
    have "walks U (walk_arguments rec (the_list (call_arguments call)))"
    proof (rule walks_arguments)
      fix a x assume "a \<in> set (the_list (call_arguments call))" "arg_value a = Some x"
      then have "x \<in> U \<and> size x < size call" using v call by (cases as) auto
      then show "walks U (rec x)" using rec_walksD [OF rec] by blast
    qed
    from keepsE [OF this inv] None show ?thesis by auto
  next
    case (Some effs)
    have "walks U (foldM (walk_effect_argument R fuel rec effs) (enumerate 0 (the_list as)))"
    proof (cases as)
      case (Some items)
      have "effects_for items effs"
        using inv U(2) call Some \<open>cl_arguments (resolution_at b call) = Some effs\<close>
        by (auto simp: scan_inv_def resolutions_ok_def resolution_at_def cl_default_def split: option.splits)
      moreover have "a \<in> set items" if "(i, a) \<in> set (enumerate 0 items)" for i a
        using that by (auto simp: in_set_enumerate_eq)
      ultimately have "walks U (walk_effect_argument R fuel rec effs (i, a))" if "(i, a) \<in> set (enumerate 0 items)" for i a
        using that v [OF Some] by (intro walks_effect_argument [OF U(1) rec fuel]) blast+
      then show ?thesis using Some by (intro walks_foldM) auto
    qed (use walks_return in simp)
    from keepsE [OF this inv] Some call show ?thesis by (auto simp: walk_nse_call_def)
  qed
qed

section \<open>Expressions\<close>

lemma walks_target:
  assumes "walks U (rec target)"
  shows "walks U (walk_target rec bin target)"
proof (cases "assignment_name target")
  case None
  then show ?thesis by (intro keeps_ext [OF assms]) (simp add: walk_target_def)
next
  case (Some nr)
  then show ?thesis
    by (cases "is_super_assignment bin")
      (auto simp: walk_target_def split: prod.splits
        intro: keeps_ext [OF walks_add_super_definition, of _ "fst nr" _ "snd nr"]
          keeps_ext [OF walks_add_definition, of _ "fst nr" _ _ "snd nr"])
qed

lemma walks_binary:
  assumes "bin = RBinaryExpression rng l tok r" and "\<And>x. x \<in> set (children bin) \<Longrightarrow> walks U (rec x)"
  shows "walks U (walk_assignment rec bin)" and "walks U (walk_operator rec bin)"
proof -
  have l: "walks U (rec x)" if "bin_left bin = Some x" for x using assms that by simp
  have r: "walks U (rec x)" if "bin_right bin = Some x" for x using assms that by simp
  let ?right = "is_right_assignment bin"
  have "walks U (\<lambda>b. do { b \<leftarrow> opt_step rec (if ?right then bin_left bin else bin_right bin) b;
      opt_step (walk_target rec bin) (if ?right then bin_right bin else bin_left bin) b })"
    by (intro walks_bind walks_opt_step walks_target) (auto intro: l r split: if_splits)
  then show "walks U (walk_assignment rec bin)" by (rule keeps_ext) (simp add: walk_assignment_def Let_def)
  let ?reads = "\<lambda>assign. if assign \<noteq> [] then list_ex (\<lambda>binding. ab_target binding = ReadWrite) assign else True"
  let ?k = "\<lambda>assign b. do { b \<leftarrow> (if ?reads assign then opt_step rec (bin_left bin) b else Some b);
      b \<leftarrow> opt_step rec (bin_right bin) b; walk_assign_operator bin b }"
  have "walks U (?k assign)" for assign
  proof -
    have "walks U (opt_step rec (bin_left bin))" by (rule walks_opt_step) (rule l)
    then have "walks U (\<lambda>b. if ?reads assign then opt_step rec (bin_left bin) b else Some b)"
      using walks_return by (cases "?reads assign") simp_all
    then show ?thesis by (intro walks_bind walks_opt_step walks_assign_operator) (assumption, erule r)
  qed
  from walks_resolution [of U ?k, OF this, of "\<lambda>rs. cl_assign (case rs (trimmed_range bin) of Some r \<Rightarrow> r | None \<Rightarrow> cl_default)"]
  show "walks U (walk_operator rec bin)" by (rule keeps_ext) (simp add: walk_operator_def resolution_at_def Let_def)
qed

lemma walks_namespace_access: "walks U (\<lambda>b. Some (walk_namespace_access rng l tok r b))"
proof (rule walks_pure)
  fix b assume inv: "scan_inv U b"
  have "scan_inv U (b\<lparr>wk_namespace_accesses := x\<rparr>)" for x
    using inv arenas_ok_cong [of "b\<lparr>wk_namespace_accesses := x\<rparr>" b] by (simp add: scan_inv_def)
  moreover have "walk_frame b (b\<lparr>wk_namespace_accesses := x\<rparr>)" for x by (simp add: walk_frame_def slot_le_def)
  ultimately show "scan_inv U (walk_namespace_access rng l tok r b) \<and> walk_frame b (walk_namespace_access rng l tok r b)"
    using inv walk_frame_refl by (simp add: walk_namespace_access_def split: option.splits)
qed

lemma walks_call:
  assumes U: "nodes_ok U" "e \<in> U" and e: "e = RCall rng f as" and rec: "rec_walks U (size e) rec" and fuel: "size e < fuel"
    and child: "\<And>x. x \<in> set (children e) \<Longrightarrow> walks U (rec x)"
  shows "walks U (walk_call R fuel rec e)"
proof -
  have "walks U (opt_step rec (call_function e))" by (intro walks_opt_step child) (simp add: e)
  moreover have "walks U (\<lambda>b. case cl_arguments (resolution_at b e) of
      Some effs \<Rightarrow> walk_nse_call R fuel rec e effs b | None \<Rightarrow> walk_arguments rec (the_list (call_arguments e)) b)"
    using walks_call_arguments [OF U e rec, of fuel R] fuel by simp
  ultimately have "walks U (\<lambda>b. do { b \<leftarrow> opt_step rec (call_function e) b;
     b \<leftarrow> (case cl_arguments (resolution_at b e) of
         Some effs \<Rightarrow> walk_nse_call R fuel rec e effs b
       | None \<Rightarrow> walk_arguments rec (the_list (call_arguments e)) b);
     walk_semantic_call e b })"
    by (intro walks_bind walks_semantic_call)
  then show ?thesis by (rule keeps_ext) (simp add: walk_call_def)
qed

lemma walks_subset:
  assumes f: "\<And>x. f = Some x \<Longrightarrow> walks U (rec x)"
    and as: "\<And>a x. a \<in> set (the_list as) \<Longrightarrow> arg_value a = Some x \<Longrightarrow> walks U (rec x)"
  shows "walks U (\<lambda>b. do { b \<leftarrow> opt_step rec f b; walk_arguments rec (the_list as) b })"
  by (intro walks_bind walks_opt_step walks_arguments) (erule f, erule (1) as)

lemma walks_node:
  assumes U: "nodes_ok U" "e \<in> U" and rec: "rec_walks U (size e) rec" and fuel: "size e < fuel"
  shows "walks U (walk_node R fuel rec e)"
proof -
  have child: "walks U (rec x)" if "x \<in> set (children e)" for x
    using rec_walksD [OF rec] nodes_ok_children [OF U that] size_children [OF that] by blast
  then have all: "walks U (foldM rec (children e))" by (rule walks_foldM)
  show ?thesis
  proof (cases e)
    case (RIdentifier rng t)
    show ?thesis by (rule keeps_ext [OF walks_add_use]) (simp add: walk_node_def RIdentifier)
  next
    case (RDots rng)
    show ?thesis by (rule keeps_ext [OF walks_add_use]) (simp add: walk_node_def RDots)
  next
    case (RDotDotI rng t)
    show ?thesis by (rule keeps_ext [OF walks_add_use]) (simp add: walk_node_def RDotDotI)
  next
    case (RFunctionDefinition rng ps body)
    show ?thesis by (rule keeps_ext [OF walks_function [OF U RFunctionDefinition rec fuel]])
      (simp add: walk_node_def RFunctionDefinition)
  next
    case (RBinaryExpression rng l tok r)
    note bin = walks_binary [OF RBinaryExpression child]
    show ?thesis
    proof (cases "is_assignment e")
      case True
      with RBinaryExpression show ?thesis by (intro keeps_ext [OF bin(1)]) (simp_all add: walk_node_def)
    next
      case False
      with RBinaryExpression show ?thesis by (intro keeps_ext [OF bin(2)]) (simp_all add: walk_node_def)
    qed
  next
    case (RCall rng f as)
    show ?thesis by (rule keeps_ext [OF walks_call [OF U RCall rec fuel child]]) (simp_all add: walk_node_def RCall)
  next
    case (RSubset rng f as)
    have "walks U (\<lambda>b. do { b \<leftarrow> opt_step rec f b; walk_arguments rec (the_list as) b })"
      by (rule walks_subset; rule child; fastforce simp: RSubset split: option.splits)
    then show ?thesis by (rule keeps_ext) (simp add: walk_node_def RSubset)
  next
    case (RSubset2 rng f as)
    have "walks U (\<lambda>b. do { b \<leftarrow> opt_step rec f b; walk_arguments rec (the_list as) b })"
      by (rule walks_subset; rule child; fastforce simp: RSubset2 split: option.splits)
    then show ?thesis by (rule keeps_ext) (simp add: walk_node_def RSubset2)
  next
    case (RExtractExpression rng l sel)
    have "walks U (opt_step rec l)" by (intro walks_opt_step child) (simp add: RExtractExpression)
    then show ?thesis by (rule keeps_ext) (simp add: walk_node_def RExtractExpression)
  next
    case (RNamespaceExpression rng l tok r)
    show ?thesis by (rule keeps_ext [OF walks_namespace_access]) (simp add: walk_node_def RNamespaceExpression)
  next
    case (RForStatement rng var sq body)
    have "walks U (walk_for_variable e x)" for x
      by (rule keeps_ext [OF walks_add_definition]) (simp add: walk_for_variable_def)
    then have "walks U (\<lambda>b. do { b \<leftarrow> opt_step (walk_for_variable e) var b; b \<leftarrow> opt_step rec sq b; walk_loop_body rec body True b })"
      by (intro walks_bind walks_opt_step walks_loop_body child) (simp_all add: RForStatement)
    then show ?thesis by (rule keeps_ext) (simp add: walk_node_def RForStatement)
  next
    case (RIfStatement rng c t a)
    have "walks U (\<lambda>b. do { b \<leftarrow> opt_step rec c b; walk_branch rec t a b })"
      by (intro walks_bind walks_opt_step walks_branch child) (simp_all add: RIfStatement)
    then show ?thesis by (rule keeps_ext) (simp add: walk_node_def RIfStatement)
  next
    case (RWhileStatement rng c body)
    have "walks U (\<lambda>b. do { b \<leftarrow> opt_step rec c b; walk_loop_body rec body True b })"
      by (intro walks_bind walks_opt_step walks_loop_body child) (simp_all add: RWhileStatement)
    then show ?thesis by (rule keeps_ext) (simp add: walk_node_def RWhileStatement)
  next
    case (RRepeatStatement rng body)
    have "walks U (walk_loop_body rec body False)" by (intro walks_loop_body child) (simp add: RRepeatStatement)
    then show ?thesis by (rule keeps_ext) (simp add: walk_node_def RRepeatStatement)
  next
    case (RBogusExpression rng es)
    show ?thesis by (rule keeps_ext [OF walks_return]) (simp add: walk_node_def RBogusExpression)
  qed (rule keeps_ext [OF all], simp add: walk_node_def)+
qed

lemma rec_walks_expression:
  assumes U: "nodes_ok U" and fuel: "\<And>e. e \<in> U \<Longrightarrow> size e < fuel"
  shows "z \<le> n \<Longrightarrow> rec_walks U z (walk_expression R fuel n)"
proof (induction n arbitrary: z)
  case (Suc n)
  have "walks U (walk_expression R fuel (Suc n) e)" if "e \<in> U" "size e < z" for e
  proof -
    have "walks U (walk_node R fuel (walk_expression R fuel n) e)"
      by (rule walks_node [OF U that(1) Suc.IH fuel [OF that(1)]]) (use that(2) Suc.prems in simp)
    then show ?thesis by (rule keeps_ext) simp
  qed
  moreover have "walks U (walk_expression R fuel (Suc n) (RIdentifier r t))" for r t
    by (rule keeps_ext [OF walks_add_use]) (simp add: walk_node_def)
  ultimately show ?case unfolding rec_walks_def by blast
qed (simp add: rec_walks_def)

end
