(* ===== verification/Index_Total.thy ===== *)
theory Index_Total
  imports Walk_Total
begin

text \<open>
  \<open>build_index\<close> returns on every file, with any imports resolver, and the index it returns is
  well formed: the scopes are a preorder tree, ids are in range, bindings hold definitions of the
  right name. The queries of \<open>SemanticIndex\<close> then return and mean what they say.
\<close>

section \<open>Files\<close>

text \<open>
  The expressions of a file. The builder identifies a call by its range; two calls of a file
  have different ranges because a call ends with its own argument list.
\<close>

definition file_nodes :: "r_expr list \<Rightarrow> r_expr list" where
  "file_nodes es = concat (map subterms es)"

fun same_call :: "r_expr \<Rightarrow> r_expr \<Rightarrow> bool" where
  "same_call (RCall r f as) (RCall r' f' as') = (r = r' \<longrightarrow> f = f' \<and> as = as')"
| "same_call _ _ = True"

definition calls_distinct :: "r_expr list \<Rightarrow> bool" where
  "calls_distinct es = list_all (\<lambda>x. list_all (same_call x) (file_nodes es)) (file_nodes es)"

lemma children_subterms: "c \<in> set (children e) \<Longrightarrow> c \<in> set (subterms e)"
  using subterms_child subterms_self by blast

lemma nodes_ok_file:
  assumes "calls_distinct es"
  shows "nodes_ok (set (file_nodes es))"
proof -
  have "c \<in> set (file_nodes es)" if e: "e \<in> set (file_nodes es)" and c: "c \<in> set (children e)" for c e
  proof -
    from e obtain x where x: "x \<in> set es" "e \<in> set (subterms x)" by (auto simp: file_nodes_def)
    with subterms_trans [OF x(2)] children_subterms [OF c] show ?thesis by (auto simp: file_nodes_def)
  qed
  moreover have "f = f' \<and> as = as'" if "RCall r f as \<in> set (file_nodes es)" "RCall r f' as' \<in> set (file_nodes es)" for r f as f' as'
  proof -
    have "same_call (RCall r f as) (RCall r f' as')" using assms that unfolding calls_distinct_def list_all_iff by blast
    then show ?thesis by simp
  qed
  ultimately show ?thesis unfolding nodes_ok_def by blast
qed

lemma file_nodes_top: "e \<in> set es \<Longrightarrow> e \<in> set (file_nodes es)"
  using subterms_self [of e] unfolding file_nodes_def set_concat set_map by blast

lemma file_nodes_size: "e \<in> set (file_nodes es) \<Longrightarrow> size e < size_list size es"
  using size_subterms size_in_list unfolding file_nodes_def by fastforce

section \<open>Building\<close>

lemma builder_new_inv: "scan_inv U (builder_new rng)"
proof -
  have "arenas_ok (builder_new rng)"
    using arena_open_file [of rng]
    by (simp add: arenas_ok_def builder_new_def file_scope_entry_def scope_ok_def st_len_def snapshots_ok_def)
      (simp add: st_new_def)
  then show ?thesis by (simp add: scan_inv_def builder_new_def fa_default_def resolutions_ok_def)
qed

lemma build_state_total:
  assumes "calls_distinct es"
  obtains b where "build_state R rng es = Some b" and "scan_inv (set (file_nodes es)) b" and "bu_current_scope b = 0"
proof -
  let ?U = "set (file_nodes es)" and ?fuel = "file_fuel es" and ?b = "builder_new rng" and ?z = "size_list size es"
  have U: "nodes_ok ?U" by (rule nodes_ok_file [OF assms])
  have small: "size e < ?fuel" if "e \<in> ?U" for e using file_nodes_size [OF that] by (simp add: file_fuel_def)
  have scan: "scans ?U ?z (scan_expression R ?fuel e)" if "e \<in> set es" for e
    by (rule scans_mono [OF scans_expression [OF U]]) (use file_nodes_top [OF that] file_nodes_size small in fastforce)+
  have "scans ?U ?z (\<lambda>b. do { b \<leftarrow> begin_scan b; foldM (scan_expression R ?fuel) es b })"
    by (intro scans_bind scans_begin scans_foldM scan)
  moreover have "?z < ?fuel" by (simp add: file_fuel_def)
  ultimately obtain b1 where b1: "(do { c \<leftarrow> (do { b \<leftarrow> begin_scan ?b; foldM (scan_expression R ?fuel) es b });
      scan_deferred_bodies ?fuel (scan_expression R ?fuel) (length (sn_deferred_bodies ?b)) c }) = Some b1"
    "scan_inv ?U b1" "walk_frame ?b b1" by (rule unit_scan_total [OF U _ _ builder_new_inv])
  have "walks ?U (walk_expression R ?fuel ?fuel e)" if "e \<in> set es" for e
    using rec_walksD [OF rec_walks_expression [OF U small order_refl] file_nodes_top [OF that]] small file_nodes_top [OF that] by blast
  then have walk: "walks ?U (foldM (walk_expression R ?fuel ?fuel) es)" by (rule walks_foldM)
  obtain b2 where b2: "foldM (walk_expression R ?fuel ?fuel) es b1 = Some b2" "scan_inv ?U b2" "walk_frame b1 b2"
    by (rule keepsE [OF walk b1(2)])
  have "build_state R rng es = Some b2"
    using b1(1) b2(1) by (auto simp: build_state_def Let_def scan_expression_list_def walk_expression_list_def builder_new_def
        split: Option.bind_splits)
  moreover have "bu_current_scope b2 = 0"
    using walk_frameD(1) [OF walk_frame_trans [OF b1(3) b2(3)]] by (simp add: builder_new_def)
  ultimately show ?thesis using that b2(2) by blast
qed

section \<open>Well-formed indexes\<close>

definition scope_finished :: "symbol_table \<Rightarrow> defn list \<Rightarrow> use_site list \<Rightarrow> use_def_map \<Rightarrow> bool" where
  "scope_finished t ds us m \<longleftrightarrow> st_wf t \<and>
     (\<forall>d\<in>set ds. df_symbol d < st_len t) \<and> (\<forall>u\<in>set us. us_symbol u < st_len t) \<and>
     (\<forall>sid < st_len t. flags_contains (sy_flags (st_symbols t ! sid)) IS_BOUND \<longrightarrow> (\<exists>d\<in>set ds. df_symbol d = sid)) \<and>
     length (ud_bindings_by_use m) = length us \<and>
     (\<forall>u<length us. bd_for (map df_symbol ds) (us_symbol (us ! u)) (ud_bindings_by_use m ! u))"

text \<open>Every chain entry is a snapshot of the used name in an ancestor of the use's scope.\<close>

definition entry_ok :: "semantic_index \<Rightarrow> nat \<Rightarrow> nat \<Rightarrow> nat \<times> nat \<Rightarrow> bool" where
  "entry_ok ix c u e \<longleftrightarrow> fst e \<in> set (chain (ix_scopes ix) c) \<and> fst e \<noteq> c \<and>
     snd e < length (ud_enclosing_snapshots (ix_use_def_maps ix ! fst e)) \<and>
     (\<exists>name sid. st_id (ix_symbol_tables ix ! c) name = Some (us_symbol (ix_uses ix ! c ! u)) \<and>
        st_id (ix_symbol_tables ix ! fst e) name = Some sid \<and>
        bd_for (map df_symbol (ix_definitions ix ! fst e)) sid
          (ud_enclosing_snapshots (ix_use_def_maps ix ! fst e) ! snd e))"

definition index_ok :: "semantic_index \<Rightarrow> bool" where
  "index_ok ix \<longleftrightarrow> arena_closed (ix_scopes ix) \<and>
     length (ix_symbol_tables ix) = length (ix_scopes ix) \<and> length (ix_definitions ix) = length (ix_scopes ix) \<and>
     length (ix_uses ix) = length (ix_scopes ix) \<and> length (ix_use_def_maps ix) = length (ix_scopes ix) \<and>
     (\<forall>s<length (ix_scopes ix). scope_finished (ix_symbol_tables ix ! s) (ix_definitions ix ! s) (ix_uses ix ! s)
        (ix_use_def_maps ix ! s)) \<and>
     (\<forall>c u chn. ix_enclosing_snapshots ix (c, u) = Some chn \<longrightarrow> (\<forall>e\<in>set chn. entry_ok ix c u e)) \<and>
     length (ix_final_bindings ix) \<le> st_len (ix_symbol_tables ix ! 0) \<and>
     (\<forall>i<length (ix_final_bindings ix). bd_for (map df_symbol (ix_definitions ix ! 0)) i (ix_final_bindings ix ! i)) \<and>
     (\<forall>c\<in>set (ix_semantic_calls ix). ca_scope c < length (ix_scopes ix))"

lemma scope_ok_finished: "scope_ok t ds us m \<Longrightarrow> scope_finished t ds us (udm_finish m)"
  by (simp add: scope_ok_def scope_finished_def udm_finish_def udm_wf_def)

lemma builder_finish_total:
  assumes inv: "scan_inv U b" and cur: "bu_current_scope b = 0"
  shows "\<exists>ix. builder_finish b = Some ix \<and> index_ok ix"
proof -
  note a = scan_invD [OF inv]
  note len = arenas_okD(4-7) [OF a] and par = arenas_okD(3) [OF a]
  have pos: "0 < length (bu_scopes b)" using arenas_okD(2) [OF a] cur by simp
  note ok0 = arenas_okD(9) [OF a pos]
  obtain m0 where m0: "udm_fold_lazy_defs (wk_use_def_maps b ! 0) = Some m0"
    "udm_wf (st_len (wk_symbol_tables b ! 0)) (map df_symbol (wk_definitions b ! 0)) (map us_symbol (wk_uses b ! 0)) m0"
    "m0 = (wk_use_def_maps b ! 0)\<lparr>ub_lazy_defs := [], ub_symbol_states := ub_symbol_states m0\<rparr>"
    using udm_fold_lazy_defs_wf [OF scope_ok_udm [OF ok0]] by blast
  let ?scopes = "(bu_scopes b)[0 := (bu_scopes b ! 0)\<lparr>sc_desc_end := length (bu_scopes b)\<rparr>]"
  let ?maps = "map udm_finish ((wk_use_def_maps b)[0 := m0])"
  obtain ix where ix: "builder_finish b = Some ix" "ix_scopes ix = ?scopes" "ix_symbol_tables ix = wk_symbol_tables b"
    "ix_definitions ix = wk_definitions b" "ix_uses ix = wk_uses b" "ix_use_def_maps ix = ?maps"
    "ix_enclosing_snapshots ix = wk_enclosing_snapshots b" "ix_final_bindings ix = ub_symbol_states m0"
    "ix_semantic_calls ix = wk_semantic_calls b"
    using pos len m0(1) by (simp add: builder_finish_def Let_def split_beta udm_final_bindings_def iv_next_id_def)
  have snaps: "ud_enclosing_snapshots (?maps ! s) = ub_enclosing_snapshots (wk_use_def_maps b ! s)"
    if "s < length (bu_scopes b)" for s
  proof (cases "s = 0")
    case True
    have "ub_enclosing_snapshots m0 = ub_enclosing_snapshots (wk_use_def_maps b ! 0)" by (subst m0(3)) simp
    with True pos len show ?thesis by (simp add: udm_finish_def)
  qed (use that len in \<open>simp add: udm_finish_def\<close>)
  have "scope_finished (wk_symbol_tables b ! s) (wk_definitions b ! s) (wk_uses b ! s) (?maps ! s)"
    if "s < length (bu_scopes b)" for s
    using that len scope_ok_finished [OF arenas_okD(9) [OF a that]] scope_ok_finished [OF scope_ok_map [OF ok0 m0(2)]]
    by (cases "s = 0") simp_all
  moreover have "entry_ok ix c u e" if chn: "wk_enclosing_snapshots b (c, u) = Some chn" "e \<in> set chn" for c u chn e
  proof -
    obtain s k where e: "e = (s, k)" by fastforce
    with chn arenas_okD(10) [OF a] obtain name where c: "c < length (bu_scopes b)" "s \<in> set (chain (bu_scopes b) c)" "s \<noteq> c"
      "st_id (wk_symbol_tables b ! c) name = Some (us_symbol (wk_uses b ! c ! u))" "snap_named b name s k"
      unfolding snapshots_ok_def by blast
    then obtain sid where s: "s < length (bu_scopes b)" "st_id (wk_symbol_tables b ! s) name = Some sid"
      "snap_of (map df_symbol (wk_definitions b ! s)) sid k (wk_use_def_maps b ! s)" by (auto simp: snap_named_def)
    have "chain ?scopes c = chain (bu_scopes b) c" by (rule chain_desc_end(2) [OF par c(1)])
    with c s snaps [OF s(1)] show ?thesis by (auto simp: entry_ok_def e ix snap_of_def)
  qed
  moreover have "arena_closed ?scopes" using arena_open_finish arenas_okD(1) [OF a] cur by simp
  moreover have "length (ub_symbol_states m0) \<le> st_len (wk_symbol_tables b ! 0)"
    "\<forall>i<length (ub_symbol_states m0). bd_for (map df_symbol (wk_definitions b ! 0)) i (ub_symbol_states m0 ! i)"
    using m0(2) by (simp_all add: udm_wf_def)
  ultimately have "index_ok ix"
    unfolding index_ok_def using len arenas_okD(11) [OF a] by (simp add: ix)
  with ix(1) show ?thesis by blast
qed

lemma build_index_returns:
  assumes "calls_distinct es"
  shows "\<exists>ix. build_index R rng es = Some ix \<and> index_ok ix"
proof -
  obtain b where b: "build_state R rng es = Some b" "scan_inv (set (file_nodes es)) b" "bu_current_scope b = 0"
    by (rule build_state_total [OF assms])
  from builder_finish_total [OF b(2,3)] b(1) show ?thesis by (simp add: build_index_def)
qed

lemma build_index_ok: "calls_distinct es \<Longrightarrow> build_index R rng es = Some ix \<Longrightarrow> index_ok ix"
  using build_index_returns [of es R rng] by auto

end
