(* ===== verification/Index_Queries.thy ===== *)
theory Index_Queries
  imports Index_Total
begin

text \<open>
  The queries of \<open>SemanticIndex\<close> on well-formed indexes: each returns, and its result is
  described without the traversal that computes it.
\<close>

section \<open>Parts of a well-formed index\<close>

lemma index_okD:
  assumes "index_ok ix"
  shows "arena_closed (ix_scopes ix)" and "length (ix_symbol_tables ix) = length (ix_scopes ix)"
    and "length (ix_definitions ix) = length (ix_scopes ix)" and "length (ix_uses ix) = length (ix_scopes ix)"
    and "length (ix_use_def_maps ix) = length (ix_scopes ix)"
    and "\<And>s. s < length (ix_scopes ix) \<Longrightarrow> scope_finished (ix_symbol_tables ix ! s) (ix_definitions ix ! s) (ix_uses ix ! s)
        (ix_use_def_maps ix ! s)"
    and "\<And>c u chn e. ix_enclosing_snapshots ix (c, u) = Some chn \<Longrightarrow> e \<in> set chn \<Longrightarrow> entry_ok ix c u e"
    and "length (ix_final_bindings ix) \<le> st_len (ix_symbol_tables ix ! 0)"
    and "\<And>i. i < length (ix_final_bindings ix) \<Longrightarrow>
        bd_for (map df_symbol (ix_definitions ix ! 0)) i (ix_final_bindings ix ! i)"
    and "\<And>c. c \<in> set (ix_semantic_calls ix) \<Longrightarrow> ca_scope c < length (ix_scopes ix)"
  using assms unfolding index_ok_def by blast+

lemma index_arena:
  assumes "index_ok ix"
  shows "arena_at (ix_scopes ix) (\<lambda>i. sc_desc_end (ix_scopes ix ! i))" and "parents_ok (ix_scopes ix)"
    and "0 < length (ix_scopes ix)"
proof -
  show at: "arena_at (ix_scopes ix) (\<lambda>i. sc_desc_end (ix_scopes ix ! i))"
    using index_okD(1) [OF assms] by (simp add: arena_closed_def)
  show "parents_ok (ix_scopes ix)" by (rule arena_at_parents_ok [OF at])
  show "0 < length (ix_scopes ix)" using at by (auto simp: arena_at_def)
qed

lemma ancestors_chain:
  "index_ok ix \<Longrightarrow> s < length (ix_scopes ix) \<Longrightarrow> ancestor_scope_ids ix s = Some (chain (ix_scopes ix) s)"
  by (simp add: ancestor_scope_ids_def scope_ancestors_chain index_arena(2))

lemma chain_range:
  "index_ok ix \<Longrightarrow> s < length (ix_scopes ix) \<Longrightarrow> a \<in> set (chain (ix_scopes ix) s) \<Longrightarrow> a < length (ix_scopes ix)"
  using chain_in_range index_arena(2) by blast

lemma finished_id:
  assumes "index_ok ix" and "s < length (ix_scopes ix)"
  shows "st_id (ix_symbol_tables ix ! s) name = Some sid \<longleftrightarrow>
    sid < st_len (ix_symbol_tables ix ! s) \<and> sy_name (st_symbols (ix_symbol_tables ix ! s) ! sid) = name"
  using index_okD(6) [OF assms] by (simp add: scope_finished_def st_wf_id)

text \<open>The name a use or a definition of the index refers to.\<close>

definition symbol_name :: "semantic_index \<Rightarrow> nat \<Rightarrow> nat \<Rightarrow> string" where
  "symbol_name ix s sid = sy_name (st_symbols (ix_symbol_tables ix ! s) ! sid)"

definition use_name :: "semantic_index \<Rightarrow> nat \<Rightarrow> nat \<Rightarrow> string" where
  "use_name ix s u = symbol_name ix s (us_symbol (ix_uses ix ! s ! u))"

definition def_name :: "semantic_index \<Rightarrow> nat \<Rightarrow> nat \<Rightarrow> string" where
  "def_name ix s d = symbol_name ix s (df_symbol (ix_definitions ix ! s ! d))"

lemma symbol_id:
  "index_ok ix \<Longrightarrow> s < length (ix_scopes ix) \<Longrightarrow> sid < st_len (ix_symbol_tables ix ! s) \<Longrightarrow>
    st_id (ix_symbol_tables ix ! s) name = Some sid \<longleftrightarrow> symbol_name ix s sid = name"
  by (simp add: finished_id symbol_name_def)

lemma use_symbol_range:
  "index_ok ix \<Longrightarrow> s < length (ix_scopes ix) \<Longrightarrow> u < length (ix_uses ix ! s) \<Longrightarrow>
    us_symbol (ix_uses ix ! s ! u) < st_len (ix_symbol_tables ix ! s)"
  using index_okD(6) [of ix s] by (simp add: scope_finished_def)

lemma def_symbol_range:
  "index_ok ix \<Longrightarrow> s < length (ix_scopes ix) \<Longrightarrow> d < length (ix_definitions ix ! s) \<Longrightarrow>
    df_symbol (ix_definitions ix ! s ! d) < st_len (ix_symbol_tables ix ! s)"
  using index_okD(6) [of ix s] by (simp add: scope_finished_def)

text \<open>Bindings of a symbol hold definitions of its name.\<close>

lemma bd_for_names:
  assumes "bd_for (map df_symbol (ix_definitions ix ! s)) sid b" and "d \<in> set (bd_definitions b)"
  shows "d < length (ix_definitions ix ! s)" and "def_name ix s d = symbol_name ix s sid"
  using assms by (auto simp: bd_for_def defs_for_def def_name_def)

section \<open>The scope tree\<close>

lemma scope_at_descends:
  assumes ok: "index_ok ix"
  shows "i < length (ix_scopes ix) \<Longrightarrow> length (ix_scopes ix) - i \<le> n \<Longrightarrow>
    \<exists>s. scope_at_upto n ix offset i = Some s \<and> s < length (ix_scopes ix) \<and> set (chain (ix_scopes ix) i) \<subseteq> set (chain (ix_scopes ix) s) \<and>
      (\<forall>a\<in>set (chain (ix_scopes ix) s) - set (chain (ix_scopes ix) i). tr_contains (sc_range (ix_scopes ix ! a)) offset) \<and>
      (\<forall>c<length (ix_scopes ix). sc_parent (ix_scopes ix ! c) = Some s \<longrightarrow>
         \<not> tr_contains (sc_range (ix_scopes ix ! c)) offset)"
proof (induction n arbitrary: i)
  case (Suc n)
  let ?s = "ix_scopes ix"
  let ?in = "\<lambda>c. tr_contains (sc_range (?s ! c)) offset"
  let ?cs = "filter (\<lambda>j. sc_parent (?s ! j) = Some i) [0..<length ?s]"
  note par = index_arena(2) [OF ok]
  have cs: "child_scope_ids ix i = Some ?cs" by (rule child_scope_ids_closed [OF index_okD(1) [OF ok] Suc.prems(1)])
  show ?case
  proof (cases "find ?in ?cs")
    case None
    then have "scope_at_upto (Suc n) ix offset i = Some i" by (simp add: cs)
    moreover have "\<forall>c<length ?s. sc_parent (?s ! c) = Some i \<longrightarrow> \<not> ?in c" using None by (auto simp: find_None_iff)
    ultimately show ?thesis using Suc.prems(1) by blast
  next
    case (Some c)
    then have c: "c < length ?s" "sc_parent (?s ! c) = Some i" "?in c" by (auto dest: find_Some_in)
    have "i < c" using par c unfolding parents_ok_def by blast
    then have "length ?s - c \<le> n" using c Suc.prems by linarith
    from Suc.IH [OF c(1) this] obtain s where s: "scope_at_upto n ix offset c = Some s" "s < length ?s"
      "set (chain ?s c) \<subseteq> set (chain ?s s)" "\<forall>a\<in>set (chain ?s s) - set (chain ?s c). ?in a"
      "\<forall>d<length ?s. sc_parent (?s ! d) = Some s \<longrightarrow> \<not> ?in d" by blast
    moreover have "chain ?s c = c # chain ?s i" by (rule chain_parent [OF par c(1,2)])
    moreover have "scope_at_upto (Suc n) ix offset i = Some s" using s(1) by (simp add: cs Some)
    ultimately show ?thesis using c(3) by auto
  qed
qed simp

lemma chain_root: "index_ok ix \<Longrightarrow> chain (ix_scopes ix) 0 = [0]"
  using index_arena [of ix] chain_simps [of "ix_scopes ix" 0] by (simp add: arena_at_def)

lemma chain_ends:
  assumes ok: "index_ok ix"
  shows "s < length (ix_scopes ix) \<Longrightarrow>
    chain (ix_scopes ix) s \<noteq> [] \<and> hd (chain (ix_scopes ix) s) = s \<and> last (chain (ix_scopes ix) s) = 0"
proof (induction s rule: less_induct)
  case (less s)
  note c = chain_simps [OF index_arena(2) [OF ok] less.prems]
  show ?case
  proof (cases "sc_parent (ix_scopes ix ! s)")
    case None
    then have "s = 0" using arena_at_root [OF index_arena(1) [OF ok] less.prems] by simp
    then show ?thesis using chain_root [OF ok] by simp
  next
    case (Some p)
    then have "p < s" using index_arena(2) [OF ok] less.prems by (auto simp: parents_ok_def)
    with less.IH [of p] less.prems c Some show ?thesis by simp
  qed
qed

lemma scope_at_total:
  assumes ok: "index_ok ix"
  obtains s where "scope_at ix offset = Some s" and "s < length (ix_scopes ix)"
    and "\<forall>a\<in>set (chain (ix_scopes ix) s). a \<noteq> 0 \<longrightarrow> tr_contains (sc_range (ix_scopes ix ! a)) offset"
    and "\<forall>c<length (ix_scopes ix). sc_parent (ix_scopes ix ! c) = Some s \<longrightarrow>
         \<not> tr_contains (sc_range (ix_scopes ix ! c)) offset"
proof -
  have "length (ix_scopes ix) - 0 \<le> length (ix_scopes ix)" by simp
  from scope_at_descends [OF ok index_arena(3) [OF ok] this, of offset] obtain s where s:
    "scope_at_upto (length (ix_scopes ix)) ix offset 0 = Some s" "s < length (ix_scopes ix)"
    "\<forall>a\<in>set (chain (ix_scopes ix) s) - set (chain (ix_scopes ix) 0). tr_contains (sc_range (ix_scopes ix ! a)) offset"
    "\<forall>c<length (ix_scopes ix). sc_parent (ix_scopes ix ! c) = Some s \<longrightarrow> \<not> tr_contains (sc_range (ix_scopes ix ! c)) offset"
    by blast
  show ?thesis by (rule that [of s]) (use s chain_root [OF ok] in \<open>auto simp: scope_at_def\<close>)
qed

section \<open>Resolution by name\<close>

definition scope_binds :: "semantic_index \<Rightarrow> string \<Rightarrow> nat \<Rightarrow> bool" where
  "scope_binds ix name s = (case st_id (ix_symbol_tables ix ! s) name of
     None \<Rightarrow> False | Some sid \<Rightarrow> flags_contains (sy_flags (st_symbols (ix_symbol_tables ix ! s) ! sid)) IS_BOUND)"

lemma resolve_in_total:
  assumes ok: "index_ok ix" and s: "s < length (ix_scopes ix)"
  shows "resolve_in ix name s = (if scope_binds ix name s
    then Some (map_option (\<lambda>(i, d). (s, i, d)) (find (\<lambda>(_, d). symbol_name ix s (df_symbol d) = name) (iv_iter (ix_definitions ix ! s))))
    else Some None)"
    and "scope_binds ix name s \<Longrightarrow> \<exists>d. d < length (ix_definitions ix ! s) \<and> def_name ix s d = name"
proof -
  note fin = index_okD(6) [OF ok s] and len = index_okD(2-3) [OF ok]
  have symb: "st_symbol (ix_symbol_tables ix ! s) sid = Some (st_symbols (ix_symbol_tables ix ! s) ! sid)"
    and sid: "sid < st_len (ix_symbol_tables ix ! s)" if "st_id (ix_symbol_tables ix ! s) name = Some sid" for sid
    using that finished_id [OF ok s] by (simp_all add: st_symbol_def st_len_def)
  have same: "df_symbol d = sid \<longleftrightarrow> symbol_name ix s (df_symbol d) = name"
    if "st_id (ix_symbol_tables ix ! s) name = Some sid" "d \<in> set (ix_definitions ix ! s)" for d sid
  proof -
    have "df_symbol d < st_len (ix_symbol_tables ix ! s)" using fin that(2) by (simp add: scope_finished_def)
    from symbol_id [OF ok s this, of name] that(1) show ?thesis by auto
  qed
  have def: "\<exists>d\<in>set (ix_definitions ix ! s). df_symbol d = sid"
    if "st_id (ix_symbol_tables ix ! s) name = Some sid" "scope_binds ix name s" for sid
    using fin that sid [OF that(1)] by (auto simp: scope_finished_def scope_binds_def)
  have find: "find (\<lambda>(_, d). df_symbol d = sid) (iv_iter (ix_definitions ix ! s)) =
      find (\<lambda>(_, d). symbol_name ix s (df_symbol d) = name) (iv_iter (ix_definitions ix ! s))"
    if "st_id (ix_symbol_tables ix ! s) name = Some sid" for sid
  proof (rule find_cong [OF refl])
    fix x assume "x \<in> set (iv_iter (ix_definitions ix ! s))"
    then have "snd x \<in> set (ix_definitions ix ! s)" by (metis iv_iter_set nth_mem prod.collapse)
    from same [OF that this] show "(case x of (_, d) \<Rightarrow> df_symbol d = sid) = (case x of (_, d) \<Rightarrow> symbol_name ix s (df_symbol d) = name)"
      by (simp add: split_beta)
  qed
  show "resolve_in ix name s = (if scope_binds ix name s
    then Some (map_option (\<lambda>(i, d). (s, i, d)) (find (\<lambda>(_, d). symbol_name ix s (df_symbol d) = name) (iv_iter (ix_definitions ix ! s))))
    else Some None)"
  proof (cases "st_id (ix_symbol_tables ix ! s) name")
    case None
    then show ?thesis using s len by (simp add: resolve_in_def scope_binds_def)
  next
    case (Some sid)
    show ?thesis
    proof (cases "scope_binds ix name s")
      case True
      obtain i d where f: "find (\<lambda>(_, d). df_symbol d = sid) (iv_iter (ix_definitions ix ! s)) = Some (i, d)"
        using def [OF Some True] find_iv_iter_None [of "\<lambda>d. df_symbol d = sid" "ix_definitions ix ! s"]
        by (cases "find (\<lambda>(_, d). df_symbol d = sid) (iv_iter (ix_definitions ix ! s))") auto
      have "find (\<lambda>(_, d). symbol_name ix s (df_symbol d) = name) (iv_iter (ix_definitions ix ! s)) = Some (i, d)"
        using f find [OF Some] by simp
      with True Some symb [OF Some] f s len show ?thesis by (simp add: resolve_in_def scope_binds_def)
    qed (use Some symb [OF Some] s len in \<open>simp add: resolve_in_def scope_binds_def\<close>)
  qed
  assume b: "scope_binds ix name s"
  then obtain sid where "st_id (ix_symbol_tables ix ! s) name = Some sid" by (auto simp: scope_binds_def split: option.splits)
  from def [OF this b] same [OF this] show "\<exists>d. d < length (ix_definitions ix ! s) \<and> def_name ix s d = name"
    by (auto simp: def_name_def in_set_conv_nth)
qed

text \<open>The first definition of a name in a scope that binds it.\<close>

definition first_def :: "semantic_index \<Rightarrow> string \<Rightarrow> nat \<Rightarrow> nat \<Rightarrow> bool" where
  "first_def ix name s d \<longleftrightarrow> d < length (ix_definitions ix ! s) \<and> def_name ix s d = name \<and>
     (\<forall>d'<d. def_name ix s d' \<noteq> name)"

lemma resolve_first_total:
  assumes ok: "index_ok ix"
  shows "\<forall>s\<in>set ss. s < length (ix_scopes ix) \<Longrightarrow>
    (case find (scope_binds ix name) ss of
       None \<Rightarrow> resolve_first ix name ss = Some None
     | Some s \<Rightarrow> \<exists>d. resolve_first ix name ss = Some (Some (s, d, ix_definitions ix ! s ! d)) \<and> first_def ix name s d)"
proof (induction ss)
  case (Cons s ss)
  then have s: "s < length (ix_scopes ix)" by simp
  show ?case
  proof (cases "scope_binds ix name s")
    case True
    note r = resolve_in_total [OF ok s, of name]
    obtain d0 where d0: "d0 < length (ix_definitions ix ! s)" "def_name ix s d0 = name" using r(2) [OF True] by blast
    have "find (\<lambda>(_, d). symbol_name ix s (df_symbol d) = name) (iv_iter (ix_definitions ix ! s)) \<noteq> None"
      using d0 find_iv_iter_None [of "\<lambda>d. symbol_name ix s (df_symbol d) = name" "ix_definitions ix ! s"]
      by (auto simp: def_name_def)
    then obtain i d where f: "find (\<lambda>(_, d). symbol_name ix s (df_symbol d) = name) (iv_iter (ix_definitions ix ! s)) = Some (i, d)"
      by auto
    then have "i < length (ix_definitions ix ! s)" "d = ix_definitions ix ! s ! i" "first_def ix name s i"
      using find_iv_iter_first [of "\<lambda>d. symbol_name ix s (df_symbol d) = name" "ix_definitions ix ! s" i d]
      by (auto simp: first_def_def def_name_def)
    with True f r(1) show ?thesis by simp
  next
    case False
    with Cons resolve_in_total(1) [OF ok s, of name] show ?thesis by (auto split: option.splits)
  qed
qed simp

section \<open>Reaching definitions\<close>

lemma snapshot_bindings_total:
  assumes ok: "index_ok ix" and c: "c < length (ix_scopes ix)" "u < length (ix_uses ix ! c)" and e: "entry_ok ix c u e"
  obtains b where "snapshot_bindings ix e = Some (fst e, b)" and "fst e \<in> set (chain (ix_scopes ix) c)"
    and "\<forall>d\<in>set (bd_definitions b). d < length (ix_definitions ix ! fst e) \<and> def_name ix (fst e) d = use_name ix c u"
proof -
  let ?s = "fst e"
  let ?b = "ud_enclosing_snapshots (ix_use_def_maps ix ! ?s) ! snd e"
  obtain name sid where n: "st_id (ix_symbol_tables ix ! c) name = Some (us_symbol (ix_uses ix ! c ! u))"
    "st_id (ix_symbol_tables ix ! ?s) name = Some sid" "bd_for (map df_symbol (ix_definitions ix ! ?s)) sid ?b"
    using e unfolding entry_ok_def by blast
  have s: "?s \<in> set (chain (ix_scopes ix) c)" "snd e < length (ud_enclosing_snapshots (ix_use_def_maps ix ! ?s))"
    using e by (simp_all add: entry_ok_def)
  have sr: "?s < length (ix_scopes ix)" by (rule chain_range [OF ok c(1) s(1)])
  have "use_name ix c u = name" using n(1) finished_id [OF ok c(1)] by (simp add: use_name_def symbol_name_def)
  moreover have "symbol_name ix ?s sid = name" using n(2) finished_id [OF ok sr] by (simp add: symbol_name_def)
  ultimately have "\<forall>d\<in>set (bd_definitions ?b). d < length (ix_definitions ix ! ?s) \<and> def_name ix ?s d = use_name ix c u"
    using bd_for_names [OF n(3)] by simp
  moreover have "snapshot_bindings ix e = Some (?s, ?b)"
    using sr s(2) index_okD(5) [OF ok] by (simp add: snapshot_bindings_def ud_enclosing_snapshot_def)
  ultimately show ?thesis using that s(1) by blast
qed

lemma fall_through_total:
  assumes "\<forall>e\<in>set es. \<exists>sb. e = Some sb \<and> P sb"
  shows "\<exists>bs. fall_through m es = Some bs \<and> (\<forall>sb\<in>set bs. P sb) \<and> (bs \<noteq> [] \<longrightarrow> m) \<and>
    (\<forall>i. Suc i < length bs \<longrightarrow> bd_may_be_unbound (snd (bs ! i))) \<and>
    (length bs < length es \<longrightarrow> (case rev bs of [] \<Rightarrow> \<not> m | sb # _ \<Rightarrow> \<not> bd_may_be_unbound (snd sb)))"
  using assms
proof (induction es arbitrary: m)
  case Nil
  then show ?case by (cases m) auto
next
  case (Cons e es)
  show ?case
  proof (cases m)
    case True
    from Cons.prems obtain sb where sb: "e = Some sb" "P sb" by auto
    from Cons.IH [of "bd_may_be_unbound (snd sb)"] Cons.prems obtain bs where bs:
      "fall_through (bd_may_be_unbound (snd sb)) es = Some bs" "\<forall>sb\<in>set bs. P sb" "bs \<noteq> [] \<longrightarrow> bd_may_be_unbound (snd sb)"
      "\<forall>i. Suc i < length bs \<longrightarrow> bd_may_be_unbound (snd (bs ! i))"
      "length bs < length es \<longrightarrow> (case rev bs of [] \<Rightarrow> \<not> bd_may_be_unbound (snd sb) | sb # _ \<Rightarrow> \<not> bd_may_be_unbound (snd sb))"
      by auto
    have "bd_may_be_unbound (snd ((sb # bs) ! i))" if "Suc i < length (sb # bs)" for i
      using that bs(3,4) by (cases i) auto
    moreover have "length (sb # bs) < length (e # es) \<longrightarrow>
        (case rev (sb # bs) of [] \<Rightarrow> \<not> m | sb # _ \<Rightarrow> \<not> bd_may_be_unbound (snd sb))"
      using bs(5) by (cases "rev bs") auto
    ultimately show ?thesis using True sb bs(1,2) by (intro exI [of _ "sb # bs"]) simp
  qed simp
qed

lemma reaching_bindings_total:
  assumes ok: "index_ok ix" and s: "s < length (ix_scopes ix)" and u: "u < length (ix_uses ix ! s)"
  obtains b0 bs where "reaching_bindings ix s u = Some ((s, b0) # bs)"
    and "\<forall>(s', b)\<in>set ((s, b0) # bs). s' \<in> set (chain (ix_scopes ix) s) \<and>
      (\<forall>d\<in>set (bd_definitions b). d < length (ix_definitions ix ! s') \<and> def_name ix s' d = use_name ix s u)"
    and "\<forall>i. Suc i < length ((s, b0) # bs) \<longrightarrow> bd_may_be_unbound (snd (((s, b0) # bs) ! i))"
proof -
  note fin = index_okD(6) [OF ok s]
  let ?b0 = "ud_bindings_by_use (ix_use_def_maps ix ! s) ! u"
  let ?P = "\<lambda>(s', b). s' \<in> set (chain (ix_scopes ix) s) \<and>
      (\<forall>d\<in>set (bd_definitions b). d < length (ix_definitions ix ! s') \<and> def_name ix s' d = use_name ix s u)"
  have b0: "ud_bindings_at_use (ix_use_def_maps ix ! s) u = Some ?b0"
    "bd_for (map df_symbol (ix_definitions ix ! s)) (us_symbol (ix_uses ix ! s ! u)) ?b0"
    using fin u by (simp_all add: scope_finished_def ud_bindings_at_use_def)
  have "\<forall>e\<in>set (enclosing_bindings_chain ix s u). \<exists>sb. e = Some sb \<and> ?P sb"
  proof (cases "ix_enclosing_snapshots ix (s, u)")
    case (Some chn)
    have "\<exists>sb. snapshot_bindings ix e = Some sb \<and> ?P sb" if "e \<in> set chn" for e
      by (rule snapshot_bindings_total [OF ok s u index_okD(7) [OF ok Some that]]) auto
    with Some show ?thesis by (simp add: enclosing_bindings_chain_def)
  qed (simp add: enclosing_bindings_chain_def)
  from fall_through_total [OF this, of "bd_may_be_unbound ?b0"] obtain bs where bs:
    "fall_through (bd_may_be_unbound ?b0) (enclosing_bindings_chain ix s u) = Some bs" "\<forall>sb\<in>set bs. ?P sb"
    "bs \<noteq> [] \<longrightarrow> bd_may_be_unbound ?b0" "\<forall>i. Suc i < length bs \<longrightarrow> bd_may_be_unbound (snd (bs ! i))" by blast
  have "?P (s, ?b0)"
    using bd_for_names [OF b0(2)] chain_self [OF index_arena(2) [OF ok] s] by (simp add: use_name_def)
  moreover have "bd_may_be_unbound (snd (((s, ?b0) # bs) ! i))" if "Suc i < length ((s, ?b0) # bs)" for i
    using that bs(3,4) by (cases i) auto
  moreover have "reaching_bindings ix s u = Some ((s, ?b0) # bs)"
    using b0(1) bs(1) s index_okD(5) [OF ok] by (simp add: reaching_bindings_def)
  moreover have "\<forall>sb\<in>set ((s, ?b0) # bs). ?P sb" using bs(2) calculation(1) by simp
  ultimately show ?thesis by (intro that [of ?b0 bs]) blast+
qed

section \<open>Uses by name\<close>

lemma uses_in_scope_total:
  assumes ok: "index_ok ix" and s: "s < length (ix_scopes ix)"
  shows "uses_in_scope ix name s = Some (map (\<lambda>u. (s, u, ix_uses ix ! s ! u))
    (filter (\<lambda>u. use_name ix s u = name) [0..<length (ix_uses ix ! s)]))"
proof -
  let ?us = "ix_uses ix ! s"
  have use: "us_symbol (?us ! u) = sid \<longleftrightarrow> use_name ix s u = name"
    if "st_id (ix_symbol_tables ix ! s) name = Some sid" "u < length ?us" for u sid
    using symbol_id [OF ok s use_symbol_range [OF ok s that(2)], of name] that(1) by (auto simp: use_name_def)
  have iter: "iv_iter ?us = map (\<lambda>u. (u, ?us ! u)) [0..<length ?us]"
    by (rule nth_equalityI) (simp_all add: iv_iter_def)
  show ?thesis
  proof (cases "st_id (ix_symbol_tables ix ! s) name")
    case None
    have "use_name ix s u \<noteq> name" if "u < length ?us" for u
      using symbol_id [OF ok s use_symbol_range [OF ok s that], of name] None by (simp add: use_name_def)
    then have "filter (\<lambda>u. use_name ix s u = name) [0..<length ?us] = []" by (simp add: filter_empty_conv)
    with None s index_okD(2) [OF ok] show ?thesis by (simp add: uses_in_scope_def)
  next
    case (Some sid)
    have "filter (\<lambda>u. us_symbol (?us ! u) = sid) [0..<length ?us] = filter (\<lambda>u. use_name ix s u = name) [0..<length ?us]"
      using use [OF Some] by (intro filter_cong) auto
    with Some s index_okD(2,4) [OF ok] show ?thesis by (simp add: uses_in_scope_def iter filter_map comp_def)
  qed
qed

lemma foldM_append_total:
  assumes "\<And>x. x \<in> set xs \<Longrightarrow> f x = Some (g x)"
  shows "foldM (\<lambda>x acc. do { ys \<leftarrow> f x; Some (acc @ ys) }) xs acc = Some (acc @ concat (map g xs))"
  using assms by (induction xs arbitrary: acc) auto

lemma uses_of_total:
  assumes ok: "index_ok ix"
  shows "uses_of ix name = Some (concat (map (\<lambda>s. map (\<lambda>u. (s, u, ix_uses ix ! s ! u))
    (filter (\<lambda>u. use_name ix s u = name) [0..<length (ix_uses ix ! s)])) [0..<length (ix_scopes ix)]))"
proof -
  have "scope_ids ix = [0..<length (ix_scopes ix)]" by (simp add: scope_ids_def iv_iter_def)
  then show ?thesis
    unfolding uses_of_def using uses_in_scope_total [OF ok] by (subst foldM_append_total) auto
qed

section \<open>Attached packages\<close>

lemma scope_is_eager_total:
  "index_ok ix \<Longrightarrow> s < length (ix_scopes ix) \<Longrightarrow>
    scope_is_eager ix s = Some (\<forall>a\<in>set (chain (ix_scopes ix) s). \<not> kind_is_lazy (sc_kind (ix_scopes ix ! a)))"
  by (auto simp: scope_is_eager_def enclosing_lazy_scope_def ancestors_chain find_None_iff)

lemma attached_packages_total:
  assumes ok: "index_ok ix"
  shows "attached_packages ix = Some (concat (map attach_package (filter (\<lambda>c.
    \<forall>a\<in>set (chain (ix_scopes ix) (ca_scope c)). \<not> kind_is_lazy (sc_kind (ix_scopes ix ! a))) (ix_semantic_calls ix))))"
proof -
  let ?eager = "\<lambda>c. \<forall>a\<in>set (chain (ix_scopes ix) (ca_scope c)). \<not> kind_is_lazy (sc_kind (ix_scopes ix ! a))"
  have "foldM (\<lambda>c acc. do { e \<leftarrow> scope_is_eager ix (ca_scope c); Some (if e then acc @ attach_package c else acc) }) cs acc =
      Some (acc @ concat (map attach_package (filter ?eager cs)))" if "\<forall>c\<in>set cs. ca_scope c < length (ix_scopes ix)" for cs acc
    using that by (induction cs arbitrary: acc) (auto simp: scope_is_eager_total [OF ok])
  with index_okD(10) [OF ok] show ?thesis by (simp add: attached_packages_def)
qed

section \<open>Exports\<close>

lemma those_map_Some: "(\<And>x. x \<in> set xs \<Longrightarrow> f x = Some (g x)) \<Longrightarrow> those (map f xs) = Some (map g xs)"
  by (induction xs) auto

lemma final_range:
  assumes ok: "index_ok ix" and i: "i < length (ix_final_bindings ix)" "d \<in> set (bd_definitions (ix_final_bindings ix ! i))"
  shows "d < length (ix_definitions ix ! 0)" and "def_name ix 0 d = symbol_name ix 0 i"
  using bd_for_names [OF index_okD(9) [OF ok i(1)] i(2)] by auto

definition final_defs :: "semantic_index \<Rightarrow> nat \<Rightarrow> (nat \<times> defn) list" where
  "final_defs ix i = map (\<lambda>d. (d, ix_definitions ix ! 0 ! d)) (bd_definitions (ix_final_bindings ix ! i))"

lemma file_definitions_final:
  assumes ok: "index_ok ix" and i: "i < length (ix_final_bindings ix)"
  shows "file_definitions ix (bd_definitions (ix_final_bindings ix ! i)) = Some (final_defs ix i)"
  using index_arena(3) [OF ok] index_okD(3) [OF ok] final_range(1) [OF ok i]
  by (simp add: file_definitions_def final_defs_def those_map_Some)

lemma final_names_distinct:
  assumes ok: "index_ok ix" and i: "i < length (ix_final_bindings ix)" and j: "j < length (ix_final_bindings ix)"
    and same: "symbol_name ix 0 i = symbol_name ix 0 j"
  shows "i = j"
proof -
  have "i < st_len (ix_symbol_tables ix ! 0)" "j < st_len (ix_symbol_tables ix ! 0)" using i j index_okD(8) [OF ok] by linarith+
  with symbol_id [OF ok index_arena(3) [OF ok]] same show ?thesis by (metis option.inject)
qed

text \<open>After the first \<open>k\<close> entries the map holds exactly their nonempty definition lists.\<close>

lemma exports_prefix:
  assumes ok: "index_ok ix"
  shows "k \<le> length (ix_final_bindings ix) \<Longrightarrow>
    \<exists>acc. foldM (exports_step ix (ix_symbol_tables ix ! 0)) (take k (iv_iter (ix_final_bindings ix))) [] = Some acc \<and>
      (\<forall>i<k. final_defs ix i \<noteq> [] \<longrightarrow> map_of acc (symbol_name ix 0 i) = Some (final_defs ix i)) \<and>
      (\<forall>name. (\<forall>i<k. final_defs ix i \<noteq> [] \<longrightarrow> symbol_name ix 0 i \<noteq> name) \<longrightarrow> map_of acc name = None)"
proof (induction k)
  case (Suc k)
  let ?fb = "ix_final_bindings ix"
  from Suc obtain acc where acc:
    "foldM (exports_step ix (ix_symbol_tables ix ! 0)) (take k (iv_iter ?fb)) [] = Some acc"
    "\<forall>i<k. final_defs ix i \<noteq> [] \<longrightarrow> map_of acc (symbol_name ix 0 i) = Some (final_defs ix i)"
    "\<forall>name. (\<forall>i<k. final_defs ix i \<noteq> [] \<longrightarrow> symbol_name ix 0 i \<noteq> name) \<longrightarrow> map_of acc name = None" by auto
  have k: "k < length ?fb" using Suc.prems by simp
  then have sym: "st_symbol (ix_symbol_tables ix ! 0) k = Some (st_symbols (ix_symbol_tables ix ! 0) ! k)"
    using index_okD(8) [OF ok] by (simp add: st_symbol_def st_len_def)
  have other: "symbol_name ix 0 i \<noteq> symbol_name ix 0 k" if "i < k" for i
    using final_names_distinct [OF ok _ k, of i] that k by auto
  then have fresh: "map_of acc (symbol_name ix 0 k) = None" using acc(3) by blast
  let ?acc = "if final_defs ix k = [] then acc else AList.update (symbol_name ix 0 k) (final_defs ix k) acc"
  have step: "exports_step ix (ix_symbol_tables ix ! 0) (k, ?fb ! k) acc = Some ?acc"
    using file_definitions_final [OF ok k] sym fresh
    by (auto simp: exports_step_def final_defs_def symbol_name_def)
  have "take (Suc k) (iv_iter ?fb) = take k (iv_iter ?fb) @ [(k, ?fb ! k)]"
    using k by (simp add: take_Suc_conv_app_nth iv_iter_nth)
  then have "foldM (exports_step ix (ix_symbol_tables ix ! 0)) (take (Suc k) (iv_iter ?fb)) [] = Some ?acc"
    using acc(1) step by (simp add: foldM_append)
  moreover have "map_of ?acc (symbol_name ix 0 i) = Some (final_defs ix i)" if "i < Suc k" "final_defs ix i \<noteq> []" for i
    using that acc(2) other by (cases "i = k") (auto simp: AList.update_conv')
  moreover have "map_of ?acc name = None" if "\<forall>i<Suc k. final_defs ix i \<noteq> [] \<longrightarrow> symbol_name ix 0 i \<noteq> name" for name
    using that acc(3) by (auto simp: AList.update_conv')
  ultimately show ?case by blast
qed simp

lemma export_total:
  assumes ok: "index_ok ix"
  shows "export ix name = Some (case st_id (ix_symbol_tables ix ! 0) name of None \<Rightarrow> []
    | Some sid \<Rightarrow> if sid < length (ix_final_bindings ix) then final_defs ix sid else [])"
  using index_arena(3) [OF ok] index_okD(2,3) [OF ok] file_definitions_final [OF ok]
  by (auto simp: export_def final_of_def file_definitions_def iv_get_def split: option.splits)

lemma exports_total:
  assumes ok: "index_ok ix"
  obtains m where "exports ix = Some m"
    and "\<forall>name. map_of m name = (case export ix name of Some (d # ds) \<Rightarrow> Some (d # ds) | _ \<Rightarrow> None)"
proof -
  let ?n = "length (ix_final_bindings ix)"
  from exports_prefix [OF ok order_refl] obtain m where m:
    "foldM (exports_step ix (ix_symbol_tables ix ! 0)) (iv_iter (ix_final_bindings ix)) [] = Some m"
    "\<forall>i<?n. final_defs ix i \<noteq> [] \<longrightarrow> map_of m (symbol_name ix 0 i) = Some (final_defs ix i)"
    "\<forall>name. (\<forall>i<?n. final_defs ix i \<noteq> [] \<longrightarrow> symbol_name ix 0 i \<noteq> name) \<longrightarrow> map_of m name = None" by auto
  have "map_of m name = (case export ix name of Some (d # ds) \<Rightarrow> Some (d # ds) | _ \<Rightarrow> None)" for name
  proof (cases "\<exists>i<?n. final_defs ix i \<noteq> [] \<and> symbol_name ix 0 i = name")
    case True
    then obtain i where i: "i < ?n" "final_defs ix i \<noteq> []" "symbol_name ix 0 i = name" by blast
    moreover have "i < st_len (ix_symbol_tables ix ! 0)" using i(1) index_okD(8) [OF ok] by linarith
    ultimately have "st_id (ix_symbol_tables ix ! 0) name = Some i" using symbol_id [OF ok index_arena(3) [OF ok]] by blast
    with i m(2) show ?thesis by (cases "final_defs ix i") (auto simp: export_total [OF ok])
  next
    case False
    have "symbol_name ix 0 sid = name" if "st_id (ix_symbol_tables ix ! 0) name = Some sid" for sid
      using that finished_id [OF ok index_arena(3) [OF ok]] by (simp add: symbol_name_def)
    with False have "export ix name = Some []" by (auto simp: export_total [OF ok] split: option.splits)
    moreover have "map_of m name = None" using m(3) False by blast
    ultimately show ?thesis by simp
  qed
  moreover have "exports ix = Some m" using m(1) index_arena(3) [OF ok] index_okD(2) [OF ok] by (simp add: exports_def)
  ultimately show ?thesis using that by blast
qed

lemma export_names:
  assumes ok: "index_ok ix" and "export ix name = Some ds" and "(i, d) \<in> set ds"
  shows "i < length (ix_definitions ix ! 0)" and "d = ix_definitions ix ! 0 ! i" and "def_name ix 0 i = name"
proof -
  from assms obtain sid where sid: "st_id (ix_symbol_tables ix ! 0) name = Some sid" "sid < length (ix_final_bindings ix)"
    "(i, d) \<in> set (final_defs ix sid)" by (auto simp: export_total [OF ok] split: option.splits if_splits)
  moreover have "symbol_name ix 0 sid = name"
    using sid(1) finished_id [OF ok index_arena(3) [OF ok]] by (simp add: symbol_name_def)
  ultimately show "i < length (ix_definitions ix ! 0)" "d = ix_definitions ix ! 0 ! i" "def_name ix 0 i = name"
    using final_range [OF ok sid(2)] by (auto simp: final_defs_def)
qed

end
