(* ===== verification/Sample_File.thy ===== *)
theory Sample_File
  imports Index_Queries
begin

text \<open>
  A small R file, the concrete input of the instances of the theorems about \<open>build_index\<close>:

  \<^verbatim>\<open>x <- 1
f <- function() x
base::library(dplyr)\<close>
\<close>

definition span :: "nat \<Rightarrow> nat \<Rightarrow> text_range" where
  "span i j = \<lparr>tr_start = i, tr_end = j\<rparr>"

definition sample_file :: "r_expr list" where
  "sample_file = [
     RBinaryExpression (span 0 6) (Some (RIdentifier (span 0 1) ''x'')) (Some \<lparr>tk_kind = ASSIGN, tk_text = ''<-''\<rparr>)
       (Some (ROtherExpression (span 5 6) [])),
     RBinaryExpression (span 7 24) (Some (RIdentifier (span 7 8) ''f'')) (Some \<lparr>tk_kind = ASSIGN, tk_text = ''<-''\<rparr>)
       (Some (RFunctionDefinition (span 12 24) (Some []) (Some (RIdentifier (span 23 24) ''x'')))),
     RCall (span 25 45)
       (Some (RNamespaceExpression (span 25 38) (Some (SelIdentifier (span 25 29) ''base''))
          (Some \<lparr>tk_kind = COLON2, tk_text = ''::''\<rparr>) (Some (SelIdentifier (span 31 38) ''library''))))
       (Some [RArgument None (Some (RIdentifier (span 39 44) ''dplyr''))])]"

definition sample_index :: semantic_index where
  "sample_index = the (build_index noop_imports_resolver (span 0 45) sample_file)"

lemma sample_calls: "calls_distinct sample_file"
  by code_simp

lemma sample_built: "build_index noop_imports_resolver (span 0 45) sample_file = Some sample_index"
  using build_index_returns [OF sample_calls, of noop_imports_resolver "span 0 45"] by (auto simp: sample_index_def)

end
