(* ===== verification/Index_Properties.thy ===== *)
theory Index_Properties
  imports Sample_File
begin

text \<open>
  What the index promises about a file, as theorems about \<open>build_index\<close> and the queries: no
  theorem here assumes more of the index than that the builder returned it. Each theorem is
  followed by its instance on the sample file.
\<close>

section \<open>Building\<close>

text \<open>
  C2. Indexing never panics and always ends. Whatever the imports resolver answers, \<open>build_index\<close>
  returns an index on every file, malformed ones included: no arena access of the scan or the walk
  is out of range, no pop meets an empty stack, and the bound on the recursion is never reached.
\<close>

theorem build_index_total:
  assumes "calls_distinct es"
  shows "\<exists>ix. build_index R r es = Some ix"
  using build_index_returns [OF assms, of R r] by blast

theorem build_index_total_witness:
  "\<exists>ix. build_index noop_imports_resolver (span 0 45) sample_file = Some ix"
  using build_index_total [OF sample_calls] .

text \<open>
  C3. Every id of an index points where it should. The per-scope arenas are parallel to the scopes;
  in each scope the symbol table is its own inverse, every definition and every use has a symbol of
  the table, every symbol flagged as bound has a definition, every use has its bindings, and these
  are definitions of the use's symbol; every semantic call lies in a scope.
\<close>

theorem build_index_well_formed:
  assumes "calls_distinct es" and "build_index R r es = Some ix" and "s < length (ix_scopes ix)"
  shows "length (ix_symbol_tables ix) = length (ix_scopes ix) \<and> length (ix_definitions ix) = length (ix_scopes ix) \<and>
    length (ix_uses ix) = length (ix_scopes ix) \<and> length (ix_use_def_maps ix) = length (ix_scopes ix) \<and>
    st_wf (ix_symbol_tables ix ! s) \<and>
    (\<forall>d\<in>set (ix_definitions ix ! s). df_symbol d < st_len (ix_symbol_tables ix ! s)) \<and>
    (\<forall>u\<in>set (ix_uses ix ! s). us_symbol u < st_len (ix_symbol_tables ix ! s)) \<and>
    (\<forall>sid < st_len (ix_symbol_tables ix ! s). flags_contains (sy_flags (st_symbols (ix_symbol_tables ix ! s) ! sid)) IS_BOUND \<longrightarrow>
       (\<exists>d\<in>set (ix_definitions ix ! s). df_symbol d = sid)) \<and>
    (\<forall>u<length (ix_uses ix ! s). \<exists>b. ud_bindings_at_use (ix_use_def_maps ix ! s) u = Some b \<and>
       (\<forall>d\<in>set (bd_definitions b). d < length (ix_definitions ix ! s) \<and>
          df_symbol (ix_definitions ix ! s ! d) = us_symbol (ix_uses ix ! s ! u))) \<and>
    (\<forall>c\<in>set (ix_semantic_calls ix). ca_scope c < length (ix_scopes ix))"
proof -
  note ok = build_index_ok [OF assms(1,2)]
  note fin = index_okD(6) [OF ok assms(3)]
  have "\<exists>b. ud_bindings_at_use (ix_use_def_maps ix ! s) u = Some b \<and>
       (\<forall>d\<in>set (bd_definitions b). d < length (ix_definitions ix ! s) \<and>
          df_symbol (ix_definitions ix ! s ! d) = us_symbol (ix_uses ix ! s ! u))" if "u < length (ix_uses ix ! s)" for u
  proof -
    let ?b = "ud_bindings_by_use (ix_use_def_maps ix ! s) ! u"
    have "ud_bindings_at_use (ix_use_def_maps ix ! s) u = Some ?b"
      and b: "bd_for (map df_symbol (ix_definitions ix ! s)) (us_symbol (ix_uses ix ! s ! u)) ?b"
      using fin that by (simp_all add: scope_finished_def ud_bindings_at_use_def)
    moreover have "\<forall>d\<in>set (bd_definitions ?b). d < length (ix_definitions ix ! s) \<and>
        df_symbol (ix_definitions ix ! s ! d) = us_symbol (ix_uses ix ! s ! u)"
      using b by (auto simp: bd_for_def defs_for_def)
    ultimately show ?thesis by blast
  qed
  moreover have "\<forall>c\<in>set (ix_semantic_calls ix). ca_scope c < length (ix_scopes ix)" using index_okD(10) [OF ok] by blast
  ultimately show ?thesis using fin index_okD(2-5) [OF ok] unfolding scope_finished_def by blast
qed

theorem build_index_well_formed_witness:
  "length (ix_symbol_tables sample_index) = 2 \<and> st_wf (ix_symbol_tables sample_index ! 1)"
proof -
  have n: "length (ix_scopes sample_index) = 2" by code_simp
  then have "1 < length (ix_scopes sample_index)" by simp
  from build_index_well_formed [OF sample_calls sample_built this] n show ?thesis by simp
qed

section \<open>The scope tree\<close>

text \<open>
  C12. The scope arena of an index is a tree in preorder. The children a scope's iterator yields
  are exactly the scopes whose parent it is, in order; its block of descendants holds exactly the
  scopes that have it as a proper ancestor; the ancestor chain of a scope starts at the scope and
  ends at the file scope.
\<close>

theorem scope_tree:
  assumes "calls_distinct es" and "build_index R r es = Some ix"
    and "s < length (ix_scopes ix)" and "c < length (ix_scopes ix)"
  shows "child_scope_ids ix s = Some (filter (\<lambda>j. sc_parent (ix_scopes ix ! j) = Some s) [0..<length (ix_scopes ix)]) \<and>
    (\<exists>as. ancestor_scope_ids ix c = Some as \<and> as \<noteq> [] \<and> hd as = c \<and> last as = 0 \<and>
      (sc_desc_start (ix_scopes ix ! s) \<le> c \<and> c < sc_desc_end (ix_scopes ix ! s) \<longleftrightarrow> s \<noteq> c \<and> s \<in> set as))"
proof
  note ok = build_index_ok [OF assms(1,2)]
  show "child_scope_ids ix s = Some (filter (\<lambda>j. sc_parent (ix_scopes ix ! j) = Some s) [0..<length (ix_scopes ix)])"
    by (rule child_scope_ids_closed [OF index_okD(1) [OF ok] assms(3)])
  have "sc_desc_start (ix_scopes ix ! s) = Suc s" using arena_at_stop [OF index_arena(1) [OF ok] assms(3)] by simp
  with arena_block_iff_ancestor [OF index_arena(1) [OF ok] assms(3,4)]
  have "sc_desc_start (ix_scopes ix ! s) \<le> c \<and> c < sc_desc_end (ix_scopes ix ! s) \<longleftrightarrow>
      s \<noteq> c \<and> s \<in> set (chain (ix_scopes ix) c)" by (simp add: Suc_le_eq)
  then show "\<exists>as. ancestor_scope_ids ix c = Some as \<and> as \<noteq> [] \<and> hd as = c \<and> last as = 0 \<and>
      (sc_desc_start (ix_scopes ix ! s) \<le> c \<and> c < sc_desc_end (ix_scopes ix ! s) \<longleftrightarrow> s \<noteq> c \<and> s \<in> set as)"
    using chain_ends [OF ok assms(4)] ancestors_chain [OF ok assms(4)] by blast
qed

theorem scope_tree_witness:
  "child_scope_ids sample_index 0 = Some [1] \<and> ancestor_scope_ids sample_index 1 = Some [1, 0]"
proof -
  have n: "length (ix_scopes sample_index) = 2" by code_simp
  have "filter (\<lambda>j. sc_parent (ix_scopes sample_index ! j) = Some 0) [0..<length (ix_scopes sample_index)] = [1]" by code_simp
  moreover have "ancestor_scope_ids sample_index 1 = Some [1, 0]" by code_simp
  ultimately show ?thesis using scope_tree [OF sample_calls sample_built, of 0 1] n by simp
qed

text \<open>
  C16. \<open>scope_at\<close> finds the innermost scope. At every offset it returns a scope; all scopes on the
  way down to it contain the offset and none of its children does.
\<close>

theorem scope_at_innermost:
  assumes "calls_distinct es" and "build_index R r es = Some ix"
  shows "\<exists>s as. scope_at ix offset = Some s \<and> ancestor_scope_ids ix s = Some as \<and>
    (\<forall>a\<in>set as. a \<noteq> 0 \<longrightarrow> tr_contains (sc_range (ix_scopes ix ! a)) offset) \<and>
    (\<forall>c<length (ix_scopes ix). sc_parent (ix_scopes ix ! c) = Some s \<longrightarrow>
       \<not> tr_contains (sc_range (ix_scopes ix ! c)) offset)"
proof -
  note ok = build_index_ok [OF assms]
  obtain s where "scope_at ix offset = Some s" "s < length (ix_scopes ix)"
    "\<forall>a\<in>set (chain (ix_scopes ix) s). a \<noteq> 0 \<longrightarrow> tr_contains (sc_range (ix_scopes ix ! a)) offset"
    "\<forall>c<length (ix_scopes ix). sc_parent (ix_scopes ix ! c) = Some s \<longrightarrow> \<not> tr_contains (sc_range (ix_scopes ix ! c)) offset"
    by (rule scope_at_total [OF ok])
  with ancestors_chain [OF ok] show ?thesis by blast
qed

theorem scope_at_innermost_witness:
  "scope_at sample_index 23 = Some 1 \<and> tr_contains (sc_range (ix_scopes sample_index ! 1)) 23"
proof -
  have "scope_at sample_index 23 = Some 1" "ancestor_scope_ids sample_index 1 = Some [1, 0]" by code_simp+
  with scope_at_innermost [OF sample_calls sample_built, of 23] show ?thesis by auto
qed

section \<open>Resolution\<close>

text \<open>
  C5. \<open>resolve\<close> finds the innermost binding scope. It never reaches the \<open>unreachable!\<close> of a
  bound symbol without a definition: from every scope it returns the first definition of the name
  in the nearest ancestor that binds the name, and nothing when no ancestor binds it.
\<close>

theorem resolve_nearest:
  assumes "calls_distinct es" and "build_index R r es = Some ix" and "s < length (ix_scopes ix)"
  shows "\<exists>as. ancestor_scope_ids ix s = Some as \<and>
    (case find (scope_binds ix name) as of
       None \<Rightarrow> resolve ix name s = Some None
     | Some a \<Rightarrow> \<exists>d. resolve ix name s = Some (Some (a, d, ix_definitions ix ! a ! d)) \<and> first_def ix name a d)"
proof -
  note ok = build_index_ok [OF assms(1,2)]
  have "\<forall>a\<in>set (chain (ix_scopes ix) s). a < length (ix_scopes ix)" using chain_range [OF ok assms(3)] by blast
  from resolve_first_total [OF ok this, of name] have "case find (scope_binds ix name) (chain (ix_scopes ix) s) of
       None \<Rightarrow> resolve ix name s = Some None
     | Some a \<Rightarrow> \<exists>d. resolve ix name s = Some (Some (a, d, ix_definitions ix ! a ! d)) \<and> first_def ix name a d"
    using ancestors_chain [OF ok assms(3)] by (simp add: resolve_def split: option.splits)
  with ancestors_chain [OF ok assms(3)] show ?thesis by blast
qed

theorem resolve_nearest_witness:
  "resolve sample_index ''x'' 1 = Some (Some (0, 0, ix_definitions sample_index ! 0 ! 0)) \<and> first_def sample_index ''x'' 0 0 \<and>
   resolve sample_index ''y'' 1 = Some None"
proof -
  have n: "1 < length (ix_scopes sample_index)" by code_simp
  have as: "ancestor_scope_ids sample_index 1 = Some [1, 0]" by code_simp
  have "find (scope_binds sample_index ''x'') [1, 0] = Some 0" "find (scope_binds sample_index ''y'') [1, 0] = None" by code_simp+
  moreover have "resolve sample_index ''x'' 1 = Some (Some (0, 0, ix_definitions sample_index ! 0 ! 0))" by code_simp
  ultimately show ?thesis
    using resolve_nearest [OF sample_calls sample_built n, of "''x''"] resolve_nearest [OF sample_calls sample_built n, of "''y''"] as by auto
qed

section \<open>Uses\<close>

text \<open>
  C8. Reaching bindings are definitions of the used name in enclosing scopes. For every use,
  \<open>reaching_bindings\<close> returns without panicking; it starts with the use's own scope, every entry
  belongs to an ancestor of that scope and holds only definitions of the name the use refers to,
  and the walk outwards continues exactly while the use may still be unbound: every entry but the
  last may be unbound.
\<close>

theorem reaching_bindings_named:
  assumes "calls_distinct es" and "build_index R r es = Some ix"
    and "s < length (ix_scopes ix)" and "u < length (ix_uses ix ! s)"
  shows "\<exists>as bs. ancestor_scope_ids ix s = Some as \<and> reaching_bindings ix s u = Some bs \<and> bs \<noteq> [] \<and> fst (hd bs) = s \<and>
    (\<forall>(s', b)\<in>set bs. s' \<in> set as \<and>
       (\<forall>d\<in>set (bd_definitions b). d < length (ix_definitions ix ! s') \<and> def_name ix s' d = use_name ix s u)) \<and>
    (\<forall>i. Suc i < length bs \<longrightarrow> bd_may_be_unbound (snd (bs ! i)))"
proof -
  note ok = build_index_ok [OF assms(1,2)]
  obtain b0 bs where "reaching_bindings ix s u = Some ((s, b0) # bs)"
    "\<forall>(s', b)\<in>set ((s, b0) # bs). s' \<in> set (chain (ix_scopes ix) s) \<and>
      (\<forall>d\<in>set (bd_definitions b). d < length (ix_definitions ix ! s') \<and> def_name ix s' d = use_name ix s u)"
    "\<forall>i. Suc i < length ((s, b0) # bs) \<longrightarrow> bd_may_be_unbound (snd (((s, b0) # bs) ! i))"
    by (rule reaching_bindings_total [OF ok assms(3,4)])
  with ancestors_chain [OF ok assms(3)] show ?thesis
    by (intro exI [of _ "chain (ix_scopes ix) s"] exI [of _ "(s, b0) # bs"]) simp
qed

theorem reaching_bindings_named_witness:
  "reaching_definitions sample_index 1 0 = Some [(0, 0)] \<and> def_name sample_index 0 0 = use_name sample_index 1 0"
proof -
  have n: "1 < length (ix_scopes sample_index)" "0 < length (ix_uses sample_index ! 1)" by code_simp+
  have bs: "reaching_bindings sample_index 1 0 = Some [(1, \<lparr>bd_definitions = [], bd_may_be_unbound = True\<rparr>),
      (0, \<lparr>bd_definitions = [0], bd_may_be_unbound = False\<rparr>)]" by code_simp
  with reaching_bindings_named [OF sample_calls sample_built n] show ?thesis by (auto simp: reaching_definitions_def)
qed

text \<open>
  C18. \<open>uses_of\<close> finds every use of a name and nothing else: scope by scope and in order, the
  uses whose symbol is spelled as the name.
\<close>

theorem uses_of_exact:
  assumes "calls_distinct es" and "build_index R r es = Some ix"
  shows "uses_of ix name = Some (concat (map (\<lambda>s. map (\<lambda>u. (s, u, ix_uses ix ! s ! u))
    (filter (\<lambda>u. use_name ix s u = name) [0..<length (ix_uses ix ! s)])) [0..<length (ix_scopes ix)]))"
  using build_index_ok [OF assms] by (rule uses_of_total)

theorem uses_of_exact_witness:
  "uses_of sample_index ''x'' = Some [(1, 0, ix_uses sample_index ! 1 ! 0)]"
proof -
  have "concat (map (\<lambda>s. map (\<lambda>u. (s, u, ix_uses sample_index ! s ! u))
    (filter (\<lambda>u. use_name sample_index s u = ''x'') [0..<length (ix_uses sample_index ! s)])) [0..<length (ix_scopes sample_index)])
    = [(1, 0, ix_uses sample_index ! 1 ! 0)]" by code_simp
  with uses_of_exact [OF sample_calls sample_built, of "''x''"] show ?thesis by simp
qed

text \<open>
  C17. Queries panic exactly on ids of another index. On the index of a file, asking for the children
  of a scope, resolving a name from it, and asking for the bindings that reach a use panic if and
  only if the scope, or the use, is not one of the index.
\<close>

theorem queries_panic_iff:
  assumes "calls_distinct es" and "build_index R r es = Some ix"
  shows "(child_scope_ids ix s = None \<longleftrightarrow> length (ix_scopes ix) \<le> s) \<and>
    (resolve ix name s = None \<longleftrightarrow> length (ix_scopes ix) \<le> s) \<and>
    (reaching_bindings ix s u = None \<longleftrightarrow> length (ix_scopes ix) \<le> s \<or> length (ix_uses ix ! s) \<le> u)"
proof -
  note ok = build_index_ok [OF assms]
  show ?thesis
  proof (cases "s < length (ix_scopes ix)")
    case True
    have "resolve ix name s \<noteq> None"
      using resolve_first_total [OF ok, of "chain (ix_scopes ix) s" name] chain_range [OF ok True] ancestors_chain [OF ok True]
      by (auto simp: resolve_def split: option.splits)
    moreover have "reaching_bindings ix s u \<noteq> None" if "u < length (ix_uses ix ! s)"
      by (rule reaching_bindings_total [OF ok True that]) simp
    moreover have "reaching_bindings ix s u = None" if "length (ix_uses ix ! s) \<le> u"
      using that True index_okD(5) [OF ok] index_okD(6) [OF ok True]
      by (simp add: reaching_bindings_def ud_bindings_at_use_def scope_finished_def iv_get_def)
    moreover have "child_scope_ids ix s \<noteq> None" using child_scope_ids_closed [OF index_okD(1) [OF ok] True] by simp
    ultimately show ?thesis using True not_le by blast
  next
    case False
    then have "ancestor_scope_ids ix s = None"
      by (cases "ix_scopes ix") (simp_all add: ancestor_scope_ids_def scope_ancestors_def iv_get_def)
    with False show ?thesis using index_okD(5) [OF ok]
      by (simp add: child_scope_ids_def resolve_def reaching_bindings_def iv_get_def)
  qed
qed

theorem queries_panic_iff_witness:
  "resolve sample_index ''x'' 2 = None \<and> resolve sample_index ''x'' 1 \<noteq> None \<and> reaching_bindings sample_index 1 1 = None"
proof -
  have "length (ix_scopes sample_index) = 2" "length (ix_uses sample_index ! 1) = 1" by code_simp+
  with queries_panic_iff [OF sample_calls sample_built] show ?thesis by simp
qed

section \<open>Exports and attaches\<close>

text \<open>
  C19. The two export queries agree. \<open>exports\<close> returns, its map has an entry for a name exactly
  when \<open>export\<close> of that name is not empty, and then the same definitions; they are definitions of
  that name in the file scope.
\<close>

theorem exports_agree:
  assumes "calls_distinct es" and "build_index R r es = Some ix"
  shows "\<exists>m. exports ix = Some m \<and> (\<forall>name. \<exists>ds. export ix name = Some ds \<and>
    map_of m name = (if ds = [] then None else Some ds) \<and>
    (\<forall>(i, d)\<in>set ds. i < length (ix_definitions ix ! 0) \<and> d = ix_definitions ix ! 0 ! i \<and> def_name ix 0 i = name))"
proof -
  note ok = build_index_ok [OF assms]
  obtain m where m: "exports ix = Some m"
    "\<forall>name. map_of m name = (case export ix name of Some (d # ds) \<Rightarrow> Some (d # ds) | _ \<Rightarrow> None)" by (rule exports_total [OF ok])
  have "\<exists>ds. export ix name = Some ds \<and> map_of m name = (if ds = [] then None else Some ds) \<and>
    (\<forall>(i, d)\<in>set ds. i < length (ix_definitions ix ! 0) \<and> d = ix_definitions ix ! 0 ! i \<and> def_name ix 0 i = name)" for name
  proof -
    obtain ds where ds: "export ix name = Some ds" using export_total [OF ok] by blast
    with m(2) have "map_of m name = (if ds = [] then None else Some ds)" by (cases ds) auto
    with ds export_names [OF ok ds] show ?thesis by blast
  qed
  with m(1) show ?thesis by blast
qed

theorem exports_agree_witness:
  "(\<exists>m. exports sample_index = Some m \<and> map_of m ''f'' = export sample_index ''f'') \<and> def_name sample_index 0 1 = ''f''"
proof -
  have ds: "export sample_index ''f'' = Some [(1, ix_definitions sample_index ! 0 ! 1)]" by code_simp
  from exports_agree [OF sample_calls sample_built] obtain m where m: "exports sample_index = Some m"
    and all: "\<forall>name. \<exists>ds. export sample_index name = Some ds \<and> map_of m name = (if ds = [] then None else Some ds) \<and>
    (\<forall>(i, d)\<in>set ds. i < length (ix_definitions sample_index ! 0) \<and> d = ix_definitions sample_index ! 0 ! i \<and>
      def_name sample_index 0 i = name)" by (elim exE conjE) (rule that)
  from all [THEN spec, of "''f''"] ds m show ?thesis by auto
qed

text \<open>
  C20. Attached packages are those of eager code. \<open>attached_packages\<close> lists, in source order, the
  packages of the attach calls none of whose enclosing scopes is lazy: an attach inside a function
  body does not count for the file.
\<close>

theorem attached_packages_eager:
  assumes "calls_distinct es" and "build_index R r es = Some ix"
  shows "attached_packages ix = Some (concat (map attach_package (filter (\<lambda>c. case ancestor_scope_ids ix (ca_scope c) of
    None \<Rightarrow> False | Some as \<Rightarrow> \<forall>a\<in>set as. \<not> kind_is_lazy (sc_kind (ix_scopes ix ! a))) (ix_semantic_calls ix))))"
proof -
  note ok = build_index_ok [OF assms]
  have "filter (\<lambda>c. case ancestor_scope_ids ix (ca_scope c) of
      None \<Rightarrow> False | Some as \<Rightarrow> \<forall>a\<in>set as. \<not> kind_is_lazy (sc_kind (ix_scopes ix ! a))) (ix_semantic_calls ix) =
    filter (\<lambda>c. \<forall>a\<in>set (chain (ix_scopes ix) (ca_scope c)). \<not> kind_is_lazy (sc_kind (ix_scopes ix ! a))) (ix_semantic_calls ix)"
    using ancestors_chain [OF ok index_okD(10) [OF ok]] by (intro filter_cong) simp_all
  with attached_packages_total [OF ok] show ?thesis by simp
qed

theorem attached_packages_eager_witness:
  "attached_packages sample_index = Some [''dplyr'']"
proof -
  have "concat (map attach_package (filter (\<lambda>c. case ancestor_scope_ids sample_index (ca_scope c) of
    None \<Rightarrow> False | Some as \<Rightarrow> \<forall>a\<in>set as. \<not> kind_is_lazy (sc_kind (ix_scopes sample_index ! a))) (ix_semantic_calls sample_index)))
    = [''dplyr'']" by code_simp
  with attached_packages_eager [OF sample_calls sample_built] show ?thesis by simp
qed

end
