(* ===== verification/Flow_Commands.thy ===== *)
theory Flow_Commands
  imports Prelude
begin

text \<open>
  What the use-def map is about: the executions of structured code. A command is the skeleton of a
  piece of R code with its uses and definitions numbered; an execution observes, at each use, which
  definition the variable holds. The second half is the reference analysis: the definitions a
  command generates, whether it lets older ones pass, and per use the definitions that can reach
  it. It over-approximates every execution, interrupted ones included.
\<close>

section \<open>Commands and their executions\<close>

datatype cmd =
    CSkip
  | CUse nat string
  | CDef nat string
  | CSeq cmd cmd
  | CChoice cmd cmd
  | CPromise cmd
  | CStar cmd
  | CRepeat cmd
  | CWhile cmd cmd
  | CFor nat string cmd cmd

text \<open>The environment maps a variable to the definition it holds.\<close>

type_synonym env = "string \<rightharpoonup> nat"

type_synonym obs = "nat \<times> string \<times> nat option"

text \<open>
  \<open>exec c s os r\<close>: from \<open>s\<close>, \<open>c\<close> makes the observations \<open>os\<close> and ends in \<open>r\<close>, or is
  interrupted (\<open>None\<close>) at some point: by an error, or in a loop that never ends. A promise
  (an operand or an argument) is evaluated when it is forced, if ever.

  A \<open>for\<close> loop evaluates its sequence, sets its variable (to \<open>NULL\<close>, before the first
  iteration) and sets it again at the start of each iteration. A \<open>while\<close> loop evaluates its
  condition once more than its body.
\<close>

inductive exec :: "cmd \<Rightarrow> env \<Rightarrow> obs list \<Rightarrow> env option \<Rightarrow> bool" where
  interrupt: "exec c s [] None"
| skip: "exec CSkip s [] (Some s)"
| observe: "exec (CUse u x) s [(u, x, s x)] (Some s)"
| assign: "exec (CDef d x) s [] (Some (s(x \<mapsto> d)))"
| seq_stop: "exec a s os None \<Longrightarrow> exec (CSeq a c) s os None"
| seq: "exec a s os (Some t) \<Longrightarrow> exec c t os' r \<Longrightarrow> exec (CSeq a c) s (os @ os') r"
| choice_left: "exec a s os r \<Longrightarrow> exec (CChoice a c) s os r"
| choice_right: "exec c s os r \<Longrightarrow> exec (CChoice a c) s os r"
| promise_unforced: "exec (CPromise c) s [] (Some s)"
| promise_forced: "exec c s os r \<Longrightarrow> exec (CPromise c) s os r"
| star_end: "exec (CStar c) s [] (Some s)"
| star_step: "exec (CSeq c (CStar c)) s os r \<Longrightarrow> exec (CStar c) s os r"
| repeat_loop: "exec (CSeq c (CStar c)) s os r \<Longrightarrow> exec (CRepeat c) s os r"
| while_loop: "exec (CSeq a (CStar (CSeq c a))) s os r \<Longrightarrow> exec (CWhile a c) s os r"
| for_loop: "exec (CSeq a (CSeq (CDef d x) (CStar (CSeq (CDef d x) c)))) s os r \<Longrightarrow> exec (CFor d x a c) s os r"

text \<open>A scheduler: the executions that a list of decisions selects, interrupted when it runs out.\<close>

type_synonym outcome = "obs list \<times> env option \<times> bool list"

definition then_run :: "outcome \<Rightarrow> (bool list \<Rightarrow> env \<Rightarrow> outcome) \<Rightarrow> outcome" where
  "then_run p f = (case p of (os, None, ds) \<Rightarrow> (os, None, ds)
     | (os, Some t, ds) \<Rightarrow> (case f ds t of (os', r, ds') \<Rightarrow> (os @ os', r, ds')))"

definition decide :: "bool list \<Rightarrow> (bool \<Rightarrow> bool list \<Rightarrow> outcome) \<Rightarrow> outcome" where
  "decide ds f = (case ds of [] \<Rightarrow> ([], None, []) | d # ds \<Rightarrow> f d ds)"

fun sched :: "nat \<Rightarrow> cmd \<Rightarrow> bool list \<Rightarrow> env \<Rightarrow> outcome" where
  "sched 0 c ds s = ([], None, ds)"
| "sched (Suc n) CSkip ds s = ([], Some s, ds)"
| "sched (Suc n) (CUse u x) ds s = ([(u, x, s x)], Some s, ds)"
| "sched (Suc n) (CDef d x) ds s = ([], Some (s(x \<mapsto> d)), ds)"
| "sched (Suc n) (CSeq a c) ds s = then_run (sched n a ds s) (sched n c)"
| "sched (Suc n) (CChoice a c) ds s = decide ds (\<lambda>d ds. sched n (if d then a else c) ds s)"
| "sched (Suc n) (CPromise c) ds s = decide ds (\<lambda>d ds. if d then sched n c ds s else ([], Some s, ds))"
| "sched (Suc n) (CStar c) ds s = decide ds (\<lambda>d ds. if d then sched n (CSeq c (CStar c)) ds s else ([], Some s, ds))"
| "sched (Suc n) (CRepeat c) ds s = sched n (CSeq c (CStar c)) ds s"
| "sched (Suc n) (CWhile a c) ds s = sched n (CSeq a (CStar (CSeq c a))) ds s"
| "sched (Suc n) (CFor d x a c) ds s = sched n (CSeq a (CSeq (CDef d x) (CStar (CSeq (CDef d x) c)))) ds s"

lemma sched_exec: "sched n c ds s = (os, r, ds') \<Longrightarrow> exec c s os r"
proof (induction n c ds s arbitrary: os r ds' rule: sched.induct)
  case (5 n a c ds s)
  show ?case
  proof (cases "sched n a ds s")
    case (fields os1 r1 ds1)
    then have a: "exec a s os1 r1" by (rule 5(1))
    show ?thesis
    proof (cases r1)
      case None
      with 5(3) fields a show ?thesis by (auto simp: then_run_def intro: exec.intros)
    next
      case (Some t)
      obtain os2 r2 ds2 where "sched n c ds1 t = (os2, r2, ds2)" by (cases "sched n c ds1 t") auto
      moreover from this have "exec c t os2 r2" by (rule 5(2))
      ultimately show ?thesis using 5(3) fields a Some by (auto simp: then_run_def intro: exec.seq)
    qed
  qed
next
  case (6 n a c ds s)
  show ?case
  proof (cases ds)
    case (Cons d ds1)
    with 6 have "exec (if d then a else c) s os r" by (simp add: decide_def)
    then show ?thesis by (cases d) (auto intro: exec.intros)
  qed (use 6 in \<open>auto simp: decide_def intro: exec.intros\<close>)
qed (auto simp: decide_def intro: exec.intros split: list.splits if_splits)

lemma sched_observes: "ob \<in> set (fst (sched n c ds s)) \<Longrightarrow> \<exists>os r. exec c s os r \<and> ob \<in> set os"
  by (cases "sched n c ds s") (auto dest: sched_exec)

section \<open>The reference analysis\<close>

fun pass :: "cmd \<Rightarrow> string \<Rightarrow> bool" where
  "pass CSkip x = True"
| "pass (CUse u y) x = True"
| "pass (CDef d y) x = (x \<noteq> y)"
| "pass (CSeq a c) x = (pass a x \<and> pass c x)"
| "pass (CChoice a c) x = (pass a x \<or> pass c x)"
| "pass (CPromise c) x = True"
| "pass (CStar c) x = True"
| "pass (CRepeat c) x = pass c x"
| "pass (CWhile a c) x = pass a x"
| "pass (CFor d y a c) x = (x \<noteq> y \<and> pass a x)"

fun gen :: "cmd \<Rightarrow> string \<Rightarrow> nat set" where
  "gen CSkip x = {}"
| "gen (CUse u y) x = {}"
| "gen (CDef d y) x = (if x = y then {d} else {})"
| "gen (CSeq a c) x = (if pass c x then gen a x else {}) \<union> gen c x"
| "gen (CChoice a c) x = gen a x \<union> gen c x"
| "gen (CPromise c) x = gen c x"
| "gen (CStar c) x = gen c x"
| "gen (CRepeat c) x = gen c x"
| "gen (CWhile a c) x = gen a x \<union> gen c x"
| "gen (CFor d y a c) x = (if x = y then {d} else {}) \<union> gen a x \<union> gen c x"

text \<open>
  A fact about a use: its number and variable, the definitions inside the command that can reach
  it, and whether the value from before the command can.
\<close>

type_synonym fact = "nat \<times> string \<times> nat set \<times> bool"

definition after :: "cmd \<Rightarrow> fact \<Rightarrow> fact" where
  "after a f = (case f of (u, x, G, P) \<Rightarrow> (u, x, G \<union> (if P then gen a x else {}), P \<and> pass a x))"

definition carry :: "cmd \<Rightarrow> fact \<Rightarrow> fact" where
  "carry c f = (case f of (u, x, G, P) \<Rightarrow> (u, x, G \<union> (if P then gen c x else {}), P))"

fun facts :: "cmd \<Rightarrow> fact list" where
  "facts CSkip = []"
| "facts (CUse u x) = [(u, x, {}, True)]"
| "facts (CDef d x) = []"
| "facts (CSeq a c) = facts a @ map (after a) (facts c)"
| "facts (CChoice a c) = facts a @ facts c"
| "facts (CPromise c) = facts c"
| "facts (CStar c) = map (carry c) (facts c)"
| "facts (CRepeat c) = map (carry c) (facts c)"
| "facts (CWhile a c) = facts a @ map (after a) (map (carry c) (facts c))"
| "facts (CFor d x a c) = facts a @ map (after (CSeq (CDef d x) a)) (map (carry c) (facts c))"

fun writes :: "cmd \<Rightarrow> string list" where
  "writes CSkip = []"
| "writes (CUse u x) = []"
| "writes (CDef d x) = [x]"
| "writes (CSeq a c) = writes a @ writes c"
| "writes (CChoice a c) = writes a @ writes c"
| "writes (CPromise c) = writes c"
| "writes (CStar c) = writes c"
| "writes (CRepeat c) = writes c"
| "writes (CWhile a c) = writes a @ writes c"
| "writes (CFor d x a c) = x # writes a @ writes c"

fun reads :: "cmd \<Rightarrow> string list" where
  "reads CSkip = []"
| "reads (CUse u x) = [x]"
| "reads (CDef d x) = []"
| "reads (CSeq a c) = reads a @ reads c"
| "reads (CChoice a c) = reads a @ reads c"
| "reads (CPromise c) = reads c"
| "reads (CStar c) = reads c"
| "reads (CRepeat c) = reads c"
| "reads (CWhile a c) = reads a @ reads c"
| "reads (CFor d x a c) = reads a @ reads c"

text \<open>
  The commands the analysis is right about: a promise defines no variable, the condition of a
  \<open>while\<close> reads no variable the loop defines, and the sequence of a \<open>for\<close> neither reads nor
  defines the loop variable.
\<close>

fun tame :: "cmd \<Rightarrow> bool" where
  "tame (CSeq a c) = (tame a \<and> tame c)"
| "tame (CChoice a c) = (tame a \<and> tame c)"
| "tame (CPromise c) = (tame c \<and> writes c = [])"
| "tame (CStar c) = tame c"
| "tame (CRepeat c) = tame c"
| "tame (CWhile a c) = (tame a \<and> tame c \<and>
     list_all (\<lambda>x. x \<notin> set (writes a) \<and> x \<notin> set (writes c)) (reads a))"
| "tame (CFor d x a c) = (tame a \<and> tame c \<and> x \<notin> set (reads a) \<and> x \<notin> set (writes a))"
| "tame _ = True"

lemma not_defined: "x \<notin> set (writes c) \<Longrightarrow> gen c x = {} \<and> pass c x"
  by (induction c) auto

lemma facts_reads: "(u, x, G, P) \<in> set (facts c) \<Longrightarrow> x \<in> set (reads c)"
  by (induction c arbitrary: u x G P) (auto simp: after_def carry_def split: prod.splits)

section \<open>The analysis covers every execution\<close>

definition reaches :: "nat set \<Rightarrow> bool \<Rightarrow> nat option \<Rightarrow> nat option \<Rightarrow> bool" where
  "reaches G P old v \<longleftrightarrow> v \<in> Some ` G \<or> P \<and> v = old"

lemma reaches_mono: "reaches G P old v \<Longrightarrow> G \<subseteq> G' \<Longrightarrow> (P \<Longrightarrow> P') \<Longrightarrow> reaches G' P' old v"
  by (auto simp: reaches_def)

lemma reaches_trans: "reaches G P old v \<Longrightarrow> reaches G' P' v w \<Longrightarrow> reaches (G' \<union> (if P' then G else {})) (P' \<and> P) old w"
  by (auto simp: reaches_def)

lemma exec_state: "exec c s os r \<Longrightarrow> r = Some t \<Longrightarrow> tame c \<Longrightarrow> reaches (gen c x) (pass c x) (s x) (t x)"
proof (induction arbitrary: t rule: exec.induct)
  case (seq a s os t' c os' r)
  then have "reaches (gen a x) (pass a x) (s x) (t' x)" "reaches (gen c x) (pass c x) (t' x) (t x)" by simp_all
  from reaches_trans [OF this] show ?case by (rule reaches_mono) auto
next
  case (star_step c s os r)
  then have "reaches (gen (CSeq c (CStar c)) x) (pass (CSeq c (CStar c)) x) (s x) (t x)" by simp
  then show ?case by (rule reaches_mono) auto
next
  case (repeat_loop c s os r)
  then have "reaches (gen (CSeq c (CStar c)) x) (pass (CSeq c (CStar c)) x) (s x) (t x)" by simp
  then show ?case by (rule reaches_mono) auto
next
  case (while_loop a c s os r)
  then have "reaches (gen (CSeq a (CStar (CSeq c a))) x) (pass (CSeq a (CStar (CSeq c a))) x) (s x) (t x)" by simp
  then show ?case by (rule reaches_mono) (auto split: if_splits)
next
  case (for_loop a d y c s os r)
  let ?c = "CSeq a (CSeq (CDef d y) (CStar (CSeq (CDef d y) c)))"
  from for_loop have "reaches (gen ?c x) (pass ?c x) (s x) (t x)" by simp
  then show ?case by (rule reaches_mono) (auto split: if_splits)
qed (auto simp: reaches_def)

text \<open>A fact is at least as permissive as another.\<close>

definition fact_le :: "fact \<Rightarrow> fact \<Rightarrow> bool" where
  "fact_le f g \<longleftrightarrow> fst f = fst g \<and> fst (snd f) = fst (snd g) \<and> fst (snd (snd f)) \<subseteq> fst (snd (snd g)) \<and>
     (snd (snd (snd f)) \<longrightarrow> snd (snd (snd g)))"

lemma fact_le_refl [simp]: "fact_le f f"
  by (simp add: fact_le_def)

definition covered :: "fact list \<Rightarrow> env \<Rightarrow> obs list \<Rightarrow> bool" where
  "covered fs s os \<longleftrightarrow> (\<forall>(u, x, v)\<in>set os. \<exists>G P. (u, x, G, P) \<in> set fs \<and> reaches G P (s x) v)"

lemma covered_mono:
  assumes "covered fs s os" and "\<And>f. f \<in> set fs \<Longrightarrow> \<exists>g\<in>set gs. fact_le f g"
  shows "covered gs s os"
  unfolding covered_def
proof clarify
  fix u x v assume "(u, x, v) \<in> set os"
  with assms(1) obtain G P where f: "(u, x, G, P) \<in> set fs" "reaches G P (s x) v" unfolding covered_def by blast
  from assms(2) [OF f(1)] obtain g where g: "g \<in> set gs" "fact_le (u, x, G, P) g" by blast
  obtain u' x' G' P' where "g = (u', x', G', P')" by (cases g) auto
  with g have "(u, x, G', P') \<in> set gs" "G \<subseteq> G'" "P \<longrightarrow> P'" by (auto simp: fact_le_def)
  with f(2) show "\<exists>G P. (u, x, G, P) \<in> set gs \<and> reaches G P (s x) v" using reaches_mono by blast
qed

lemma covered_after:
  assumes "covered fs t os" and "\<And>x. reaches (gen a x) (pass a x) (s x) (t x)"
  shows "covered (map (after a) fs) s os"
  unfolding covered_def
proof clarify
  fix u x v assume "(u, x, v) \<in> set os"
  with assms(1) obtain G P where f: "(u, x, G, P) \<in> set fs" "reaches G P (t x) v" unfolding covered_def by blast
  then have "(u, x, G \<union> (if P then gen a x else {}), P \<and> pass a x) \<in> set (map (after a) fs)"
    by (force simp: after_def)
  with reaches_trans [OF assms(2) f(2)] show "\<exists>G P. (u, x, G, P) \<in> set (map (after a) fs) \<and> reaches G P (s x) v" by blast
qed

lemma covered_subset: "covered fs s os \<Longrightarrow> set fs \<subseteq> set gs \<Longrightarrow> covered gs s os"
  by (erule covered_mono) (meson fact_le_refl subsetD)

lemma covered_append: "covered fs s os \<Longrightarrow> covered gs s os' \<Longrightarrow> covered (fs @ gs) s (os @ os')"
  unfolding covered_def by fastforce

lemma loop_facts:
  assumes "f \<in> set (facts (CSeq c (CStar c)))"
  shows "\<exists>g\<in>set (facts (CStar c)). fact_le f g"
proof -
  from assms consider "f \<in> set (facts c)" | g where "g \<in> set (facts c)" "f = after c (carry c g)" by auto
  then show ?thesis
  proof cases
    case 1
    moreover have "fact_le f (carry c f)" by (cases f) (auto simp: fact_le_def carry_def)
    ultimately show ?thesis by auto
  next
    case 2
    moreover have "fact_le f (carry c g)" unfolding 2(2) by (cases g) (auto simp: fact_le_def carry_def after_def)
    ultimately show ?thesis by auto
  qed
qed

lemma while_facts:
  assumes "f \<in> set (facts (CSeq a (CStar (CSeq c a))))" and "tame (CWhile a c)"
  shows "\<exists>g\<in>set (facts (CWhile a c)). fact_le f g"
proof -
  from assms(1) consider "f \<in> set (facts a)" | g where "g \<in> set (facts c)" "f = after a (carry (CSeq c a) g)"
    | g where "g \<in> set (facts a)" "f = after a (carry (CSeq c a) (after c g))" by auto
  then show ?thesis
  proof cases
    case 1
    then show ?thesis by (intro bexI [of _ f]) simp_all
  next
    case 2
    have "fact_le f (after a (carry c g))" unfolding 2(2) by (cases g) (auto simp: fact_le_def carry_def after_def split: if_splits)
    with 2(1) show ?thesis by auto
  next
    case 3
    obtain u x G P where g: "g = (u, x, G, P)" by (cases g) auto
    with 3(1) have "x \<in> set (reads a)" by (simp add: facts_reads)
    with assms(2) have "x \<notin> set (writes a)" "x \<notin> set (writes c)" by (auto simp: list_all_iff)
    then have "gen a x = {}" "gen c x = {}" using not_defined by blast+
    then have "fact_le f g" unfolding 3(2) g by (auto simp: fact_le_def carry_def after_def split: if_splits)
    with 3(1) show ?thesis by auto
  qed
qed

lemma for_facts:
  assumes "f \<in> set (facts (CSeq a (CSeq (CDef d x) (CStar (CSeq (CDef d x) c)))))" and "tame (CFor d x a c)"
  shows "\<exists>g\<in>set (facts (CFor d x a c)). fact_le f g"
proof -
  let ?d = "CDef d x"
  from assms(1) consider "f \<in> set (facts a)"
    | g where "g \<in> set (facts c)" "f = after a (after ?d (carry (CSeq ?d c) (after ?d g)))" by auto
  then show ?thesis
  proof cases
    case 1
    then show ?thesis by (intro bexI [of _ f]) simp_all
  next
    case 2
    have "gen a x = {}" "pass a x" using assms(2) not_defined by (auto)
    then have "fact_le f (after (CSeq ?d a) (carry c g))"
      unfolding 2(2) by (cases g) (auto simp: fact_le_def carry_def after_def split: if_splits)
    with 2(1) show ?thesis by auto
  qed
qed

text \<open>Every observation of every execution is covered by the facts of its use.\<close>

lemma exec_covered: "exec c s os r \<Longrightarrow> tame c \<Longrightarrow> covered (facts c) s os"
proof (induction rule: exec.induct)
  case (seq a s os t c os' r)
  then have "covered (facts a) s os" "covered (facts c) t os'" "\<And>x. reaches (gen a x) (pass a x) (s x) (t x)"
    using exec_state by simp_all
  then show ?case by (simp add: covered_append covered_after)
next
  case (seq_stop a s os c)
  then show ?case by (auto intro: covered_subset)
next
  case (choice_left a s os r c)
  then show ?case by (auto intro: covered_subset)
next
  case (choice_right c s os r a)
  then show ?case by (auto intro: covered_subset)
next
  case (star_step c s os r)
  then have "covered (facts (CSeq c (CStar c))) s os" by simp
  then show ?case by (rule covered_mono) (rule loop_facts)
next
  case (repeat_loop c s os r)
  then have "covered (facts (CSeq c (CStar c))) s os" by simp
  then have "covered (facts (CStar c)) s os" by (rule covered_mono) (rule loop_facts)
  then show ?case by simp
next
  case (while_loop a c s os r)
  have "tame (CSeq a (CStar (CSeq c a)))" using while_loop.prems by simp
  from while_loop.IH [OF this] show ?case by (rule covered_mono) (rule while_facts [OF _ while_loop.prems])
next
  case (for_loop a d x c s os r)
  have "tame (CSeq a (CSeq (CDef d x) (CStar (CSeq (CDef d x) c))))" using for_loop.prems by simp
  from for_loop.IH [OF this] show ?case by (rule covered_mono) (rule for_facts [OF _ for_loop.prems])
qed (auto simp: covered_def reaches_def)

end
