(* ===== verification/Flow_Walk.thy ===== *)
theory Flow_Walk
  imports Index_Queries Flow_Commands
begin

text \<open>
  The walk of structured code against the executions of that code. \<open>code\<close> reads an expression
  as a command, numbering its uses and definitions in the order the walk allocates them;
  \<open>flows\<close> relates a command to what the walk of it does to the file scope's use-def map. The
  walk of every expression of the fragment flows as its command, so the reference analysis, and
  with it every execution, is below the recorded bindings.
\<close>

section \<open>Expressions as commands\<close>

text \<open>The numbers of the next use and the next definition.\<close>

type_synonym counts = "nat \<times> nat"

definition seq_code :: "(counts \<Rightarrow> cmd \<times> counts) \<Rightarrow> (counts \<Rightarrow> cmd \<times> counts) \<Rightarrow> counts \<Rightarrow> cmd \<times> counts" where
  "seq_code f g k = (let (c1, k1) = f k; (c2, k2) = g k1 in (CSeq c1 c2, k2))"

definition skip_code :: "counts \<Rightarrow> cmd \<times> counts" where
  "skip_code k = (CSkip, k)"

definition use_code :: "string \<Rightarrow> counts \<Rightarrow> cmd \<times> counts" where
  "use_code x k = (CUse (fst k) x, (Suc (fst k), snd k))"

definition def_code :: "string \<Rightarrow> counts \<Rightarrow> cmd \<times> counts" where
  "def_code x k = (CDef (snd k) x, (fst k, Suc (snd k)))"

fun list_code :: "('e \<Rightarrow> counts \<Rightarrow> cmd \<times> counts) \<Rightarrow> 'e list \<Rightarrow> counts \<Rightarrow> cmd \<times> counts" where
  "list_code f [] k = skip_code k"
| "list_code f (e # es) k = seq_code (f e) (list_code f es) k"

definition opt_code :: "('e \<Rightarrow> counts \<Rightarrow> cmd \<times> counts) \<Rightarrow> 'e option \<Rightarrow> counts \<Rightarrow> cmd \<times> counts" where
  "opt_code f e k = (case e of None \<Rightarrow> skip_code k | Some v \<Rightarrow> f v k)"

definition lazy_code :: "(counts \<Rightarrow> cmd \<times> counts) \<Rightarrow> counts \<Rightarrow> cmd \<times> counts" where
  "lazy_code f k = (let (c, k') = f k in (CPromise c, k'))"

definition branch_code :: "(counts \<Rightarrow> cmd \<times> counts) \<Rightarrow> (counts \<Rightarrow> cmd \<times> counts) \<Rightarrow> counts \<Rightarrow> cmd \<times> counts" where
  "branch_code f g k = (let (c1, k1) = f k; (c2, k2) = g k1 in (CChoice c1 c2, k2))"

definition while_code :: "(counts \<Rightarrow> cmd \<times> counts) \<Rightarrow> (counts \<Rightarrow> cmd \<times> counts) \<Rightarrow> counts \<Rightarrow> cmd \<times> counts" where
  "while_code f g k = (let (a, k1) = f k; (c, k2) = g k1 in (CWhile a c, k2))"

definition repeat_code :: "(counts \<Rightarrow> cmd \<times> counts) \<Rightarrow> counts \<Rightarrow> cmd \<times> counts" where
  "repeat_code f k = (let (c, k1) = f k in (CRepeat c, k1))"

definition for_code :: "string \<Rightarrow> (counts \<Rightarrow> cmd \<times> counts) \<Rightarrow> (counts \<Rightarrow> cmd \<times> counts) \<Rightarrow> counts \<Rightarrow> cmd \<times> counts" where
  "for_code x f g k = (let (a, k1) = f (fst k, Suc (snd k)); (c, k2) = g k1 in (CFor (snd k) x a c, k2))"

lemma list_code_cong [fundef_cong]:
  "xs = ys \<Longrightarrow> (\<And>x k. x \<in> set ys \<Longrightarrow> f x k = g x k) \<Longrightarrow> k = k' \<Longrightarrow> list_code f xs k = list_code g ys k'"
proof -
  have "(\<And>x k. x \<in> set ys \<Longrightarrow> f x k = g x k) \<Longrightarrow> list_code f ys k = list_code g ys k" for k
    by (induction ys arbitrary: k) (auto simp: seq_code_def split: prod.splits)
  then show "xs = ys \<Longrightarrow> (\<And>x k. x \<in> set ys \<Longrightarrow> f x k = g x k) \<Longrightarrow> k = k' \<Longrightarrow> ?thesis" by simp
qed

lemma opt_code_cong [fundef_cong]:
  "x = y \<Longrightarrow> (\<And>v k. y = Some v \<Longrightarrow> f v k = g v k) \<Longrightarrow> k = k' \<Longrightarrow> opt_code f x k = opt_code g y k'"
  by (auto simp: opt_code_def split: option.splits)

lemma code_combinators_cong [fundef_cong]:
  "(\<And>k. f k = f' k) \<Longrightarrow> (\<And>k. g k = g' k) \<Longrightarrow> k = k' \<Longrightarrow> seq_code f g k = seq_code f' g' k'"
  "(\<And>k. f k = f' k) \<Longrightarrow> (\<And>k. g k = g' k) \<Longrightarrow> k = k' \<Longrightarrow> branch_code f g k = branch_code f' g' k'"
  "(\<And>k. f k = f' k) \<Longrightarrow> (\<And>k. g k = g' k) \<Longrightarrow> k = k' \<Longrightarrow> while_code f g k = while_code f' g' k'"
  "(\<And>k. f k = f' k) \<Longrightarrow> (\<And>k. g k = g' k) \<Longrightarrow> k = k' \<Longrightarrow> for_code x f g k = for_code x f' g' k'"
  "(\<And>k. f k = f' k) \<Longrightarrow> k = k' \<Longrightarrow> lazy_code f k = lazy_code f' k'"
  "(\<And>k. f k = f' k) \<Longrightarrow> k = k' \<Longrightarrow> repeat_code f k = repeat_code f' k'"
  by (simp_all add: seq_code_def branch_code_def while_code_def for_code_def lazy_code_def repeat_code_def)

text \<open>
  The order of evaluation of R. Operands and arguments are promises; the value of an assignment
  is evaluated before its target is bound. Nodes outside the fragment below are skipped.
\<close>

function (sequential) code :: "r_expr \<Rightarrow> counts \<Rightarrow> cmd \<times> counts" where
  "code (RIdentifier _ text) k = use_code (name_text text) k"
| "code (RDots _) k = use_code ''...'' k"
| "code (RDotDotI _ text) k = use_code text k"
| "code (RFunctionDefinition _ _ _) k = skip_code k"
| "code (RBogusExpression _ _) k = skip_code k"
| "code (RBracedExpressions _ es) k = list_code code es k"
| "code (RBinaryExpression r l tok rt) k =
     (let e = RBinaryExpression r l tok rt; right = is_right_assignment e
      in if is_assignment e
         then seq_code (opt_code code (if right then l else rt))
                (opt_code (\<lambda>t. case assignment_name t of Some (x, _) \<Rightarrow> def_code x | None \<Rightarrow> skip_code) (if right then rt else l)) k
         else list_code (\<lambda>c. lazy_code (code c)) (children e) k)"
| "code (RForStatement _ var s body) k =
     (case var of None \<Rightarrow> skip_code k
      | Some v \<Rightarrow> for_code (name_text (snd v)) (opt_code code s) (opt_code code body) k)"
| "code (RIfStatement _ c t e) k = seq_code (opt_code code c) (branch_code (opt_code code t) (opt_code code e)) k"
| "code (RWhileStatement _ c body) k = while_code (opt_code code c) (opt_code code body) k"
| "code (RRepeatStatement _ body) k = repeat_code (opt_code code body) k"
| "code e k = list_code (\<lambda>c. lazy_code (code c)) (children e) k"
  by pat_completeness auto
termination
  by (relation "measure (\<lambda>(e, _). size e)") (auto dest: size_in_list size_children simp del: children.simps split: if_splits)

section \<open>What the walk does to the file scope\<close>

abbreviation file_map :: "builder \<Rightarrow> udm_builder" where
  "file_map b \<equiv> wk_use_def_maps b ! 0"

definition nuses :: "builder \<Rightarrow> nat" where
  "nuses b = length (wk_uses b ! 0)"

definition ndefs :: "builder \<Rightarrow> nat" where
  "ndefs b = length (wk_definitions b ! 0)"

text \<open>The live definitions of a variable, the variable of a use, and the bindings recorded for it.\<close>

definition nlive :: "builder \<Rightarrow> string \<Rightarrow> live_set" where
  "nlive b x = (case st_id (wk_symbol_tables b ! 0) x of None \<Rightarrow> live_unbound | Some i \<Rightarrow> udm_live (file_map b) i)"

definition use_var :: "builder \<Rightarrow> nat \<Rightarrow> string" where
  "use_var b u = sy_name (st_symbols (wk_symbol_tables b ! 0) ! us_symbol (wk_uses b ! 0 ! u))"

definition recorded :: "builder \<Rightarrow> nat \<Rightarrow> live_set" where
  "recorded b u = bd_abs (ub_bindings_by_use (file_map b) ! u)"

definition above :: "live_set \<Rightarrow> nat set \<Rightarrow> bool \<Rightarrow> live_set \<Rightarrow> bool" where
  "above l G P old \<longleftrightarrow> G \<subseteq> fst l \<and> (P \<longrightarrow> fst old \<subseteq> fst l \<and> (snd old \<longrightarrow> snd l))"

definition fact_holds :: "builder \<Rightarrow> builder \<Rightarrow> fact \<Rightarrow> bool" where
  "fact_holds b b' f = (case f of (u, x, G, P) \<Rightarrow> use_var b' u = x \<and> above (recorded b' u) G P (nlive b x))"

definition uses_kept :: "builder \<Rightarrow> builder \<Rightarrow> bool" where
  "uses_kept b b' \<longleftrightarrow> nuses b \<le> nuses b' \<and> (\<forall>u<nuses b. use_var b' u = use_var b u \<and> recorded b' u = recorded b u)"

definition flows :: "cmd \<Rightarrow> builder \<Rightarrow> builder \<Rightarrow> bool" where
  "flows c b b' \<longleftrightarrow> (\<forall>x. above (nlive b' x) (gen c x) (pass c x) (nlive b x)) \<and> uses_kept b b' \<and>
     map fst (facts c) = [nuses b..<nuses b'] \<and> (\<forall>f\<in>set (facts c). fact_holds b b' f)"

lemma flowsD:
  assumes "flows c b b'"
  shows "\<And>x. above (nlive b' x) (gen c x) (pass c x) (nlive b x)" and "uses_kept b b'" and "nuses b \<le> nuses b'"
    and "map fst (facts c) = [nuses b..<nuses b']" and "\<And>f. f \<in> set (facts c) \<Longrightarrow> fact_holds b b' f"
    and "\<And>u x G P. (u, x, G, P) \<in> set (facts c) \<Longrightarrow> nuses b \<le> u \<and> u < nuses b'"
proof -
  show ids: "map fst (facts c) = [nuses b..<nuses b']" using assms by (simp add: flows_def)
  show "nuses b \<le> u \<and> u < nuses b'" if "(u, x, G, P) \<in> set (facts c)" for u x G P
  proof -
    have "u \<in> set (map fst (facts c))" using that by force
    then show ?thesis unfolding ids by simp
  qed
qed (use assms in \<open>auto simp: flows_def uses_kept_def\<close>)

lemma above_trans: "above l1 G1 P1 l0 \<Longrightarrow> above l2 G2 P2 l1 \<Longrightarrow> above l2 (G2 \<union> (if P2 then G1 else {})) (P2 \<and> P1) l0"
  by (auto simp: above_def)

lemma above_refl [simp]: "above l {} True l"
  by (simp add: above_def)

lemma above_weaken: "above l G P old \<Longrightarrow> G' \<subseteq> G \<Longrightarrow> (P' \<Longrightarrow> P) \<Longrightarrow> above l G' P' old"
  by (auto simp: above_def)

lemma uses_kept_trans: "uses_kept b b1 \<Longrightarrow> uses_kept b1 b2 \<Longrightarrow> uses_kept b b2"
  by (simp add: uses_kept_def)

lemma uses_kept_refl [simp]: "uses_kept b b"
  by (simp add: uses_kept_def)

lemma fact_holds_later:
  assumes "fact_holds b b1 f" and "fst f < nuses b1" and "uses_kept b1 b2"
  shows "fact_holds b b2 f"
  using assms by (cases f) (simp add: fact_holds_def uses_kept_def)

lemma fact_holds_after:
  assumes "fact_holds b1 b2 f" and "\<And>x. above (nlive b1 x) (gen c x) (pass c x) (nlive b x)"
  shows "fact_holds b b2 (after c f)"
proof -
  obtain u x G P where f: "f = (u, x, G, P)" by (cases f) auto
  with assms(1) have "use_var b2 u = x" "above (recorded b2 u) G P (nlive b1 x)" by (simp_all add: fact_holds_def)
  with above_trans [OF assms(2) this(2)] show ?thesis by (simp add: f fact_holds_def after_def)
qed

lemma fst_after [simp]: "fst (after c f) = fst f" and fst_carry [simp]: "fst (carry c f) = fst f"
  by (simp_all add: after_def carry_def split: prod.splits)

lemma map_fst_after [simp]: "map fst (map (after c) fs) = map fst fs" and map_fst_carry [simp]: "map fst (map (carry c) fs) = map fst fs"
  by (simp_all add: comp_def)

lemma fact_range: "flows c b b' \<Longrightarrow> f \<in> set (facts c) \<Longrightarrow> fst f < nuses b'"
  using flowsD(6) [of c b b'] by (cases f) auto

lemma upt_join: "i \<le> j \<Longrightarrow> j \<le> k \<Longrightarrow> [i..<j] @ [j..<k] = [i..<k]"
  using upt_add_eq_append [of i j "k - j"] by simp

lemma flows_seq:
  assumes "flows c1 b b1" and "flows c2 b1 b2"
  shows "flows (CSeq c1 c2) b b2"
  unfolding flows_def
proof (intro conjI allI ballI)
  note f1 = flowsD [OF assms(1)] and f2 = flowsD [OF assms(2)]
  show "above (nlive b2 x) (gen (CSeq c1 c2) x) (pass (CSeq c1 c2) x) (nlive b x)" for x
    using above_trans [OF f1(1) f2(1), of x] by (simp add: Un_commute conj_commute)
  show "uses_kept b b2" by (rule uses_kept_trans [OF f1(2) f2(2)])
  show "map fst (facts (CSeq c1 c2)) = [nuses b..<nuses b2]"
    using f1(3,4) f2(3,4) upt_join by (simp add: comp_def)
  show "fact_holds b b2 f" if "f \<in> set (facts (CSeq c1 c2))" for f
  proof -
    from that consider "f \<in> set (facts c1)" | g where "g \<in> set (facts c2)" "f = after c1 g" by auto
    then show ?thesis
    proof cases
      case 1
      then show ?thesis using fact_holds_later [OF f1(5) [OF 1] fact_range [OF assms(1) 1] f2(2)] by simp
    next
      case 2
      then show ?thesis using fact_holds_after [OF f2(5) [OF 2(1)] f1(1)] by simp
    qed
  qed
qed

lemma flows_skip: "flows CSkip b b"
  by (simp add: flows_def)

text \<open>Code that defines nothing may as well not run.\<close>

lemma flows_lazy:
  assumes "flows c b b'" and "writes c = []"
  shows "flows (CPromise c) b b'"
proof -
  have "gen c x = {} \<and> pass c x" for x using assms(2) not_defined by simp
  with assms(1) show ?thesis by (simp add: flows_def)
qed

section \<open>Transformers that flow\<close>

definition ready :: "r_expr set \<Rightarrow> r_expr set \<Rightarrow> builder \<Rightarrow> bool" where
  "ready U N b \<longleftrightarrow> scan_inv U b \<and> bu_current_scope b = 0 \<and> sc_kind (bu_scopes b ! 0) = File \<and>
     (\<forall>e\<in>N. sn_call_resolutions b (trimmed_range e) = None)"

text \<open>\<open>f\<close> returns, and does to the file scope what the command that \<open>g\<close> numbers says, if that is tame.\<close>

definition flowing :: "r_expr set \<Rightarrow> r_expr set \<Rightarrow> (builder \<Rightarrow> builder option) \<Rightarrow> (counts \<Rightarrow> cmd \<times> counts) \<Rightarrow> bool" where
  "flowing U N f g \<longleftrightarrow> (\<forall>b. ready U N b \<longrightarrow> (\<exists>b' c. f b = Some b' \<and> ready U N b' \<and> walk_frame b b' \<and>
     g (nuses b, ndefs b) = (c, (nuses b', ndefs b')) \<and> (tame c \<longrightarrow> flows c b b')))"

lemma flowingI:
  assumes "\<And>b. ready U N b \<Longrightarrow> \<exists>b' c. f b = Some b' \<and> ready U N b' \<and> walk_frame b b' \<and>
     g (nuses b, ndefs b) = (c, (nuses b', ndefs b')) \<and> (tame c \<longrightarrow> flows c b b')"
  shows "flowing U N f g"
  using assms by (simp add: flowing_def)

lemma flowingE:
  assumes "flowing U N f g" and "ready U N b"
  obtains b' c where "f b = Some b'" and "ready U N b'" and "walk_frame b b'"
    and "g (nuses b, ndefs b) = (c, (nuses b', ndefs b'))" and "tame c \<longrightarrow> flows c b b'"
  using assms unfolding flowing_def by blast

lemma readyD:
  assumes "ready U N b"
  shows "scan_inv U b" and "bu_current_scope b = 0" and "sc_kind (bu_scopes b ! 0) = File" and "arenas_ok b"
    and "0 < length (bu_scopes b)" and "\<And>e. e \<in> N \<Longrightarrow> sn_call_resolutions b (trimmed_range e) = None"
  using assms scan_invD [of U b] arenas_okD(2) [of b] by (auto simp: ready_def)

lemma ready_frame:
  assumes "ready U N b" and "scan_inv U b'" and "walk_frame b b'" and "sn_call_resolutions b' = sn_call_resolutions b"
  shows "ready U N b'"
  using assms readyD(5) [OF assms(1)] by (auto simp: ready_def walk_frame_def)

lemma flowing_return: "flowing U N Some skip_code"
  by (rule flowingI) (auto simp: skip_code_def flows_skip walk_frame_refl)

lemma flowing_bind:
  assumes "flowing U N f g" and "flowing U N f' g'"
  shows "flowing U N (\<lambda>b. do { b \<leftarrow> f b; f' b }) (seq_code g g')"
proof (rule flowingI)
  fix b assume "ready U N b"
  then obtain b1 c1 where 1: "f b = Some b1" "ready U N b1" "walk_frame b b1" "g (nuses b, ndefs b) = (c1, (nuses b1, ndefs b1))"
    "tame c1 \<longrightarrow> flows c1 b b1" by (rule flowingE [OF assms(1)])
  from 1(2) obtain b2 c2 where 2: "f' b1 = Some b2" "ready U N b2" "walk_frame b1 b2"
    "g' (nuses b1, ndefs b1) = (c2, (nuses b2, ndefs b2))" "tame c2 \<longrightarrow> flows c2 b1 b2" by (rule flowingE [OF assms(2)])
  have "tame (CSeq c1 c2) \<longrightarrow> flows (CSeq c1 c2) b b2" using 1(5) 2(5) flows_seq by auto
  then show "\<exists>b' c. (do { b \<leftarrow> f b; f' b }) = Some b' \<and> ready U N b' \<and> walk_frame b b' \<and>
      seq_code g g' (nuses b, ndefs b) = (c, (nuses b', ndefs b')) \<and> (tame c \<longrightarrow> flows c b b')"
    by (intro exI [of _ b2] exI [of _ "CSeq c1 c2"])
      (simp add: 1(1,4) 2(1,2,4) seq_code_def walk_frame_trans [OF 1(3) 2(3)])
qed

lemma flowing_foldM:
  assumes "\<And>x. x \<in> set xs \<Longrightarrow> flowing U N (f x) (g x)"
  shows "flowing U N (foldM f xs) (list_code g xs)"
  using assms
proof (induction xs)
  case Nil
  then show ?case using flowing_return by (simp add: flowing_def)
next
  case (Cons x xs)
  then have "flowing U N (\<lambda>b. do { b \<leftarrow> f x b; foldM f xs b }) (seq_code (g x) (list_code g xs))"
    by (intro flowing_bind) auto
  then show ?case by (simp add: flowing_def)
qed

lemma flowing_opt:
  assumes "\<And>v. x = Some v \<Longrightarrow> flowing U N (f v) (g v)"
  shows "flowing U N (opt_step f x) (opt_code g x)"
  using assms flowing_return by (cases x) (simp_all add: flowing_def opt_code_def)

lemma flowing_lazy:
  assumes "flowing U N f g"
  shows "flowing U N f (lazy_code g)"
proof (rule flowingI)
  fix b assume "ready U N b"
  then obtain b' c where c: "f b = Some b'" "ready U N b'" "walk_frame b b'" "g (nuses b, ndefs b) = (c, (nuses b', ndefs b'))"
    "tame c \<longrightarrow> flows c b b'" by (rule flowingE [OF assms(1)])
  moreover have "tame (CPromise c) \<longrightarrow> flows (CPromise c) b b'" using c(5) flows_lazy by auto
  ultimately show "\<exists>b' c. f b = Some b' \<and> ready U N b' \<and> walk_frame b b' \<and>
      lazy_code g (nuses b, ndefs b) = (c, (nuses b', ndefs b')) \<and> (tame c \<longrightarrow> flows c b b')"
    by (intro exI [of _ b'] exI [of _ "CPromise c"]) (simp add: lazy_code_def)
qed

section \<open>Uses and definitions\<close>

lemma ready_slot:
  assumes "ready U N b"
  shows "scope_ok (wk_symbol_tables b ! 0) (wk_definitions b ! 0) (wk_uses b ! 0) (file_map b)"
    and "st_wf (wk_symbol_tables b ! 0)"
    and "udm_wf (st_len (wk_symbol_tables b ! 0)) (map df_symbol (wk_definitions b ! 0)) (map us_symbol (wk_uses b ! 0)) (file_map b)"
    and "length (ub_symbol_states (file_map b)) \<le> st_len (wk_symbol_tables b ! 0)"
    and "length (ub_bindings_by_use (file_map b)) = nuses b"
    and "\<And>u. u < nuses b \<Longrightarrow> us_symbol (wk_uses b ! 0 ! u) < st_len (wk_symbol_tables b ! 0)"
proof -
  show ok: "scope_ok (wk_symbol_tables b ! 0) (wk_definitions b ! 0) (wk_uses b ! 0) (file_map b)"
    using arenas_okD(9) readyD [OF assms] by blast
  then show "st_wf (wk_symbol_tables b ! 0)"
    "udm_wf (st_len (wk_symbol_tables b ! 0)) (map df_symbol (wk_definitions b ! 0)) (map us_symbol (wk_uses b ! 0)) (file_map b)"
    "\<And>u. u < nuses b \<Longrightarrow> us_symbol (wk_uses b ! 0 ! u) < st_len (wk_symbol_tables b ! 0)"
    by (simp_all add: scope_ok_def nuses_def)
  then show "length (ub_symbol_states (file_map b)) \<le> st_len (wk_symbol_tables b ! 0)"
    "length (ub_bindings_by_use (file_map b)) = nuses b" by (simp_all add: udm_wf_def nuses_def)
qed

text \<open>Interning a name changes no live set and renames no use.\<close>

lemma intern_live:
  assumes "st_wf t0" and "st_intern t0 name flags = Some (sid, t)" and "length states \<le> st_len t0"
  shows "(case st_id t x of None \<Rightarrow> live_unbound | Some i \<Rightarrow> states_live states i) =
    (case st_id t0 x of None \<Rightarrow> live_unbound | Some i \<Rightarrow> states_live states i)"
proof (cases "st_id t0 x")
  case None
  show ?thesis
  proof (cases "x = name")
    case True
    have "\<not> sid < st_len t0"
    proof
      assume "sid < st_len t0"
      then have "sy_name (st_symbols t0 ! sid) = name" using st_intern_props(4,6) [OF assms(1,2)] by metis
      then show False using None True \<open>sid < st_len t0\<close> assms(1) by (metis option.distinct(1) st_wf_id)
    qed
    then show ?thesis using None True st_intern_props(1) [OF assms(1,2)] assms(3) by (simp add: states_live_def)
  qed (use None st_intern_props(9) [OF assms(1,2)] in simp)
qed (use st_intern_props(8) [OF assms(1,2)] in simp)

lemma intern_nlive:
  assumes "ready U N b" and "st_intern (wk_symbol_tables b ! 0) name flags = Some (sid, t)"
  shows "(case st_id t x of None \<Rightarrow> live_unbound | Some i \<Rightarrow> udm_live (file_map b) i) = nlive b x"
  using intern_live [OF ready_slot(2) [OF assms(1)] assms(2) ready_slot(4) [OF assms(1)]] by (simp add: nlive_def)

lemma slot_reads:
  assumes "arenas_ok b" and "0 < length (bu_scopes b)"
  shows "nlive (set_slot 0 t ds us m b) x = (case st_id t x of None \<Rightarrow> live_unbound | Some i \<Rightarrow> udm_live m i)"
    and "use_var (set_slot 0 t ds us m b) u = sy_name (st_symbols t ! us_symbol (us ! u))"
    and "recorded (set_slot 0 t ds us m b) u = bd_abs (ub_bindings_by_use m ! u)"
    and "nuses (set_slot 0 t ds us m b) = length us" and "ndefs (set_slot 0 t ds us m b) = length ds"
    and "sn_call_resolutions (set_slot 0 t ds us m b) = sn_call_resolutions b"
  unfolding nlive_def use_var_def recorded_def nuses_def ndefs_def set_slot_slots [OF assms] by (simp_all add: set_slot_def)

lemma file_scope_root:
  assumes "ready U N b"
  shows "sc_parent (bu_scopes b ! 0) = None"
  using arena_at_root readyD(5) [OF assms] arenas_okD(1) [OF readyD(4) [OF assms]] unfolding arena_open_def by blast

lemma add_use_slot:
  assumes r: "ready U N b" and t: "st_intern (wk_symbol_tables b ! 0) name IS_USED = Some (sid, t)"
  shows "add_use name rng b = Some (set_slot 0 t (wk_definitions b ! 0) (wk_uses b ! 0 @ [\<lparr>us_symbol = sid, us_range = rng\<rparr>])
    ((udm_ensure_symbol sid (file_map b))\<lparr>ub_bindings_by_use := ub_bindings_by_use (file_map b) @
       [ub_symbol_states (udm_ensure_symbol sid (file_map b)) ! sid]\<rparr>) b)" (is "_ = Some ?b")
proof -
  note len = arenas_okD(4-7) [OF readyD(4) [OF r]] and pos = readyD(5) [OF r]
  have "push_use name rng b = Some (sid, length (wk_uses b ! 0), ?b)"
    using t len pos readyD(2) [OF r]
    by (simp add: push_use_def record_in_map_def set_slot_def iv_push_def iv_next_id_def list_update_id udm_record_use_def)
      (simp add: udm_ensure_symbol_def)
  moreover have "iv_get (wk_use_def_maps ?b) (bu_current_scope ?b) = Some (wk_use_def_maps ?b ! 0)"
    using len pos readyD(2) [OF r] by simp
  moreover have "\<exists>f. udm_is_may_be_unbound sid (wk_use_def_maps ?b ! 0) = Some f"
    using set_slot_slots(4) [OF readyD(4) [OF r] pos] by (simp add: udm_is_may_be_unbound_def)
  moreover have "register_enclosing_snapshot name sid (length (wk_uses b ! 0)) ?b = Some ?b"
    using pos readyD(2) [OF r] file_scope_root [OF r] by (simp add: register_enclosing_snapshot_def)
  ultimately show ?thesis by (auto simp: add_use_def)
qed

lemma flowing_use: "flowing U N (add_use name rng) (use_code name)"
proof (rule flowingI)
  fix b assume r: "ready U N b"
  note a = readyD(4,5) [OF r] and slot = ready_slot [OF r]
  obtain sid t where t: "st_intern (wk_symbol_tables b ! 0) name IS_USED = Some (sid, t)" using st_intern_total [OF slot(2)] by blast
  note interned = st_intern_props [OF slot(2) t]
  let ?us = "wk_uses b ! 0 @ [\<lparr>us_symbol = sid, us_range = rng\<rparr>]"
  let ?m = "(udm_ensure_symbol sid (file_map b))\<lparr>ub_bindings_by_use := ub_bindings_by_use (file_map b) @
       [ub_symbol_states (udm_ensure_symbol sid (file_map b)) ! sid]\<rparr>"
  let ?b = "set_slot 0 t (wk_definitions b ! 0) ?us ?m b"
  have add: "add_use name rng b = Some ?b" by (rule add_use_slot [OF r t])
  have inv: "scan_inv U ?b" "walk_frame b ?b" using keepsE [OF walks_add_use readyD(1) [OF r], of name rng] add by auto
  note slots = slot_reads [OF a, of t "wk_definitions b ! 0" ?us ?m]
  have live: "udm_live ?m = udm_live (file_map b)" using udm_ensure_symbol_live [of sid "file_map b"] by simp
  have nl: "nlive ?b x = nlive b x" for x by (simp only: slots(1) live intern_nlive [OF r t])
  have n: "nuses ?b = Suc (nuses b)" "ndefs ?b = ndefs b" by (simp_all add: slots) (simp_all add: nuses_def ndefs_def)
  have "sid < length (ub_symbol_states (udm_ensure_symbol sid (file_map b)))" by simp
  then have "recorded ?b (nuses b) = udm_live (udm_ensure_symbol sid (file_map b)) sid"
    using slot(5) by (simp add: slots nth_append states_live_def [of "ub_symbol_states (udm_ensure_symbol sid (file_map b))"]
        del: udm_ensure_symbol_live)
  also have "\<dots> = nlive b name" using intern_nlive [OF r t, of name] interned(1) by simp
  finally have rec: "recorded ?b (nuses b) = nlive b name" .
  have var: "use_var ?b (nuses b) = name" using interned(4) by (simp add: slots nuses_def)
  have "use_var ?b u = use_var b u \<and> recorded ?b u = recorded b u" if "u < nuses b" for u
    using that slot(5,6) interned(6) unfolding slots by (simp add: nth_append nuses_def use_var_def recorded_def)
  then have "uses_kept b ?b" by (simp add: uses_kept_def n)
  then have "flows (CUse (nuses b) name) b ?b" by (simp add: flows_def nl n fact_holds_def rec var)
  moreover have "ready U N ?b" using ready_frame [OF r inv] slots(6) by simp
  ultimately show "\<exists>b' c. add_use name rng b = Some b' \<and> ready U N b' \<and> walk_frame b b' \<and>
      use_code name (nuses b, ndefs b) = (c, (nuses b', ndefs b')) \<and> (tame c \<longrightarrow> flows c b b')"
    using add inv(2) n by (intro exI [of _ ?b] exI [of _ "CUse (nuses b) name"]) (simp add: use_code_def)
qed

lemma flowing_definition: "flowing U N (add_definition name flags kind rng) (def_code name)"
proof (rule flowingI)
  fix b assume r: "ready U N b"
  note a = readyD(4,5) [OF r] and slot = ready_slot [OF r]
  note len = arenas_okD(4-7) [OF a(1)]
  obtain sid t where t: "st_intern (wk_symbol_tables b ! 0) name flags = Some (sid, t)" using st_intern_total [OF slot(2)] by blast
  note interned = st_intern_props [OF slot(2) t]
  let ?ds = "wk_definitions b ! 0 @ [\<lparr>df_kind = kind, df_symbol = sid, df_range = rng\<rparr>]"
  obtain b' where b': "add_definition name flags kind rng b = Some b'" "scan_inv U b'" "walk_frame b b'"
    by (rule keepsE [OF walks_add_definition readyD(1) [OF r]])
  then obtain m where m: "udm_record_definition sid (ndefs b) (udm_ensure_symbol sid (file_map b)) = Some m"
    and eq: "b' = set_slot 0 t ?ds (wk_uses b ! 0) m b"
    using t len a readyD(2,3) [OF r]
    by (auto simp: add_definition_def current_kind_total push_definition_def record_in_map_def set_slot_def
        iv_push_def iv_next_id_def list_update_id ndefs_def split: Option.bind_splits)
  note slots = slot_reads [OF a, of t ?ds "wk_uses b ! 0" m, folded eq]
  have live: "udm_live m = (udm_live (file_map b))(sid := live_kill (ndefs b))"
    using udm_record_definition_live [OF m] by simp
  have bbu: "ub_bindings_by_use m = ub_bindings_by_use (file_map b)"
    using m by (auto simp: udm_record_definition_def udm_ensure_symbol_def split: Option.bind_splits)
  have other: "st_id t x \<noteq> Some sid" if "x \<noteq> name" for x
    using that interned(1) st_id_inj [OF st_intern_wf [OF slot(2) t]] by blast
  have nl: "nlive b' x = (if x = name then live_kill (ndefs b) else nlive b x)" for x
    using interned(1) other [of x] intern_nlive [OF r t, of x] by (auto simp: slots live split: option.splits)
  have n: "nuses b' = nuses b" "ndefs b' = Suc (ndefs b)" by (simp_all add: slots) (simp_all add: nuses_def ndefs_def)
  have "use_var b' u = use_var b u \<and> recorded b' u = recorded b u" if "u < nuses b" for u
    using slot(6) [OF that] interned(6) unfolding slots bbu by (simp add: use_var_def recorded_def)
  then have "uses_kept b b'" by (simp add: uses_kept_def n)
  then have "flows (CDef (ndefs b) name) b b'" by (simp add: flows_def nl n above_def live_kill_def)
  moreover have "ready U N b'" using ready_frame [OF r b'(2,3)] slots(6) by simp
  ultimately show "\<exists>b' c. add_definition name flags kind rng b = Some b' \<and> ready U N b' \<and> walk_frame b b' \<and>
      def_code name (nuses b, ndefs b) = (c, (nuses b', ndefs b')) \<and> (tame c \<longrightarrow> flows c b b')"
    using b' n by (intro exI [of _ b'] exI [of _ "CDef (ndefs b) name"]) (simp add: def_code_def)
qed

section \<open>Branches\<close>

text \<open>A snapshot taken earlier, read through the table of now.\<close>

lemma snapshot_nlive:
  assumes r: "ready U N b" and r': "ready U N b'" and fr: "walk_frame b b'"
  shows "(case st_id (wk_symbol_tables b' ! 0) x of None \<Rightarrow> live_unbound
    | Some i \<Rightarrow> states_live (udm_snapshot (file_map b)) i) = nlive b x"
proof -
  have le: "st_id (wk_symbol_tables b' ! 0) y = Some i" if "st_id (wk_symbol_tables b ! 0) y = Some i" for y i
    using walk_frameD(4) [OF fr readyD(5) [OF r]] that by (simp add: slot_le_def)
  show ?thesis
  proof (cases "st_id (wk_symbol_tables b ! 0) x")
    case None
    have "\<not> i < st_len (wk_symbol_tables b ! 0)" if i: "st_id (wk_symbol_tables b' ! 0) x = Some i" for i
    proof
      assume "i < st_len (wk_symbol_tables b ! 0)"
      then obtain y where y: "st_id (wk_symbol_tables b ! 0) y = Some i" using st_wf_id [OF ready_slot(2) [OF r]] by blast
      from st_id_inj [OF ready_slot(2) [OF r'] le [OF y] i] y None show False by simp
    qed
    with None ready_slot(4) [OF r] show ?thesis
      by (fastforce simp: nlive_def states_live_def udm_snapshot_def split: option.splits)
  qed (use le in \<open>simp add: nlive_def udm_snapshot_def\<close>)
qed

text \<open>Steps that only rewrite the flow state.\<close>

lemma modified_fields:
  assumes r: "ready U N b" and f: "modify_current_map f b = Some b'" and inv: "scan_inv U b'" and fr: "walk_frame b b'"
  shows "ready U N b'" and "nuses b' = nuses b" and "ndefs b' = ndefs b"
    and "nlive b' x = (case st_id (wk_symbol_tables b ! 0) x of None \<Rightarrow> live_unbound | Some i \<Rightarrow> udm_live (f (file_map b)) i)"
    and "use_var b' u = use_var b u" and "recorded b' u = bd_abs (ub_bindings_by_use (f (file_map b)) ! u)"
proof -
  have eq: "b' = b\<lparr>wk_use_def_maps := (wk_use_def_maps b)[0 := f (file_map b)]\<rparr>"
    and map: "file_map b' = f (file_map b)"
    using f readyD(2,5) [OF r] arenas_okD(7) [OF readyD(4) [OF r]]
    by (auto simp: modify_current_map_def iv_modify_def split: if_splits)
  then show "ready U N b'" using ready_frame [OF r inv fr] by simp
  have same: "wk_symbol_tables b' = wk_symbol_tables b" "wk_uses b' = wk_uses b" "wk_definitions b' = wk_definitions b"
    by (simp_all add: eq)
  then show "nuses b' = nuses b" "ndefs b' = ndefs b" "use_var b' u = use_var b u"
    by (simp_all add: nuses_def ndefs_def use_var_def)
  show "nlive b' x = (case st_id (wk_symbol_tables b ! 0) x of None \<Rightarrow> live_unbound | Some i \<Rightarrow> udm_live (f (file_map b)) i)"
    unfolding nlive_def map same ..
  show "recorded b' u = bd_abs (ub_bindings_by_use (f (file_map b)) ! u)" by (simp add: recorded_def map)
qed

lemma modified_reads:
  assumes r: "ready U N b" and f: "modify_current_map f b = Some b'" and inv: "scan_inv U b'" and fr: "walk_frame b b'"
    and bbu: "ub_bindings_by_use (f (file_map b)) = ub_bindings_by_use (file_map b)"
  shows "ready U N b'" and "uses_kept b b'" and "nuses b' = nuses b" and "ndefs b' = ndefs b"
    and "nlive b' x = (case st_id (wk_symbol_tables b ! 0) x of None \<Rightarrow> live_unbound | Some i \<Rightarrow> udm_live (f (file_map b)) i)"
  using modified_fields [OF r f inv fr] by (simp_all add: uses_kept_def recorded_def [of b] bbu)

lemma restored:
  assumes r: "ready U N b" and r': "ready U N b1" and fr: "walk_frame b b1"
  obtains b2 where "modify_current_map (udm_restore (udm_snapshot (file_map b))) b1 = Some b2" and "ready U N b2" and "walk_frame b1 b2"
    and "uses_kept b1 b2" and "nuses b2 = nuses b1" and "ndefs b2 = ndefs b1" and "\<And>x. nlive b2 x = nlive b x"
proof -
  obtain b2 where b2: "modify_current_map (udm_restore (udm_snapshot (file_map b))) b1 = Some b2" "scan_inv U b2" "walk_frame b1 b2"
    using restore_total [OF readyD(1) [OF r] readyD(1) [OF r'] fr] readyD(2) [OF r] by auto
  have "ub_bindings_by_use (udm_restore (udm_snapshot (file_map b)) (file_map b1)) = ub_bindings_by_use (file_map b1)"
    by (simp add: udm_restore_def)
  note m = modified_reads [OF r' b2 this]
  have "nlive b2 x = nlive b x" for x using m(5) [of x] snapshot_nlive [OF r r' fr, of x] unfolding udm_restore_live by simp
  with that b2 m show ?thesis by blast
qed

lemma merged:
  assumes r: "ready U N b" and r': "ready U N b1" and fr: "walk_frame b b1"
  obtains b2 where "modify_current_map (udm_merge (udm_snapshot (file_map b))) b1 = Some b2" and "ready U N b2" and "walk_frame b1 b2"
    and "uses_kept b1 b2" and "nuses b2 = nuses b1" and "ndefs b2 = ndefs b1" and "\<And>x. nlive b2 x = live_join (nlive b1 x) (nlive b x)"
proof -
  obtain b2 where b2: "modify_current_map (udm_merge (udm_snapshot (file_map b))) b1 = Some b2" "scan_inv U b2" "walk_frame b1 b2"
    using merge_total [OF readyD(1) [OF r] readyD(1) [OF r'] fr] readyD(2) [OF r] by auto
  have "ub_bindings_by_use (udm_merge (udm_snapshot (file_map b)) (file_map b1)) = ub_bindings_by_use (file_map b1)"
    by (simp add: udm_merge_def)
  note m = modified_reads [OF r' b2 this]
  have "length (udm_snapshot (file_map b)) \<le> length (ub_symbol_states (file_map b1))"
    using snapshot_fits(2) [OF readyD(1) [OF r] fr] readyD(2) [OF r] readyD(2) [OF r'] by simp
  then have "nlive b2 x = live_join (nlive b1 x) (nlive b x)" for x
    using m(5) [of x] snapshot_nlive [OF r r' fr, of x]
    by (cases "st_id (wk_symbol_tables b1 ! 0) x")
      (simp_all add: udm_merge_live nlive_def [of b1] live_join_def flip: live_unbound_def)
  with that b2 m show ?thesis by blast
qed

lemma above_join:
  "above l1 G1 P1 old \<Longrightarrow> above l2 G2 P2 old \<Longrightarrow> above (live_join l1 l2) (G1 \<union> G2) (P1 \<or> P2) old"
  by (auto simp: above_def live_join_def)

lemma flows_choice:
  assumes f1: "flows c1 b b1" and k: "uses_kept b1 b2" "nuses b2 = nuses b1" "\<And>x. nlive b2 x = nlive b x"
    and f2: "flows c2 b2 b3" and k': "uses_kept b3 b4" "nuses b4 = nuses b3" "\<And>x. nlive b4 x = live_join (nlive b3 x) (nlive b1 x)"
  shows "flows (CChoice c1 c2) b b4"
  unfolding flows_def
proof (intro conjI allI ballI)
  note d1 = flowsD [OF f1] and d2 = flowsD [OF f2]
  show "above (nlive b4 x) (gen (CChoice c1 c2) x) (pass (CChoice c1 c2) x) (nlive b x)" for x
    using above_join [OF d2(1) [of x, unfolded k(3)] d1(1) [of x]] by (simp add: k'(3) Un_commute disj_commute)
  note kept = uses_kept_trans [OF k(1) uses_kept_trans [OF d2(2) k'(1)]]
  show "uses_kept b b4" by (rule uses_kept_trans [OF d1(2) kept])
  show "map fst (facts (CChoice c1 c2)) = [nuses b..<nuses b4]"
    using d1(3,4) d2(3,4) upt_join by (simp add: k(2) k'(2))
  show "fact_holds b b4 f" if "f \<in> set (facts (CChoice c1 c2))" for f
  proof (cases "f \<in> set (facts c1)")
    case True
    show ?thesis by (rule fact_holds_later [OF d1(5) [OF True] fact_range [OF f1 True] kept])
  next
    case False
    with that have f: "f \<in> set (facts c2)" by simp
    have "fact_holds b b3 f" using d2(5) [OF f] by (cases f) (simp add: fact_holds_def k(3))
    then show ?thesis by (rule fact_holds_later [OF _ fact_range [OF f2 f] k'(1)])
  qed
qed

lemma flowing_branch:
  assumes "flowing U N (opt_step rec consequence) g1" and "flowing U N (opt_step rec alternative) g2"
  shows "flowing U N (walk_branch rec consequence alternative) (branch_code g1 g2)"
proof (rule flowingI)
  fix b assume r: "ready U N b"
  then obtain b1 c1 where 1: "opt_step rec consequence b = Some b1" "ready U N b1" "walk_frame b b1"
    "g1 (nuses b, ndefs b) = (c1, (nuses b1, ndefs b1))" "tame c1 \<longrightarrow> flows c1 b b1" by (rule flowingE [OF assms(1)])
  obtain b2 where 2: "modify_current_map (udm_restore (udm_snapshot (file_map b))) b1 = Some b2" "ready U N b2" "walk_frame b1 b2"
    "uses_kept b1 b2" "nuses b2 = nuses b1" "ndefs b2 = ndefs b1" "\<And>x. nlive b2 x = nlive b x"
    using restored [OF r 1(2,3)] by blast
  from 2(2) obtain b3 c2 where 3: "opt_step rec alternative b2 = Some b3" "ready U N b3" "walk_frame b2 b3"
    "g2 (nuses b2, ndefs b2) = (c2, (nuses b3, ndefs b3))" "tame c2 \<longrightarrow> flows c2 b2 b3" by (rule flowingE [OF assms(2)])
  obtain b4 where 4: "modify_current_map (udm_merge (udm_snapshot (file_map b1))) b3 = Some b4" "ready U N b4" "walk_frame b3 b4"
    "uses_kept b3 b4" "nuses b4 = nuses b3" "ndefs b4 = ndefs b3" "\<And>x. nlive b4 x = live_join (nlive b3 x) (nlive b1 x)"
    using merged [OF 1(2) 3(2) walk_frame_trans [OF 2(3) 3(3)]] by blast
  have "walk_branch rec consequence alternative b = Some b4"
    using 1(1) 2(1) 3(1) 4(1) current_map_total [OF readyD(4) [OF r]] current_map_total [OF readyD(4) [OF 1(2)]]
      readyD(2) [OF r] readyD(2) [OF 1(2)] by (simp add: walk_branch_def)
  moreover have "walk_frame b b4"
    by (rule walk_frame_trans [OF walk_frame_trans [OF 1(3) 2(3)] walk_frame_trans [OF 3(3) 4(3)]])
  moreover have "tame (CChoice c1 c2) \<longrightarrow> flows (CChoice c1 c2) b b4"
    using flows_choice [OF _ 2(4,5,7) _ 4(4,5,7)] 1(5) 3(5) by auto
  ultimately show "\<exists>b' c. walk_branch rec consequence alternative b = Some b' \<and> ready U N b' \<and> walk_frame b b' \<and>
      branch_code g1 g2 (nuses b, ndefs b) = (c, (nuses b', ndefs b')) \<and> (tame c \<longrightarrow> flows c b b')"
    using 1(4) 2(5,6) 3(4) 4(2,5,6) by (intro exI [of _ b4] exI [of _ "CChoice c1 c2"]) (simp add: branch_code_def)
qed

section \<open>Loops\<close>

lemma use_var_id:
  assumes "ready U N b" and "u < nuses b"
  shows "st_id (wk_symbol_tables b ! 0) (use_var b u) = Some (us_symbol (wk_uses b ! 0 ! u))"
  using ready_slot(6) [OF assms] st_wf_id [OF ready_slot(2) [OF assms(1)]] by (simp add: use_var_def)

text \<open>What the loop adds to the uses of its body, in terms of variables.\<close>

lemma finished_loop:
  assumes r: "ready U N b" and r1: "ready U N b1" and fr: "walk_frame b b1"
  obtains b2 where "finish_loop (udm_snapshot (file_map b)) (nuses b) b1 = Some b2" and "ready U N b2" and "walk_frame b1 b2"
    and "nuses b2 = nuses b1" and "ndefs b2 = ndefs b1" and "\<And>x. nlive b2 x = nlive b1 x" and "\<And>u. use_var b2 u = use_var b1 u"
    and "\<And>u. u < nuses b1 \<Longrightarrow> recorded b2 u = live_add (if nuses b \<le> u
      then fst (nlive b1 (use_var b1 u)) - fst (nlive b (use_var b1 u)) else {}) (recorded b1 u)"
proof -
  let ?pre = "udm_snapshot (file_map b)" and ?us = "map us_symbol (wk_uses b1 ! 0)" and ?m = "file_map b1"
  note a1 = readyD(4) [OF r1]
  have len: "length (ub_bindings_by_use ?m) = length ?us" using ready_slot(5) [OF r1] by (simp add: nuses_def)
  obtain m' where m': "udm_finish_loop_defs ?pre (nuses b) ?us ?m = Some m'"
    "\<And>j. j < length (ub_bindings_by_use ?m) \<Longrightarrow> bd_abs (ub_bindings_by_use m' ! j) =
        live_add (if nuses b \<le> j then carried ?pre (ub_symbol_states ?m) (?us ! j) else {}) (bd_abs (ub_bindings_by_use ?m ! j))"
    "m' = ?m\<lparr>ub_bindings_by_use := ub_bindings_by_use m'\<rparr>"
    using udm_finish_loop_defs_eq [of ?m ?us ?pre "nuses b"] len by (metis order_refl)
  obtain b2 where b2: "finish_loop ?pre (nuses b) b1 = Some b2" "scan_inv U b2" "walk_frame b1 b2"
    by (rule keepsE [OF finish_loop_total readyD(1) [OF r1]])
  then have mod: "modify_current_map (\<lambda>_. m') b1 = Some b2"
    using m'(1) readyD(2,5) [OF r1] arenas_okD(6) [OF a1] by (simp add: finish_loop_def current_map_total [OF a1])
  note f = modified_fields [OF r1 mod b2(2,3)]
  have states: "ub_symbol_states m' = ub_symbol_states ?m" by (subst m'(3)) simp
  have nl: "nlive b2 x = nlive b1 x" for x by (simp only: f(4) nlive_def [of b1] states)
  have "carried ?pre (ub_symbol_states ?m) (us_symbol (wk_uses b1 ! 0 ! u)) =
      fst (nlive b1 (use_var b1 u)) - fst (nlive b (use_var b1 u))" if u: "u < nuses b1" for u
    using use_var_id [OF r1 u] snapshot_nlive [OF r r1 fr, of "use_var b1 u"] by (simp add: carried_def nlive_def [of b1])
  with m'(2) len have "recorded b2 u = live_add (if nuses b \<le> u
      then fst (nlive b1 (use_var b1 u)) - fst (nlive b (use_var b1 u)) else {}) (recorded b1 u)" if "u < nuses b1" for u
    using that by (simp add: f(6) recorded_def [of b1] nuses_def)
  with that [OF b2(1) f(1) b2(3) f(2,3) nl f(5)] show ?thesis by blast
qed

lemma flows_repeat:
  assumes f: "flows c b b1" and n: "nuses b2 = nuses b1" and live: "\<And>x. nlive b2 x = nlive b1 x"
    and var: "\<And>u. use_var b2 u = use_var b1 u"
    and rec: "\<And>u. u < nuses b1 \<Longrightarrow> recorded b2 u = live_add (if nuses b \<le> u
      then fst (nlive b1 (use_var b1 u)) - fst (nlive b (use_var b1 u)) else {}) (recorded b1 u)"
  shows "flows (CRepeat c) b b2"
  unfolding flows_def
proof (intro conjI allI ballI)
  note d = flowsD [OF f]
  show "above (nlive b2 x) (gen (CRepeat c) x) (pass (CRepeat c) x) (nlive b x)" for x using d(1) by (simp add: live)
  have "recorded b2 u = recorded b u" if "u < nuses b" for u
    using that d(2) rec [of u] by (simp add: uses_kept_def)
  then show "uses_kept b b2" using d(2) by (simp add: uses_kept_def n var)
  show "map fst (facts (CRepeat c)) = [nuses b..<nuses b2]" using d(4) by (simp add: n comp_def)
  show "fact_holds b b2 f" if fc: "f \<in> set (facts (CRepeat c))" for f
  proof -
    from fc obtain g where g: "g \<in> set (facts c)" "f = carry c g" by auto
    obtain u x G P where gx: "g = (u, x, G, P)" by (cases g) auto
    have h: "use_var b1 u = x" "above (recorded b1 u) G P (nlive b x)" using d(5) [OF g(1)] by (simp_all add: gx fact_holds_def)
    have "recorded b2 u = live_add (fst (nlive b1 x) - fst (nlive b x)) (recorded b1 u)"
      using rec [of u] h(1) d(6) g(1) by (simp add: gx)
    moreover have "gen c x \<subseteq> fst (nlive b1 x)" using d(1) [of x] by (simp add: above_def)
    ultimately have "above (recorded b2 u) (G \<union> (if P then gen c x else {})) P (nlive b x)"
      using h(2) by (auto simp: above_def live_add_def)
    with h(1) show ?thesis by (simp add: g(2) gx carry_def fact_holds_def var)
  qed
qed

lemma flows_star:
  assumes "flows (CRepeat c) b b1" and "uses_kept b1 b2" and "nuses b2 = nuses b1"
    and live: "\<And>x. nlive b2 x = live_join (nlive b1 x) (nlive b x)"
  shows "flows (CStar c) b b2"
  unfolding flows_def
proof (intro conjI allI ballI)
  note d = flowsD [OF assms(1)]
  show "above (nlive b2 x) (gen (CStar c) x) (pass (CStar c) x) (nlive b x)" for x
    using d(1) [of x] by (auto simp: live above_def live_join_def)
  show "uses_kept b b2" by (rule uses_kept_trans [OF d(2) assms(2)])
  show "map fst (facts (CStar c)) = [nuses b..<nuses b2]" using d(4) by (simp add: assms(3))
  show "fact_holds b b2 f" if "f \<in> set (facts (CStar c))" for f
    using fact_holds_later [OF d(5) fact_range [OF assms(1)] assms(2)] that by simp
qed

definition star_code :: "(counts \<Rightarrow> cmd \<times> counts) \<Rightarrow> counts \<Rightarrow> cmd \<times> counts" where
  "star_code f k = (let (c, k1) = f k in (CStar c, k1))"

lemma loop_body_flows:
  assumes g: "\<And>e. body = Some e \<Longrightarrow> flowing U N (rec e) (g e)" and r: "ready U N b"
  obtains b1 c where "walk_loop_body rec body False b = Some b1" and "ready U N b1" and "walk_frame b b1"
    and "opt_code g body (nuses b, ndefs b) = (c, (nuses b1, ndefs b1))" and "tame c \<longrightarrow> flows (CRepeat c) b b1"
proof (cases body)
  case None
  have "flows (CRepeat CSkip) b b" by (simp add: flows_def)
  with that [of b CSkip] r None show ?thesis
    by (simp add: walk_loop_body_def current_map_total [OF readyD(4) [OF r]] opt_code_def skip_code_def walk_frame_refl)
next
  case (Some e)
  from r obtain b1 c where 1: "rec e b = Some b1" "ready U N b1" "walk_frame b b1"
    "g e (nuses b, ndefs b) = (c, (nuses b1, ndefs b1))" "tame c \<longrightarrow> flows c b b1" by (rule flowingE [OF g [OF Some]])
  obtain b2 where 2: "finish_loop (udm_snapshot (file_map b)) (nuses b) b1 = Some b2" "ready U N b2" "walk_frame b1 b2"
    "nuses b2 = nuses b1" "ndefs b2 = ndefs b1" "\<And>x. nlive b2 x = nlive b1 x" "\<And>u. use_var b2 u = use_var b1 u"
    "\<And>u. u < nuses b1 \<Longrightarrow> recorded b2 u = live_add (if nuses b \<le> u
      then fst (nlive b1 (use_var b1 u)) - fst (nlive b (use_var b1 u)) else {}) (recorded b1 u)"
    using finished_loop [OF r 1(2,3)] by blast
  have "walk_loop_body rec body False b = Some b2"
    using 1(1) 2(1) Some readyD(2,5) [OF r] arenas_okD(6) [OF readyD(4) [OF r]]
    by (simp add: walk_loop_body_def current_map_total [OF readyD(4) [OF r]] iv_next_id_def nuses_def)
  moreover have "tame c \<longrightarrow> flows (CRepeat c) b b2" using flows_repeat [OF _ 2(4,6,7,8)] 1(5) by blast
  moreover have "opt_code g body (nuses b, ndefs b) = (c, (nuses b2, ndefs b2))" using 1(4) 2(4,5) Some by (simp add: opt_code_def)
  ultimately show ?thesis using that 2(2) walk_frame_trans [OF 1(3) 2(3)] by blast
qed

lemma flowing_repeat:
  assumes "\<And>e. body = Some e \<Longrightarrow> flowing U N (rec e) (g e)"
  shows "flowing U N (walk_loop_body rec body False) (repeat_code (opt_code g body))"
proof (rule flowingI)
  fix b assume "ready U N b"
  with assms obtain b1 c where "walk_loop_body rec body False b = Some b1" "ready U N b1" "walk_frame b b1"
    "opt_code g body (nuses b, ndefs b) = (c, (nuses b1, ndefs b1))" "tame c \<longrightarrow> flows (CRepeat c) b b1"
    by (rule loop_body_flows [of body U N rec g b]) auto
  then show "\<exists>b' c. walk_loop_body rec body False b = Some b' \<and> ready U N b' \<and> walk_frame b b' \<and>
      repeat_code (opt_code g body) (nuses b, ndefs b) = (c, (nuses b', ndefs b')) \<and> (tame c \<longrightarrow> flows c b b')"
    by (intro exI [of _ b1] exI [of _ "CRepeat c"]) (simp add: repeat_code_def)
qed

lemma flowing_star:
  assumes "\<And>e. body = Some e \<Longrightarrow> flowing U N (rec e) (g e)"
  shows "flowing U N (walk_loop_body rec body True) (star_code (opt_code g body))"
proof (rule flowingI)
  fix b assume r: "ready U N b"
  with assms obtain b1 c where 1: "walk_loop_body rec body False b = Some b1" "ready U N b1" "walk_frame b b1"
    "opt_code g body (nuses b, ndefs b) = (c, (nuses b1, ndefs b1))" "tame c \<longrightarrow> flows (CRepeat c) b b1"
    by (rule loop_body_flows [of body U N rec g b]) auto
  obtain b2 where 2: "modify_current_map (udm_merge (udm_snapshot (file_map b))) b1 = Some b2" "ready U N b2" "walk_frame b1 b2"
    "uses_kept b1 b2" "nuses b2 = nuses b1" "ndefs b2 = ndefs b1" "\<And>x. nlive b2 x = live_join (nlive b1 x) (nlive b x)"
    using merged [OF r 1(2,3)] by blast
  have "walk_loop_body rec body True b = Some b2"
    using 1(1) 2(1) readyD(2) [OF r] by (simp add: walk_loop_body_def current_map_total [OF readyD(4) [OF r]])
  moreover have "tame (CStar c) \<longrightarrow> flows (CStar c) b b2" using flows_star [OF _ 2(4,5,7)] 1(5) by simp
  ultimately show "\<exists>b' c. walk_loop_body rec body True b = Some b' \<and> ready U N b' \<and> walk_frame b b' \<and>
      star_code (opt_code g body) (nuses b, ndefs b) = (c, (nuses b', ndefs b')) \<and> (tame c \<longrightarrow> flows c b b')"
    using 1(4) 2(2,5,6) walk_frame_trans [OF 1(3) 2(3)]
    by (intro exI [of _ b2] exI [of _ "CStar c"]) (simp add: star_code_def)
qed

lemma flowing_recode:
  assumes "flowing U N f g"
    and "\<And>k c k'. g k = (c, k') \<Longrightarrow> \<exists>c'. h k = (c', k') \<and>
      (tame c' \<longrightarrow> tame c \<and> gen c' = gen c \<and> pass c' = pass c \<and> facts c' = facts c)"
  shows "flowing U N f h"
proof (rule flowingI)
  fix b assume "ready U N b"
  then obtain b' c where c: "f b = Some b'" "ready U N b'" "walk_frame b b'" "g (nuses b, ndefs b) = (c, (nuses b', ndefs b'))"
    "tame c \<longrightarrow> flows c b b'" by (rule flowingE [OF assms(1)])
  from assms(2) [OF c(4)] obtain c' where "h (nuses b, ndefs b) = (c', (nuses b', ndefs b'))"
    "tame c' \<longrightarrow> tame c \<and> gen c' = gen c \<and> pass c' = pass c \<and> facts c' = facts c" by blast
  moreover from this(2) c(5) have "tame c' \<longrightarrow> flows c' b b'" by (simp add: flows_def)
  ultimately show "\<exists>b' c. f b = Some b' \<and> ready U N b' \<and> walk_frame b b' \<and>
      h (nuses b, ndefs b) = (c, (nuses b', ndefs b')) \<and> (tame c \<longrightarrow> flows c b b')"
    using c(1-3) by blast
qed

lemma flowing_while:
  assumes "flowing U N f (seq_code g (star_code h))"
  shows "flowing U N f (while_code g h)"
  by (rule flowing_recode [OF assms])
    (auto simp: seq_code_def star_code_def while_code_def fun_eq_iff split: prod.splits)

text \<open>The walk binds the loop variable before it visits the sequence; that is the same for a tame sequence.\<close>

lemma for_recode:
  assumes "tame (CFor d x a c)"
  shows "gen (CFor d x a c) = gen (CSeq (CSeq (CDef d x) a) (CStar c))" and "pass (CFor d x a c) = pass (CSeq (CSeq (CDef d x) a) (CStar c))"
    and "facts (CFor d x a c) = facts (CSeq (CSeq (CDef d x) a) (CStar c))"
proof -
  have "gen a x = {}" "pass a x" using assms not_defined by auto
  then show "gen (CFor d x a c) = gen (CSeq (CSeq (CDef d x) a) (CStar c))"
    "pass (CFor d x a c) = pass (CSeq (CSeq (CDef d x) a) (CStar c))" by (auto simp: fun_eq_iff)
  have "after (CDef d x) f = f" if "f \<in> set (facts a)" for f
  proof -
    obtain u y G P where f: "f = (u, y, G, P)" by (cases f) auto
    with that have "y \<in> set (reads a)" by (simp add: facts_reads)
    with assms have "y \<noteq> x" by auto
    then show ?thesis by (simp add: f after_def)
  qed
  then have "map (after (CDef d x)) (facts a) = facts a" by (simp add: map_idI)
  then show "facts (CFor d x a c) = facts (CSeq (CSeq (CDef d x) a) (CStar c))" by simp
qed

lemma flowing_for:
  assumes "flowing U N f (seq_code (seq_code (def_code x) g) (star_code h))"
  shows "flowing U N f (for_code x g h)"
proof (rule flowing_recode [OF assms])
  fix k c k' assume "seq_code (seq_code (def_code x) g) (star_code h) k = (c, k')"
  then obtain a k1 c1 where a: "g (fst k, Suc (snd k)) = (a, k1)" "h k1 = (c1, k')" "c = CSeq (CSeq (CDef (snd k) x) a) (CStar c1)"
    by (auto simp: seq_code_def star_code_def def_code_def split: prod.splits)
  show "\<exists>c'. for_code x g h k = (c', k') \<and> (tame c' \<longrightarrow> tame c \<and> gen c' = gen c \<and> pass c' = pass c \<and> facts c' = facts c)"
  proof (intro exI conjI impI)
    show "for_code x g h k = (CFor (snd k) x a c1, k')" using a by (simp add: for_code_def)
    assume t: "tame (CFor (snd k) x a c1)"
    then show "tame c" by (simp add: a(3))
    show "gen (CFor (snd k) x a c1) = gen c" "pass (CFor (snd k) x a c1) = pass c" "facts (CFor (snd k) x a c1) = facts c"
      using for_recode [OF t] by (simp_all only: a(3))
  qed
qed

section \<open>Expressions\<close>

text \<open>
  The fragment: no function definitions, no \<open>break\<close> or \<open>next\<close> and no malformed nodes; an assignment
  is not a super-assignment and has a value and a name as its target; a \<open>for\<close> loop has a variable.
\<close>

fun structured_node :: "r_expr \<Rightarrow> bool" where
  "structured_node (RFunctionDefinition _ _ _) = False"
| "structured_node (RBogusExpression _ _) = False"
| "structured_node (RBreakExpression _) = False"
| "structured_node (RNextExpression _) = False"
| "structured_node (RBinaryExpression r l tok rt) =
     (let e = RBinaryExpression r l tok rt; right = is_right_assignment e
      in is_assignment e \<longrightarrow> \<not> is_super_assignment e \<and> (if right then l else rt) \<noteq> None \<and>
           (case (if right then rt else l) of None \<Rightarrow> False | Some t \<Rightarrow> assignment_name t \<noteq> None))"
| "structured_node (RForStatement _ var _ _) = (var \<noteq> None)"
| "structured_node _ = True"

definition structured :: "r_expr list \<Rightarrow> bool" where
  "structured es = list_all structured_node (file_nodes es)"

text \<open>Calls and operators without recorded effects are walked as their parts in order.\<close>

lemma flowing_cong: "flowing U N f g \<Longrightarrow> (\<And>b. ready U N b \<Longrightarrow> f' b = f b) \<Longrightarrow> flowing U N f' g"
  unfolding flowing_def by simp

lemma foldM_opt_list:
  "foldM rec (concat (map (\<lambda>a. opt_list (p a)) items)) b = foldM (\<lambda>a b. opt_step rec (p a) b) items b"
  by (induction items arbitrary: b) (auto simp: foldM_append split: option.splits)

lemma foldM_opt_append: "foldM rec (opt_list x @ ys) b = do { b \<leftarrow> opt_step rec x b; foldM rec ys b }"
  by (cases x) simp_all

lemma foldM_opt: "foldM rec (opt_list x) b = opt_step rec x b"
  by (cases x) simp_all

lemma walk_arguments_children:
  "walk_arguments rec items = foldM rec (concat (map (\<lambda>a. opt_list (arg_value a)) items))"
  by (rule ext) (simp add: walk_arguments_def foldM_opt_list)

lemma flowing_children:
  assumes "\<And>c. c \<in> set (children e) \<Longrightarrow> flowing U N (rec c) (code c)"
  shows "flowing U N (foldM rec (children e)) (list_code (\<lambda>c. lazy_code (code c)) (children e))"
  by (intro flowing_foldM flowing_lazy assms)

lemma resolution_none: "ready U N b \<Longrightarrow> e \<in> N \<Longrightarrow> resolution_at b e = cl_default"
  using readyD(6) by (simp add: resolution_at_def)

lemma walk_call_plain:
  assumes rec: "\<And>c. c \<in> set (children (RCall r f as)) \<Longrightarrow> flowing U N (rec c) (code c)"
    and e: "RCall r f as \<in> N" and b: "ready U N b"
  shows "walk_call R fuel rec (RCall r f as) b = foldM rec (children (RCall r f as)) b"
proof -
  have "flowing U N (opt_step rec f) (opt_code code f)" by (rule flowing_opt) (use rec in simp)
  from flowingE [OF this b] obtain b1 where 1: "opt_step rec f b = Some b1" "ready U N b1" by blast
  have "flowing U N (foldM rec (concat (map (\<lambda>a. opt_list (arg_value a)) (the_list as))))
      (list_code code (concat (map (\<lambda>a. opt_list (arg_value a)) (the_list as))))"
    by (rule flowing_foldM) (use rec in simp)
  from flowingE [OF this 1(2)] obtain b2 where
    2: "foldM rec (concat (map (\<lambda>a. opt_list (arg_value a)) (the_list as))) b1 = Some b2" "ready U N b2" by blast
  have "walk_call R fuel rec (RCall r f as) b = Some b2"
    using 1 2 resolution_none [OF 1(2) e] resolution_none [OF 2(2) e]
    by (simp add: walk_call_def walk_arguments_children walk_semantic_call_def cl_default_def)
  moreover have "foldM rec (children (RCall r f as)) b = Some b2" using 1(1) 2(1) by (simp add: foldM_opt_append)
  ultimately show ?thesis by simp
qed

lemma walk_operator_plain:
  assumes rec: "\<And>c. c \<in> set (children (RBinaryExpression r l tok rt)) \<Longrightarrow> flowing U N (rec c) (code c)"
    and e: "RBinaryExpression r l tok rt \<in> N" and b: "ready U N b"
  shows "walk_operator rec (RBinaryExpression r l tok rt) b = foldM rec (children (RBinaryExpression r l tok rt)) b"
proof -
  have "flowing U N (foldM rec (children (RBinaryExpression r l tok rt))) (list_code code (children (RBinaryExpression r l tok rt)))"
    by (rule flowing_foldM) (rule rec)
  from flowingE [OF this b] obtain b1 where 1: "foldM rec (children (RBinaryExpression r l tok rt)) b = Some b1" "ready U N b1" by blast
  have "walk_assign_operator (RBinaryExpression r l tok rt) b1 = Some b1"
    using readyD(6) [OF 1(2) e] by (simp add: walk_assign_operator_def)
  moreover have "foldM rec (children (RBinaryExpression r l tok rt)) b = do { b \<leftarrow> opt_step rec l b; opt_step rec rt b }"
    using foldM_opt_append [of rec rt "[]"] by (simp add: foldM_opt_append)
  ultimately show ?thesis
    using 1(1) resolution_none [OF b e] by (auto simp: walk_operator_def cl_default_def Let_def split: Option.bind_splits)
qed

lemma flowing_pure:
  assumes "walks U (\<lambda>b. Some (f b))" and "\<And>b. wk_symbol_tables (f b) = wk_symbol_tables b" and "\<And>b. wk_uses (f b) = wk_uses b"
    and "\<And>b. wk_definitions (f b) = wk_definitions b" and "\<And>b. wk_use_def_maps (f b) = wk_use_def_maps b"
    and "\<And>b. sn_call_resolutions (f b) = sn_call_resolutions b"
  shows "flowing U N (\<lambda>b. Some (f b)) skip_code"
proof (rule flowingI)
  fix b assume r: "ready U N b"
  have inv: "scan_inv U (f b)" "walk_frame b (f b)" using keepsE [OF assms(1) readyD(1) [OF r]] by auto
  have n: "nuses (f b) = nuses b" "ndefs (f b) = ndefs b" by (simp_all add: nuses_def ndefs_def assms)
  have "nlive (f b) x = nlive b x" "use_var (f b) u = use_var b u" "recorded (f b) u = recorded b u" for x u
    unfolding nlive_def use_var_def recorded_def assms by (rule refl)+
  then have "flows CSkip b (f b)" by (simp add: flows_def uses_kept_def n)
  then show "\<exists>b' c. Some (f b) = Some b' \<and> ready U N b' \<and> walk_frame b b' \<and>
      skip_code (nuses b, ndefs b) = (c, (nuses b', ndefs b')) \<and> (tame c \<longrightarrow> flows c b b')"
    using inv ready_frame [OF r inv assms(6)] by (intro exI [of _ "f b"] exI [of _ CSkip]) (simp add: skip_code_def n)
qed

lemma flowing_assignment:
  assumes rec: "\<And>c. c \<in> set (children e) \<Longrightarrow> flowing U N (rec c) (code c)"
    and e: "e = RBinaryExpression r l tok rt" "is_assignment e" "structured_node e"
  shows "flowing U N (walk_assignment rec e) (code e)"
proof -
  let ?right = "is_right_assignment e"
  let ?rhs = "if ?right then l else rt" and ?target = "if ?right then rt else l"
  let ?def = "\<lambda>t. case assignment_name t of Some (x, _) \<Rightarrow> def_code x | None \<Rightarrow> skip_code"
  have val: "flowing U N (opt_step rec ?rhs) (opt_code code ?rhs)"
    by (rule flowing_opt) (use rec e(1) in \<open>auto split: if_splits\<close>)
  have tgt: "flowing U N (opt_step (walk_target rec e) ?target) (opt_code ?def ?target)"
  proof (rule flowing_opt)
    fix t assume t: "?target = Some t"
    with e obtain x rr where x: "assignment_name t = Some (x, rr)" "\<not> is_super_assignment e" by (auto simp: Let_def)
    have "walk_target rec e t = add_definition x IS_BOUND (Assignment e) rr" by (rule ext) (simp add: walk_target_def x)
    then show "flowing U N (walk_target rec e t) (?def t)" using flowing_definition by (simp add: x)
  qed
  have "code e = seq_code (opt_code code ?rhs) (opt_code ?def ?target)" using e(1,2) by (intro ext) (simp add: Let_def)
  moreover have "walk_assignment rec e = (\<lambda>b. do { b \<leftarrow> opt_step rec ?rhs b; opt_step (walk_target rec e) ?target b })"
    by (rule ext) (simp add: walk_assignment_def e(1) Let_def)
  ultimately show ?thesis using flowing_bind [OF val tgt] by simp
qed

lemma flowing_node:
  assumes rec: "\<And>c. c \<in> set (children e) \<Longrightarrow> flowing U N (rec c) (code c)" and e: "e \<in> N" "structured_node e"
  shows "flowing U N (walk_node R fuel rec e) (code e)"
proof -
  have kids: "flowing U N (foldM rec (children e)) (list_code (\<lambda>c. lazy_code (code c)) (children e))"
    by (rule flowing_children [OF rec])
  show ?thesis
  proof (cases e)
    case (RForStatement r var s body)
    then obtain v where v: "var = Some v" using e(2) by auto
    have "flowing U N (\<lambda>b. do { b \<leftarrow> (do { b \<leftarrow> walk_for_variable e v b; opt_step rec s b }); walk_loop_body rec body True b })
        (seq_code (seq_code (def_code (name_text (snd v))) (opt_code code s)) (star_code (opt_code code body)))"
      unfolding walk_for_variable_def
      by (intro flowing_bind flowing_definition flowing_opt flowing_star) (use rec RForStatement in simp_all)
    from flowing_for [OF this] show ?thesis by (simp add: walk_node_def flowing_def RForStatement v)
  next
    case (RWhileStatement r c body)
    have "flowing U N (\<lambda>b. do { b \<leftarrow> opt_step rec c b; walk_loop_body rec body True b })
        (seq_code (opt_code code c) (star_code (opt_code code body)))"
      by (intro flowing_bind flowing_opt flowing_star) (use rec RWhileStatement in simp_all)
    from flowing_while [OF this] show ?thesis by (simp add: walk_node_def flowing_def RWhileStatement)
  next
    case (RIfStatement r c t a)
    have "flowing U N (\<lambda>b. do { b \<leftarrow> opt_step rec c b; walk_branch rec t a b })
        (seq_code (opt_code code c) (branch_code (opt_code code t) (opt_code code a)))"
      by (intro flowing_bind flowing_branch flowing_opt) (use rec RIfStatement in simp_all)
    then show ?thesis by (simp add: walk_node_def flowing_def RIfStatement)
  next
    case (RRepeatStatement r body)
    have "flowing U N (walk_loop_body rec body False) (repeat_code (opt_code code body))"
      by (intro flowing_repeat) (use rec RRepeatStatement in simp_all)
    then show ?thesis by (simp add: walk_node_def flowing_def RRepeatStatement)
  next
    case (RBracedExpressions r es)
    have "flowing U N (foldM rec es) (list_code code es)" by (intro flowing_foldM) (use rec RBracedExpressions in simp)
    then show ?thesis by (simp add: walk_node_def flowing_def RBracedExpressions)
  next
    case (RBinaryExpression r l tok rt)
    show ?thesis
    proof (cases "is_assignment e")
      case True
      have "walk_node R fuel rec e = walk_assignment rec e" using True by (intro ext) (simp add: walk_node_def RBinaryExpression)
      then show ?thesis using flowing_assignment [OF rec RBinaryExpression True e(2)] by simp
    next
      case False
      have "flowing U N (walk_node R fuel rec e) (list_code (\<lambda>c. lazy_code (code c)) (children e))"
        by (rule flowing_cong [OF kids])
          (use False walk_operator_plain [of r l tok rt U N rec] rec e(1) in \<open>simp add: walk_node_def RBinaryExpression\<close>)
      then show ?thesis using False by (simp add: flowing_def RBinaryExpression Let_def)
    qed
  next
    case (RCall r f as)
    have "flowing U N (walk_node R fuel rec e) (list_code (\<lambda>c. lazy_code (code c)) (children e))"
      by (rule flowing_cong [OF kids]) (use walk_call_plain [of r f as U N rec] rec e(1) in \<open>simp add: walk_node_def RCall\<close>)
    then show ?thesis by (simp add: flowing_def RCall)
  next
    case (RNamespaceExpression r l tok rt)
    have "flowing U N (\<lambda>b. Some (walk_namespace_access r l tok rt b)) skip_code"
      by (rule flowing_pure [OF walks_namespace_access]) (simp_all add: walk_namespace_access_def split: option.splits)
    then show ?thesis by (simp add: walk_node_def flowing_def RNamespaceExpression)
  qed (use kids e(2) flowing_use in \<open>simp_all add: walk_node_def flowing_def foldM_opt foldM_opt_append walk_arguments_children\<close>)
qed

lemma flowing_expression:
  assumes "set (subterms e) \<subseteq> N" and "\<forall>c\<in>set (subterms e). structured_node c" and "size e < n"
  shows "flowing U N (walk_expression R fuel n e) (code e)"
  using assms
proof (induction n arbitrary: e)
  case (Suc n)
  have "flowing U N (walk_expression R fuel n c) (code c)" if "c \<in> set (children e)" for c
    by (rule Suc.IH) (use Suc.prems subterms_child [OF that] size_children [OF that] in auto)
  then have "flowing U N (walk_node R fuel (walk_expression R fuel n) e) (code e)"
    by (rule flowing_node) (use Suc.prems subterms_self [of e] in blast)+
  then show ?case by (simp add: flowing_def)
qed simp

section \<open>Files\<close>

definition file_code :: "r_expr list \<Rightarrow> cmd" where
  "file_code es = fst (list_code code es (0, 0))"

text \<open>The state in which the walk starts, and that no expression of the file has an effect there.\<close>

definition scan_file :: "imports_resolver \<Rightarrow> text_range \<Rightarrow> r_expr list \<Rightarrow> builder option" where
  "scan_file R rng es = do {
     b \<leftarrow> begin_scan (builder_new rng);
     b \<leftarrow> scan_expression_list R (file_fuel es) es b;
     scan_deferred_bodies (file_fuel es) (scan_expression R (file_fuel es)) 0 b }"

definition effect_free :: "imports_resolver \<Rightarrow> text_range \<Rightarrow> r_expr list \<Rightarrow> bool" where
  "effect_free R rng es = (case scan_file R rng es of None \<Rightarrow> False
     | Some b \<Rightarrow> list_all (\<lambda>e. sn_call_resolutions b (trimmed_range e) = None) (file_nodes es))"

lemma build_state_scan:
  "build_state R rng es = do { b \<leftarrow> scan_file R rng es; walk_expression_list R (file_fuel es) es b }"
  by (simp add: build_state_def scan_file_def Let_def)

lemma scan_file_total:
  assumes "calls_distinct es"
  obtains b where "scan_file R rng es = Some b" and "scan_inv (set (file_nodes es)) b" and "arenas b = arenas (builder_new rng)"
proof -
  let ?U = "set (file_nodes es)" and ?fuel = "file_fuel es" and ?b = "builder_new rng" and ?z = "size_list size es"
  have U: "nodes_ok ?U" by (rule nodes_ok_file [OF assms])
  have small: "size e < ?fuel" if "e \<in> ?U" for e using file_nodes_size [OF that] by (simp add: file_fuel_def)
  have scan: "scans ?U ?z (scan_expression R ?fuel e)" if "e \<in> set es" for e
    by (rule scans_mono [OF scans_expression [OF U]]) (use file_nodes_top [OF that] file_nodes_size small in fastforce)+
  have unit: "scans ?U ?z (\<lambda>b. do { b \<leftarrow> begin_scan b; foldM (scan_expression R ?fuel) es b })"
    by (intro scans_bind scans_begin scans_foldM scan)
  obtain b0 where b0: "(do { b \<leftarrow> begin_scan ?b; foldM (scan_expression R ?fuel) es b }) = Some b0" "scan_inv ?U b0" "scan_frame ?z ?b b0"
    by (rule keepsE [OF unit builder_new_inv])
  have fuel: "?z < ?fuel" by (simp add: file_fuel_def)
  have rec: "scans ?U (size e) (scan_expression R ?fuel e)" if "e \<in> ?U" "size e < ?z" for e
    using scans_expression [OF U that(1)] small [OF that(1)] by simp
  obtain b1 where b1: "scan_deferred_bodies ?fuel (scan_expression R ?fuel) (length (sn_deferred_bodies ?b)) b0 = Some b1"
    "scan_inv ?U b1" "scan_frame ?z ?b b1" by (rule scans_drained [OF builder_new_inv rec b0(3,2) fuel]) blast+
  have "scan_file R rng es = Some b1"
    using b0(1) b1(1) by (auto simp: scan_file_def scan_expression_list_def builder_new_def split: Option.bind_splits)
  with that b1 show ?thesis by (simp add: scan_frame_def)
qed

lemma walk_file_flows:
  assumes d: "calls_distinct es" and st: "structured es" and ef: "effect_free R rng es" and tame: "tame (file_code es)"
  obtains b where "build_state R rng es = Some b" and "scan_inv (set (file_nodes es)) b" and "bu_current_scope b = 0"
    and "map fst (facts (file_code es)) = [0..<nuses b]"
    and "\<And>x. above (nlive b x) (gen (file_code es) x) (pass (file_code es) x) live_unbound"
    and "\<And>u x G P. (u, x, G, P) \<in> set (facts (file_code es)) \<Longrightarrow> use_var b u = x \<and> above (recorded b u) G P live_unbound"
proof -
  let ?U = "set (file_nodes es)"
  obtain b0 where b0: "scan_file R rng es = Some b0" "scan_inv ?U b0" "arenas b0 = arenas (builder_new rng)"
    by (rule scan_file_total [OF d])
  have fields: "bu_scopes b0 = [file_scope_entry rng]" "bu_current_scope b0 = 0" "wk_symbol_tables b0 = [st_new]"
    "wk_definitions b0 = [[]]" "wk_uses b0 = [[]]" "wk_use_def_maps b0 = [udm_new]"
    using b0(3) by (simp_all add: arenas_def builder_new_def)
  have r: "ready ?U ?U b0"
    using b0(1,2) ef by (simp add: ready_def fields file_scope_entry_def effect_free_def list_all_iff)
  have zero: "nuses b0 = 0" "ndefs b0 = 0" "\<And>x. nlive b0 x = live_unbound"
    by (simp_all add: nuses_def ndefs_def nlive_def fields st_id_def st_new_def)
  have "flowing ?U ?U (walk_expression R (file_fuel es) (file_fuel es) e) (code e)" if "e \<in> set es" for e
  proof (rule flowing_expression)
    show sub: "set (subterms e) \<subseteq> ?U" using that by (auto simp: file_nodes_def)
    then show "\<forall>c\<in>set (subterms e). structured_node c" using st by (auto simp: structured_def list_all_iff)
    show "size e < file_fuel es" using file_nodes_size [OF file_nodes_top [OF that]] by (simp add: file_fuel_def)
  qed
  then have "flowing ?U ?U (walk_expression_list R (file_fuel es) es) (list_code code es)"
    using flowing_foldM [of es ?U ?U "walk_expression R (file_fuel es) (file_fuel es)" code]
    by (simp add: walk_expression_list_def flowing_def)
  from flowingE [OF this r] obtain b c where b: "walk_expression_list R (file_fuel es) es b0 = Some b" "ready ?U ?U b"
    "list_code code es (0, 0) = (c, (nuses b, ndefs b))" "tame c \<longrightarrow> flows c b0 b" unfolding zero by blast
  then have c: "c = file_code es" by (simp add: file_code_def)
  with b(4) tame have f: "flows (file_code es) b0 b" by simp
  show ?thesis
  proof (rule that)
    show "build_state R rng es = Some b" using b0(1) b(1) by (simp add: build_state_scan)
    show "scan_inv ?U b" "bu_current_scope b = 0" using readyD [OF b(2)] by blast+
    show "map fst (facts (file_code es)) = [0..<nuses b]" using flowsD(4) [OF f] by (simp add: zero)
    show "above (nlive b x) (gen (file_code es) x) (pass (file_code es) x) live_unbound" for x
      using flowsD(1) [OF f, of x] by (simp add: zero)
    show "use_var b u = x \<and> above (recorded b u) G P live_unbound" if "(u, x, G, P) \<in> set (facts (file_code es))" for u x G P
      using flowsD(5) [OF f that] by (simp add: fact_holds_def zero)
  qed
qed

end
