(* ===== verification/Flow_Sound.thy ===== *)
theory Flow_Sound
  imports Flow_Walk Sample_File
begin

text \<open>
  Soundness of the index on structured code: whatever an execution observes at a use is among the
  bindings the index reports for it, and whatever a run leaves behind is among the exports. The
  last section has the two loop heads for which this fails, each with an execution that shows it.
\<close>

section \<open>From the walked state to the index\<close>

lemma builder_finish_fields:
  assumes inv: "scan_inv U b" and cur: "bu_current_scope b = 0" and fin: "builder_finish b = Some ix"
  shows "ix_uses ix = wk_uses b" and "ix_symbol_tables ix = wk_symbol_tables b" and "ix_definitions ix = wk_definitions b"
    and "ud_bindings_by_use (ix_use_def_maps ix ! 0) = ub_bindings_by_use (file_map b)"
    and "length (ix_final_bindings ix) = length (ub_symbol_states (file_map b))"
    and "fst (udm_live (file_map b) i) \<subseteq> fst (states_live (ix_final_bindings ix) i)"
    and "snd (states_live (ix_final_bindings ix) i) = snd (udm_live (file_map b) i)"
proof -
  note a = scan_invD [OF inv]
  have pos: "0 < length (bu_scopes b)" using arenas_okD(2) [OF a] cur by simp
  obtain m where m: "udm_fold_lazy_defs (file_map b) = Some m" "length (ub_symbol_states m) = length (ub_symbol_states (file_map b))"
    "\<forall>i. udm_live m i = live_add (\<Union>{set ds |ds. (i, ds) \<in> set (ub_lazy_defs (file_map b))}) (udm_live (file_map b) i)"
    "m = (file_map b)\<lparr>ub_lazy_defs := [], ub_symbol_states := ub_symbol_states m\<rparr>"
    using udm_fold_lazy_defs_wf [OF scope_ok_udm [OF arenas_okD(9) [OF a pos]]] by blast
  have ix: "ix_uses ix = wk_uses b" "ix_symbol_tables ix = wk_symbol_tables b" "ix_definitions ix = wk_definitions b"
    "ix_use_def_maps ix = map udm_finish ((wk_use_def_maps b)[0 := m])" "ix_final_bindings ix = ub_symbol_states m"
    using fin pos arenas_okD(4-7) [OF a] m(1)
    by (auto simp: builder_finish_def Let_def split_beta udm_final_bindings_def)
  show "ix_uses ix = wk_uses b" "ix_symbol_tables ix = wk_symbol_tables b" "ix_definitions ix = wk_definitions b" by (fact ix)+
  have "ub_bindings_by_use m = ub_bindings_by_use (file_map b)" by (subst m(4)) simp
  then show "ud_bindings_by_use (ix_use_def_maps ix ! 0) = ub_bindings_by_use (file_map b)"
    using pos arenas_okD(7) [OF a] by (simp add: ix udm_finish_def)
  show "length (ix_final_bindings ix) = length (ub_symbol_states (file_map b))" by (simp add: ix m(2))
  show "fst (udm_live (file_map b) i) \<subseteq> fst (states_live (ix_final_bindings ix) i)"
    "snd (states_live (ix_final_bindings ix) i) = snd (udm_live (file_map b) i)"
    using m(3) by (simp_all add: ix live_add_def)
qed

text \<open>What the walk recorded, read off the index.\<close>

lemma index_flows:
  assumes d: "calls_distinct es" and st: "structured es" and ef: "effect_free R rng es" and tame: "tame (file_code es)"
    and ix: "build_index R rng es = Some ix"
  shows "(u, x, G, P) \<in> set (facts (file_code es)) \<Longrightarrow> u < length (ix_uses ix ! 0) \<and> use_name ix 0 u = x \<and>
      (\<exists>b. ud_bindings_at_use (ix_use_def_maps ix ! 0) u = Some b \<and> above (bd_abs b) G P live_unbound)"
    and "above (case st_id (ix_symbol_tables ix ! 0) x of None \<Rightarrow> live_unbound | Some i \<Rightarrow> states_live (ix_final_bindings ix) i)
      (gen (file_code es) x) (pass (file_code es) x) live_unbound"
proof -
  obtain b where b: "build_state R rng es = Some b" "scan_inv (set (file_nodes es)) b" "bu_current_scope b = 0"
    "map fst (facts (file_code es)) = [0..<nuses b]"
    "\<And>x. above (nlive b x) (gen (file_code es) x) (pass (file_code es) x) live_unbound"
    "\<And>u x G P. (u, x, G, P) \<in> set (facts (file_code es)) \<Longrightarrow> use_var b u = x \<and> above (recorded b u) G P live_unbound"
    using walk_file_flows [OF d st ef tame] by blast
  have fin: "builder_finish b = Some ix" using ix b(1) by (simp add: build_index_def)
  note f = builder_finish_fields [OF b(2,3) fin]
  have len: "length (ub_bindings_by_use (file_map b)) = nuses b"
    using current_wf [OF b(2)] by (simp add: b(3) udm_wf_def nuses_def)
  show "u < length (ix_uses ix ! 0) \<and> use_name ix 0 u = x \<and>
      (\<exists>b. ud_bindings_at_use (ix_use_def_maps ix ! 0) u = Some b \<and> above (bd_abs b) G P live_unbound)"
    if u: "(u, x, G, P) \<in> set (facts (file_code es))"
  proof -
    have "u \<in> set (map fst (facts (file_code es)))" using u by force
    then have "u < nuses b" unfolding b(4) by simp
    with b(6) [OF u] len show ?thesis
      by (simp add: use_name_def symbol_name_def use_var_def recorded_def nuses_def f ud_bindings_at_use_def)
  qed
  show "above (case st_id (ix_symbol_tables ix ! 0) x of None \<Rightarrow> live_unbound | Some i \<Rightarrow> states_live (ix_final_bindings ix) i)
      (gen (file_code es) x) (pass (file_code es) x) live_unbound"
    using b(5) [of x] f(6,7) by (auto simp: above_def nlive_def f(2) live_unbound_def split: option.splits)
qed

section \<open>Properties\<close>

text \<open>
  C1. The reaching definitions are sound on the files that meet four conditions. Distinct calls have
  distinct ranges. The file is \<^const>\<open>structured\<close>: there is no function definition, no \<open>break\<close> or
  \<open>next\<close>, no syntax error, and every assignment is an ordinary one to a name. It is
  \<^const>\<open>effect_free\<close>: the scan finds no call with a registered effect (attach, source, assign and the
  like). It is \<^const>\<open>tame\<close>: a \<open>while\<close> condition reads nothing the loop defines, a \<open>for\<close> sequence
  neither reads nor defines the loop variable, and operands and arguments define nothing. In every
  execution of such a file, complete or interrupted, when a use is evaluated the definition its
  variable holds is among the definitions the index reports for that use, and if the variable has no
  value the index reports that it may be unbound. The use observed is the use of the index with the
  same number, and it has the same name.
\<close>

theorem reaching_definitions_sound:
  assumes "calls_distinct es" and "structured es" and "effect_free R r es" and "tame (file_code es)"
    and "build_index R r es = Some ix" and "exec (file_code es) Map.empty os res" and "(u, x, v) \<in> set os"
  shows "use_name ix 0 u = x \<and> (\<exists>b. ud_bindings_at_use (ix_use_def_maps ix ! 0) u = Some b \<and>
    (case v of None \<Rightarrow> bd_may_be_unbound b | Some d \<Rightarrow> d \<in> set (bd_definitions b)))"
proof -
  from exec_covered [OF assms(6,4)] assms(7) obtain G P where f: "(u, x, G, P) \<in> set (facts (file_code es))"
    "reaches G P None v" unfolding covered_def by fastforce
  from index_flows(1) [OF assms(1-5) f(1)] f(2) show ?thesis
    by (auto simp: reaches_def above_def bd_abs_def live_unbound_def split: option.splits)
qed

text \<open>
  C4. The exports are sound on the files of the same four conditions: distinct calls have distinct
  ranges, no function definitions, \<open>break\<close>, \<open>next\<close>, errors or unusual assignments, no calls with
  registered effects, and loop heads and arguments that are tame. When such a file runs to its end,
  every variable it leaves bound is exported with the definition it holds, and a variable it leaves
  unbound is not reported as surely bound.
\<close>

theorem exports_sound:
  assumes "calls_distinct es" and "structured es" and "effect_free R r es" and "tame (file_code es)"
    and "build_index R r es = Some ix" and "exec (file_code es) Map.empty os (Some env)"
  shows "(\<forall>d. env x = Some d \<longrightarrow> (\<exists>ds. export ix x = Some ds \<and> d \<in> fst ` set ds)) \<and>
    (env x = None \<longrightarrow> export_is_bound ix x = Some False)"
proof -
  note ok = build_index_ok [OF assms(1,5)]
  let ?l = "case st_id (ix_symbol_tables ix ! 0) x of None \<Rightarrow> live_unbound | Some i \<Rightarrow> states_live (ix_final_bindings ix) i"
  have reach: "reaches (gen (file_code es) x) (pass (file_code es) x) None (env x)"
    using exec_state [OF assms(6) refl assms(4), of x] by simp
  have l: "above ?l (gen (file_code es) x) (pass (file_code es) x) live_unbound" by (rule index_flows(2) [OF assms(1-5)])
  have "\<exists>ds. export ix x = Some ds \<and> d \<in> fst ` set ds" if "env x = Some d" for d
  proof -
    from that reach l have "d \<in> fst ?l" by (auto simp: reaches_def above_def)
    then show ?thesis unfolding export_total [OF ok]
      by (force simp: final_defs_def states_live_def live_unbound_def bd_abs_def split: option.splits if_splits)
  qed
  moreover have "export_is_bound ix x = Some False" if "env x = None"
  proof -
    from that reach l have "snd ?l" by (auto simp: reaches_def above_def live_unbound_def)
    then show ?thesis using index_arena(3) [OF ok] index_okD(2) [OF ok]
      by (auto simp: export_is_bound_def final_of_def states_live_def bd_abs_def iv_get_def split: option.splits if_splits)
  qed
  ultimately show ?thesis by blast
qed

section \<open>Instances\<close>

definition assign_op :: op_token where
  "assign_op = \<lparr>tk_kind = ASSIGN, tk_text = ''<-''\<rparr>"

definition name_at :: "nat \<Rightarrow> string \<Rightarrow> r_expr" where
  "name_at i x = RIdentifier (span i (i + length x)) x"

definition number_at :: "nat \<Rightarrow> r_expr" where
  "number_at i = ROtherExpression (span i (i + 1)) []"

text \<open>\<^verbatim>\<open>x <- 1; repeat { y <- x; x <- 2 }\<close>\<close>

definition loop_file :: "r_expr list" where
  "loop_file = [
     RBinaryExpression (span 0 6) (Some (name_at 0 ''x'')) (Some assign_op) (Some (number_at 5)),
     RRepeatStatement (span 8 33) (Some (RBracedExpressions (span 15 33) [
       RBinaryExpression (span 17 23) (Some (name_at 17 ''y'')) (Some assign_op) (Some (name_at 22 ''x'')),
       RBinaryExpression (span 25 31) (Some (name_at 25 ''x'')) (Some assign_op) (Some (number_at 30))]))]"

definition loop_index :: semantic_index where
  "loop_index = the (build_index noop_imports_resolver (span 0 33) loop_file)"

lemma loop_file_ok:
  "calls_distinct loop_file" "structured loop_file" "effect_free noop_imports_resolver (span 0 33) loop_file" "tame (file_code loop_file)"
  by code_simp+

lemma loop_built: "build_index noop_imports_resolver (span 0 33) loop_file = Some loop_index"
  using build_index_returns [OF loop_file_ok(1), of noop_imports_resolver "span 0 33"] by (auto simp: loop_index_def)

text \<open>Two iterations: the use of \<open>x\<close> sees the first definition, then the one of the loop.\<close>

lemma loop_run: "\<exists>env. exec (file_code loop_file) Map.empty [(0, ''x'', Some 0), (0, ''x'', Some 2)] (Some env) \<and> env ''y'' = Some 1"
proof -
  have "fst (sched 20 (file_code loop_file) [True, False] Map.empty) = [(0, ''x'', Some 0), (0, ''x'', Some 2)]"
    "(case sched 20 (file_code loop_file) [True, False] Map.empty of (_, Some env, _) \<Rightarrow> env ''y'' = Some 1 | _ \<Rightarrow> False)"
    by code_simp+
  then obtain env ds where "sched 20 (file_code loop_file) [True, False] Map.empty =
      ([(0, ''x'', Some 0), (0, ''x'', Some 2)], Some env, ds)" "env ''y'' = Some 1"
    by (cases "sched 20 (file_code loop_file) [True, False] Map.empty") (auto split: option.splits)
  with sched_exec show ?thesis by blast
qed

theorem reaching_definitions_sound_witness:
  "\<exists>b. ud_bindings_at_use (ix_use_def_maps loop_index ! 0) 0 = Some b \<and> 2 \<in> set (bd_definitions b)"
proof -
  from loop_run obtain env where "exec (file_code loop_file) Map.empty [(0, ''x'', Some 0), (0, ''x'', Some 2)] (Some env)" by blast
  from reaching_definitions_sound [OF loop_file_ok loop_built this, of 0 "''x''" "Some 2"] show ?thesis by simp
qed

theorem exports_sound_witness: "\<exists>ds. export loop_index ''y'' = Some ds \<and> 1 \<in> fst ` set ds"
proof -
  from loop_run obtain env where "exec (file_code loop_file) Map.empty [(0, ''x'', Some 0), (0, ''x'', Some 2)] (Some env)"
    "env ''y'' = Some 1" by blast
  with exports_sound [OF loop_file_ok loop_built this(1), of "''y''"] show ?thesis by simp
qed

section \<open>Loop heads that are not covered\<close>

text \<open>\<^verbatim>\<open>x <- 1; while (x) x <- 2\<close>\<close>

definition while_file :: "r_expr list" where
  "while_file = [
     RBinaryExpression (span 0 6) (Some (name_at 0 ''x'')) (Some assign_op) (Some (number_at 5)),
     RWhileStatement (span 8 24) (Some (name_at 15 ''x''))
       (Some (RBinaryExpression (span 18 24) (Some (name_at 18 ''x'')) (Some assign_op) (Some (number_at 23))))]"

text \<open>
  The condition is evaluated again after the body, with the definition of the body, but the index
  reports only the definition before the loop for it.
\<close>

lemma while_condition_misses_body:
  "\<exists>os res. exec (file_code while_file) Map.empty os res \<and> (0, ''x'', Some 1) \<in> set os"
  "map_option (\<lambda>ix. map_option bd_definitions (ud_bindings_at_use (ix_use_def_maps ix ! 0) 0))
     (build_index noop_imports_resolver (span 0 24) while_file) = Some (Some [0])"
proof -
  have "(0, ''x'', Some 1) \<in> set (fst (sched 20 (file_code while_file) [True] Map.empty))" by code_simp
  then show "\<exists>os res. exec (file_code while_file) Map.empty os res \<and> (0, ''x'', Some 1) \<in> set os" by (rule sched_observes)
  show "map_option (\<lambda>ix. map_option bd_definitions (ud_bindings_at_use (ix_use_def_maps ix ! 0) 0))
     (build_index noop_imports_resolver (span 0 24) while_file) = Some (Some [0])" by code_simp
qed

text \<open>\<^verbatim>\<open>x <- 1; for (x in x) 2\<close>\<close>

definition for_file :: "r_expr list" where
  "for_file = [
     RBinaryExpression (span 0 6) (Some (name_at 0 ''x'')) (Some assign_op) (Some (number_at 5)),
     RForStatement (span 8 22) (Some (span 13 14, ''x'')) (Some (name_at 18 ''x'')) (Some (number_at 21))]"

text \<open>The sequence is evaluated before the loop variable is set; the index has it the other way round.\<close>

lemma for_sequence_sees_loop_variable:
  "\<exists>os res. exec (file_code for_file) Map.empty os res \<and> (0, ''x'', Some 0) \<in> set os"
  "map_option (\<lambda>ix. map_option bd_definitions (ud_bindings_at_use (ix_use_def_maps ix ! 0) 0))
     (build_index noop_imports_resolver (span 0 22) for_file) = Some (Some [1])"
proof -
  have "(0, ''x'', Some 0) \<in> set (fst (sched 20 (file_code for_file) [] Map.empty))" by code_simp
  then show "\<exists>os res. exec (file_code for_file) Map.empty os res \<and> (0, ''x'', Some 0) \<in> set os" by (rule sched_observes)
  show "map_option (\<lambda>ix. map_option bd_definitions (ud_bindings_at_use (ix_use_def_maps ix ! 0) 0))
     (build_index noop_imports_resolver (span 0 22) for_file) = Some (Some [1])" by code_simp
qed

text \<open>
  \<^verbatim>\<open>repeat { x <- 1; if (y) break; x <- 2 }\<close>: the loop is only ever left with the first
  definition, the index exports the second. The walk treats \<open>break\<close> as
  any other leaf; \<open>structured\<close> excludes it.
\<close>

definition break_file :: "r_expr list" where
  "break_file = [
     RRepeatStatement (span 0 41) (Some (RBracedExpressions (span 7 41) [
       RBinaryExpression (span 9 15) (Some (name_at 9 ''x'')) (Some assign_op) (Some (number_at 14)),
       RIfStatement (span 17 29) (Some (name_at 21 ''y'')) (Some (RBreakExpression (span 24 29))) None,
       RBinaryExpression (span 31 37) (Some (name_at 31 ''x'')) (Some assign_op) (Some (number_at 36))]))]"

lemma break_exit_lost:
  "map_option (\<lambda>ix. map_option (map fst) (export ix ''x''))
     (build_index noop_imports_resolver (span 0 41) break_file) = Some (Some [1])"
  by code_simp

end
