(* ===== verification/Rust_Str.thy ===== *)
theory Rust_Str
  imports Index_Vec
begin

text \<open>
  The text operations of the Rust standard library that the package metadata parsers, the R name
  type and the editor features use. A \<open>&str\<close> is the list of its Unicode scalar values
  (\<open>str.chars()\<close>); \<open>utf8\<close> is its byte representation, which is what the token texts of the
  syntax theories are made of.
\<close>

type_synonym str = "nat list"

section \<open>Characters\<close>

text \<open>A literal of the source.\<close>

definition lit :: "string \<Rightarrow> str" where
  "lit s = map of_char s"

text \<open>\<open>char::is_whitespace\<close>: the code points with the Unicode property \<open>White_Space\<close>.\<close>

definition is_whitespace :: "nat \<Rightarrow> bool" where
  "is_whitespace c \<longleftrightarrow>
     (0x9 \<le> c \<and> c \<le> 0xD) \<or> c = 0x20 \<or> c = 0x85 \<or> c = 0xA0 \<or> c = 0x1680 \<or>
     (0x2000 \<le> c \<and> c \<le> 0x200A) \<or> c = 0x2028 \<or> c = 0x2029 \<or> c = 0x202F \<or> c = 0x205F \<or> c = 0x3000"

definition is_ascii_digit :: "nat \<Rightarrow> bool" where
  "is_ascii_digit c \<longleftrightarrow> 0x30 \<le> c \<and> c \<le> 0x39"

definition is_ascii_alphabetic :: "nat \<Rightarrow> bool" where
  "is_ascii_alphabetic c \<longleftrightarrow> (0x41 \<le> c \<and> c \<le> 0x5A) \<or> (0x61 \<le> c \<and> c \<le> 0x7A)"

text \<open>
  \<open>char::is_alphabetic\<close>. On ASCII these are the letters; the Unicode table for the other code
  points is the parameter \<open>alpha\<close>, of which nothing is assumed.
\<close>

definition is_alphabetic :: "(nat \<Rightarrow> bool) \<Rightarrow> nat \<Rightarrow> bool" where
  "is_alphabetic alpha c \<longleftrightarrow> (if c < 0x80 then is_ascii_alphabetic c else alpha c)"

text \<open>The UTF-8 bytes of a text.\<close>

definition utf8_char :: "nat \<Rightarrow> string" where
  "utf8_char c = map char_of
     (if c < 0x80 then [c]
      else if c < 0x800 then [0xC0 + c div 64, 0x80 + c mod 64]
      else if c < 0x10000 then [0xE0 + c div 4096, 0x80 + c div 64 mod 64, 0x80 + c mod 64]
      else [0xF0 + c div 262144 mod 8, 0x80 + c div 4096 mod 64, 0x80 + c div 64 mod 64, 0x80 + c mod 64])"

definition utf8 :: "str \<Rightarrow> string" where
  "utf8 s = concat (map utf8_char s)"

section \<open>Slices\<close>

definition starts_with :: "(nat \<Rightarrow> bool) \<Rightarrow> str \<Rightarrow> bool" where
  "starts_with P s = (case s of [] \<Rightarrow> False | c # _ \<Rightarrow> P c)"

definition strip_prefix :: "nat \<Rightarrow> str \<Rightarrow> str option" where
  "strip_prefix c s = (case s of [] \<Rightarrow> None | d # ds \<Rightarrow> if d = c then Some ds else None)"

definition strip_suffix :: "nat \<Rightarrow> str \<Rightarrow> str option" where
  "strip_suffix c s = map_option rev (strip_prefix c (rev s))"

definition trim_start_matches :: "(nat \<Rightarrow> bool) \<Rightarrow> str \<Rightarrow> str" where
  "trim_start_matches P s = dropWhile P s"

definition trim_end_matches :: "(nat \<Rightarrow> bool) \<Rightarrow> str \<Rightarrow> str" where
  "trim_end_matches P s = rev (dropWhile P (rev s))"

definition trim_matches :: "(nat \<Rightarrow> bool) \<Rightarrow> str \<Rightarrow> str" where
  "trim_matches P s = trim_end_matches P (trim_start_matches P s)"

definition trim_start :: "str \<Rightarrow> str" where
  "trim_start s = trim_start_matches is_whitespace s"

definition trim_end :: "str \<Rightarrow> str" where
  "trim_end s = trim_end_matches is_whitespace s"

definition trim :: "str \<Rightarrow> str" where
  "trim s = trim_matches is_whitespace s"

text \<open>\<open>s.split(P)\<close>: the pieces between the matches, one more than there are matches.\<close>

fun split :: "(nat \<Rightarrow> bool) \<Rightarrow> str \<Rightarrow> str list" where
  "split P [] = [[]]"
| "split P (c # cs) =
     (if P c then [] # split P cs
      else (case split P cs of [] \<Rightarrow> [[c]] | w # ws \<Rightarrow> (c # w) # ws))"

definition split_whitespace :: "str \<Rightarrow> str list" where
  "split_whitespace s = filter (\<lambda>w. w \<noteq> []) (split is_whitespace s)"

text \<open>
  \<open>s.find(c)\<close> gives the index \<open>idx\<close> of the first \<open>c\<close>; the code only slices with it. The pair is
  \<open>(s[..idx], s[idx + 1..])\<close>.
\<close>

definition cut_at :: "nat \<Rightarrow> str \<Rightarrow> (str \<times> str) option" where
  "cut_at c s = (case dropWhile (\<lambda>x. x \<noteq> c) s of
     [] \<Rightarrow> None
   | _ # rest \<Rightarrow> Some (takeWhile (\<lambda>x. x \<noteq> c) s, rest))"

text \<open>
  \<open>s.lines()\<close>: a line ends with a line feed or at the end of the text, and loses its line feed
  and one carriage return before it. A last line without a line feed keeps its carriage return.
\<close>

function lines :: "str \<Rightarrow> str list" where
  "lines s = (if s = [] then [] else
     (case cut_at 0xA s of
        None \<Rightarrow> [s]
      | Some (l, rest) \<Rightarrow> (case strip_suffix 0xD l of None \<Rightarrow> l | Some l' \<Rightarrow> l') # lines rest))"
  by pat_completeness auto

lemma cut_at_length: "cut_at c s = Some (l, rest) \<Longrightarrow> length rest < length s"
  using length_dropWhile_le [of "\<lambda>x. x \<noteq> c" s] by (auto simp: cut_at_def split: list.splits)

termination lines
  by (relation "measure length") (auto dest: cut_at_length)

declare lines.simps [simp del]

section \<open>Laws\<close>

lemma lit_simps [simp]: "lit [] = []" "lit (c # s) = of_char c # lit s"
  by (simp_all add: lit_def)

lemma utf8_simps [simp]: "utf8 [] = []" "utf8 (c # s) = utf8_char c @ utf8 s" "utf8 (s @ t) = utf8 s @ utf8 t"
  by (simp_all add: utf8_def)

lemma utf8_char_ascii: "c < 0x80 \<Longrightarrow> utf8_char c = [char_of c]"
  by (simp add: utf8_char_def)

lemma utf8_char_not_Nil [simp]: "utf8_char c \<noteq> []"
  by (simp add: utf8_char_def)

lemma strip_prefix_simps [simp]:
  "strip_prefix c [] = None" "strip_prefix c (d # s) = (if d = c then Some s else None)"
  by (simp_all add: strip_prefix_def)

lemma strip_suffix_simps [simp]:
  "strip_suffix c [] = None" "strip_suffix c (s @ [d]) = (if d = c then Some s else None)"
  by (simp_all add: strip_suffix_def)

lemma strip_prefix_Some: "strip_prefix c s = Some t \<longleftrightarrow> s = c # t"
  by (cases s) auto

lemma strip_suffix_Some: "strip_suffix c s = Some t \<longleftrightarrow> s = t @ [c]"
  by (cases s rule: rev_cases) auto

lemma strip_suffix_None: "strip_suffix c s = None \<longleftrightarrow> s = [] \<or> last s \<noteq> c"
  by (cases s rule: rev_cases) auto

lemma cut_at_None: "cut_at c s = None \<longleftrightarrow> c \<notin> set s"
proof -
  have "dropWhile (\<lambda>x. x \<noteq> c) s = [] \<longleftrightarrow> c \<notin> set s" by (auto simp: dropWhile_eq_Nil_conv)
  then show ?thesis by (cases "dropWhile (\<lambda>x. x \<noteq> c) s") (simp_all add: cut_at_def del: dropWhile_eq_Nil_conv)
qed

lemma cut_at_append [simp]: "c \<notin> set l \<Longrightarrow> cut_at c (l @ c # rest) = Some (l, rest)"
  by (induction l) (auto simp: cut_at_def split: list.splits)

lemma lines_Nil [simp]: "lines [] = []"
  by (simp add: lines.simps)

lemma lines_line:
  "0xA \<notin> set l \<Longrightarrow> (l = [] \<or> last l \<noteq> 0xD) \<Longrightarrow> lines (l @ 0xA # rest) = l # lines rest"
  by (subst lines.simps) (simp add: strip_suffix_None [THEN iffD2])

lemma starts_with_simps [simp]: "\<not> starts_with P []" "starts_with P (c # s) = P c"
  by (simp_all add: starts_with_def)

lemma trim_start_id [simp]: "\<not> starts_with is_whitespace s \<Longrightarrow> trim_start s = s"
  by (cases s) (auto simp: trim_start_def trim_start_matches_def)

lemma trim_end_id: "s = [] \<or> \<not> is_whitespace (last s) \<Longrightarrow> trim_end s = s"
  by (cases s rule: rev_cases) (auto simp: trim_end_def trim_end_matches_def)

lemma trim_end_snoc [simp]: "is_whitespace c \<Longrightarrow> trim_end (s @ [c]) = trim_end s"
  by (simp add: trim_end_def trim_end_matches_def)

lemma trim_eq: "trim s = trim_end (trim_start s)"
  by (simp add: trim_def trim_matches_def trim_start_def trim_end_def)

lemma split_no_match: "(\<And>c. c \<in> set s \<Longrightarrow> \<not> P c) \<Longrightarrow> split P s = [s]"
  by (induction s) auto

lemma split_not_Nil [simp]: "split P s \<noteq> []"
  by (induction s) (auto split: list.splits)

lemma split_append:
  "(\<And>c. c \<in> set s \<Longrightarrow> \<not> P c) \<Longrightarrow> P d \<Longrightarrow> split P (s @ d # rest) = s # split P rest"
  by (induction s) auto

lemma in_split: "w \<in> set (split P s) \<Longrightarrow> c \<in> set w \<Longrightarrow> c \<in> set s \<and> \<not> P c"
  by (induction s arbitrary: w) (fastforce split: list.splits if_splits)+

end
