(* ===== verification/R_Name.thy ===== *)
theory R_Name
  imports Rust_Str R_Syntax
begin

text \<open>
  Validated R names (\<^verbatim>\<open>oak_core/src/identifier.rs\<close>): what a bare identifier is, which words
  are reserved, and the type \<open>RName\<close> through which a rename writes a name back into a file, as an
  identifier or as a string literal. The theorems say that what is written reads back as the name,
  by the same parser, by the syntax helpers of the indexer, and by a reader of string literals.
\<close>

section \<open>Identifiers and reserved words\<close>

definition is_valid_identifier :: "(nat \<Rightarrow> bool) \<Rightarrow> str \<Rightarrow> bool" where
  "is_valid_identifier alpha name =
     (case name of
        [] \<Rightarrow> False
      | first # chars \<Rightarrow>
          if \<not> (is_alphabetic alpha first \<or> first = of_char (CHR ''.'')) then False
          else if first = of_char (CHR ''.'') \<and> starts_with is_ascii_digit chars then False
          else list_all (\<lambda>c. is_alphabetic alpha c \<or> is_ascii_digit c \<or>
                             c = of_char (CHR ''.'') \<or> c = of_char (CHR ''_'')) chars)"

definition is_dot_dot_n :: "str \<Rightarrow> bool" where
  "is_dot_dot_n name =
     (case Option.bind (strip_prefix (of_char (CHR ''.'')) name) (strip_prefix (of_char (CHR ''.''))) of
        None \<Rightarrow> False
      | Some rest \<Rightarrow> rest \<noteq> [] \<and> list_all is_ascii_digit rest)"

definition reserved_words :: "str list" where
  "reserved_words = map lit
     [''if'', ''else'', ''for'', ''while'', ''repeat'', ''break'', ''next'', ''function'', ''in'',
      ''TRUE'', ''FALSE'', ''NULL'', ''NA'', ''NA_integer_'', ''NA_real_'', ''NA_complex_'',
      ''NA_character_'', ''NaN'', ''Inf'', ''...'', ''_'']"

definition is_reserved :: "str \<Rightarrow> bool" where
  "is_reserved name \<longleftrightarrow> name \<in> set reserved_words \<or> is_dot_dot_n name"

section \<open>The name type\<close>

record r_name =
  rn_semantic :: str
  rn_identifier :: str

datatype name_error = EmptyName | StrayBacktick | ReservedWord str

abbreviation (input) tick :: nat where "tick \<equiv> 0x60"

definition wrap :: "nat \<Rightarrow> str \<Rightarrow> str" where
  "wrap d s = d # s @ [d]"

definition from_semantic :: "(nat \<Rightarrow> bool) \<Rightarrow> str \<Rightarrow> r_name" where
  "from_semantic alpha name =
     \<lparr> rn_semantic = name,
       rn_identifier = (if is_valid_identifier alpha name then name else wrap tick name) \<rparr>"

definition from_wrapped :: "(nat \<Rightarrow> bool) \<Rightarrow> str \<Rightarrow> name_error + r_name" where
  "from_wrapped alpha inner =
     (if inner = [] then Inl EmptyName
      else if tick \<in> set inner then Inl StrayBacktick
      else if is_reserved inner
        then Inr \<lparr> rn_semantic = inner, rn_identifier = wrap tick inner \<rparr>
      else Inr (from_semantic alpha inner))"

definition rname_parse :: "(nat \<Rightarrow> bool) \<Rightarrow> str \<Rightarrow> name_error + r_name" where
  "rname_parse alpha name =
     (if name = [] then Inl EmptyName
      else (case Option.bind (strip_prefix tick name) (strip_suffix tick) of
          Some inner \<Rightarrow> from_wrapped alpha inner
        | None \<Rightarrow>
            if tick \<in> set name then Inl StrayBacktick
            else if is_reserved name then Inl (ReservedWord name)
            else Inr (from_semantic alpha name)))"

text \<open>\<open>str::replace\<close> with a one-character pattern.\<close>

definition replace :: "nat \<Rightarrow> str \<Rightarrow> str \<Rightarrow> str" where
  "replace c t s = concat (map (\<lambda>x. if x = c then t else [x]) s)"

abbreviation (input) backslash :: nat where "backslash \<equiv> 0x5C"

definition rname_quoted :: "r_name \<Rightarrow> nat \<Rightarrow> str" where
  "rname_quoted n delimiter =
     wrap delimiter
       (replace delimiter [backslash, delimiter]
         (replace backslash [backslash, backslash] (rn_semantic n)))"

section \<open>Laws\<close>

lemma tick_not_alphabetic [simp]: "\<not> is_alphabetic alpha tick"
  by (simp add: is_alphabetic_def is_ascii_alphabetic_def)

lemma valid_identifier_no_tick: "is_valid_identifier alpha name \<Longrightarrow> tick \<notin> set name"
  by (cases name) (auto simp: is_valid_identifier_def list_all_iff is_ascii_digit_def split: if_splits)

lemma wrap_strip [simp]: "Option.bind (strip_prefix d (wrap d s)) (strip_suffix d) = Some s"
  by (simp add: wrap_def)

lemma strip_both_Some: "Option.bind (strip_prefix d s) (strip_suffix d) = Some t \<longleftrightarrow> s = wrap d t"
  by (auto simp: wrap_def bind_eq_Some_conv strip_prefix_Some strip_suffix_Some)

lemma no_tick_not_wrapped: "tick \<notin> set s \<Longrightarrow> Option.bind (strip_prefix tick s) (strip_suffix tick) = None"
  by (metis (no_types, lifting) list.set_intros(1) not_None_eq strip_both_Some wrap_def)

text \<open>The names \<open>parse\<close> accepts, and what it makes of them.\<close>

lemma rname_parse_cases:
  assumes "rname_parse alpha name = Inr n"
  obtains (bare) "name = rn_semantic n" "\<not> is_reserved name" "n = from_semantic alpha name"
      "name \<noteq> []" "tick \<notin> set name"
    | (reserved) "name = wrap tick (rn_semantic n)" "is_reserved (rn_semantic n)"
      "rn_identifier n = name" "rn_semantic n \<noteq> []" "tick \<notin> set (rn_semantic n)"
    | (wrapped) "name = wrap tick (rn_semantic n)" "\<not> is_reserved (rn_semantic n)"
      "n = from_semantic alpha (rn_semantic n)" "rn_semantic n \<noteq> []" "tick \<notin> set (rn_semantic n)"
proof (cases "Option.bind (strip_prefix tick name) (strip_suffix tick)")
  case None
  with assms have "\<not> is_reserved name \<and> n = from_semantic alpha name \<and> name \<noteq> [] \<and> tick \<notin> set name"
    by (auto simp: rname_parse_def split: if_splits)
  then show ?thesis using bare by (auto simp: from_semantic_def)
next
  case (Some inner)
  then have name: "name = wrap tick inner" by (simp only: strip_both_Some)
  from assms Some have "from_wrapped alpha inner = Inr n" by (auto simp: rname_parse_def split: if_splits)
  with name show ?thesis using reserved wrapped
    by (auto simp: from_wrapped_def from_semantic_def split: if_splits)
qed

lemma from_semantic_sel [simp]:
  "rn_semantic (from_semantic alpha name) = name"
  "rn_identifier (from_semantic alpha name) = (if is_valid_identifier alpha name then name else wrap tick name)"
  by (simp_all add: from_semantic_def)

lemma rname_identifier:
  assumes "rname_parse alpha name = Inr n"
  shows "rn_identifier n = rn_semantic n \<and> is_valid_identifier alpha (rn_semantic n) \<and> \<not> is_reserved (rn_semantic n) \<or>
      rn_identifier n = wrap tick (rn_semantic n)"
  using assms
proof (cases rule: rname_parse_cases)
  case bare
  then show ?thesis using from_semantic_sel(2) [of alpha name] by (simp split: if_splits)
next
  case wrapped
  then have "rn_identifier n = rn_identifier (from_semantic alpha (rn_semantic n))" by simp
  with wrapped(2) show ?thesis by (simp split: if_splits)
qed simp

lemma rname_parse_bare:
  "name \<noteq> [] \<Longrightarrow> tick \<notin> set name \<Longrightarrow> \<not> is_reserved name \<Longrightarrow>
   rname_parse alpha name = Inr (from_semantic alpha name)"
  by (simp add: rname_parse_def no_tick_not_wrapped)

lemma rname_parse_wrapped: "rname_parse alpha (wrap tick inner) = from_wrapped alpha inner"
  by (simp add: rname_parse_def) (simp add: wrap_def)

lemma rname_parse_spelled:
  assumes "rn_semantic n \<noteq> []" and "tick \<notin> set (rn_semantic n)"
    and "if is_reserved (rn_semantic n) then rn_identifier n = wrap tick (rn_semantic n)
      else n = from_semantic alpha (rn_semantic n)"
  shows "rname_parse alpha (rn_identifier n) = Inr n"
proof (cases "is_reserved (rn_semantic n)")
  case True
  with assms show ?thesis by (cases n) (simp add: rname_parse_wrapped from_wrapped_def)
next
  case False
  with assms(3) have n: "n = from_semantic alpha (rn_semantic n)" by simp
  have "rname_parse alpha (rn_identifier (from_semantic alpha (rn_semantic n))) =
      Inr (from_semantic alpha (rn_semantic n))"
    using assms(1,2) False by (simp add: rname_parse_bare rname_parse_wrapped from_wrapped_def)
  with n show ?thesis by simp
qed

text \<open>Escaping: one pass over the characters, and what it makes of them.\<close>

definition escape_char :: "nat \<Rightarrow> nat \<Rightarrow> str" where
  "escape_char d c = (if c = d \<or> c = backslash then [backslash, c] else [c])"

lemma replace_simps [simp]:
  "replace c t [] = []" "replace c t (x # s) = (if x = c then t else [x]) @ replace c t s"
  by (simp_all add: replace_def)

lemma replace_append: "replace c t (s @ s') = replace c t s @ replace c t s'"
  by (simp add: replace_def)

lemma rname_quoted_escape:
  "d \<noteq> backslash \<Longrightarrow> rname_quoted n d = wrap d (concat (map (escape_char d) (rn_semantic n)))"
proof -
  assume d: "d \<noteq> backslash"
  have "replace d [backslash, d] (replace backslash [backslash, backslash] s) = concat (map (escape_char d) s)" for s
    using d by (induction s) (auto simp: escape_char_def replace_append)
  then show ?thesis by (simp add: rname_quoted_def)
qed

lemma char_of_tick: "CHR 0x60 = char_of (k :: nat) \<longleftrightarrow> k mod 256 = tick"
  by (subst eq_commute) (simp add: char_of_eq_iff take_bit_eq_mod)

lemma utf8_char_tick: "CHR 0x60 \<in> set (utf8_char c) \<Longrightarrow> c = tick"
proof -
  have high: "k mod 256 \<noteq> tick" if "0x80 \<le> k" "k < 0x100" for k :: nat
    using that by simp
  have div: "c < 0x800 \<Longrightarrow> c div 64 < 0x20" "c < 0x10000 \<Longrightarrow> c div 4096 < 0x10"
    by (simp_all add: less_mult_imp_div_less)
  have mods: "x mod 64 < 64" "x mod 8 < 8" for x :: nat by simp_all
  assume "CHR 0x60 \<in> set (utf8_char c)"
  then show "c = tick"
    using high [of "0xC0 + c div 64"] high [of "0x80 + c mod 64"] high [of "0xE0 + c div 4096"]
      high [of "0x80 + c div 64 mod 64"] high [of "0xF0 + c div 262144 mod 8"]
      high [of "0x80 + c div 4096 mod 64"] div mods
    by (auto simp: utf8_char_def char_of_tick simp del: mod_add_left_eq mod_add_right_eq split: if_splits)
qed

lemma utf8_tick: "CHR 0x60 \<in> set (utf8 s) \<Longrightarrow> tick \<in> set s"
  by (induction s) (auto dest: utf8_char_tick)

lemma utf8_wrap: "d < 0x80 \<Longrightarrow> utf8 (wrap d s) = char_of d # utf8 s @ [char_of d]"
  by (simp add: wrap_def utf8_char_ascii)

lemma utf8_wrap_tick: "utf8 (wrap tick s) = backtick (utf8 s)"
  using char_of_tick [of tick] by (simp add: utf8_wrap backtick_def)

lemma length_utf8_escape:
  "length (utf8 (concat (map (escape_char d) s))) \<ge> length (utf8 s)"
  by (induction s) (auto simp: escape_char_def)

lemma utf8_escape_eq_iff:
  "utf8 (concat (map (escape_char d) s)) = utf8 s \<longleftrightarrow> d \<notin> set s \<and> backslash \<notin> set s"
proof (induction s)
  case (Cons c s)
  show ?case
  proof (cases "c = d \<or> c = backslash")
    case True
    have "length (utf8 (concat (map (escape_char d) (c # s)))) > length (utf8 (c # s))"
      using True length_utf8_escape [of s d] by (simp add: escape_char_def utf8_char_ascii)
    then have "utf8 (concat (map (escape_char d) (c # s))) \<noteq> utf8 (c # s)" by (metis less_irrefl)
    with True show ?thesis by auto
  qed (use Cons in \<open>auto simp: escape_char_def\<close>)
qed simp

text \<open>
  A reader of string literals that knows the two escapes the writer produces. It returns the
  contents of the literal and the text after it, \<open>None\<close> where the literal does not end or has
  another escape.
\<close>

fun read_contents :: "nat \<Rightarrow> str \<Rightarrow> (str \<times> str) option" where
  "read_contents d [] = None"
| "read_contents d (c # cs) =
     (if c = d then Some ([], cs)
      else if c = backslash then
        (case cs of
           [] \<Rightarrow> None
         | e # es \<Rightarrow> if e = d \<or> e = backslash
             then map_option (\<lambda>(s, rest). (e # s, rest)) (read_contents d es) else None)
      else map_option (\<lambda>(s, rest). (c # s, rest)) (read_contents d cs))"

definition read_literal :: "str \<Rightarrow> (str \<times> str) option" where
  "read_literal text = (case text of [] \<Rightarrow> None | d # rest \<Rightarrow> read_contents d rest)"

lemma read_contents_escape:
  "d \<noteq> backslash \<Longrightarrow> read_contents d (concat (map (escape_char d) s) @ d # rest) = Some (s, rest)"
  by (induction s) (auto simp: escape_char_def)

section \<open>Properties\<close>

text \<open>
  C31. Accepted names are stable under respelling: the identifier that a parsed name is written as
  parses again, to the same name with the same spelling, whether it is bare, wrapped because it is
  not a syntactic identifier, or wrapped because it is reserved.
\<close>

theorem rname_reparses:
  assumes "rname_parse alpha name = Inr n"
  shows "rname_parse alpha (rn_identifier n) = Inr n"
  using assms
  by (cases rule: rname_parse_cases) (rule rname_parse_spelled; force)+

theorem rname_reparses_witness:
  "rname_parse (\<lambda>_. True) (lit ''a b'') = Inr \<lparr> rn_semantic = lit ''a b'', rn_identifier = wrap 0x60 (lit ''a b'') \<rparr> \<and>
   rname_parse (\<lambda>_. True) (wrap 0x60 (lit ''a b'')) = Inr \<lparr> rn_semantic = lit ''a b'', rn_identifier = wrap 0x60 (lit ''a b'') \<rparr>"
proof -
  have p: "rname_parse (\<lambda>_. True) (lit ''a b'') =
      Inr \<lparr> rn_semantic = lit ''a b'', rn_identifier = wrap 0x60 (lit ''a b'') \<rparr>"
    by code_simp
  from p rname_reparses [OF p] show ?thesis by simp
qed

text \<open>
  C32. The two ways a rename writes a name agree exactly when nothing has to be escaped. The written
  identifier always reads back, in the indexer, as the name; the written string literal reads back
  as the name if and only if the name contains neither the delimiter nor a backslash, because
  \<open>rname_quoted\<close> escapes these and \<open>string_text\<close> does not undo it.
\<close>

theorem rname_spellings_agree_iff:
  assumes "rname_parse alpha name = Inr n" and "d \<in> {of_char (CHR 0x22), of_char (CHR 0x27)}"
    and "token_text t = utf8 (rname_quoted n d)"
  shows "name_text (utf8 (rn_identifier n)) = utf8 (rn_semantic n) \<and>
    (string_text (Some t) = Some (name_text (utf8 (rn_identifier n))) \<longleftrightarrow>
      d \<notin> set (rn_semantic n) \<and> 0x5C \<notin> set (rn_semantic n))"
proof -
  from assms(2) have d: "d < 0x80" "d \<noteq> backslash" by auto
  have name: "name_text (utf8 (rn_identifier n)) = utf8 (rn_semantic n)"
    using rname_identifier [OF assms(1)]
  proof
    assume *: "rn_identifier n = rn_semantic n \<and> is_valid_identifier alpha (rn_semantic n) \<and> \<not> is_reserved (rn_semantic n)"
    then have "CHR 0x60 \<notin> set (utf8 (rn_semantic n))" using utf8_tick valid_identifier_no_tick by blast
    with * show ?thesis by (simp, intro name_text_plain) (metis list.set_intros(1))
  qed (simp add: utf8_wrap_tick name_text_backtick)
  obtain l s r where t: "t = StringToken l s r" by (cases t)
  have "l # s @ [r] = char_of d # utf8 (concat (map (escape_char d) (rn_semantic n))) @ [char_of d]"
    using assms(3) d by (simp add: t rname_quoted_escape utf8_wrap)
  then have "string_text (Some t) = Some (utf8 (concat (map (escape_char d) (rn_semantic n))))"
    by (simp add: t)
  with name show ?thesis by (simp add: utf8_escape_eq_iff)
qed

theorem rname_spellings_agree_iff_witness:
  "string_text (Some (StringToken (CHR 0x22) ''a b'' (CHR 0x22))) =
   Some (name_text (utf8 (wrap 0x60 (lit ''a b''))))"
proof -
  have p: "rname_parse (\<lambda>_. True) (lit ''a b'') =
      Inr \<lparr> rn_semantic = lit ''a b'', rn_identifier = wrap 0x60 (lit ''a b'') \<rparr>"
    by code_simp
  have "token_text (StringToken (CHR 0x22) ''a b'' (CHR 0x22)) =
      utf8 (rname_quoted \<lparr> rn_semantic = lit ''a b'', rn_identifier = wrap 0x60 (lit ''a b'') \<rparr> (of_char (CHR 0x22)))"
    by code_simp
  note agree = rname_spellings_agree_iff [OF p insertI1 this, simplified r_name.select_convs]
  have "of_char (CHR 0x22) \<notin> set (lit ''a b'') \<and> (0x5C :: nat) \<notin> set (lit ''a b'')" by code_simp
  with agree show ?thesis by blast
qed

text \<open>
  C33. A name cannot break out of the string it is written into: for a delimiter other than the
  backslash, a reader of literals takes the whole written text as one literal, whose contents are
  the name, whatever characters the name has.
\<close>

theorem quoted_literal_reads_back:
  assumes "d \<noteq> 0x5C"
  shows "read_literal (rname_quoted n d @ rest) = Some (rn_semantic n, rest)"
  using assms by (simp add: rname_quoted_escape read_literal_def wrap_def read_contents_escape)

theorem quoted_literal_reads_back_witness:
  "read_literal (rname_quoted \<lparr> rn_semantic = [0x22, 0x5C], rn_identifier = [] \<rparr> 0x22) = Some ([0x22, 0x5C], [])"
  using quoted_literal_reads_back [where d = "0x22" and n = "\<lparr> rn_semantic = [0x22, 0x5C], rn_identifier = [] \<rparr>" and rest = "[]"] by simp

end
