(* ===== verification/Package_Metadata.thy ===== *)
theory Package_Metadata
  imports R_Name
begin

text \<open>
  The line-oriented files of an R package (\<^verbatim>\<open>oak_package_metadata\<close>): control files
  (\<^verbatim>\<open>dcf.rs\<close>), DESCRIPTION (\<^verbatim>\<open>description.rs\<close>) and INDEX (\<^verbatim>\<open>index.rs\<close>). The round
  trip theorems print a file from its fields, with continuation lines and arbitrary white space
  where the format allows it, and show that the parser reads the fields back.
\<close>

section \<open>Control files\<close>

type_synonym dcf = "str \<rightharpoonup> str"

record dcf_state =
  ds_fields :: dcf
  ds_current_key :: "str option"
  ds_current_value :: str

text \<open>Saving the field under construction, which \<open>parse_dcf\<close> does at a new field and at the end.\<close>

definition save_field :: "dcf_state \<Rightarrow> dcf" where
  "save_field st = (case ds_current_key st of
     None \<Rightarrow> ds_fields st
   | Some key \<Rightarrow> (ds_fields st)(key \<mapsto> trim_end (ds_current_value st)))"

text \<open>One iteration of the loop over the lines.\<close>

definition dcf_line :: "str \<Rightarrow> dcf_state \<Rightarrow> dcf_state" where
  "dcf_line line st =
     (if starts_with is_whitespace line then
        st\<lparr> ds_current_value := ds_current_value st @ line @ [0xA] \<rparr>
      else (case cut_at (of_char (CHR '':'')) line of
          None \<Rightarrow> st
        | Some (before, after) \<Rightarrow>
            \<lparr> ds_fields = save_field st,
              ds_current_key = Some (trim before),
              ds_current_value = trim_start after @ [0xA] \<rparr>))"

definition parse_dcf :: "str \<Rightarrow> dcf" where
  "parse_dcf input =
     save_field (fold dcf_line (lines input)
       \<lparr> ds_fields = Map.empty, ds_current_key = None, ds_current_value = [] \<rparr>)"

section \<open>DESCRIPTION\<close>

datatype repository = CRAN

datatype priority = Base | Recommended

record description =
  de_name :: str
  de_version :: str
  de_depends :: "str list"
  de_imports :: "str list"
  de_repository :: "repository option"
  de_priority :: "priority option"
  de_built :: "str option"
  de_fields :: dcf

datatype description_error = MissingPackage | MissingVersion

definition strip_constraint :: "str \<Rightarrow> str" where
  "strip_constraint s = (case cut_at (of_char (CHR ''('')) s of
     Some (before, _) \<Rightarrow> trim before
   | None \<Rightarrow> s)"

definition parse_comma_separated :: "str \<Rightarrow> str list" where
  "parse_comma_separated input =
     map strip_constraint
       (filter (\<lambda>s. s \<noteq> []) (map trim (split (\<lambda>c. c = of_char (CHR '','')) input)))"

definition description_parse :: "str \<Rightarrow> description_error + description" where
  "description_parse contents =
     (let fields = parse_dcf contents in
      case fields (lit ''Package'') of
        None \<Rightarrow> Inl MissingPackage
      | Some name \<Rightarrow>
          (case fields (lit ''Version'') of
             None \<Rightarrow> Inl MissingVersion
           | Some version \<Rightarrow> Inr
               \<lparr> de_name = name,
                 de_version = version,
                 de_depends = (case fields (lit ''Depends'') of
                    None \<Rightarrow> []
                  | Some deps \<Rightarrow> filter (\<lambda>pkg. pkg \<noteq> lit ''R'') (parse_comma_separated deps)),
                 de_imports = (case fields (lit ''Imports'') of
                    None \<Rightarrow> []
                  | Some deps \<Rightarrow> parse_comma_separated deps),
                 de_repository = (case fields (lit ''Repository'') of
                    None \<Rightarrow> None
                  | Some r \<Rightarrow> if r = lit ''CRAN'' then Some CRAN else None),
                 de_priority = (case fields (lit ''Priority'') of
                    None \<Rightarrow> None
                  | Some p \<Rightarrow> if p = lit ''base'' then Some Base
                      else if p = lit ''recommended'' then Some Recommended else None),
                 de_built = fields (lit ''Built''),
                 de_fields = fields \<rparr>))"

definition is_quote :: "nat \<Rightarrow> bool" where
  "is_quote c \<longleftrightarrow> c = of_char (CHR 0x27) \<or> c = of_char (CHR 0x22)"

definition collate :: "description \<Rightarrow> str list option" where
  "collate d = (case de_fields d (lit ''Collate'') of
     None \<Rightarrow> None
   | Some field \<Rightarrow> Some (map (trim_matches is_quote) (split_whitespace field)))"

section \<open>INDEX\<close>

text \<open>The regular expression \<^verbatim>\<open>^[A-Za-z.][A-Za-z0-9._]*$\<close>.\<close>

definition is_index_name :: "str \<Rightarrow> bool" where
  "is_index_name s = (case s of
     [] \<Rightarrow> False
   | c # cs \<Rightarrow>
       (is_ascii_alphabetic c \<or> c = of_char (CHR ''.'')) \<and>
       list_all (\<lambda>c. is_ascii_alphabetic c \<or> is_ascii_digit c \<or>
                     c = of_char (CHR ''.'') \<or> c = of_char (CHR ''_'')) cs)"

definition index_line :: "str \<Rightarrow> str list \<Rightarrow> str list" where
  "index_line line names =
     (if starts_with is_whitespace line then names
      else (case split_whitespace line of
          [] \<Rightarrow> names
        | first_col # _ \<Rightarrow> if is_index_name first_col then names @ [first_col] else names))"

definition index_parse :: "str \<Rightarrow> str list" where
  "index_parse input = fold index_line (lines input) []"

section \<open>Printing control files\<close>

text \<open>
  A field is a key, the first line of its value and the continuation lines. \<open>field_ok\<close> says that
  the format can hold it: the key is trimmed and has no colon, the first line is not indented, the
  other lines are, no line contains a line end, and the value does not end in white space.
\<close>

type_synonym dcf_field = "str \<times> str \<times> str list"

fun field_value :: "dcf_field \<Rightarrow> str" where
  "field_value (_, first, conts) = first @ concat (map (\<lambda>l. 0xA # l) conts)"

fun print_field :: "dcf_field \<Rightarrow> str" where
  "print_field (key, first, conts) = key @ lit '': '' @ field_value (key, first, conts) @ [0xA]"

definition print_dcf :: "dcf_field list \<Rightarrow> str" where
  "print_dcf fs = concat (map print_field fs)"

definition line_ok :: "str \<Rightarrow> bool" where
  "line_ok l \<longleftrightarrow> 0xA \<notin> set l \<and> (l = [] \<or> last l \<noteq> 0xD)"

definition key_ok :: "str \<Rightarrow> bool" where
  "key_ok k \<longleftrightarrow> k \<noteq> [] \<and> \<not> is_whitespace (hd k) \<and> \<not> is_whitespace (last k) \<and>
     0xA \<notin> set k \<and> of_char (CHR '':'') \<notin> set k"

definition value_ok :: "str \<Rightarrow> bool" where
  "value_ok v \<longleftrightarrow> v = [] \<or> \<not> is_whitespace (last v)"

fun field_ok :: "dcf_field \<Rightarrow> bool" where
  "field_ok (key, first, conts) \<longleftrightarrow>
     key_ok key \<and> line_ok first \<and> \<not> starts_with is_whitespace first \<and>
     list_all (\<lambda>l. line_ok l \<and> starts_with is_whitespace l) conts \<and>
     value_ok (field_value (key, first, conts))"

lemma whitespace_simps [simp]: "is_whitespace 0xA" "is_whitespace 0x20"
  by (simp_all add: is_whitespace_def)

lemma trim_id: "k \<noteq> [] \<Longrightarrow> \<not> is_whitespace (hd k) \<Longrightarrow> \<not> is_whitespace (last k) \<Longrightarrow> trim k = k"
  by (cases k) (simp_all add: trim_eq trim_end_id)

text \<open>A line that starts a field, and the continuation lines after it.\<close>

lemma dcf_line_key:
  assumes "key_ok key" and "\<not> starts_with is_whitespace first"
  shows "dcf_line (key @ lit '': '' @ first) st =
    \<lparr> ds_fields = save_field st, ds_current_key = Some key, ds_current_value = first @ [0xA] \<rparr>"
proof -
  from assms(1) obtain c cs where key: "key = c # cs" "\<not> is_whitespace c" by (cases key) (auto simp: key_ok_def)
  have "trim_start (0x20 # first) = first"
    using assms(2) by (simp add: trim_start_def trim_start_matches_def) (cases first; simp)
  moreover have "cut_at (of_char (CHR '':'')) (key @ lit '': '' @ first) = Some (key, 0x20 # first)"
    using assms(1) cut_at_append [of "of_char (CHR '':'')" key "0x20 # first"] by (simp add: key_ok_def)
  ultimately show ?thesis
    using assms(1) key by (simp add: dcf_line_def trim_id key_ok_def)
qed

lemma fold_dcf_line_conts:
  assumes "list_all (\<lambda>l. line_ok l \<and> starts_with is_whitespace l) conts"
  shows "fold dcf_line (lines (concat (map (\<lambda>l. l @ [0xA]) conts) @ rest)) st =
    fold dcf_line (lines rest)
      (st\<lparr> ds_current_value := ds_current_value st @ concat (map (\<lambda>l. l @ [0xA]) conts) \<rparr>)"
  using assms
  by (induction conts arbitrary: st) (simp_all add: line_ok_def lines_line dcf_line_def)

lemma concat_rotate: "concat (map (\<lambda>l. c # l) ls) @ [c] = c # concat (map (\<lambda>l. l @ [c]) ls)"
  by (induction ls) simp_all

lemma field_value_lines:
  "field_value (key, first, conts) @ [0xA] = first @ 0xA # concat (map (\<lambda>l. l @ [0xA]) conts)"
  by (simp add: concat_rotate)

lemma fold_dcf_line_field:
  assumes "field_ok (key, first, conts)"
  shows "fold dcf_line (lines (print_field (key, first, conts) @ rest)) st =
    fold dcf_line (lines rest)
      \<lparr> ds_fields = save_field st, ds_current_key = Some key,
        ds_current_value = field_value (key, first, conts) @ [0xA] \<rparr>"
proof -
  have layout: "print_field (key, first, conts) @ rest =
      (key @ lit '': '' @ first) @ 0xA # (concat (map (\<lambda>l. l @ [0xA]) conts) @ rest)"
    using field_value_lines [of key first conts] by simp
  have "line_ok (key @ lit '': '' @ first)"
    using assms by (auto simp: line_ok_def key_ok_def)
  then have "lines (print_field (key, first, conts) @ rest) =
      (key @ lit '': '' @ first) # lines (concat (map (\<lambda>l. l @ [0xA]) conts) @ rest)"
    unfolding layout line_ok_def by (intro lines_line) auto
  moreover have "dcf_line (key @ lit '': '' @ first) st =
      \<lparr> ds_fields = save_field st, ds_current_key = Some key, ds_current_value = first @ [0xA] \<rparr>"
    using assms by (intro dcf_line_key) auto
  moreover have "list_all (\<lambda>l. line_ok l \<and> starts_with is_whitespace l) conts" using assms by simp
  ultimately show ?thesis by (simp add: fold_dcf_line_conts concat_rotate)
qed

text \<open>The value that is saved is the printed one.\<close>

lemma trim_end_field_value: "value_ok v \<Longrightarrow> trim_end (v @ [0xA]) = v"
  by (simp add: value_ok_def trim_end_id)

lemma save_fold_dcf_line:
  assumes "list_all field_ok fs"
  shows "save_field (fold dcf_line (lines (print_dcf fs)) st) =
    save_field st ++ map_of (rev (map (\<lambda>f. (fst f, field_value f)) fs))"
  using assms
proof (induction fs arbitrary: st)
  case (Cons f fs)
  obtain key first conts where f: "f = (key, first, conts)" by (cases f)
  define st' where "st' = \<lparr> ds_fields = save_field st, ds_current_key = Some key,
    ds_current_value = field_value f @ [0xA] \<rparr>"
  have "trim_end (field_value f @ [0xA]) = field_value f"
    using Cons.prems by (intro trim_end_field_value) (simp add: f)
  then have "save_field st' = (save_field st)(key \<mapsto> field_value f)"
    by (simp add: st'_def save_field_def)
  moreover have "fold dcf_line (lines (print_dcf (f # fs))) st = fold dcf_line (lines (print_dcf fs)) st'"
    using Cons.prems fold_dcf_line_field [of key first conts "print_dcf fs" st] by (simp add: f st'_def print_dcf_def)
  ultimately show ?case using Cons by (simp add: f map_add_def fun_eq_iff split: option.splits)
qed (simp add: print_dcf_def)

section \<open>Printing dependency lists\<close>

fun join_with :: "nat \<Rightarrow> str list \<Rightarrow> str" where
  "join_with c [] = []"
| "join_with c [w] = w"
| "join_with c (w # ws) = w @ c # join_with c ws"

lemma split_join:
  "ws \<noteq> [] \<Longrightarrow> (\<And>w. w \<in> set ws \<Longrightarrow> c \<notin> set w) \<Longrightarrow> split (\<lambda>x. x = c) (join_with c ws) = ws"
proof (induction c ws rule: join_with.induct)
  case (2 c w)
  then have "c \<notin> set w" by simp
  then show ?case using split_no_match [of w "\<lambda>x. x = c"] by auto
next
  case (3 c w v vs)
  then have "c \<notin> set w" by simp
  then have "split (\<lambda>x. x = c) (w @ c # join_with c (v # vs)) = w # split (\<lambda>x. x = c) (join_with c (v # vs))"
    by (intro split_append) auto
  with 3 show ?case by simp
qed simp

text \<open>
  An entry of a dependency list: white space, the package name, an optional version constraint in
  parentheses, white space.
\<close>

record dependency =
  dp_before :: str
  dp_name :: str
  dp_constraint :: "(str \<times> str) option"
  dp_after :: str

definition print_dependency :: "dependency \<Rightarrow> str" where
  "print_dependency d = dp_before d @ dp_name d @
     (case dp_constraint d of
        None \<Rightarrow> []
      | Some (space, v) \<Rightarrow> space @ of_char (CHR ''('') # v @ [of_char (CHR '')'')]) @ dp_after d"

definition dependency_ok :: "dependency \<Rightarrow> bool" where
  "dependency_ok d \<longleftrightarrow>
     list_all is_whitespace (dp_before d) \<and> list_all is_whitespace (dp_after d) \<and>
     dp_name d \<noteq> [] \<and> \<not> is_whitespace (hd (dp_name d)) \<and> \<not> is_whitespace (last (dp_name d)) \<and>
     of_char (CHR '','') \<notin> set (dp_name d) \<and> of_char (CHR ''('') \<notin> set (dp_name d) \<and>
     (case dp_constraint d of
        None \<Rightarrow> True
      | Some (space, v) \<Rightarrow> list_all is_whitespace space \<and> of_char (CHR '','') \<notin> set v)"

lemma trim_start_pad: "list_all is_whitespace p \<Longrightarrow> trim_start (p @ s) = trim_start s"
  by (induction p) (simp_all add: trim_start_def trim_start_matches_def)

lemma trim_end_pad: "list_all is_whitespace p \<Longrightarrow> trim_end (s @ p) = trim_end s"
  by (induction p rule: rev_induct) (simp_all flip: append_assoc)

lemma trim_pad:
  assumes "list_all is_whitespace p" "list_all is_whitespace q"
    and "s \<noteq> []" "\<not> is_whitespace (hd s)" "\<not> is_whitespace (last s)"
  shows "trim (p @ s @ q) = s"
proof -
  have "trim_start (p @ s @ q) = s @ q"
    using assms by (cases s) (simp_all add: trim_start_pad)
  then show ?thesis using assms by (simp add: trim_eq trim_end_pad trim_end_id)
qed

lemma whitespace_not_special: "is_whitespace c \<Longrightarrow> c \<noteq> of_char (CHR '','') \<and> c \<noteq> of_char (CHR ''('')"
  by (auto simp: is_whitespace_def)

lemma strip_dependency:
  assumes "dependency_ok d"
  shows "trim (print_dependency d) \<noteq> []" and "strip_constraint (trim (print_dependency d)) = dp_name d"
proof -
  let ?c = "case dp_constraint d of None \<Rightarrow> [] | Some (space, v) \<Rightarrow> space @ of_char (CHR ''('') # v @ [of_char (CHR '')'')]"
  have "\<not> is_whitespace (of_char (CHR '')''))" by (simp add: is_whitespace_def)
  then have t: "trim (print_dependency d) = dp_name d @ ?c"
    using assms unfolding print_dependency_def
    by (subst append_assoc [symmetric, of "dp_name d"], intro trim_pad)
      (auto simp: dependency_ok_def split: option.splits)
  then show "trim (print_dependency d) \<noteq> []" using assms by (simp add: dependency_ok_def)
  show "strip_constraint (trim (print_dependency d)) = dp_name d"
  proof (cases "dp_constraint d")
    case None
    with t assms show ?thesis
      by (simp add: strip_constraint_def dependency_ok_def cut_at_None [THEN iffD2])
  next
    case (Some sv)
    obtain space v where sv: "sv = (space, v)" by (cases sv)
    have "of_char (CHR ''('') \<notin> set (dp_name d @ space)"
      using assms whitespace_not_special by (auto simp: dependency_ok_def Some sv list_all_iff)
    then have "cut_at (of_char (CHR ''('')) ((dp_name d @ space) @ of_char (CHR ''('') # v @ [of_char (CHR '')'')]) =
        Some (dp_name d @ space, v @ [of_char (CHR '')'')])"
      by (rule cut_at_append)
    moreover have "trim (dp_name d @ space) = dp_name d"
      using assms trim_pad [of "[]" space "dp_name d"] by (simp add: dependency_ok_def Some sv)
    ultimately show ?thesis by (simp add: t Some sv strip_constraint_def)
  qed
qed

lemma comma_not_in_dependency: "dependency_ok d \<Longrightarrow> of_char (CHR '','') \<notin> set (print_dependency d)"
  using whitespace_not_special
  by (auto simp: dependency_ok_def print_dependency_def list_all_iff split: option.splits)

lemma parse_comma_separated_print:
  assumes "list_all dependency_ok ds"
  shows "parse_comma_separated (join_with (of_char (CHR '','')) (map print_dependency ds)) = map dp_name ds"
proof (cases "ds = []")
  case True
  then show ?thesis by (simp add: parse_comma_separated_def trim_eq trim_end_id)
next
  case False
  with assms have "split (\<lambda>c. c = of_char (CHR '','')) (join_with (of_char (CHR '','')) (map print_dependency ds)) =
      map print_dependency ds"
    by (intro split_join) (auto simp: list_all_iff dest: comma_not_in_dependency [simplified])
  moreover have "filter (\<lambda>s. s \<noteq> []) (map trim (map print_dependency ds)) = map trim (map print_dependency ds)"
    using assms by (auto simp: filter_id_conv list_all_iff strip_dependency)
  ultimately show ?thesis
    using assms by (simp add: parse_comma_separated_def list_all_iff strip_dependency)
qed

section \<open>Printing collation lists\<close>

text \<open>A quoted file name with the white space before it: space, quote and name.\<close>

fun print_file :: "str \<times> nat \<times> str \<Rightarrow> str" where
  "print_file (space, q, fname) = space @ wrap q fname"

fun file_ok :: "str \<times> nat \<times> str \<Rightarrow> bool" where
  "file_ok (space, q, fname) \<longleftrightarrow>
     space \<noteq> [] \<and> list_all is_whitespace space \<and> is_quote q \<and>
     list_all (\<lambda>c. \<not> is_whitespace c) fname \<and>
     (fname = [] \<or> \<not> is_quote (hd fname) \<and> \<not> is_quote (last fname))"

lemma split_whitespace_pad: "list_all is_whitespace p \<Longrightarrow> split_whitespace (p @ s) = split_whitespace s"
  by (induction p) (simp_all add: split_whitespace_def)

lemma split_whitespace_word:
  assumes "w \<noteq> []" and "list_all (\<lambda>c. \<not> is_whitespace c) w" and "rest = [] \<or> starts_with is_whitespace rest"
  shows "split_whitespace (w @ rest) = w # split_whitespace rest"
proof (cases rest)
  case Nil
  with assms show ?thesis by (simp add: split_whitespace_def split_no_match list_all_iff)
next
  case (Cons c cs)
  with assms have "split is_whitespace (w @ rest) = w # split is_whitespace cs"
    by (auto intro!: split_append simp: list_all_iff)
  with assms Cons show ?thesis by (simp add: split_whitespace_def)
qed

lemma quote_not_whitespace: "is_quote q \<Longrightarrow> \<not> is_whitespace q"
  by (auto simp: is_quote_def is_whitespace_def)

lemma split_whitespace_print:
  assumes "list_all file_ok fs"
  shows "split_whitespace (concat (map print_file fs)) = map (\<lambda>(_, q, fname). wrap q fname) fs"
  using assms
proof (induction fs)
  case (Cons f fs)
  obtain space q fname where f: "f = (space, q, fname)" by (cases f)
  have "concat (map print_file fs) = [] \<or> starts_with is_whitespace (concat (map print_file fs))"
  proof (cases fs)
    case (Cons g gs)
    with \<open>list_all file_ok (f # fs)\<close> show ?thesis by (cases g; cases "fst g") auto
  qed simp
  then have "split_whitespace (wrap q fname @ concat (map print_file fs)) =
      wrap q fname # split_whitespace (concat (map print_file fs))"
    using Cons.prems quote_not_whitespace [of q]
    by (intro split_whitespace_word) (simp_all add: f wrap_def)
  with Cons f show ?case by (simp add: split_whitespace_pad)
qed (simp add: split_whitespace_def)

lemma trim_quotes:
  assumes "is_quote q" and "fname = [] \<or> \<not> is_quote (hd fname) \<and> \<not> is_quote (last fname)"
  shows "trim_matches is_quote (wrap q fname) = fname"
proof (cases "fname = []")
  case False
  then have "trim_start_matches is_quote (wrap q fname) = fname @ [q]"
    using assms by (cases fname) (simp_all add: trim_start_matches_def wrap_def)
  with False assms show ?thesis
    by (cases fname rule: rev_cases) (simp_all add: trim_matches_def trim_end_matches_def)
qed (use assms in \<open>simp add: wrap_def trim_matches_def trim_start_matches_def trim_end_matches_def\<close>)

section \<open>Properties\<close>

text \<open>
  C29. Control files round trip: a file printed from fields the format can hold parses back to these
  fields, values with continuation lines included. Of two fields with the same key the later wins.
\<close>

theorem dcf_round_trip:
  assumes "list_all field_ok fs"
  shows "parse_dcf (print_dcf fs) = map_of (rev (map (\<lambda>f. (fst f, field_value f)) fs))"
  using assms by (simp add: parse_dcf_def save_fold_dcf_line) (simp add: save_field_def)

theorem dcf_round_trip_witness:
  "parse_dcf (print_dcf [(lit ''Package'', lit ''a'', []), (lit ''Collate'', [], [lit '' b.R''])]) =
   map_of [(lit ''Collate'', 0xA # lit '' b.R''), (lit ''Package'', lit ''a'')]"
proof -
  have "list_all field_ok [(lit ''Package'', lit ''a'', []), (lit ''Collate'', [], [lit '' b.R''])]"
    by (simp add: key_ok_def line_ok_def value_ok_def is_whitespace_def)
  from dcf_round_trip [OF this] show ?thesis by simp
qed

lemma description_result_Inr:
  assumes "(r :: description_error + 'a) \<noteq> Inl MissingPackage" and "r \<noteq> Inl MissingVersion"
  obtains d where "r = Inr d"
  using assms by (cases r) (auto intro: description_error.exhaust)

text \<open>
  C30. Reading a DESCRIPTION fails exactly when the name or the version is missing, and says which;
  \<open>Imports\<close>, \<open>Depends\<close> and \<open>Collate\<close> may each be present or not. Otherwise the result carries the
  fields as printed: name, version, the imported packages without their version constraints, the
  packages it depends on without \<open>R\<close>, both empty when the field is missing, and the collation order
  without quotes, if there is one.
\<close>

theorem description_reads_back:
  assumes "list_all field_ok fs" and "distinct (map fst fs)"
    and "pred_option (list_all dependency_ok) imports" and "pred_option (list_all dependency_ok) depends"
    and "pred_option (list_all file_ok) files"
    and "flds = map_of (map (\<lambda>f. (fst f, field_value f)) fs)"
    and "flds (lit ''Imports'') = map_option (\<lambda>ds. join_with (of_char (CHR '','')) (map print_dependency ds)) imports"
    and "flds (lit ''Depends'') = map_option (\<lambda>ds. join_with (of_char (CHR '','')) (map print_dependency ds)) depends"
    and "flds (lit ''Collate'') = map_option (\<lambda>fs. concat (map print_file fs)) files"
  shows "(description_parse (print_dcf fs) = Inl MissingPackage \<longleftrightarrow> flds (lit ''Package'') = None) \<and>
    (description_parse (print_dcf fs) = Inl MissingVersion \<longleftrightarrow>
       flds (lit ''Package'') \<noteq> None \<and> flds (lit ''Version'') = None) \<and>
    (\<forall>d. description_parse (print_dcf fs) = Inr d \<longrightarrow>
       Some (de_name d) = flds (lit ''Package'') \<and> Some (de_version d) = flds (lit ''Version'') \<and>
       de_imports d = (case imports of None \<Rightarrow> [] | Some ds \<Rightarrow> map dp_name ds) \<and>
       de_depends d = (case depends of None \<Rightarrow> [] | Some ds \<Rightarrow> filter (\<lambda>p. p \<noteq> lit ''R'') (map dp_name ds)) \<and>
       collate d = map_option (map (\<lambda>(_, _, fname). fname)) files)"
proof -
  have "map_of (rev (map (\<lambda>f. (fst f, field_value f)) fs)) = flds"
    using assms(2) unfolding assms(6) by (subst map_of_inject_set) (simp_all add: comp_def flip: rev_map)
  then have dcf: "parse_dcf (print_dcf fs) = flds"
    by (simp add: parse_dcf_def save_fold_dcf_line [OF assms(1)]) (simp add: save_field_def)
  have deps: "parse_comma_separated (join_with (of_char (CHR '','')) (map print_dependency ds)) = map dp_name ds"
    if "list_all dependency_ok ds" for ds using that by (rule parse_comma_separated_print)
  note deps = deps [simplified]
  have files: "map (trim_matches is_quote) (split_whitespace (concat (map print_file fs))) = map (\<lambda>(_, _, fname). fname) fs"
    if "list_all file_ok fs" for fs
  proof -
    have "map (trim_matches is_quote) (map (\<lambda>(_, q, fname). wrap q fname) fs) = map (\<lambda>(_, _, fname). fname) fs"
      using that by (auto simp: list_all_iff trim_quotes)
    then show ?thesis by (simp only: split_whitespace_print [OF that])
  qed
  note parsed = description_parse_def dcf collate_def Let_def
  have 1: "description_parse (print_dcf fs) = Inl MissingPackage \<longleftrightarrow> flds (lit ''Package'') = None"
    "description_parse (print_dcf fs) = Inl MissingVersion \<longleftrightarrow> flds (lit ''Package'') \<noteq> None \<and> flds (lit ''Version'') = None"
    by (auto simp: parsed simp del: lit_simps split: option.splits)
  have 2: "Some (de_name d) = flds (lit ''Package'')" "Some (de_version d) = flds (lit ''Version'')"
    "de_imports d = (case imports of None \<Rightarrow> [] | Some ds \<Rightarrow> map dp_name ds)"
    "de_depends d = (case depends of None \<Rightarrow> [] | Some ds \<Rightarrow> filter (\<lambda>p. p \<noteq> lit ''R'') (map dp_name ds))"
    "collate d = map_option (map (\<lambda>(_, _, fname). fname)) files"
    if d: "description_parse (print_dcf fs) = Inr d" for d
  proof -
    from d obtain name version where nv: "flds (lit ''Package'') = Some name" "flds (lit ''Version'') = Some version"
      by (auto simp: parsed simp del: lit_simps split: option.splits)
    note result = d [unfolded description_parse_def Let_def dcf nv option.case, THEN sum.inject(2) [THEN iffD1], symmetric]
    show "Some (de_name d) = flds (lit ''Package'')" "Some (de_version d) = flds (lit ''Version'')"
      by (simp_all add: result nv del: lit_simps)
    show "de_imports d = (case imports of None \<Rightarrow> [] | Some ds \<Rightarrow> map dp_name ds)"
      using assms(3) by (cases "imports") (simp_all add: result assms(7) deps del: lit_simps)
    show "de_depends d = (case depends of None \<Rightarrow> [] | Some ds \<Rightarrow> filter (\<lambda>p. p \<noteq> lit ''R'') (map dp_name ds))"
      using assms(4) by (cases depends) (simp_all add: result assms(8) deps del: lit_simps)
    show "collate d = map_option (map (\<lambda>(_, _, fname). fname)) files"
      using assms(5) by (cases files) (simp_all add: collate_def result assms(9) files del: lit_simps)
  qed
  show ?thesis using 1 2 by blast
qed

text \<open>No \<open>Imports\<close> field; a dependency on a version of R and a continuation line; a quoted file name.\<close>

theorem description_reads_back_witness:
  "\<exists>d. description_parse (print_dcf
      [(lit ''Package'', lit ''p'', []), (lit ''Version'', lit ''1.0'', []),
       (lit ''Depends'', lit ''R (>= 4),'', [lit '' utils'']),
       (lit ''Collate'', [], [0x20 # wrap 0x27 (lit ''a.R'')])]) = Inr d \<and>
    de_imports d = [] \<and> de_depends d = [lit ''utils''] \<and> collate d = Some [lit ''a.R'']"
proof -
  let ?fs = "[(lit ''Package'', lit ''p'', []), (lit ''Version'', lit ''1.0'', []),
       (lit ''Depends'', lit ''R (>= 4),'', [lit '' utils'']),
       (lit ''Collate'', [], [0x20 # wrap 0x27 (lit ''a.R'')])]"
  let ?depends = "[\<lparr> dp_before = [], dp_name = lit ''R'', dp_constraint = Some ([0x20], lit ''>= 4''), dp_after = [] \<rparr>,
      \<lparr> dp_before = [0xA, 0x20], dp_name = lit ''utils'', dp_constraint = None, dp_after = [] \<rparr>]"
  let ?files = "[([0xA, 0x20], 0x27, lit ''a.R'')] :: (str \<times> nat \<times> str) list"
  have 1: "list_all field_ok ?fs"
    by (simp add: key_ok_def line_ok_def value_ok_def is_whitespace_def wrap_def)
  have 2: "distinct (map fst ?fs)" by simp
  have 3: "pred_option (list_all dependency_ok) None" "pred_option (list_all dependency_ok) (Some ?depends)"
    by (simp_all add: dependency_ok_def is_whitespace_def)
  have 4: "pred_option (list_all file_ok) (Some ?files)" by (simp add: is_whitespace_def is_quote_def)
  note reads = description_reads_back [OF 1 2 3 4 refl]
  have fields:
    "map_of (map (\<lambda>f. (fst f, field_value f)) ?fs) (lit ''Imports'') =
      map_option (\<lambda>ds. join_with (of_char (CHR '','')) (map print_dependency ds)) None"
    "map_of (map (\<lambda>f. (fst f, field_value f)) ?fs) (lit ''Depends'') =
      map_option (\<lambda>ds. join_with (of_char (CHR '','')) (map print_dependency ds)) (Some ?depends)"
    "map_of (map (\<lambda>f. (fst f, field_value f)) ?fs) (lit ''Collate'') =
      map_option (\<lambda>fs. concat (map print_file fs)) (Some ?files)"
    "map_of (map (\<lambda>f. (fst f, field_value f)) ?fs) (lit ''Package'') = Some (lit ''p'')"
    "map_of (map (\<lambda>f. (fst f, field_value f)) ?fs) (lit ''Version'') = Some (lit ''1.0'')"
    by (simp_all add: print_dependency_def wrap_def)
  note result = reads [OF fields(1-3)]
  have "description_parse (print_dcf ?fs) \<noteq> Inl MissingPackage"
    by (simp only: conjunct1 [OF result] fields(4) option.distinct simp_thms)
  moreover have "description_parse (print_dcf ?fs) \<noteq> Inl MissingVersion"
    by (simp only: conjunct1 [OF conjunct2 [OF result]] fields(5) option.distinct simp_thms)
  ultimately obtain d where d: "description_parse (print_dcf ?fs) = Inr d"
    by (rule description_result_Inr)
  from result [THEN conjunct2, THEN conjunct2, THEN spec, THEN mp, OF d]
  show ?thesis using d by (intro exI [of _ d]) simp
qed

text \<open>
  What INDEX contributes to the exported names. A name taken from INDEX is a bare R identifier
  unless it starts with a dot and a digit, which R reads as a number: the pattern of \<^verbatim>\<open>index.rs\<close>
  lets these through.
\<close>

theorem index_names_identifiers:
  assumes "n \<in> set (index_parse input)"
  shows "is_valid_identifier alpha n \<longleftrightarrow> \<not> (hd n = of_char (CHR ''.'') \<and> starts_with is_ascii_digit (tl n))"
proof -
  have "\<forall>n\<in>set names. is_index_name n \<Longrightarrow> \<forall>n\<in>set (fold index_line ls names). is_index_name n" for ls names
  proof (induction ls arbitrary: names)
    case (Cons l ls)
    then have "\<forall>n\<in>set (index_line l names). is_index_name n"
      by (auto simp: index_line_def split: list.splits)
    with Cons.IH show ?case by simp
  qed simp
  from this [of "[]"] assms have "is_index_name n" by (auto simp: index_parse_def)
  then show ?thesis
    by (cases n) (auto simp: is_index_name_def is_valid_identifier_def list_all_iff is_alphabetic_def
        is_ascii_alphabetic_def is_ascii_digit_def)
qed

theorem index_names_identifiers_witness:
  "index_parse (lit ''.1a the first'' @ [0xA]) = [lit ''.1a''] \<and> \<not> is_valid_identifier (\<lambda>_. True) (lit ''.1a'')"
proof -
  have p: "index_parse (lit ''.1a the first'' @ [0xA]) = [lit ''.1a'']"
    unfolding index_parse_def
    by (subst lines_line)
      (simp_all add: index_line_def split_whitespace_def is_index_name_def is_whitespace_def
        is_ascii_digit_def is_ascii_alphabetic_def)
  then have "lit ''.1a'' \<in> set (index_parse (lit ''.1a the first'' @ [0xA]))" by (simp only:) simp
  from index_names_identifiers [OF this, of "\<lambda>_. True"] p show ?thesis
    by (simp add: is_ascii_digit_def)
qed

end
