(* ===== verification/Namespace_File.thy ===== *)
theory Namespace_File
  imports R_Syntax "HOL-Library.List_Lexorder" "HOL-Library.Char_ord"
begin

text \<open>
  Sorted vectors (\<^verbatim>\<open>stdext/src/sorted_vec.rs\<close>) and the NAMESPACE file of a package
  (\<^verbatim>\<open>oak_package_metadata/src/namespace.rs\<close>). Strings are ordered by their bytes, as in Rust.
  The R parser is a parameter: a function from the text to the error it reports, if any, and the
  top-level expressions.
\<close>

section \<open>Sorted vectors\<close>

datatype ordering = Less | Equal | Greater

definition cmp :: "'a::linorder \<Rightarrow> 'a \<Rightarrow> ordering" where
  "cmp a b = (if a < b then Less else if a = b then Equal else Greater)"

text \<open>
  \<open>slice::binary_search_by\<close>: the loop halves the window \<open>[base, base + len)\<close> without stopping at
  an equal element, and compares once more at the end.
\<close>

function search_loop :: "(nat \<Rightarrow> ordering) \<Rightarrow> nat \<Rightarrow> nat \<Rightarrow> nat" where
  "search_loop f base len =
     (if 1 < len then
        let half = len div 2; mid = base + half in
        search_loop f (if f mid = Greater then base else mid) (len - half)
      else base)"
  by pat_completeness auto
termination search_loop
  by (relation "measure (\<lambda>(_, _, len). len)") auto

declare search_loop.simps [simp del]

definition binary_search_is_ok :: "('a \<Rightarrow> ordering) \<Rightarrow> 'a list \<Rightarrow> bool" where
  "binary_search_is_ok f xs =
     (if xs = [] then False else f (xs ! search_loop (\<lambda>i. f (xs ! i)) 0 (length xs)) = Equal)"

text \<open>\<open>Vec::dedup_by\<close> with equality of a key: of equal neighbours the first is kept.\<close>

fun dedup_key :: "('a \<Rightarrow> 'k) \<Rightarrow> 'a list \<Rightarrow> 'a list" where
  "dedup_key k [] = []"
| "dedup_key k [x] = [x]"
| "dedup_key k (x # y # xs) = (if k x = k y then dedup_key k (x # xs) else x # dedup_key k (y # xs))"

definition sv_from_vec :: "'a::linorder list \<Rightarrow> 'a list" where
  "sv_from_vec values = dedup_key (\<lambda>x. x) (sort values)"

definition sv_contains :: "'a::linorder list \<Rightarrow> 'a \<Rightarrow> bool" where
  "sv_contains sv x = binary_search_is_ok (\<lambda>s. cmp s x) sv"

subsection \<open>Search\<close>

lemma search_loop_window:
  assumes "0 < len"
  shows "base \<le> search_loop f base len \<and> search_loop f base len < base + len"
  using assms
proof (induction f base len rule: search_loop.induct)
  case (1 f base len)
  show ?case
  proof (cases "1 < len")
    case True
    let ?base = "if f (base + len div 2) = Greater then base else base + len div 2"
    from True have "?base \<le> search_loop f ?base (len - len div 2) \<and>
        search_loop f ?base (len - len div 2) < ?base + (len - len div 2)"
      by (intro "1.IH") auto
    with True show ?thesis by (subst (1 2) search_loop.simps) (auto simp: Let_def split: if_splits)
  qed (use 1 in \<open>simp add: search_loop.simps\<close>)
qed

text \<open>Halving keeps an index of the sought element in the window.\<close>

lemma window_halved:
  assumes "sorted xs" and "xs ! i = x" "base \<le> i" "i < base + len" "base + len \<le> length xs" "1 < len"
  defines "mid \<equiv> base + len div 2"
  defines "base' \<equiv> if cmp (xs ! mid) x = Greater then base else mid"
  shows "\<exists>j. xs ! j = x \<and> base' \<le> j \<and> j < base' + (len - len div 2) \<and> base' + (len - len div 2) \<le> length xs"
proof -
  from assms have mid: "base < mid" "mid < length xs" by auto
  have left: "i < mid \<Longrightarrow> x \<le> xs ! mid" and right: "mid \<le> i \<Longrightarrow> xs ! mid \<le> x"
    using assms(1-5) mid sorted_nth_mono [OF assms(1), of i mid] sorted_nth_mono [OF assms(1), of mid i] by auto
  show ?thesis
  proof (cases "cmp (xs ! mid) x = Greater")
    case True
    then have "x < xs ! mid" by (auto simp: cmp_def split: if_splits)
    with right have "i < mid" by force
    with True assms show ?thesis by (intro exI [of _ i]) (auto simp: base'_def mid_def)
  next
    case False
    then have "xs ! mid \<le> x" by (auto simp: cmp_def split: if_splits)
    with left have "i < mid \<Longrightarrow> xs ! mid = x" by force
    with False assms show ?thesis
      by (intro exI [of _ "if i < mid then mid else i"]) (auto simp: base'_def mid_def)
  qed
qed

lemma search_loop_finds:
  assumes "sorted xs" and "xs ! i = x" "base \<le> i" "i < base + len" "base + len \<le> length xs"
    and "f = (\<lambda>i. cmp (xs ! i) x)"
  shows "xs ! search_loop f base len = x"
  using assms
proof (induction f base len arbitrary: i rule: search_loop.induct)
  case (1 f base len)
  show ?case
  proof (cases "1 < len")
    case True
    let ?base = "if f (base + len div 2) = Greater then base else base + len div 2"
    obtain j where "xs ! j = x" "?base \<le> j" "j < ?base + (len - len div 2)" "?base + (len - len div 2) \<le> length xs"
      using window_halved [OF "1.prems"(1-5) True] unfolding "1.prems"(6) by blast
    from "1.IH" [OF True refl refl "1.prems"(1) this "1.prems"(6)] True show ?thesis
      by (subst search_loop.simps) (simp add: Let_def)
  next
    case False
    with "1.prems" have "i = base" by linarith
    with False "1.prems" show ?thesis by (simp add: search_loop.simps)
  qed
qed

lemma sv_contains_sorted:
  assumes "sorted xs"
  shows "sv_contains xs x \<longleftrightarrow> x \<in> set xs"
proof (cases "xs = []")
  case False
  define m where "m = search_loop (\<lambda>i. cmp (xs ! i) x) 0 (length xs)"
  have "m < length xs" using search_loop_window [of "length xs" 0] False by (simp add: m_def)
  moreover have "x \<in> set xs \<Longrightarrow> xs ! m = x"
    using search_loop_finds [OF assms, of _ x 0 "length xs"] by (auto simp: in_set_conv_nth m_def)
  ultimately have "xs ! m = x \<longleftrightarrow> x \<in> set xs" using nth_mem by blast
  moreover have "sv_contains xs x \<longleftrightarrow> cmp (xs ! m) x = Equal"
    using False by (simp add: sv_contains_def binary_search_is_ok_def m_def)
  ultimately show ?thesis by (auto simp: cmp_def split: if_splits)
qed (simp add: sv_contains_def binary_search_is_ok_def)

subsection \<open>Removing duplicates\<close>

lemma dedup_key_set: "k ` set (dedup_key k xs) = k ` set xs"
  by (induction k xs rule: dedup_key.induct) auto

lemma dedup_key_subset: "set (dedup_key k xs) \<subseteq> set xs"
  by (induction k xs rule: dedup_key.induct) auto

lemma dedup_key_sorted:
  fixes k :: "'a \<Rightarrow> 'k::linorder"
  assumes "sorted (map k xs)"
  shows "sorted_wrt (<) (map k (dedup_key k xs))"
  using assms
proof (induction k xs rule: dedup_key.induct)
  case (3 k x y xs)
  show ?case
  proof (cases "k x = k y")
    case False
    have "k x < z" if "z \<in> k ` set (dedup_key k (y # xs))" for z
      using that 3(3) False unfolding dedup_key_set by fastforce
    with 3 False show ?thesis by auto
  qed (use 3 in auto)
qed auto

text \<open>Of the elements with a given key, the first one in the list survives.\<close>

lemma dedup_key_first:
  "sorted (map k xs) \<Longrightarrow> find (\<lambda>x. k x = a) (dedup_key k xs) = find (\<lambda>x. k x = a) xs"
  by (induction k xs rule: dedup_key.induct) (auto split: if_splits)

lemma find_filter: "find P xs = (case filter P xs of [] \<Rightarrow> None | x # _ \<Rightarrow> Some x)"
  by (induction xs) auto

lemma find_sort_key: "find (\<lambda>x. k x = a) (sort_key k xs) = find (\<lambda>x. k x = a) xs"
  by (simp add: find_filter sort_key_stable)

subsection \<open>Sorted vectors as sets\<close>

text \<open>
  What the users of a sorted vector rely on: it has the elements it was made from, in strictly
  increasing order, and membership is decided by the search.
\<close>

locale sorted_set =
  fixes make :: "'a::linorder list \<Rightarrow> 'v" and items :: "'v \<Rightarrow> 'a list" and contains :: "'v \<Rightarrow> 'a \<Rightarrow> bool"
  assumes items_make: "set (items (make xs)) = set xs"
    and items_sorted: "sorted_wrt (<) (items (make xs))"
    and contains_make: "contains (make xs) x \<longleftrightarrow> x \<in> set (items (make xs))"
begin

lemma contains_iff: "contains (make xs) x \<longleftrightarrow> x \<in> set xs"
  by (simp add: contains_make items_make)

text \<open>Two vectors made from the same elements are the same sequence, whatever the order of insertion.\<close>

lemma items_canonical: "set xs = set ys \<Longrightarrow> items (make xs) = items (make ys)"
  by (metis items_make items_sorted sorted_list_of_set.idem_if_sorted_distinct strict_sorted_iff)

end

interpretation sv: sorted_set sv_from_vec "\<lambda>v. v" sv_contains
proof
  fix xs :: "'a::linorder list" and x
  show set: "set (sv_from_vec xs) = set xs"
    using dedup_key_set [of "\<lambda>x. x" "sort xs"] by (simp add: sv_from_vec_def)
  show sorted: "sorted_wrt (<) (sv_from_vec xs)"
    using dedup_key_sorted [of "\<lambda>x. x" "sort xs"] by (simp add: sv_from_vec_def)
  then show "sv_contains (sv_from_vec xs) x \<longleftrightarrow> x \<in> set (sv_from_vec xs)"
    by (intro sv_contains_sorted) (simp add: strict_sorted_iff)
qed

section \<open>NAMESPACE\<close>

record ns_import =
  im_name :: string
  im_package :: string

record namespace =
  ns_exports :: "string list"
  ns_imports :: "ns_import list"
  ns_package_imports :: "string list"

fun directive_name :: "r_expr \<Rightarrow> string option" where
  "directive_name (RIdentifier _ ident) = Some (name_text ident)"
| "directive_name (RStringValue _ tok) = string_text tok"
| "directive_name _ = None"

definition argument_directive_name :: "r_argument \<Rightarrow> string option" where
  "argument_directive_name item = (case item of
     RArgumentError \<Rightarrow> None
   | RArgument _ v \<Rightarrow> Option.bind v directive_name)"

definition collect_arg_identifiers :: "r_argument list \<Rightarrow> string list \<Rightarrow> string list" where
  "collect_arg_identifiers args out =
     fold (\<lambda>item out. case argument_directive_name item of None \<Rightarrow> out | Some name \<Rightarrow> out @ [name]) args out"

definition collect_imports :: "r_argument list \<Rightarrow> ns_import list \<Rightarrow> ns_import list" where
  "collect_imports args out = (case args of
     [] \<Rightarrow> out
   | first_arg # rest \<Rightarrow>
       (case argument_directive_name first_arg of
          None \<Rightarrow> out
        | Some pkg_name \<Rightarrow>
            fold (\<lambda>item out. case argument_directive_name item of
                None \<Rightarrow> out
              | Some name \<Rightarrow> out @ [\<lparr> im_name = name, im_package = pkg_name \<rparr>]) rest out))"

text \<open>The body of the loop over the top-level expressions, on the three vectors under construction.\<close>

definition namespace_directive :: "r_expr \<Rightarrow> namespace \<Rightarrow> namespace" where
  "namespace_directive expr ns = (case expr of
     RCall _ (Some (RIdentifier _ fn_ident)) (Some args) \<Rightarrow>
       (let fn_name = name_text fn_ident in
        if fn_name = ''export'' \<or> fn_name = ''exportClasses'' \<or> fn_name = ''exportMethods'' then
          ns\<lparr> ns_exports := collect_arg_identifiers args (ns_exports ns) \<rparr>
        else if fn_name = ''importFrom'' then
          ns\<lparr> ns_imports := collect_imports args (ns_imports ns) \<rparr>
        else if fn_name = ''import'' then
          ns\<lparr> ns_package_imports := collect_arg_identifiers args (ns_package_imports ns) \<rparr>
        else ns)
   | _ \<Rightarrow> ns)"

definition namespace_parse :: "(string \<Rightarrow> 'e option \<times> r_expr list) \<Rightarrow> string \<Rightarrow> 'e + namespace" where
  "namespace_parse parser contents = (case parser contents of
     (Some err, _) \<Rightarrow> Inl err
   | (None, exprs) \<Rightarrow>
       (let ns = fold namespace_directive exprs \<lparr> ns_exports = [], ns_imports = [], ns_package_imports = [] \<rparr> in
        Inr \<lparr> ns_exports = sv_from_vec (ns_exports ns),
              ns_imports = dedup_key im_name (sort_key im_name (ns_imports ns)),
              ns_package_imports = dedup_key (\<lambda>x. x) (sort (ns_package_imports ns)) \<rparr>))"

subsection \<open>What the directives say\<close>

text \<open>
  The directives of a file read without any state: the function called and the names its arguments
  give, in order; an argument that is not a name gives none.
\<close>

definition directive :: "r_expr \<Rightarrow> (string \<times> string option list) option" where
  "directive expr = (case expr of
     RCall _ (Some (RIdentifier _ ident)) (Some args) \<Rightarrow> Some (name_text ident, map argument_directive_name args)
   | _ \<Rightarrow> None)"

definition names_given :: "string set \<Rightarrow> r_expr list \<Rightarrow> string list" where
  "names_given fs exprs = concat (map (\<lambda>e. case directive e of
     Some (f, names) \<Rightarrow> if f \<in> fs then map the (filter (\<lambda>n. n \<noteq> None) names) else []
   | None \<Rightarrow> []) exprs)"

definition imports_given :: "r_expr list \<Rightarrow> (string \<times> string) list" where
  "imports_given exprs = concat (map (\<lambda>e. case directive e of
     Some (f, Some pkg # names) \<Rightarrow>
       if f = ''importFrom'' then map (\<lambda>n. (the n, pkg)) (filter (\<lambda>n. n \<noteq> None) names) else []
   | _ \<Rightarrow> []) exprs)"

lemma collect_arg_identifiers_eq:
  "collect_arg_identifiers args out = out @ map the (filter (\<lambda>n. n \<noteq> None) (map argument_directive_name args))"
  by (induction args arbitrary: out) (auto simp: collect_arg_identifiers_def split: option.splits)

lemma fold_imports_eq:
  "fold (\<lambda>item out. case argument_directive_name item of
       None \<Rightarrow> out | Some name \<Rightarrow> out @ [\<lparr> im_name = name, im_package = pkg \<rparr>]) args out =
   out @ map (\<lambda>n. \<lparr> im_name = the n, im_package = pkg \<rparr>) (filter (\<lambda>n. n \<noteq> None) (map argument_directive_name args))"
  by (induction args arbitrary: out) (auto split: option.splits)

abbreviation "import_pair i \<equiv> (im_name i, im_package i)"

text \<open>What one expression contributes to the three vectors.\<close>

lemma namespace_directive_contributes:
  "ns_exports (namespace_directive e ns) =
     ns_exports ns @ names_given {''export'', ''exportClasses'', ''exportMethods''} [e]"
  "ns_package_imports (namespace_directive e ns) = ns_package_imports ns @ names_given {''import''} [e]"
  "map import_pair (ns_imports (namespace_directive e ns)) = map import_pair (ns_imports ns) @ imports_given [e]"
  by (auto simp: namespace_directive_def names_given_def imports_given_def directive_def Let_def
      collect_arg_identifiers_eq collect_imports_def fold_imports_eq comp_def
      split: r_expr.splits option.splits list.splits)

lemma given_Nil [simp]: "names_given fs [] = []" "imports_given [] = []"
  by (simp_all add: names_given_def imports_given_def)

lemma given_Cons:
  "names_given fs (e # es) = names_given fs [e] @ names_given fs es"
  "imports_given (e # es) = imports_given [e] @ imports_given es"
  by (simp_all add: names_given_def imports_given_def)

lemma fold_namespace_directive:
  "ns_exports (fold namespace_directive es ns) =
     ns_exports ns @ names_given {''export'', ''exportClasses'', ''exportMethods''} es \<and>
   ns_package_imports (fold namespace_directive es ns) = ns_package_imports ns @ names_given {''import''} es \<and>
   map import_pair (ns_imports (fold namespace_directive es ns)) = map import_pair (ns_imports ns) @ imports_given es"
proof (induction es arbitrary: ns)
  case (Cons e es)
  then show ?case
    using given_Cons(1) [of "{''export'', ''exportClasses'', ''exportMethods''}" e es]
      given_Cons(1) [of "{''import''}" e es] given_Cons(2) [of e es]
    by (simp add: namespace_directive_contributes)
qed simp

text \<open>A lookup by name in the sorted list of imports is the lookup in the list as written.\<close>

lemma map_of_find: "map_of (map import_pair is) n = map_option im_package (find (\<lambda>i. im_name i = n) is)"
  by (induction "is") auto

lemma import_lookup:
  "map_of (map import_pair (dedup_key im_name (sort_key im_name is))) = map_of (map import_pair is)"
  by (rule ext) (simp add: map_of_find dedup_key_first find_sort_key)

section \<open>Properties\<close>

text \<open>
  C28. Reading a NAMESPACE. It fails exactly with the error the parser reports. Otherwise the exports
  are, in strictly increasing order, exactly the names that export directives give, and the binary
  search in them answers whether a name is exported; the packages imported in bulk are, in strictly
  increasing order, the names import directives give; and a symbol is imported from the package
  whose directive names it first in the file, whatever the later directives say.
\<close>

theorem namespace_parse_exact:
  assumes "parser contents = (err, exprs)"
  shows "(case namespace_parse parser contents of
      Inl e \<Rightarrow> err = Some e
    | Inr ns \<Rightarrow> err = None \<and>
        (\<forall>n. sv_contains (ns_exports ns) n \<longleftrightarrow> n \<in> set (names_given {''export'', ''exportClasses'', ''exportMethods''} exprs)) \<and>
        set (ns_exports ns) = set (names_given {''export'', ''exportClasses'', ''exportMethods''} exprs) \<and>
        set (ns_package_imports ns) = set (names_given {''import''} exprs) \<and>
        sorted_wrt (<) (ns_exports ns) \<and> sorted_wrt (<) (ns_package_imports ns) \<and>
        sorted_wrt (<) (map im_name (ns_imports ns)) \<and>
        map_of (map import_pair (ns_imports ns)) = map_of (imports_given exprs))"
proof (cases err)
  case None
  let ?ns = "fold namespace_directive exprs \<lparr> ns_exports = [], ns_imports = [], ns_package_imports = [] \<rparr>"
  have ns: "ns_exports ?ns = names_given {''export'', ''exportClasses'', ''exportMethods''} exprs"
    "ns_package_imports ?ns = names_given {''import''} exprs"
    "map import_pair (ns_imports ?ns) = imports_given exprs"
    using fold_namespace_directive [of exprs "\<lparr> ns_exports = [], ns_imports = [], ns_package_imports = [] \<rparr>"] by simp_all
  have "namespace_parse parser contents = Inr \<lparr> ns_exports = sv_from_vec (ns_exports ?ns),
      ns_imports = dedup_key im_name (sort_key im_name (ns_imports ?ns)),
      ns_package_imports = sv_from_vec (ns_package_imports ?ns) \<rparr>"
    using assms None by (simp add: namespace_parse_def sv_from_vec_def Let_def)
  then show ?thesis
    by (simp add: None ns sv.items_make sv.items_sorted sv.contains_iff import_lookup dedup_key_sorted)
qed (simp add: namespace_parse_def assms)

theorem namespace_parse_exact_witness:
  "\<exists>ns. namespace_parse (\<lambda>_. (None :: unit option,
      [RCall (tr_empty 0) (Some (RIdentifier (tr_empty 0) ''export''))
         (Some [RArgument None (Some (RIdentifier (tr_empty 0) ''f''))])])) ''export(f)'' = Inr ns \<and>
    sv_contains (ns_exports ns) ''f'' \<and> \<not> sv_contains (ns_exports ns) ''g''"
proof -
  let ?call = "[RCall (tr_empty 0) (Some (RIdentifier (tr_empty 0) ''export''))
         (Some [RArgument None (Some (RIdentifier (tr_empty 0) ''f''))])]"
  let ?parser = "\<lambda>_ :: string. (None :: unit option, ?call)"
  have given: "names_given {''export'', ''exportClasses'', ''exportMethods''} ?call = [''f'']"
    by (simp add: names_given_def directive_def name_text_def strip_prefix_char_def argument_directive_name_def)
  obtain ns where ns: "namespace_parse ?parser ''export(f)'' = Inr ns"
    by (simp add: namespace_parse_def Let_def)
  with namespace_parse_exact [of ?parser "''export(f)''" None ?call] given
  have "sv_contains (ns_exports ns) ''f'' \<and> \<not> sv_contains (ns_exports ns) ''g''" by simp
  with ns show ?thesis by blast
qed

end
