(* ===== verification/Workspace_Db.thy ===== *)
theory Workspace_Db
  imports Package_Metadata Namespace_File "HOL-Library.Word"
begin

text \<open>
  The inputs of the workspace database (\<^verbatim>\<open>oak_db/src/inputs.rs\<close>, \<^verbatim>\<open>file.rs\<close>,
  \<^verbatim>\<open>package.rs\<close>) and the lookups over them (\<^verbatim>\<open>oak_db/src/db.rs\<close>). Files, packages, roots
  and notebooks are entities of the Salsa storage: a number each, never reused, with the fields of
  the input struct. A tracked query is a function of the inputs, so memoisation does not show in the
  model, and a guarded write that only avoids an invalidation (\<open>if x != y { set_x(y) }\<close>) is the
  write. The two unordered buckets are lists without duplicates, in an arbitrary order.
\<close>

section \<open>Paths\<close>

text \<open>
  A path of the file system is the list of its components after lexical normalisation, so
  \<open>Path::starts_with\<close> is the prefix order. A virtual document is its URI with the path segments the
  URL library finds in it, if any.
\<close>

type_synonym fs_path = "str list"

datatype file_path = FilePath fs_path | VirtualPath str "str list option"

fun as_path :: "file_path \<Rightarrow> fs_path option" where
  "as_path (FilePath p) = Some p"
| "as_path (VirtualPath _ _) = None"

text \<open>
  A \<open>PathBuf\<close>: absolute and UTF-8, or one that \<open>FilePath::from_path_buf\<close> rejects.
\<close>

datatype path_buf = AbsPathBuf fs_path | OtherPathBuf

fun from_path_buf :: "path_buf \<Rightarrow> file_path option" where
  "from_path_buf (AbsPathBuf p) = Some (FilePath p)"
| "from_path_buf OtherPathBuf = None"

definition path_starts_with :: "fs_path \<Rightarrow> fs_path \<Rightarrow> bool" where
  "path_starts_with p root \<longleftrightarrow> prefix root p"

definition file_name :: "fs_path \<Rightarrow> str option" where
  "file_name p = (if p = [] then None else Some (last p))"

text \<open>\<open>Path::extension\<close>: what follows the last dot of the name, unless the name starts with its only dot.\<close>

definition path_extension :: "fs_path \<Rightarrow> str option" where
  "path_extension p = (case file_name p of
     None \<Rightarrow> None
   | Some name \<Rightarrow>
       (case cut_at (of_char (CHR ''.'')) (rev name) of
          None \<Rightarrow> None
        | Some (ext, stem) \<Rightarrow> if stem = [] then None else Some (rev ext)))"

definition has_r_extension :: "fs_path \<Rightarrow> bool" where
  "has_r_extension p = (case path_extension p of None \<Rightarrow> False | Some e \<Rightarrow> e = lit ''r'' \<or> e = lit ''R'')"

section \<open>Revisions\<close>

text \<open>
  A file time has signed 64 bit seconds and unsigned 32 bit nanoseconds; the revision packs them into
  128 bits. The cast sign-extends, and the shift drops the copies of the sign.
\<close>

type_synonym file_revision = "128 word"

definition zero_revision :: file_revision where
  "zero_revision = 0"

definition revision_of_time :: "64 word \<Rightarrow> 32 word \<Rightarrow> file_revision" where
  "revision_of_time seconds nanoseconds = or (push_bit 64 (scast seconds)) (ucast nanoseconds)"

section \<open>Entities\<close>

type_synonym file_id = nat
type_synonym package_id = nat
type_synonym root_id = nat
type_synonym notebook_id = nat

record file_data =
  fl_path :: file_path
  fl_revision :: file_revision
  fl_source_text_override :: "str option"
  fl_package :: "package_id option"

record package_data =
  pk_description_path :: file_path
  pk_name :: str
  pk_description_revision :: file_revision
  pk_namespace_revision :: file_revision
  pk_index_revision :: "file_revision option"
  pk_namespace_override :: "namespace option"
  pk_files :: "file_id list"
  pk_scripts :: "file_id list"

datatype root_kind = WorkspaceKind | LibraryKind

record root_data =
  rt_path :: file_path
  rt_kind :: root_kind
  rt_scripts :: "file_id list"
  rt_packages :: "package_id list"
  rt_environment_dirs :: "file_path list"

record notebook_data =
  nb_path :: file_path
  nb_cells :: "file_id list"

datatype live_root = LiveWorkspace root_id | LiveLibrary root_id | LiveOrphan

text \<open>The storage: the entity tables with the next free numbers, and the singleton inputs.\<close>

record oak_db =
  db_file :: "file_id \<Rightarrow> file_data"
  db_next_file :: file_id
  db_package :: "package_id \<Rightarrow> package_data"
  db_next_package :: package_id
  db_root :: "root_id \<Rightarrow> root_data"
  db_next_root :: root_id
  db_notebook :: "notebook_id \<Rightarrow> notebook_data"
  db_next_notebook :: notebook_id
  db_workspace_roots :: "root_id list"
  db_library_roots :: "root_id list"
  db_orphan_files :: "file_id list"
  db_stale_files :: "file_id list"
  db_stale_packages :: "package_id list"
  db_open_notebooks :: "notebook_id list"

abbreviation path_of :: "oak_db \<Rightarrow> file_id \<Rightarrow> file_path" where
  "path_of db f \<equiv> fl_path (db_file db f)"

abbreviation package_of :: "oak_db \<Rightarrow> file_id \<Rightarrow> package_id option" where
  "package_of db f \<equiv> fl_package (db_file db f)"

abbreviation root_path :: "oak_db \<Rightarrow> root_id \<Rightarrow> file_path" where
  "root_path db r \<equiv> rt_path (db_root db r)"

subsection \<open>Setters and constructors\<close>

definition upd_file :: "file_id \<Rightarrow> (file_data \<Rightarrow> file_data) \<Rightarrow> oak_db \<Rightarrow> oak_db" where
  "upd_file f u db = db\<lparr> db_file := (db_file db)(f := u (db_file db f)) \<rparr>"

definition upd_package :: "package_id \<Rightarrow> (package_data \<Rightarrow> package_data) \<Rightarrow> oak_db \<Rightarrow> oak_db" where
  "upd_package p u db = db\<lparr> db_package := (db_package db)(p := u (db_package db p)) \<rparr>"

definition upd_root :: "root_id \<Rightarrow> (root_data \<Rightarrow> root_data) \<Rightarrow> oak_db \<Rightarrow> oak_db" where
  "upd_root r u db = db\<lparr> db_root := (db_root db)(r := u (db_root db r)) \<rparr>"

definition new_file :: "file_data \<Rightarrow> oak_db \<Rightarrow> file_id \<times> oak_db" where
  "new_file d db = (db_next_file db,
     db\<lparr> db_file := (db_file db)(db_next_file db := d), db_next_file := Suc (db_next_file db) \<rparr>)"

definition new_package :: "package_data \<Rightarrow> oak_db \<Rightarrow> package_id \<times> oak_db" where
  "new_package d db = (db_next_package db,
     db\<lparr> db_package := (db_package db)(db_next_package db := d), db_next_package := Suc (db_next_package db) \<rparr>)"

definition new_root :: "root_data \<Rightarrow> oak_db \<Rightarrow> root_id \<times> oak_db" where
  "new_root d db = (db_next_root db,
     db\<lparr> db_root := (db_root db)(db_next_root db := d), db_next_root := Suc (db_next_root db) \<rparr>)"

section \<open>Lookups\<close>

fun first_some :: "('a \<Rightarrow> 'b option) \<Rightarrow> 'a list \<Rightarrow> 'b option" where
  "first_some f [] = None"
| "first_some f (x # xs) = (case f x of None \<Rightarrow> first_some f xs | Some y \<Rightarrow> Some y)"

definition live_roots :: "oak_db \<Rightarrow> live_root list" where
  "live_roots db = map LiveWorkspace (db_workspace_roots db) @ map LiveLibrary (db_library_roots db) @ [LiveOrphan]"

fun live_root_id :: "live_root \<Rightarrow> root_id option" where
  "live_root_id (LiveWorkspace r) = Some r"
| "live_root_id (LiveLibrary r) = Some r"
| "live_root_id LiveOrphan = None"

text \<open>The files of a package and of a root, in the order the index maps are filled.\<close>

definition package_files :: "oak_db \<Rightarrow> package_id \<Rightarrow> file_id list" where
  "package_files db p = pk_files (db_package db p) @ pk_scripts (db_package db p)"

definition root_files :: "oak_db \<Rightarrow> root_id \<Rightarrow> file_id list" where
  "root_files db r = rt_scripts (db_root db r) @ concat (map (package_files db) (rt_packages (db_root db r)))"

text \<open>An index map filled in order: the last entry of a key wins.\<close>

definition index_by :: "('a \<Rightarrow> 'k) \<Rightarrow> 'a list \<Rightarrow> 'k \<Rightarrow> 'a option" where
  "index_by key xs = map_of (rev (map (\<lambda>x. (key x, x)) xs))"

definition root_path_index :: "oak_db \<Rightarrow> root_id \<Rightarrow> file_path \<Rightarrow> file_id option" where
  "root_path_index db r = index_by (path_of db) (root_files db r)"

definition orphan_path_index :: "oak_db \<Rightarrow> file_path \<Rightarrow> file_id option" where
  "orphan_path_index db = index_by (path_of db) (db_orphan_files db)"

definition root_package_index :: "oak_db \<Rightarrow> root_id \<Rightarrow> str \<Rightarrow> package_id option" where
  "root_package_index db r = index_by (\<lambda>p. pk_name (db_package db p)) (rt_packages (db_root db r))"

definition file_by_path :: "oak_db \<Rightarrow> file_path \<Rightarrow> file_id option" where
  "file_by_path db path = first_some (\<lambda>root. case root of
     LiveWorkspace r \<Rightarrow> root_path_index db r path
   | LiveLibrary r \<Rightarrow> root_path_index db r path
   | LiveOrphan \<Rightarrow> orphan_path_index db path) (live_roots db)"

definition package_by_name :: "oak_db \<Rightarrow> str \<Rightarrow> package_id option" where
  "package_by_name db name = first_some (\<lambda>root. case live_root_id root of
     Some r \<Rightarrow> root_package_index db r name
   | None \<Rightarrow> None) (live_roots db)"

text \<open>The number of non-empty URL segments.\<close>

definition root_depth :: "oak_db \<Rightarrow> root_id \<Rightarrow> nat" where
  "root_depth db r = (case root_path db r of
     FilePath p \<Rightarrow> length p
   | VirtualPath _ None \<Rightarrow> 0
   | VirtualPath _ (Some segs) \<Rightarrow> length (filter (\<lambda>s. s \<noteq> []) segs))"

text \<open>Among the roots that claim an entity, the deepest, the first of equally deep ones.\<close>

definition deepest_root :: "oak_db \<Rightarrow> (root_id \<Rightarrow> bool) \<Rightarrow> root_id option" where
  "deepest_root db claims = map_option fst
     (fold (\<lambda>root best. case live_root_id root of
         None \<Rightarrow> best
       | Some r \<Rightarrow>
           if claims r then
             (let depth = root_depth db r in
              case best of
                None \<Rightarrow> Some (r, depth)
              | Some (b, d) \<Rightarrow> if d < depth then Some (r, depth) else best)
           else best)
       (live_roots db) None)"

definition root_by_package :: "oak_db \<Rightarrow> package_id \<Rightarrow> root_id option" where
  "root_by_package db p = deepest_root db (\<lambda>r. p \<in> set (rt_packages (db_root db r)))"

definition root_by_file :: "oak_db \<Rightarrow> file_id \<Rightarrow> root_id option" where
  "root_by_file db f = deepest_root db (\<lambda>r. root_path_index db r (path_of db f) \<noteq> None)"

text \<open>The workspace folder with the longest path above a path; the last one of equally long ones.\<close>

definition root_by_path :: "oak_db \<Rightarrow> file_path \<Rightarrow> root_id option" where
  "root_by_path db path = (case as_path path of
     None \<Rightarrow> None
   | Some p \<Rightarrow> map_option fst
       (fold (\<lambda>r best. case as_path (root_path db r) of
           None \<Rightarrow> best
         | Some rp \<Rightarrow>
             if path_starts_with p rp then
               (case best of
                  None \<Rightarrow> Some (r, length rp)
                | Some (b, d) \<Rightarrow> if d \<le> length rp then Some (r, length rp) else best)
             else best)
         (db_workspace_roots db) None))"

definition file_root :: "oak_db \<Rightarrow> file_id \<Rightarrow> root_id option" where
  "file_root db f = (case package_of db f of
     Some p \<Rightarrow> root_by_package db p
   | None \<Rightarrow>
       (case root_by_file db f of Some r \<Rightarrow> Some r | None \<Rightarrow> root_by_path db (path_of db f)))"

section \<open>File lists\<close>

text \<open>Pushing files that were not seen before.\<close>

definition push_unseen :: "file_id list \<Rightarrow> file_id list \<Rightarrow> file_id list" where
  "push_unseen fs files = fold (\<lambda>f files. if f \<in> set files then files else files @ [f]) fs files"

definition push_root_files :: "oak_db \<Rightarrow> (package_id \<Rightarrow> bool) \<Rightarrow> root_id \<Rightarrow> file_id list \<Rightarrow> file_id list" where
  "push_root_files db wanted r files =
     push_unseen (rt_scripts (db_root db r) @
       concat (map (package_files db) (filter wanted (rt_packages (db_root db r))))) files"

text \<open>The packages the workspace depends on come from the semantic queries: a parameter here.\<close>

definition all_used_files :: "(package_id \<Rightarrow> bool) \<Rightarrow> oak_db \<Rightarrow> file_id list" where
  "all_used_files dependencies db = fold (\<lambda>root files. case root of
     LiveWorkspace r \<Rightarrow> push_root_files db (\<lambda>_. True) r files
   | LiveLibrary r \<Rightarrow> push_root_files db dependencies r files
   | LiveOrphan \<Rightarrow> push_unseen (db_orphan_files db) files) (live_roots db) []"

definition all_known_files :: "oak_db \<Rightarrow> file_id list" where
  "all_known_files db = fold (\<lambda>root files. case root of
     LiveWorkspace r \<Rightarrow> push_root_files db (\<lambda>_. True) r files
   | LiveLibrary r \<Rightarrow> push_root_files db (\<lambda>_. True) r files
   | LiveOrphan \<Rightarrow> push_unseen (db_orphan_files db) files) (live_roots db) []"

definition collect_root_files :: "oak_db \<Rightarrow> root_id \<Rightarrow> file_id list" where
  "collect_root_files db r = filter (\<lambda>f. root_by_file db f = Some r) (root_files db r)"

definition workspace_files :: "oak_db \<Rightarrow> file_id list" where
  "workspace_files db = concat (map (\<lambda>root. case root of
     LiveWorkspace r \<Rightarrow> collect_root_files db r
   | LiveLibrary r \<Rightarrow> []
   | LiveOrphan \<Rightarrow> db_orphan_files db) (live_roots db))"

definition workspace_scripts :: "oak_db \<Rightarrow> file_id list" where
  "workspace_scripts db = concat (map (\<lambda>r. rt_scripts (db_root db r)) (db_workspace_roots db))"

definition workspace_root_files :: "oak_db \<Rightarrow> file_id list" where
  "workspace_root_files db = concat (map (collect_root_files db) (db_workspace_roots db))"

section \<open>Notebooks\<close>

definition notebook_by_cell :: "oak_db \<Rightarrow> file_id \<Rightarrow> notebook_id option" where
  "notebook_by_cell db f = map_option snd (index_by fst
     (concat (map (\<lambda>n. map (\<lambda>c. (c, n)) (nb_cells (db_notebook db n))) (db_open_notebooks db))) f)"

definition earlier_notebook_cells :: "oak_db \<Rightarrow> file_id \<Rightarrow> file_id list" where
  "earlier_notebook_cells db f = (case notebook_by_cell db f of
     None \<Rightarrow> []
   | Some n \<Rightarrow> (let cells = nb_cells (db_notebook db n) in
       if f \<in> set cells then takeWhile (\<lambda>c. c \<noteq> f) cells else []))"

section \<open>Laws of the lookups\<close>

lemma first_some_Some: "first_some f xs = Some y \<Longrightarrow> \<exists>x\<in>set xs. f x = Some y"
  by (induction xs) (auto split: option.splits)

lemma first_some_None: "first_some f xs = None \<longleftrightarrow> (\<forall>x\<in>set xs. f x = None)"
  by (induction xs) (auto split: option.splits)

lemma index_by_Some: "index_by key xs k = Some x \<Longrightarrow> x \<in> set xs \<and> key x = k"
  by (auto simp: index_by_def dest!: map_of_SomeD)

lemma index_by_None: "index_by key xs k = None \<longleftrightarrow> (\<forall>x\<in>set xs. key x \<noteq> k)"
  by (auto simp: index_by_def map_of_eq_None_iff image_image)

text \<open>The files analysis can see.\<close>

definition live_files :: "oak_db \<Rightarrow> file_id set" where
  "live_files db = (\<Union>r\<in>set (db_workspace_roots db) \<union> set (db_library_roots db). set (root_files db r)) \<union>
     set (db_orphan_files db)"

lemma file_by_path_Some: "file_by_path db p = Some f \<Longrightarrow> f \<in> live_files db \<and> path_of db f = p"
  by (auto simp: file_by_path_def live_roots_def live_files_def root_path_index_def orphan_path_index_def
      dest!: first_some_Some index_by_Some split: live_root.splits)

lemma file_by_path_None: "file_by_path db p = None \<longleftrightarrow> (\<forall>f\<in>live_files db. path_of db f \<noteq> p)"
  unfolding file_by_path_def live_roots_def live_files_def root_path_index_def orphan_path_index_def
  by (simp add: first_some_None index_by_None ball_Un conj_ac)

end
