(* ===== verification/Workspace_Inputs.thy ===== *)
theory Workspace_Inputs
  imports Workspace_Db
begin

text \<open>
  The operations that place files and packages in the workspace database (\<^verbatim>\<open>oak_scan\<close>):
  upserts by path, editor buffers and notebooks (\<^verbatim>\<open>inputs.rs\<close>), lookup by DESCRIPTION path
  (\<^verbatim>\<open>lookup.rs\<close>), eviction of a root (\<^verbatim>\<open>stale.rs\<close>), single-file updates from the file
  watcher (\<^verbatim>\<open>watch.rs\<close>) and the library scanner (\<^verbatim>\<open>library.rs\<close>). The disk is a parameter of
  each operation that reads it: what the file system calls return at that moment.
\<close>

section \<open>The disk\<close>

datatype io_error_kind = NotFound | NotADirectory | OtherIoError

text \<open>
  \<open>dk_metadata\<close>: is the path a regular file, or the error; \<open>dk_read_dir\<close>: the names in a directory;
  \<open>dk_mtime\<close>: the modification time of a path with readable metadata; \<open>dk_read\<close>: the text of a
  readable file; \<open>dk_subdirs\<close>: the directories directly below a library, links followed;
  \<open>dk_walk\<close>: what the ignore-aware walk below a directory yields, less the entries it reports as
  errors and the paths that are not UTF-8, which every scan skips.
\<close>

datatype entry_kind = FileEntry | DirEntry | OtherEntry

record disk =
  dk_metadata :: "fs_path \<Rightarrow> io_error_kind + bool"
  dk_read_dir :: "fs_path \<Rightarrow> io_error_kind + (io_error_kind + str) list"
  dk_mtime :: "fs_path \<Rightarrow> (64 word \<times> 32 word) option"
  dk_read :: "fs_path \<Rightarrow> str option"
  dk_subdirs :: "fs_path \<Rightarrow> path_buf list"
  dk_walk :: "fs_path \<Rightarrow> (fs_path \<times> entry_kind option) list"

definition is_file :: "disk \<Rightarrow> fs_path \<Rightarrow> bool" where
  "is_file dk p = (case dk_metadata dk p of Inr b \<Rightarrow> b | Inl _ \<Rightarrow> False)"

definition disk_revision :: "disk \<Rightarrow> fs_path \<Rightarrow> file_revision" where
  "disk_revision dk p = (case dk_mtime dk p of
     Some (seconds, nanoseconds) \<Rightarrow> revision_of_time seconds nanoseconds
   | None \<Rightarrow> zero_revision)"

definition is_r_file :: "disk \<Rightarrow> fs_path \<Rightarrow> bool" where
  "is_r_file dk p \<longleftrightarrow> is_file dk p \<and> has_r_extension p"

definition read_description_name :: "disk \<Rightarrow> fs_path \<Rightarrow> str option" where
  "read_description_name dk dir = (case dk_read dk (dir @ [lit ''DESCRIPTION'']) of
     None \<Rightarrow> None
   | Some contents \<Rightarrow> (case description_parse contents of Inl _ \<Rightarrow> None | Inr d \<Rightarrow> Some (de_name d)))"

section \<open>Container updates\<close>

record file_entry =
  fe_path :: file_path
  fe_revision :: file_revision

text \<open>
  The copy-on-write helpers return \<open>None\<close> when the container would not change, so the caller skips
  the write; their effect is the container itself.
\<close>

definition with_cow_push :: "'a list \<Rightarrow> 'a \<Rightarrow> 'a list option" where
  "with_cow_push xs x = (if x \<in> set xs then None else Some (xs @ [x]))"

definition with_cow_filter :: "'a list \<Rightarrow> 'a \<Rightarrow> 'a list option" where
  "with_cow_filter xs x = (if x \<notin> set xs then None else Some (filter (\<lambda>y. y \<noteq> x) xs))"

definition with_cow_insert :: "'a list \<Rightarrow> 'a \<Rightarrow> 'a list option" where
  "with_cow_insert xs x = (if x \<in> set xs then None else Some (xs @ [x]))"

definition with_cow_remove :: "'a list \<Rightarrow> 'a \<Rightarrow> 'a list option" where
  "with_cow_remove xs x = (if x \<notin> set xs then None else Some (filter (\<lambda>y. y \<noteq> x) xs))"

definition set_package_back :: "file_id \<Rightarrow> package_id option \<Rightarrow> oak_db \<Rightarrow> oak_db" where
  "set_package_back f p = upd_file f (\<lambda>d. d\<lparr> fl_package := p \<rparr>)"

definition set_revision :: "file_id \<Rightarrow> file_revision \<Rightarrow> oak_db \<Rightarrow> oak_db" where
  "set_revision f v = upd_file f (\<lambda>d. d\<lparr> fl_revision := v \<rparr>)"

definition set_override :: "file_id \<Rightarrow> str option \<Rightarrow> oak_db \<Rightarrow> oak_db" where
  "set_override f v = upd_file f (\<lambda>d. d\<lparr> fl_source_text_override := v \<rparr>)"

definition remove_from_pkg_files :: "package_id \<Rightarrow> file_id \<Rightarrow> oak_db \<Rightarrow> oak_db" where
  "remove_from_pkg_files p f db =
     (case with_cow_filter (pk_files (db_package db p)) f of
        Some files \<Rightarrow> upd_package p (\<lambda>d. d\<lparr> pk_files := files \<rparr>) db
      | None \<Rightarrow>
          (case with_cow_filter (pk_scripts (db_package db p)) f of
             Some scripts \<Rightarrow> upd_package p (\<lambda>d. d\<lparr> pk_scripts := scripts \<rparr>) db
           | None \<Rightarrow> db))"

definition remove_from_orphan :: "file_id \<Rightarrow> oak_db \<Rightarrow> oak_db" where
  "remove_from_orphan f db = (case with_cow_remove (db_orphan_files db) f of
     Some files \<Rightarrow> db\<lparr> db_orphan_files := files \<rparr>
   | None \<Rightarrow> db)"

definition add_to_orphan_files :: "file_id \<Rightarrow> oak_db \<Rightarrow> oak_db" where
  "add_to_orphan_files f db = (case with_cow_insert (db_orphan_files db) f of
     Some files \<Rightarrow> db\<lparr> db_orphan_files := files \<rparr>
   | None \<Rightarrow> db)"

definition remove_from_stale_files :: "file_id \<Rightarrow> oak_db \<Rightarrow> oak_db" where
  "remove_from_stale_files f db = (case with_cow_remove (db_stale_files db) f of
     Some files \<Rightarrow> db\<lparr> db_stale_files := files \<rparr>
   | None \<Rightarrow> db)"

definition remove_from_stale_packages :: "package_id \<Rightarrow> oak_db \<Rightarrow> oak_db" where
  "remove_from_stale_packages p db = (case with_cow_filter (db_stale_packages db) p of
     Some ps \<Rightarrow> db\<lparr> db_stale_packages := ps \<rparr>
   | None \<Rightarrow> db)"

section \<open>Lookups of the scanner\<close>

definition stale_file_by_path :: "oak_db \<Rightarrow> file_path \<Rightarrow> file_id option" where
  "stale_file_by_path db = index_by (path_of db) (db_stale_files db)"

definition root_package_path_index :: "oak_db \<Rightarrow> root_id \<Rightarrow> file_path \<Rightarrow> package_id option" where
  "root_package_path_index db r =
     index_by (\<lambda>p. pk_description_path (db_package db p)) (rt_packages (db_root db r))"

definition stale_package_path_index :: "oak_db \<Rightarrow> file_path \<Rightarrow> package_id option" where
  "stale_package_path_index db =
     index_by (\<lambda>p. pk_description_path (db_package db p)) (db_stale_packages db)"

definition package_by_path :: "oak_db \<Rightarrow> file_path \<Rightarrow> package_id option" where
  "package_by_path db path =
     (case first_some (\<lambda>root. case live_root_id root of
         Some r \<Rightarrow> root_package_path_index db r path
       | None \<Rightarrow> None) (live_roots db) of
        Some p \<Rightarrow> Some p
      | None \<Rightarrow> stale_package_path_index db path)"

section \<open>Upserting a file of a root\<close>

definition upsert_root_file :: "package_id option \<Rightarrow> file_entry \<Rightarrow> oak_db \<Rightarrow> file_id \<times> oak_db" where
  "upsert_root_file package entry db =
     (case file_by_path db (fe_path entry) of
        Some existing \<Rightarrow>
          (let db = set_revision existing (fe_revision entry) db;
               old_package = package_of db existing;
               db = (if old_package \<noteq> package then
                       (let db = set_package_back existing package db in
                        case old_package of
                          Some old_pkg \<Rightarrow> remove_from_pkg_files old_pkg existing db
                        | None \<Rightarrow> db)
                     else db)
           in (existing, remove_from_orphan existing db))
      | None \<Rightarrow>
          (case stale_file_by_path db (fe_path entry) of
             Some stale \<Rightarrow>
               (stale, remove_from_stale_files stale
                  (set_package_back stale package
                    (set_override stale None (set_revision stale (fe_revision entry) db))))
           | None \<Rightarrow>
               new_file \<lparr> fl_path = fe_path entry, fl_revision = fe_revision entry,
                          fl_source_text_override = None, fl_package = package \<rparr> db))"

text \<open>The loops that upsert a list of entries and collect the files.\<close>

fun upsert_root_files :: "package_id option \<Rightarrow> file_entry list \<Rightarrow> oak_db \<Rightarrow> file_id list \<times> oak_db" where
  "upsert_root_files package [] db = ([], db)"
| "upsert_root_files package (entry # entries) db =
     (let (f, db) = upsert_root_file package entry db;
          (fs, db) = upsert_root_files package entries db
      in (f # fs, db))"

definition set_package_contents :: "package_id \<Rightarrow> file_entry list \<Rightarrow> file_entry list \<Rightarrow> oak_db \<Rightarrow> oak_db" where
  "set_package_contents pkg files scripts db =
     (let (file_entities, db) = upsert_root_files (Some pkg) files db;
          (script_entities, db) = upsert_root_files (Some pkg) scripts db
      in upd_package pkg (\<lambda>d. d\<lparr> pk_files := file_entities, pk_scripts := script_entities \<rparr>) db)"

section \<open>Packages and scripts of a root\<close>

record package_entry =
  pe_description_path :: file_path
  pe_name :: str
  pe_description_revision :: file_revision
  pe_namespace_revision :: file_revision
  pe_files :: "file_entry list"
  pe_scripts :: "file_entry list"

definition find_or_new_package :: "file_revision option \<Rightarrow> package_entry \<Rightarrow> oak_db \<Rightarrow> package_id \<times> oak_db" where
  "find_or_new_package index_revision e db =
     (case package_by_path db (pe_description_path e) of
        Some p \<Rightarrow>
          (p, remove_from_stale_packages p
             (upd_package p (\<lambda>d. d\<lparr> pk_name := pe_name e,
                pk_description_revision := pe_description_revision e,
                pk_namespace_revision := pe_namespace_revision e \<rparr>) db))
      | None \<Rightarrow>
          new_package \<lparr> pk_description_path = pe_description_path e, pk_name = pe_name e,
            pk_description_revision = pe_description_revision e,
            pk_namespace_revision = pe_namespace_revision e,
            pk_index_revision = index_revision, pk_namespace_override = None, pk_files = [], pk_scripts = [] \<rparr> db)"

definition set_package :: "file_revision option \<Rightarrow> package_entry \<Rightarrow> oak_db \<Rightarrow> package_id \<times> oak_db" where
  "set_package index_revision e db =
     (let (pkg, db) = find_or_new_package index_revision e db
      in (pkg, set_package_contents pkg (pe_files e) (pe_scripts e) db))"

definition set_workspace_scripts :: "root_id \<Rightarrow> file_entry list \<Rightarrow> oak_db \<Rightarrow> oak_db" where
  "set_workspace_scripts r entries db =
     (let (scripts, db) = upsert_root_files None entries db
      in upd_root r (\<lambda>d. d\<lparr> rt_scripts := scripts \<rparr>) db)"

section \<open>Eviction\<close>

definition extend_set :: "'a list \<Rightarrow> 'a list \<Rightarrow> 'a list" where
  "extend_set xs ys = fold (\<lambda>y xs. if y \<in> set xs then xs else xs @ [y]) ys xs"

definition clear_packages :: "package_id list \<Rightarrow> oak_db \<Rightarrow> oak_db" where
  "clear_packages ps db =
     fold (\<lambda>p. upd_package p (\<lambda>d. d\<lparr> pk_files := [], pk_scripts := [] \<rparr>)) ps db"

definition set_root_stale :: "root_id \<Rightarrow> file_path set option \<Rightarrow> oak_db \<Rightarrow> oak_db" where
  "set_root_stale r editor_owned db =
     (let packages = rt_packages (db_root db r);
          all_files = root_files db r;
          db = fold (\<lambda>f. set_package_back f None) all_files db;
          owned = (\<lambda>f. case editor_owned of None \<Rightarrow> False | Some ps \<Rightarrow> path_of db f \<in> ps);
          db = db\<lparr> db_orphan_files := extend_set (db_orphan_files db) (filter owned all_files),
                   db_stale_files := extend_set (db_stale_files db) (filter (\<lambda>f. \<not> owned f) all_files),
                   db_stale_packages := extend_set (db_stale_packages db) packages \<rparr>;
          db = clear_packages packages db
      in upd_root r (\<lambda>d. d\<lparr> rt_scripts := [], rt_packages := [], rt_environment_dirs := [] \<rparr>) db)"

section \<open>Editor buffers and notebooks\<close>

definition upsert_editor :: "file_path \<Rightarrow> str \<Rightarrow> oak_db \<Rightarrow> file_id \<times> oak_db" where
  "upsert_editor path contents db =
     (case file_by_path db path of
        Some existing \<Rightarrow> (existing, set_override existing (Some contents) db)
      | None \<Rightarrow>
          (case stale_file_by_path db path of
             Some stale \<Rightarrow>
               (stale, add_to_orphan_files stale (remove_from_stale_files stale
                  (set_package_back stale None (set_override stale (Some contents) db))))
           | None \<Rightarrow>
               (let (f, db) = new_file \<lparr> fl_path = path, fl_revision = zero_revision,
                      fl_source_text_override = Some contents, fl_package = None \<rparr> db
                in (f, add_to_orphan_files f db))))"

definition close_editor :: "file_path \<Rightarrow> oak_db \<Rightarrow> oak_db" where
  "close_editor path db =
     (case file_by_path db path of
        None \<Rightarrow> db
      | Some f \<Rightarrow>
          (let db = set_override f None db in
           case with_cow_remove (db_orphan_files db) f of
             None \<Rightarrow> db
           | Some orphan_files \<Rightarrow>
               (let db = db\<lparr> db_orphan_files := orphan_files \<rparr> in
                case with_cow_insert (db_stale_files db) f of
                  None \<Rightarrow> db
                | Some stale_files \<Rightarrow> db\<lparr> db_stale_files := stale_files \<rparr>)))"

definition set_notebook_cells :: "file_path \<Rightarrow> file_id list \<Rightarrow> oak_db \<Rightarrow> notebook_id \<times> oak_db" where
  "set_notebook_cells path cells db =
     (case find (\<lambda>n. nb_path (db_notebook db n) = path) (db_open_notebooks db) of
        Some n \<Rightarrow> (n, db\<lparr> db_notebook := (db_notebook db)(n := (db_notebook db n)\<lparr> nb_cells := cells \<rparr>) \<rparr>)
      | None \<Rightarrow>
          (db_next_notebook db,
           db\<lparr> db_notebook := (db_notebook db)(db_next_notebook db := \<lparr> nb_path = path, nb_cells = cells \<rparr>),
               db_next_notebook := Suc (db_next_notebook db),
               db_open_notebooks := db_open_notebooks db @ [db_next_notebook db] \<rparr>))"

definition close_notebook :: "file_path \<Rightarrow> oak_db \<Rightarrow> oak_db" where
  "close_notebook path db =
     db\<lparr> db_open_notebooks := filter (\<lambda>n. nb_path (db_notebook db n) \<noteq> path) (db_open_notebooks db) \<rparr>"

section \<open>The file watcher\<close>

datatype package_placement = PlaceFile | PlaceScript | PlaceSkip

definition classify_in_package :: "fs_path \<Rightarrow> fs_path \<Rightarrow> package_placement" where
  "classify_in_package package_dir path =
     (let r_dir = package_dir @ [lit ''R''] in
      if path \<noteq> [] \<and> butlast path = r_dir then PlaceFile
      else if path_starts_with path r_dir then PlaceSkip
      else PlaceScript)"

datatype placement = Script root_id | PackageFile package_id | PackageScript package_id

fun package_backpointer :: "placement \<Rightarrow> package_id option" where
  "package_backpointer (Script _) = None"
| "package_backpointer (PackageFile p) = Some p"
| "package_backpointer (PackageScript p) = Some p"

definition workspace_root_containing :: "oak_db \<Rightarrow> fs_path \<Rightarrow> root_id option" where
  "workspace_root_containing db path =
     find (\<lambda>r. case as_path (root_path db r) of Some rp \<Rightarrow> path_starts_with path rp | None \<Rightarrow> False)
       (db_workspace_roots db)"

text \<open>\<open>Path::ancestors\<close>: the path, its parent, and so on up to the root of the file system.\<close>

definition ancestors :: "fs_path \<Rightarrow> fs_path list" where
  "ancestors p = rev (prefixes p)"

definition classify :: "disk \<Rightarrow> oak_db \<Rightarrow> fs_path \<Rightarrow> placement option" where
  "classify dk db path =
     (if \<not> is_r_file dk path then None
      else (case workspace_root_containing db path of
          None \<Rightarrow> None
        | Some r \<Rightarrow>
            (case as_path (root_path db r) of
               None \<Rightarrow> None
             | Some rp \<Rightarrow>
                 (case find (\<lambda>dir. is_file dk (dir @ [lit ''DESCRIPTION'']))
                     (takeWhile (\<lambda>dir. path_starts_with dir rp) (drop 1 (ancestors path))) of
                    None \<Rightarrow> Some (Script r)
                  | Some pkg_dir \<Rightarrow>
                      (case read_description_name dk pkg_dir of
                         None \<Rightarrow> None
                       | Some pkg_name \<Rightarrow>
                           (case find (\<lambda>p. pk_name (db_package db p) = pkg_name) (rt_packages (db_root db r)) of
                              None \<Rightarrow> None
                            | Some pkg \<Rightarrow>
                                (case classify_in_package pkg_dir path of
                                   PlaceFile \<Rightarrow> Some (PackageFile pkg)
                                 | PlaceScript \<Rightarrow> Some (PackageScript pkg)
                                 | PlaceSkip \<Rightarrow> None)))))))"

fun append_to_container :: "file_id \<Rightarrow> placement \<Rightarrow> oak_db \<Rightarrow> oak_db" where
  "append_to_container f (Script r) db = (case with_cow_push (rt_scripts (db_root db r)) f of
     Some scripts \<Rightarrow> upd_root r (\<lambda>d. d\<lparr> rt_scripts := scripts \<rparr>) db
   | None \<Rightarrow> db)"
| "append_to_container f (PackageFile p) db = (case with_cow_push (pk_files (db_package db p)) f of
     Some files \<Rightarrow> upd_package p (\<lambda>d. d\<lparr> pk_files := files \<rparr>) db
   | None \<Rightarrow> db)"
| "append_to_container f (PackageScript p) db = (case with_cow_push (pk_scripts (db_package db p)) f of
     Some scripts \<Rightarrow> upd_package p (\<lambda>d. d\<lparr> pk_scripts := scripts \<rparr>) db
   | None \<Rightarrow> db)"

definition add_watched_file :: "disk \<Rightarrow> file_path \<Rightarrow> oak_db \<Rightarrow> oak_db" where
  "add_watched_file dk path db =
     (case as_path path of
        None \<Rightarrow> db
      | Some fs_path \<Rightarrow>
          (let revision = disk_revision dk fs_path in
           case file_by_path db path of
             Some existing \<Rightarrow> set_revision existing revision db
           | None \<Rightarrow>
               (case classify dk db fs_path of
                  None \<Rightarrow> db
                | Some placement \<Rightarrow>
                    (let (f, db) = upsert_root_file (package_backpointer placement)
                                     \<lparr> fe_path = path, fe_revision = revision \<rparr> db
                     in append_to_container f placement db))))"

text \<open>The loop over the workspace roots stops at the first whose scripts hold the file.\<close>

fun remove_from_first_root :: "root_id list \<Rightarrow> file_id \<Rightarrow> oak_db \<Rightarrow> oak_db" where
  "remove_from_first_root [] f db = remove_from_orphan f db"
| "remove_from_first_root (r # rs) f db =
     (case with_cow_filter (rt_scripts (db_root db r)) f of
        Some scripts \<Rightarrow> upd_root r (\<lambda>d. d\<lparr> rt_scripts := scripts \<rparr>) db
      | None \<Rightarrow> remove_from_first_root rs f db)"

definition remove_watched_file :: "file_path \<Rightarrow> oak_db \<Rightarrow> oak_db" where
  "remove_watched_file path db =
     (case file_by_path db path of
        None \<Rightarrow> db
      | Some f \<Rightarrow>
          (case package_of db f of
             Some p \<Rightarrow> remove_from_pkg_files p f db
           | None \<Rightarrow> remove_from_first_root (db_workspace_roots db) f db))"

section \<open>The library scanner\<close>

definition register_installed_package :: "disk \<Rightarrow> path_buf \<Rightarrow> oak_db \<Rightarrow> (package_id \<times> oak_db) option" where
  "register_installed_package dk dir db =
     (case from_path_buf dir of
        Some (FilePath package_dir) \<Rightarrow>
          (let description_file = package_dir @ [lit ''DESCRIPTION''] in
           if \<not> is_file dk description_file then None
           else (case file_name package_dir of
               None \<Rightarrow> None
             | Some name \<Rightarrow>
                 Some (set_package (Some (disk_revision dk (package_dir @ [lit ''INDEX''])))
                   \<lparr> pe_description_path = FilePath description_file, pe_name = name,
                     pe_description_revision = disk_revision dk description_file,
                     pe_namespace_revision = disk_revision dk (package_dir @ [lit ''NAMESPACE'']),
                     pe_files = [], pe_scripts = [] \<rparr> db)))
      | _ \<Rightarrow> None)"

definition scan_new_library_path :: "disk \<Rightarrow> fs_path \<Rightarrow> file_path \<Rightarrow> oak_db \<Rightarrow> root_id \<times> oak_db" where
  "scan_new_library_path dk scan_path path db =
     (let (r, db) = new_root \<lparr> rt_path = path, rt_kind = LibraryKind, rt_scripts = [],
                               rt_packages = [], rt_environment_dirs = [] \<rparr> db;
          (packages, db) = fold (\<lambda>dir (ps, db). case register_installed_package dk dir db of
              None \<Rightarrow> (ps, db)
            | Some (p, db) \<Rightarrow> (ps @ [p], db)) (dk_subdirs dk scan_path) ([], db)
      in (r, upd_root r (\<lambda>d. d\<lparr> rt_packages := packages \<rparr>) db))"

text \<open>
  The old roots by path (the last of several with one path), in an arbitrary order of the paths.
\<close>

definition roots_by_path :: "oak_db \<Rightarrow> root_id list \<Rightarrow> (file_path \<times> root_id) list" where
  "roots_by_path db roots = fold (\<lambda>r m. AList.update (root_path db r) r m) roots []"

definition new_paths :: "path_buf list \<Rightarrow> (fs_path \<times> file_path) list" where
  "new_paths paths = List.map_filter (\<lambda>p. case from_path_buf p of
     None \<Rightarrow> None
   | Some path \<Rightarrow> map_option (\<lambda>fs. (fs, path)) (as_path path)) paths"

definition set_library_paths :: "disk \<Rightarrow> path_buf list \<Rightarrow> oak_db \<Rightarrow> oak_db" where
  "set_library_paths dk paths db =
     (let new = new_paths paths;
          old = roots_by_path db (db_library_roots db);
          db = fold (\<lambda>(old_path, old_root) db.
              if old_path \<in> snd ` set new then db else set_root_stale old_root None db) old db;
          (new_roots, db) = fold (\<lambda>(scan_path, path) (rs, db). case map_of old path of
              Some r \<Rightarrow> (rs @ [r], db)
            | None \<Rightarrow> (let (r, db) = scan_new_library_path dk scan_path path db in (rs @ [r], db)))
            new ([], db)
      in db\<lparr> db_library_roots := new_roots \<rparr>)"

section \<open>Shapes of the helpers\<close>

lemma cow_effects [simp]:
  "(case with_cow_filter xs x of Some ys \<Rightarrow> f ys | None \<Rightarrow> d) = (if x \<in> set xs then f (filter (\<lambda>y. y \<noteq> x) xs) else d)"
  "(case with_cow_remove xs x of Some ys \<Rightarrow> f ys | None \<Rightarrow> d) = (if x \<in> set xs then f (filter (\<lambda>y. y \<noteq> x) xs) else d)"
  "(case with_cow_insert xs x of Some ys \<Rightarrow> f ys | None \<Rightarrow> d) = (if x \<in> set xs then d else f (xs @ [x]))"
  "(case with_cow_push xs x of Some ys \<Rightarrow> f ys | None \<Rightarrow> d) = (if x \<in> set xs then d else f (xs @ [x]))"
  by (simp_all add: with_cow_filter_def with_cow_remove_def with_cow_insert_def with_cow_push_def)

lemma filter_not_mem [simp]: "x \<notin> set xs \<Longrightarrow> filter (\<lambda>y. y \<noteq> x) xs = xs"
  by (induction xs) auto

lemma remove_from_orphan_eq:
  "remove_from_orphan f db = db\<lparr> db_orphan_files := filter (\<lambda>y. y \<noteq> f) (db_orphan_files db) \<rparr>"
  by (cases "f \<in> set (db_orphan_files db)") (simp_all add: remove_from_orphan_def)

lemma remove_from_stale_files_eq:
  "remove_from_stale_files f db = db\<lparr> db_stale_files := filter (\<lambda>y. y \<noteq> f) (db_stale_files db) \<rparr>"
  by (cases "f \<in> set (db_stale_files db)") (simp_all add: remove_from_stale_files_def)

lemma remove_from_stale_packages_eq:
  "remove_from_stale_packages p db = db\<lparr> db_stale_packages := filter (\<lambda>y. y \<noteq> p) (db_stale_packages db) \<rparr>"
  by (cases "p \<in> set (db_stale_packages db)") (simp_all add: remove_from_stale_packages_def)

lemma upd_sel [simp]:
  "db_file (upd_file f u db) = (db_file db)(f := u (db_file db f))"
  "db_package (upd_package p v db) = (db_package db)(p := v (db_package db p))"
  "db_root (upd_root r w db) = (db_root db)(r := w (db_root db r))"
  by (simp_all add: upd_file_def upd_package_def upd_root_def)

lemma upd_file_frame [simp]:
  "db_package (upd_file f u db) = db_package db" "db_root (upd_file f u db) = db_root db"
  "db_next_file (upd_file f u db) = db_next_file db" "db_next_package (upd_file f u db) = db_next_package db"
  "db_next_root (upd_file f u db) = db_next_root db"
  "db_workspace_roots (upd_file f u db) = db_workspace_roots db" "db_library_roots (upd_file f u db) = db_library_roots db"
  "db_orphan_files (upd_file f u db) = db_orphan_files db" "db_stale_files (upd_file f u db) = db_stale_files db"
  "db_stale_packages (upd_file f u db) = db_stale_packages db"
  by (simp_all add: upd_file_def)

lemma upd_package_frame [simp]:
  "db_file (upd_package p u db) = db_file db" "db_root (upd_package p u db) = db_root db"
  "db_next_file (upd_package p u db) = db_next_file db" "db_next_package (upd_package p u db) = db_next_package db"
  "db_next_root (upd_package p u db) = db_next_root db"
  "db_workspace_roots (upd_package p u db) = db_workspace_roots db" "db_library_roots (upd_package p u db) = db_library_roots db"
  "db_orphan_files (upd_package p u db) = db_orphan_files db" "db_stale_files (upd_package p u db) = db_stale_files db"
  "db_stale_packages (upd_package p u db) = db_stale_packages db"
  by (simp_all add: upd_package_def)

lemma upd_root_frame [simp]:
  "db_file (upd_root r u db) = db_file db" "db_package (upd_root r u db) = db_package db"
  "db_next_file (upd_root r u db) = db_next_file db" "db_next_package (upd_root r u db) = db_next_package db"
  "db_next_root (upd_root r u db) = db_next_root db"
  "db_workspace_roots (upd_root r u db) = db_workspace_roots db" "db_library_roots (upd_root r u db) = db_library_roots db"
  "db_orphan_files (upd_root r u db) = db_orphan_files db" "db_stale_files (upd_root r u db) = db_stale_files db"
  "db_stale_packages (upd_root r u db) = db_stale_packages db"
  by (simp_all add: upd_root_def)

text \<open>Removing a file from a package whose two lists are disjoint removes it from both.\<close>

lemma remove_from_pkg_files_sel [simp]:
  "db_file (remove_from_pkg_files p f db) = db_file db" "db_root (remove_from_pkg_files p f db) = db_root db"
  "db_next_file (remove_from_pkg_files p f db) = db_next_file db"
  "db_next_package (remove_from_pkg_files p f db) = db_next_package db"
  "db_next_root (remove_from_pkg_files p f db) = db_next_root db"
  "db_workspace_roots (remove_from_pkg_files p f db) = db_workspace_roots db"
  "db_library_roots (remove_from_pkg_files p f db) = db_library_roots db"
  "db_orphan_files (remove_from_pkg_files p f db) = db_orphan_files db"
  "db_stale_files (remove_from_pkg_files p f db) = db_stale_files db"
  "db_stale_packages (remove_from_pkg_files p f db) = db_stale_packages db"
  "pk_description_path (db_package (remove_from_pkg_files p f db) q) = pk_description_path (db_package db q)"
  by (simp_all add: remove_from_pkg_files_def)

lemma remove_from_pkg_files_other [simp]:
  "q \<noteq> p \<Longrightarrow> db_package (remove_from_pkg_files p f db) q = db_package db q"
  by (simp add: remove_from_pkg_files_def)

lemma package_files_remove:
  "distinct (package_files db p) \<Longrightarrow>
   package_files (remove_from_pkg_files p f db) p = filter (\<lambda>y. y \<noteq> f) (package_files db p)"
  by (auto simp: package_files_def remove_from_pkg_files_def)

lemma package_files_remove_other [simp]:
  "q \<noteq> p \<Longrightarrow> package_files (remove_from_pkg_files p f db) q = package_files db q"
  by (simp add: package_files_def)

lemma package_files_cong: "db_package db = db_package db' \<Longrightarrow> package_files db = package_files db'"
  by (simp add: package_files_def fun_eq_iff)

lemma remove_from_pkg_files_cong:
  "db_package db = db_package db' \<Longrightarrow>
   db_package (remove_from_pkg_files p f db) = db_package (remove_from_pkg_files p f db')"
  by (simp add: remove_from_pkg_files_def)

lemma package_files_remove_subset:
  "set (package_files (remove_from_pkg_files p f db) q) \<subseteq> set (package_files db q)"
  by (auto simp: package_files_def remove_from_pkg_files_def split: if_splits)

section \<open>The layout of the roots\<close>

text \<open>
  An operation keeps the layout when the workspace folders stay the same and no root that exists
  changes its path.
\<close>

definition keeps_layout :: "oak_db \<Rightarrow> oak_db \<Rightarrow> bool" where
  "keeps_layout db db' \<longleftrightarrow> db_workspace_roots db' = db_workspace_roots db \<and>
     db_next_root db \<le> db_next_root db' \<and> (\<forall>r<db_next_root db. root_path db' r = root_path db r)"

lemma keeps_layout_refl [simp]: "keeps_layout db db"
  by (simp add: keeps_layout_def)

lemma keeps_layout_trans: "keeps_layout db db' \<Longrightarrow> keeps_layout db' db'' \<Longrightarrow> keeps_layout db db''"
  by (simp add: keeps_layout_def)

lemma keeps_layoutI:
  "db_workspace_roots db' = db_workspace_roots db \<Longrightarrow> db_next_root db' = db_next_root db \<Longrightarrow>
   db_root db' = db_root db \<Longrightarrow> keeps_layout db db'"
  by (simp add: keeps_layout_def)

lemma keeps_layout_fold:
  assumes "\<And>x db. keeps_layout db (f x db)"
  shows "keeps_layout db (fold f xs db)"
  by (induction xs arbitrary: db) (auto intro: keeps_layout_trans assms)

lemma keeps_layout_upd_root [simp]:
  "(\<And>d. rt_path (u d) = rt_path d) \<Longrightarrow> keeps_layout db (upd_root r u db)"
  by (simp add: keeps_layout_def)

lemma keeps_layout_upd [simp]: "keeps_layout db (upd_package p v db)" "keeps_layout db (upd_file f w db)"
  by (simp_all add: keeps_layoutI)

lemma keeps_layout_upsert: "keeps_layout db (snd (upsert_root_file po e db))"
  by (auto simp: upsert_root_file_def Let_def remove_from_orphan_eq remove_from_stale_files_eq new_file_def
      set_revision_def set_package_back_def set_override_def intro!: keeps_layoutI split: option.splits)

lemma keeps_layout_upserts: "keeps_layout db (snd (upsert_root_files po es db))"
proof (induction es arbitrary: db)
  case (Cons e es)
  show ?case
    using keeps_layout_trans [OF keeps_layout_upsert [of db po e] Cons.IH [of "snd (upsert_root_file po e db)"]]
    by (simp add: case_prod_beta Let_def)
qed simp

lemma keeps_layout_set_package_contents: "keeps_layout db (set_package_contents p fs ss db)"
  using keeps_layout_upserts [of db "Some p" fs]
    keeps_layout_upserts [of "snd (upsert_root_files (Some p) fs db)" "Some p" ss]
  by (auto simp: set_package_contents_def case_prod_beta Let_def
      intro: keeps_layout_trans keeps_layout_upd)

lemma keeps_layout_set_package: "keeps_layout db (snd (set_package ix e db))"
proof -
  have "keeps_layout db (snd (find_or_new_package ix e db))"
    by (auto simp: find_or_new_package_def remove_from_stale_packages_eq new_package_def
        intro!: keeps_layoutI split: option.splits)
  then show ?thesis
    using keeps_layout_set_package_contents by (auto simp: set_package_def case_prod_beta intro: keeps_layout_trans)
qed

lemma keeps_layout_set_workspace_scripts: "keeps_layout db (set_workspace_scripts r es db)"
  unfolding set_workspace_scripts_def case_prod_beta Let_def
  by (rule keeps_layout_trans [OF keeps_layout_upserts keeps_layout_upd_root]) simp

lemma keeps_layout_add_watched: "keeps_layout db (add_watched_file dk path db)"
proof -
  have "keeps_layout db (append_to_container f pl db)" for f pl db by (cases pl) simp_all
  then have "keeps_layout db (append_to_container f pl (snd (upsert_root_file po e db)))" for f pl po e db
    by (rule keeps_layout_trans [OF keeps_layout_upsert])
  then show ?thesis
    by (auto simp: add_watched_file_def set_revision_def case_prod_beta Let_def split: option.splits)
qed

lemma keeps_layout_remove_watched: "keeps_layout db (remove_watched_file path db)"
proof -
  have "keeps_layout db (remove_from_first_root rs f db)" for rs f
    by (induction rs) (simp_all add: remove_from_orphan_eq keeps_layoutI)
  then show ?thesis
    by (auto simp: remove_watched_file_def remove_from_pkg_files_def split: option.splits)
qed

lemma keeps_layout_stale: "keeps_layout db (set_root_stale r owned db)"
proof -
  have "keeps_layout db (fold (\<lambda>f. set_package_back f None) fs db)" for fs db
    by (rule keeps_layout_fold) (simp add: set_package_back_def)
  moreover have "keeps_layout db (clear_packages ps db)" for ps db
    unfolding clear_packages_def by (rule keeps_layout_fold) simp
  moreover have "keeps_layout db (upd_root r (\<lambda>d. d\<lparr> rt_scripts := [], rt_packages := [], rt_environment_dirs := [] \<rparr>) db)" for db
    by simp
  moreover have "keeps_layout db (db\<lparr> db_orphan_files := os, db_stale_files := ss, db_stale_packages := ps \<rparr>)" for db os ss ps
    by (simp add: keeps_layoutI)
  ultimately show ?thesis unfolding set_root_stale_def Let_def by (meson keeps_layout_trans)
qed

lemma keeps_layout_editor: "keeps_layout db (snd (upsert_editor path contents db))" "keeps_layout db (close_editor path db)"
  by (auto simp: upsert_editor_def close_editor_def Let_def add_to_orphan_files_def remove_from_stale_files_eq new_file_def
      set_package_back_def set_override_def intro!: keeps_layoutI split: option.splits)

lemma keeps_layout_library_scan: "keeps_layout db (snd (scan_new_library_path dk scan_path path db))"
proof -
  obtain r db1 where new: "new_root \<lparr> rt_path = path, rt_kind = LibraryKind, rt_scripts = [],
      rt_packages = [], rt_environment_dirs = [] \<rparr> db = (r, db1)" by (metis surj_pair)
  then have 1: "keeps_layout db db1" by (auto simp: new_root_def keeps_layout_def)
  have "keeps_layout db (snd (fold (\<lambda>dir (ps, db). case register_installed_package dk dir db of
      None \<Rightarrow> (ps, db) | Some (p, db) \<Rightarrow> (ps @ [p], db)) dirs (ps, db)))" for dirs ps db
  proof (induction dirs arbitrary: ps db)
    case (Cons dir dirs)
    have "keeps_layout db db'" if "register_installed_package dk dir db = Some (p, db')" for p db'
    proof -
      from that obtain ix e where "set_package ix e db = (p, db')"
        by (auto simp: register_installed_package_def Let_def split: option.splits file_path.splits if_splits)
      with keeps_layout_set_package [of db ix e] show ?thesis by simp
    qed
    with Cons.IH show ?case by (auto split: option.splits intro: keeps_layout_trans)
  qed simp
  from keeps_layout_trans [OF keeps_layout_trans [OF 1 this] keeps_layout_upd_root] show ?thesis
    unfolding scan_new_library_path_def new Let_def case_prod_beta snd_conv fst_conv by simp
qed

lemma keeps_layout_library: "keeps_layout db (set_library_paths dk paths db)"
proof -
  let ?new = "new_paths paths" and ?old = "roots_by_path db (db_library_roots db)"
  let ?db1 = "fold (\<lambda>(old_path, old_root) db. if old_path \<in> snd ` set ?new then db else set_root_stale old_root None db) ?old db"
  have 1: "keeps_layout db ?db1"
    by (rule keeps_layout_fold) (auto intro: keeps_layout_stale)
  have "keeps_layout db (snd (fold (\<lambda>(scan_path, path) (rs, db). case map_of ?old path of
        Some r \<Rightarrow> (rs @ [r], db)
      | None \<Rightarrow> (let (r, db) = scan_new_library_path dk scan_path path db in (rs @ [r], db))) new (rs, db)))" for new rs db
  proof (induction new arbitrary: rs db)
    case (Cons n new)
    then show ?case
      using keeps_layout_library_scan [of db dk "fst n" "snd n"]
      by (auto simp: case_prod_beta Let_def split: option.splits intro: keeps_layout_trans)
  qed simp
  from keeps_layout_trans [OF 1 this [where new = ?new and rs = "[]" and db = ?db1]] show ?thesis
    by (simp add: set_library_paths_def Let_def case_prod_beta keeps_layout_def)
qed

lemmas keeps_layout_ops = keeps_layout_set_package keeps_layout_set_workspace_scripts keeps_layout_add_watched
  keeps_layout_remove_watched keeps_layout_stale keeps_layout_editor keeps_layout_library
  keeps_layout_set_package_contents

end
