(* ===== verification/Package_Scan.thy ===== *)
theory Package_Scan
  imports Workspace_Inputs
begin

text \<open>
  Package discovery on disk (\<^verbatim>\<open>oak_scan/src/packages.rs\<close>): the packages, scripts and
  environment directories of a workspace folder, in the order the scanner reports them. Paths and
  names are compared by code points, which is the order of their UTF-8 bytes.
\<close>

section \<open>Load order\<close>

definition base_name :: "fs_path \<times> file_entry \<Rightarrow> str" where
  "base_name pf = (case file_name (fst pf) of Some n \<Rightarrow> n | None \<Rightarrow> [])"

text \<open>
  \<open>order_by_collation\<close>: the files that \<open>Collate\<close> lists, in its order, and the others by name. The
  table by name keeps the last file of a name.
\<close>

definition files_by_name :: "(fs_path \<times> file_entry) list \<Rightarrow> (str \<times> (fs_path \<times> file_entry)) list" where
  "files_by_name files = fold (\<lambda>pf m. AList.update (base_name pf) pf m) files []"

fun take_collated :: "str list \<Rightarrow> (str \<times> (fs_path \<times> file_entry)) list \<Rightarrow>
    file_entry list \<times> (str \<times> (fs_path \<times> file_entry)) list" where
  "take_collated [] m = ([], m)"
| "take_collated (name # names) m = (case map_of m name of
     Some pf \<Rightarrow> (let (fs, m) = take_collated names (AList.delete name m) in (snd pf # fs, m))
   | None \<Rightarrow> take_collated names m)"

definition order_by_collation :: "(fs_path \<times> file_entry) list \<Rightarrow> str list \<Rightarrow> file_entry list \<times> file_entry list" where
  "order_by_collation files order =
     (let (loadable, rest) = take_collated order (files_by_name files)
      in (loadable, map snd (sort_key base_name (map snd rest))))"

definition order_alphabetically :: "(fs_path \<times> file_entry) list \<Rightarrow> file_entry list \<times> file_entry list" where
  "order_alphabetically files = (map snd (sort_key base_name files), [])"

definition order_files :: "str list option \<Rightarrow> (fs_path \<times> file_entry) list \<Rightarrow> file_entry list \<times> file_entry list" where
  "order_files collation files = (case collation of
     Some order \<Rightarrow> order_by_collation files order
   | None \<Rightarrow> order_alphabetically files)"

section \<open>One package\<close>

definition file_entry_at :: "disk \<Rightarrow> fs_path \<Rightarrow> file_entry" where
  "file_entry_at dk p = \<lparr> fe_path = FilePath p, fe_revision = disk_revision dk p \<rparr>"

definition read_package_metadata :: "disk \<Rightarrow> fs_path \<Rightarrow> (package_entry \<times> str list option) option" where
  "read_package_metadata dk dir =
     (let description_file = dir @ [lit ''DESCRIPTION''] in
      case dk_read dk description_file of
        None \<Rightarrow> None
      | Some contents \<Rightarrow>
          (case description_parse contents of
             Inl _ \<Rightarrow> None
           | Inr d \<Rightarrow> Some
               (\<lparr> pe_description_path = FilePath description_file, pe_name = de_name d,
                  pe_description_revision = disk_revision dk description_file,
                  pe_namespace_revision = disk_revision dk (dir @ [lit ''NAMESPACE'']),
                  pe_files = [], pe_scripts = [] \<rparr>, collate d)))"

definition walked_r_files :: "disk \<Rightarrow> fs_path \<Rightarrow> fs_path list" where
  "walked_r_files dk dir = filter (is_r_file dk) (map fst (dk_walk dk dir))"

definition read_workspace_package :: "disk \<Rightarrow> fs_path \<Rightarrow> package_entry option" where
  "read_workspace_package dk dir = (case read_package_metadata dk dir of
     None \<Rightarrow> None
   | Some (package, collation) \<Rightarrow>
       (let found = walked_r_files dk dir;
            files = map (\<lambda>p. (p, file_entry_at dk p)) (filter (\<lambda>p. classify_in_package dir p = PlaceFile) found);
            scripts = map (file_entry_at dk) (filter (\<lambda>p. classify_in_package dir p = PlaceScript) found);
            (loadable, leftover) = order_files collation files
        in Some (package\<lparr> pe_files := loadable, pe_scripts := scripts @ leftover \<rparr>)))"

text \<open>Sources of an installed package: a flat directory; unreadable entries are skipped.\<close>

definition read_package_sources :: "disk \<Rightarrow> fs_path \<Rightarrow> str list option \<Rightarrow> file_entry list \<times> file_entry list" where
  "read_package_sources dk dir collation = (case dk_read_dir dk dir of
     Inl _ \<Rightarrow> ([], [])
   | Inr names \<Rightarrow>
       order_files collation (map (\<lambda>p. (p, file_entry_at dk p))
         (filter (is_r_file dk)
           (List.map_filter (\<lambda>n. case n of Inl _ \<Rightarrow> None | Inr name \<Rightarrow> Some (dir @ [name])) names))))"

section \<open>A workspace folder\<close>

definition collect_description_dirs :: "disk \<Rightarrow> fs_path \<Rightarrow> fs_path list" where
  "collect_description_dirs dk root =
     map (\<lambda>e. butlast (fst e))
       (filter (\<lambda>e. snd e = Some FileEntry \<and> file_name (fst e) = Some (lit ''DESCRIPTION'')) (dk_walk dk root))"

text \<open>The first package of each name.\<close>

definition dedup_packages_by_name :: "package_entry list \<Rightarrow> package_entry list" where
  "dedup_packages_by_name pkgs =
     fold (\<lambda>pkg kept. if pe_name pkg \<in> pe_name ` set kept then kept else kept @ [pkg]) pkgs []"

definition scan_workspace_packages :: "disk \<Rightarrow> fs_path \<Rightarrow> package_entry list" where
  "scan_workspace_packages dk root =
     dedup_packages_by_name
       (List.map_filter (read_workspace_package dk) (sort (collect_description_dirs dk root)))"

definition collect_scripts :: "disk \<Rightarrow> fs_path \<Rightarrow> fs_path list \<Rightarrow> file_entry list" where
  "collect_scripts dk root package_dirs =
     map (file_entry_at dk)
       (filter (\<lambda>p. \<not> (\<exists>dir\<in>set package_dirs. path_starts_with p dir)) (walked_r_files dk root))"

definition scan_workspace_scripts :: "disk \<Rightarrow> fs_path \<Rightarrow> file_entry list" where
  "scan_workspace_scripts dk root = collect_scripts dk root (collect_description_dirs dk root)"

definition is_environment_sentinel :: "str \<Rightarrow> bool" where
  "is_environment_sentinel name \<longleftrightarrow> name \<in> {lit ''.Rprofile'', lit ''.Renviron''}"

definition scan_workspace_environment_dirs :: "disk \<Rightarrow> fs_path \<Rightarrow> file_path list" where
  "scan_workspace_environment_dirs dk root =
     map FilePath (sort (filter
       (\<lambda>dir. is_file dk (dir @ [lit ''.Rprofile'']) \<or> is_file dk (dir @ [lit ''.Renviron'']))
       (map fst (filter (\<lambda>e. snd e = Some DirEntry) (dk_walk dk root)))))"

section \<open>What analysis reads of a file and a package\<close>

text \<open>
  The lazy reads of \<^verbatim>\<open>oak_db/src/file.rs\<close> and \<^verbatim>\<open>package.rs\<close>: an editor buffer or an
  override comes before the disk, and an unreadable or missing file reads as empty.
\<close>

definition source_text :: "disk \<Rightarrow> oak_db \<Rightarrow> file_id \<Rightarrow> str" where
  "source_text dk db f = (case fl_source_text_override (db_file db f) of
     Some contents \<Rightarrow> contents
   | None \<Rightarrow>
       (case path_of db f of
          VirtualPath _ _ \<Rightarrow> []
        | FilePath p \<Rightarrow> (case dk_read dk p of Some contents \<Rightarrow> contents | None \<Rightarrow> [])))"

text \<open>The directory of the DESCRIPTION: \<open>Path::parent\<close>.\<close>

definition package_dir_of :: "oak_db \<Rightarrow> package_id \<Rightarrow> fs_path option" where
  "package_dir_of db p = (case as_path (pk_description_path (db_package db p)) of
     None \<Rightarrow> None
   | Some path \<Rightarrow> if path = [] then None else Some (butlast path))"

definition package_description :: "disk \<Rightarrow> oak_db \<Rightarrow> package_id \<Rightarrow> description option" where
  "package_description dk db p = (case as_path (pk_description_path (db_package db p)) of
     None \<Rightarrow> None
   | Some path \<Rightarrow>
       (case dk_read dk path of
          None \<Rightarrow> None
        | Some contents \<Rightarrow> (case description_parse contents of Inl _ \<Rightarrow> None | Inr d \<Rightarrow> Some d)))"

definition package_version :: "disk \<Rightarrow> oak_db \<Rightarrow> package_id \<Rightarrow> str option" where
  "package_version dk db p = map_option de_version (package_description dk db p)"

definition package_built :: "disk \<Rightarrow> oak_db \<Rightarrow> package_id \<Rightarrow> str option" where
  "package_built dk db p = Option.bind (package_description dk db p) de_built"

definition package_priority :: "disk \<Rightarrow> oak_db \<Rightarrow> package_id \<Rightarrow> priority option" where
  "package_priority dk db p = Option.bind (package_description dk db p) de_priority"

definition package_depends :: "disk \<Rightarrow> oak_db \<Rightarrow> package_id \<Rightarrow> str list option" where
  "package_depends dk db p = map_option de_depends (package_description dk db p)"

definition package_collation :: "disk \<Rightarrow> oak_db \<Rightarrow> package_id \<Rightarrow> str list option" where
  "package_collation dk db p = Option.bind (package_description dk db p) collate"

definition default_namespace :: namespace where
  "default_namespace = \<lparr> ns_exports = [], ns_imports = [], ns_package_imports = [] \<rparr>"

definition package_namespace :: "(string \<Rightarrow> 'e option \<times> r_expr list) \<Rightarrow> disk \<Rightarrow> oak_db \<Rightarrow> package_id \<Rightarrow> namespace" where
  "package_namespace parser dk db p = (case pk_namespace_override (db_package db p) of
     Some ns \<Rightarrow> ns
   | None \<Rightarrow>
       (case package_dir_of db p of
          None \<Rightarrow> default_namespace
        | Some dir \<Rightarrow>
            (case dk_read dk (dir @ [lit ''NAMESPACE'']) of
               None \<Rightarrow> default_namespace
             | Some contents \<Rightarrow>
                 (case namespace_parse parser (utf8 contents) of Inl _ \<Rightarrow> default_namespace | Inr ns \<Rightarrow> ns))))"

definition imported_from :: "namespace \<Rightarrow> string \<Rightarrow> string option" where
  "imported_from ns = map_of (rev (map (\<lambda>i. (im_name i, im_package i)) (ns_imports ns)))"

definition package_index :: "disk \<Rightarrow> oak_db \<Rightarrow> package_id \<Rightarrow> str list option" where
  "package_index dk db p = (case pk_index_revision (db_package db p) of
     None \<Rightarrow> None
   | Some _ \<Rightarrow>
       (case package_dir_of db p of
          None \<Rightarrow> Some []
        | Some dir \<Rightarrow>
            (case dk_read dk (dir @ [lit ''INDEX'']) of
               Some contents \<Rightarrow> Some (index_parse contents)
             | None \<Rightarrow> Some [])))"

text \<open>Sources that an external tool unpacked for an installed package, in its collation order.\<close>

definition set_package_sources :: "disk \<Rightarrow> package_id \<Rightarrow> fs_path \<Rightarrow> oak_db \<Rightarrow> oak_db" where
  "set_package_sources dk pkg directory db =
     (let (files, scripts) = read_package_sources dk directory (package_collation dk db pkg)
      in set_package_contents pkg files scripts db)"

section \<open>Laws\<close>

subsection \<open>Collation\<close>

lemma base_name_of: "p \<noteq> [] \<Longrightarrow> base_name (p, e) = last p"
  by (simp add: base_name_def file_name_def)

lemma files_by_name_distinct:
  assumes "distinct (map base_name files)"
  shows "files_by_name files = map (\<lambda>pf. (base_name pf, pf)) files"
proof -
  have "fold (\<lambda>pf m. AList.update (base_name pf) pf m) files m = m @ map (\<lambda>pf. (base_name pf, pf)) files"
    if "distinct (map fst m @ map base_name files)" for m
    using assms that
  proof (induction files arbitrary: m)
    case (Cons pf files)
    then have "AList.update (base_name pf) pf m = m @ [(base_name pf, pf)]"
      by (induction m) auto
    with Cons show ?case by simp
  qed simp
  from this [of "[]"] assms show ?thesis by (simp add: files_by_name_def)
qed

end
