(* ===== verification/Workspace_Placement.thy ===== *)
theory Workspace_Placement
  imports Package_Scan
begin

text \<open>
  The placement invariant of the workspace database: where a file is listed agrees with its package
  back-pointer, no two visible files have the same path, and the buckets are disjoint. The first
  part is an invariant \<open>tracked\<close> that survives the middle of a scan, when files are moved between
  containers one by one; the second part shows that every operation keeps the placement invariant
  of a workspace whose folders are not nested.
\<close>

section \<open>Tracked files\<close>

text \<open>
  \<open>P\<close> are the packages in play, \<open>D\<close> the files that were already placed, with their package, \<open>T\<close>
  files about which only the path matters. Between two steps of a scan, all files in play have
  different paths, a file listed by a package points back to it, and the two buckets are apart.
\<close>

definition in_play :: "oak_db \<Rightarrow> package_id set \<Rightarrow> (file_id \<times> package_id option) set \<Rightarrow> file_id set \<Rightarrow> file_id set" where
  "in_play db P D T = (\<Union>p\<in>P. set (package_files db p)) \<union> fst ` D \<union> T"

definition tracked :: "oak_db \<Rightarrow> package_id set \<Rightarrow> (file_id \<times> package_id option) set \<Rightarrow> file_id set \<Rightarrow> bool" where
  "tracked db P D T \<longleftrightarrow>
     (\<forall>f \<in> in_play db P D T \<union> set (db_orphan_files db) \<union> set (db_stale_files db). f < db_next_file db) \<and>
     inj_on (path_of db) (in_play db P D T \<union> set (db_orphan_files db) \<union> set (db_stale_files db)) \<and>
     (\<forall>p\<in>P. distinct (package_files db p) \<and> (\<forall>f\<in>set (package_files db p). package_of db f = Some p)) \<and>
     (\<forall>(f, po)\<in>D. package_of db f = po \<and> f \<notin> set (db_orphan_files db)) \<and>
     (\<forall>f\<in>set (db_orphan_files db). package_of db f = None) \<and>
     set (db_stale_files db) \<inter> (in_play db P D T \<union> set (db_orphan_files db)) = {} \<and>
     (\<forall>p \<in> P \<union> set (db_stale_packages db). p < db_next_package db) \<and>
     (\<forall>p \<in> set (db_stale_packages db). package_files db p = [] \<and> p \<notin> P)"

lemma trackedD:
  assumes "tracked db P D T"
  shows "f \<in> in_play db P D T \<union> set (db_orphan_files db) \<union> set (db_stale_files db) \<Longrightarrow> f < db_next_file db"
    and "inj_on (path_of db) (in_play db P D T \<union> set (db_orphan_files db) \<union> set (db_stale_files db))"
    and "p \<in> P \<Longrightarrow> distinct (package_files db p)"
    and "p \<in> P \<Longrightarrow> f \<in> set (package_files db p) \<Longrightarrow> package_of db f = Some p"
    and "(f, po) \<in> D \<Longrightarrow> package_of db f = po \<and> f \<notin> set (db_orphan_files db)"
    and "f \<in> set (db_orphan_files db) \<Longrightarrow> package_of db f = None"
    and "set (db_stale_files db) \<inter> (in_play db P D T \<union> set (db_orphan_files db)) = {}"
    and "p \<in> P \<union> set (db_stale_packages db) \<Longrightarrow> p < db_next_package db"
    and "p \<in> set (db_stale_packages db) \<Longrightarrow> package_files db p = [] \<and> p \<notin> P"
proof -
  note t = assms [unfolded tracked_def]
  note c1 = conjunct1 [OF t] and t2 = conjunct2 [OF t]
  note c2 = conjunct1 [OF t2] and t3 = conjunct2 [OF t2]
  note c3 = conjunct1 [OF t3] and t4 = conjunct2 [OF t3]
  note c4 = conjunct1 [OF t4] and t5 = conjunct2 [OF t4]
  note c5 = conjunct1 [OF t5] and t6 = conjunct2 [OF t5]
  note c6 = conjunct1 [OF t6] and t7 = conjunct2 [OF t6]
  note c7 = conjunct1 [OF t7] and c8 = conjunct2 [OF t7]
  show "f \<in> in_play db P D T \<union> set (db_orphan_files db) \<union> set (db_stale_files db) \<Longrightarrow> f < db_next_file db"
    by (rule bspec [OF c1])
  show "inj_on (path_of db) (in_play db P D T \<union> set (db_orphan_files db) \<union> set (db_stale_files db))" by (rule c2)
  show "p \<in> P \<Longrightarrow> distinct (package_files db p)" using c3 by blast
  show "p \<in> P \<Longrightarrow> f \<in> set (package_files db p) \<Longrightarrow> package_of db f = Some p" using c3 by blast
  show "(f, po) \<in> D \<Longrightarrow> package_of db f = po \<and> f \<notin> set (db_orphan_files db)" using c4 by auto
  show "f \<in> set (db_orphan_files db) \<Longrightarrow> package_of db f = None" using c5 by blast
  show "set (db_stale_files db) \<inter> (in_play db P D T \<union> set (db_orphan_files db)) = {}" by (rule c6)
  show "p \<in> P \<union> set (db_stale_packages db) \<Longrightarrow> p < db_next_package db" by (rule bspec [OF c7])
  show "p \<in> set (db_stale_packages db) \<Longrightarrow> package_files db p = [] \<and> p \<notin> P" by (rule bspec [OF c8])
qed

lemma trackedI:
  assumes "\<And>f. f \<in> in_play db P D T \<union> set (db_orphan_files db) \<union> set (db_stale_files db) \<Longrightarrow> f < db_next_file db"
    and "inj_on (path_of db) (in_play db P D T \<union> set (db_orphan_files db) \<union> set (db_stale_files db))"
    and "\<And>p. p \<in> P \<Longrightarrow> distinct (package_files db p)"
    and "\<And>p f. p \<in> P \<Longrightarrow> f \<in> set (package_files db p) \<Longrightarrow> package_of db f = Some p"
    and "\<And>f po. (f, po) \<in> D \<Longrightarrow> package_of db f = po \<and> f \<notin> set (db_orphan_files db)"
    and "\<And>f. f \<in> set (db_orphan_files db) \<Longrightarrow> package_of db f = None"
    and "set (db_stale_files db) \<inter> (in_play db P D T \<union> set (db_orphan_files db)) = {}"
    and "\<And>p. p \<in> P \<union> set (db_stale_packages db) \<Longrightarrow> p < db_next_package db"
    and "\<And>p. p \<in> set (db_stale_packages db) \<Longrightarrow> package_files db p = [] \<and> p \<notin> P"
  shows "tracked db P D T"
proof -
  have "\<forall>f \<in> in_play db P D T \<union> set (db_orphan_files db) \<union> set (db_stale_files db). f < db_next_file db"
    using assms(1) by blast
  moreover have "\<forall>p\<in>P. distinct (package_files db p) \<and> (\<forall>f\<in>set (package_files db p). package_of db f = Some p)"
    using assms(3,4) by blast
  moreover have "\<forall>(f, po)\<in>D. package_of db f = po \<and> f \<notin> set (db_orphan_files db)" using assms(5) by blast
  moreover have "\<forall>f\<in>set (db_orphan_files db). package_of db f = None" using assms(6) by blast
  moreover have "\<forall>p \<in> P \<union> set (db_stale_packages db). p < db_next_package db" using assms(8) by blast
  moreover have "\<forall>p \<in> set (db_stale_packages db). package_files db p = [] \<and> p \<notin> P" using assms(9) by blast
  ultimately show ?thesis unfolding tracked_def using assms(2,7) by (intro conjI)
qed

text \<open>What an upsert leaves alone.\<close>

definition same_roots :: "oak_db \<Rightarrow> oak_db \<Rightarrow> bool" where
  "same_roots db db' \<longleftrightarrow>
     db_root db' = db_root db \<and> db_next_root db' = db_next_root db \<and>
     db_workspace_roots db' = db_workspace_roots db \<and> db_library_roots db' = db_library_roots db"

definition same_packages :: "oak_db \<Rightarrow> oak_db \<Rightarrow> bool" where
  "same_packages db db' \<longleftrightarrow>
     db_next_package db' = db_next_package db \<and> db_stale_packages db' = db_stale_packages db \<and>
     (\<forall>p. pk_description_path (db_package db' p) = pk_description_path (db_package db p))"

lemma same_refl [simp]: "same_roots db db" "same_packages db db"
  by (simp_all add: same_roots_def same_packages_def)

lemma same_trans:
  "same_roots db db' \<Longrightarrow> same_roots db' db'' \<Longrightarrow> same_roots db db''"
  "same_packages db db' \<Longrightarrow> same_packages db' db'' \<Longrightarrow> same_packages db db''"
  by (simp_all add: same_roots_def same_packages_def)

text \<open>
  The files in play are the visible ones and those placed during this scan, whose package may not
  be listed by its root yet.
\<close>

definition covers :: "oak_db \<Rightarrow> package_id set \<Rightarrow> (file_id \<times> package_id option) set \<Rightarrow> file_id set \<Rightarrow> bool" where
  "covers db P D T \<longleftrightarrow>
     (\<forall>r\<in>set (db_workspace_roots db) \<union> set (db_library_roots db).
        set (rt_packages (db_root db r)) \<subseteq> P \<and> set (rt_scripts (db_root db r)) \<subseteq> fst ` D \<union> T) \<and>
     in_play db P D T \<subseteq> live_files db \<union> fst ` D \<and>
     T \<subseteq> (\<Union>r\<in>set (db_workspace_roots db) \<union> set (db_library_roots db). set (rt_scripts (db_root db r)))"

lemma coversD:
  assumes "covers db P D T" and "r \<in> set (db_workspace_roots db) \<union> set (db_library_roots db)"
  shows "set (rt_packages (db_root db r)) \<subseteq> P" and "set (rt_scripts (db_root db r)) \<subseteq> fst ` D \<union> T"
  using assms by (auto simp: covers_def)

lemma live_files_iff:
  "f \<in> live_files db \<longleftrightarrow> f \<in> set (db_orphan_files db) \<or>
    (\<exists>r\<in>set (db_workspace_roots db) \<union> set (db_library_roots db). f \<in> set (rt_scripts (db_root db r)) \<or>
      (\<exists>p\<in>set (rt_packages (db_root db r)). f \<in> set (package_files db p)))"
  by (auto simp: live_files_def root_files_def)

lemma live_files_in_play:
  assumes "covers db P D T"
  shows "live_files db \<subseteq> in_play db P D T \<union> set (db_orphan_files db)"
proof
  fix f assume "f \<in> live_files db"
  then show "f \<in> in_play db P D T \<union> set (db_orphan_files db)"
    using coversD [OF assms] by (simp add: live_files_iff in_play_def) blast
qed

lemma covers_place:
  assumes cov: "covers db P D T" and roots: "same_roots db db'"
    and orphans: "set (db_orphan_files db') = set (db_orphan_files db) - {f}"
    and sub: "\<And>p. set (package_files db' p) \<subseteq> set (package_files db p)"
    and sup: "\<And>p. p \<in> P \<Longrightarrow> set (package_files db p) - {f} \<subseteq> set (package_files db' p)"
  shows "covers db' P (insert (f, po) D) T"
proof -
  have live: "g \<in> live_files db'" if "g \<in> live_files db" "g \<noteq> f" for g
  proof -
    from that(1) consider "g \<in> set (db_orphan_files db)"
      | r where "r \<in> set (db_workspace_roots db) \<union> set (db_library_roots db)" "g \<in> set (rt_scripts (db_root db r))"
      | r p where "r \<in> set (db_workspace_roots db) \<union> set (db_library_roots db)"
          "p \<in> set (rt_packages (db_root db r))" "g \<in> set (package_files db p)"
      by (auto simp: live_files_iff)
    then show ?thesis
    proof cases
      case 3
      with coversD(1) [OF cov] sup [of p] that(2) have "g \<in> set (package_files db' p)" by blast
      with 3 roots show ?thesis unfolding live_files_iff same_roots_def by metis
    qed (use roots orphans that(2) in \<open>auto simp: live_files_iff same_roots_def\<close>)
  qed
  have "g \<in> live_files db' \<union> fst ` insert (f, po) D" if g: "g \<in> in_play db' P (insert (f, po) D) T" for g
  proof (cases "g = f")
    case False
    with g sub have "g \<in> in_play db P D T" by (auto simp: in_play_def)
    with cov have "g \<in> live_files db \<union> fst ` D" by (auto simp: covers_def)
    with live False show ?thesis by auto
  qed simp
  then show ?thesis using cov roots by (auto simp: covers_def same_roots_def)
qed

subsection \<open>Upserting one file\<close>

text \<open>The three ways an upsert finds its file.\<close>

definition moved_packages :: "oak_db \<Rightarrow> file_id \<Rightarrow> package_id option \<Rightarrow> package_id \<Rightarrow> package_data" where
  "moved_packages db f po =
     (if package_of db f \<noteq> po then (case package_of db f of
        Some q \<Rightarrow> db_package (remove_from_pkg_files q f db) | None \<Rightarrow> db_package db)
      else db_package db)"

lemma package_of_set_revision: "package_of (set_revision f v db) g = package_of db g"
  by (simp add: set_revision_def)

lemma upsert_existing:
  assumes "file_by_path db (fe_path e) = Some f"
  obtains db' where "upsert_root_file po e db = (f, db')" "same_roots db db'" "db_next_file db' = db_next_file db"
    "db_next_package db' = db_next_package db" "db_stale_packages db' = db_stale_packages db"
    "db_file db' = (db_file db)(f := (db_file db f)\<lparr> fl_revision := fe_revision e, fl_package := po \<rparr>)"
    "db_package db' = moved_packages db f po"
    "db_orphan_files db' = filter (\<lambda>y. y \<noteq> f) (db_orphan_files db)" "db_stale_files db' = db_stale_files db"
proof -
  let ?db1 = "set_revision f (fe_revision e) db"
  let ?db2 = "if package_of db f \<noteq> po then
      (case package_of db f of Some q \<Rightarrow> remove_from_pkg_files q f (set_package_back f po ?db1)
       | None \<Rightarrow> set_package_back f po ?db1) else ?db1"
  have "upsert_root_file po e db = (f, remove_from_orphan f ?db2)"
    using assms by (simp add: upsert_root_file_def Let_def package_of_set_revision)
  moreover have "db_package ?db2 = moved_packages db f po"
    by (auto simp: moved_packages_def set_package_back_def set_revision_def split: option.splits
        intro: remove_from_pkg_files_cong)
  moreover have "db_file ?db2 = (db_file db)(f := (db_file db f)\<lparr> fl_revision := fe_revision e, fl_package := po \<rparr>)"
    by (auto simp: set_package_back_def set_revision_def split: option.splits)
  ultimately show ?thesis
    by (intro that [of "remove_from_orphan f ?db2"])
      (auto simp: remove_from_orphan_eq same_roots_def set_package_back_def set_revision_def split: option.splits)
qed

lemma upsert_stale:
  assumes "file_by_path db (fe_path e) = None" "stale_file_by_path db (fe_path e) = Some f"
  obtains db' where "upsert_root_file po e db = (f, db')" "same_roots db db'" "db_next_file db' = db_next_file db"
    "db_next_package db' = db_next_package db" "db_stale_packages db' = db_stale_packages db"
    "db_file db' = (db_file db)(f := (db_file db f)\<lparr> fl_revision := fe_revision e, fl_source_text_override := None, fl_package := po \<rparr>)"
    "db_package db' = db_package db"
    "db_orphan_files db' = db_orphan_files db" "db_stale_files db' = filter (\<lambda>y. y \<noteq> f) (db_stale_files db)"
  using assms
  by (intro that [of "snd (upsert_root_file po e db)"])
    (auto simp: upsert_root_file_def remove_from_stale_files_eq same_roots_def set_package_back_def set_revision_def set_override_def)

lemma upsert_fresh:
  assumes "file_by_path db (fe_path e) = None" "stale_file_by_path db (fe_path e) = None"
  obtains db' where "upsert_root_file po e db = (db_next_file db, db')" "same_roots db db'"
    "db_next_file db' = Suc (db_next_file db)"
    "db_next_package db' = db_next_package db" "db_stale_packages db' = db_stale_packages db"
    "db_file db' = (db_file db)(db_next_file db := \<lparr> fl_path = fe_path e, fl_revision = fe_revision e,
        fl_source_text_override = None, fl_package = po \<rparr>)"
    "db_package db' = db_package db"
    "db_orphan_files db' = db_orphan_files db" "db_stale_files db' = db_stale_files db"
  using assms
  by (intro that [of "snd (upsert_root_file po e db)"])
    (auto simp: upsert_root_file_def new_file_def same_roots_def)

text \<open>What an upsert does to the package lists.\<close>

lemma moved_package_files:
  assumes "db_package db' = moved_packages db f po"
    and "\<forall>p\<in>P. distinct (package_files db p) \<and> (\<forall>g\<in>set (package_files db p). package_of db g = Some p)"
  shows "p \<in> P \<Longrightarrow> Some p \<noteq> po \<Longrightarrow> package_files db' p = filter (\<lambda>y. y \<noteq> f) (package_files db p)"
    and "p \<in> P \<Longrightarrow> Some p = po \<Longrightarrow> package_files db' p = package_files db p"
    and "set (package_files db' p) \<subseteq> set (package_files db p)"
    and "pk_description_path (db_package db' p) = pk_description_path (db_package db p)"
proof -
  have shape: "package_files db' p =
      (if package_of db f \<noteq> po \<and> package_of db f = Some p then package_files (remove_from_pkg_files p f db) p
       else package_files db p)" for p
  proof (cases "package_of db f")
    case (Some q)
    with assms(1) show ?thesis
      by (cases "q = p") (auto simp: moved_packages_def package_files_def)
  qed (use assms(1) in \<open>simp add: moved_packages_def package_files_def\<close>)
  show "p \<in> P \<Longrightarrow> Some p \<noteq> po \<Longrightarrow> package_files db' p = filter (\<lambda>y. y \<noteq> f) (package_files db p)"
  proof (cases "package_of db f = Some p")
    case False
    moreover assume "p \<in> P" "Some p \<noteq> po"
    ultimately have "f \<notin> set (package_files db p)" using assms(2) by auto
    with False show ?thesis by (simp add: shape)
  qed (use assms(2) in \<open>auto simp: shape package_files_remove\<close>)
  show "p \<in> P \<Longrightarrow> Some p = po \<Longrightarrow> package_files db' p = package_files db p"
    by (auto simp: shape)
  show "set (package_files db' p) \<subseteq> set (package_files db p)"
    using package_files_remove_subset by (auto simp: shape)
  show "pk_description_path (db_package db' p) = pk_description_path (db_package db p)"
    using assms(1) by (auto simp: moved_packages_def split: option.splits)
qed

text \<open>
  Tracking survives when the buckets shrink to those without \<open>f\<close>, package lists shrink, and \<open>f\<close>
  joins the placed files.
\<close>

lemma tracked_place:
  assumes tr: "tracked db P D T"
    and f: "f \<notin> fst ` D" "f < db_next_file db'"
    and f_play: "f \<in> in_play db P D T \<union> set (db_orphan_files db) \<union> set (db_stale_files db) \<or>
      f = db_next_file db \<and> (\<forall>g\<in>in_play db P D T \<union> set (db_orphan_files db) \<union> set (db_stale_files db). path_of db g \<noteq> path_of db' f)"
    and paths: "\<And>g. g < db_next_file db \<Longrightarrow> path_of db' g = path_of db g"
    and packages: "\<And>g. g \<noteq> f \<Longrightarrow> package_of db' g = package_of db g" "package_of db' f = po"
    and nxt: "db_next_file db \<le> db_next_file db'" "db_next_package db' = db_next_package db"
    and buckets: "set (db_orphan_files db') = set (db_orphan_files db) - {f}"
      "set (db_stale_files db') = set (db_stale_files db) - {f}" "db_stale_packages db' = db_stale_packages db"
    and lists: "\<And>p. p \<in> P \<Longrightarrow> Some p \<noteq> po \<Longrightarrow> package_files db' p = filter (\<lambda>y. y \<noteq> f) (package_files db p)"
      "\<And>p. p \<in> P \<Longrightarrow> Some p = po \<Longrightarrow> package_files db' p = package_files db p"
      "\<And>p. set (package_files db' p) \<subseteq> set (package_files db p)"
  shows "tracked db' P (insert (f, po) D) T"
proof -
  let ?all = "in_play db P D T \<union> set (db_orphan_files db) \<union> set (db_stale_files db)"
  let ?all' = "in_play db' P (insert (f, po) D) T \<union> set (db_orphan_files db') \<union> set (db_stale_files db')"
  have sub: "?all' \<subseteq> insert f ?all" using lists(3) buckets by (fastforce simp: in_play_def)
  have bound: "\<And>g. g \<in> ?all \<Longrightarrow> g < db_next_file db" using tr by (auto simp: tracked_def)
  then have same: "\<And>g. g \<in> ?all \<Longrightarrow> path_of db' g = path_of db g" using paths by blast
  have inj: "inj_on (path_of db) ?all" using tr by (simp add: tracked_def)
  have "inj_on (path_of db') (insert f ?all)"
  proof (cases "f \<in> ?all")
    case True
    then have "insert f ?all = ?all" by blast
    then show ?thesis using inj same by (simp add: inj_on_def)
  next
    case False
    with f_play have "\<forall>g\<in>?all. path_of db g \<noteq> path_of db' f" by blast
    then have "path_of db' f \<notin> path_of db' ` ?all" using same by auto
    moreover have "inj_on (path_of db') ?all" using inj same by (simp add: inj_on_def)
    ultimately show ?thesis using False by (simp add: inj_on_insert)
  qed
  then have inj': "inj_on (path_of db') ?all'" using sub by (rule inj_on_subset)
  have play: "in_play db' P (insert (f, po) D) T \<subseteq> insert f (in_play db P D T)"
    using lists(3) by (fastforce simp: in_play_def)
  show ?thesis
  proof (rule trackedI)
    fix g assume "g \<in> ?all'"
    with sub have "g = f \<or> g \<in> ?all" by blast
    then show "g < db_next_file db'" using bound [of g] nxt(1) f(2) by auto
  next
    fix p assume p: "p \<in> P"
    show "distinct (package_files db' p)"
      using lists(1,2) [OF p] trackedD(3) [OF tr p] by (cases "Some p = po") simp_all
    fix g assume "g \<in> set (package_files db' p)"
    then show "package_of db' g = Some p"
      using lists(1,2) [OF p] trackedD(4) [OF tr p] packages by (cases "Some p = po"; cases "g = f") auto
  next
    fix g qo assume "(g, qo) \<in> insert (f, po) D"
    then show "package_of db' g = qo \<and> g \<notin> set (db_orphan_files db')"
      using trackedD(5) [OF tr, of g qo] packages f(1) buckets(1) by (cases "g = f") force+
  next
    fix g assume "g \<in> set (db_orphan_files db')"
    then show "package_of db' g = None" using trackedD(6) [OF tr, of g] packages buckets(1) by simp
  next
    show "set (db_stale_files db') \<inter> (in_play db' P (insert (f, po) D) T \<union> set (db_orphan_files db')) = {}"
      using trackedD(7) [OF tr] play buckets by blast
  next
    fix p assume "p \<in> P \<union> set (db_stale_packages db')"
    then show "p < db_next_package db'" using trackedD(8) [OF tr, of p] nxt(2) buckets(3) by simp
  next
    fix p assume "p \<in> set (db_stale_packages db')"
    then show "package_files db' p = [] \<and> p \<notin> P" using trackedD(9) [OF tr, of p] lists(3) [of p] buckets(3) by simp
  qed (rule inj')
qed

text \<open>An upsert of a path that no placed file has.\<close>

lemma upsert_root_file_tracked:
  assumes tr: "tracked db P D T" and cov: "covers db P D T"
    and new: "fe_path e \<notin> path_of db ` fst ` D"
    and up: "upsert_root_file po e db = (f, db')"
  shows "tracked db' P (insert (f, po) D) T" and "covers db' P (insert (f, po) D) T"
    and "same_roots db db'" and "same_packages db db'" and "path_of db' f = fe_path e" and "f \<notin> fst ` D" and "db_next_file db \<le> db_next_file db'"
    and "\<And>g. g < db_next_file db \<Longrightarrow> path_of db' g = path_of db g"
    and "\<And>p. set (package_files db' p) \<subseteq> set (package_files db p)"
proof -
  let ?all = "in_play db P D T \<union> set (db_orphan_files db) \<union> set (db_stale_files db)"
  have P: "\<forall>p\<in>P. distinct (package_files db p) \<and> (\<forall>g\<in>set (package_files db p). package_of db g = Some p)"
    using trackedD(3,4) [OF tr] by blast
  have "tracked db' P (insert (f, po) D) T \<and> covers db' P (insert (f, po) D) T \<and> same_roots db db' \<and> same_packages db db' \<and> path_of db' f = fe_path e \<and>
      f \<notin> fst ` D \<and> db_next_file db \<le> db_next_file db' \<and> (\<forall>g<db_next_file db. path_of db' g = path_of db g) \<and>
      (\<forall>p. set (package_files db' p) \<subseteq> set (package_files db p))"
  proof (cases "file_by_path db (fe_path e)")
    case (Some g)
    then have g: "g \<in> live_files db" "path_of db g = fe_path e" using file_by_path_Some by blast+
    with live_files_in_play [OF cov] have play: "g \<in> in_play db P D T \<union> set (db_orphan_files db)" by blast
    with trackedD(7) [OF tr] have "g \<notin> set (db_stale_files db)" by blast
    from Some show ?thesis
    proof (rule upsert_existing [where po = po])
      fix db'' assume *: "upsert_root_file po e db = (g, db'')" "same_roots db db''" "db_next_file db'' = db_next_file db"
        "db_next_package db'' = db_next_package db" "db_stale_packages db'' = db_stale_packages db"
        "db_file db'' = (db_file db)(g := (db_file db g)\<lparr> fl_revision := fe_revision e, fl_package := po \<rparr>)"
        "db_package db'' = moved_packages db g po"
        "db_orphan_files db'' = filter (\<lambda>y. y \<noteq> g) (db_orphan_files db)" "db_stale_files db'' = db_stale_files db"
      have "g \<notin> fst ` D" using new g by (metis image_eqI)
      moreover from this have "tracked db'' P (insert (g, po) D) T"
        using * play trackedD(1) [OF tr, of g] \<open>g \<notin> set (db_stale_files db)\<close>
        by (intro tracked_place [OF tr] moved_package_files [OF *(7) P]) auto
      moreover have "covers db'' P (insert (g, po) D) T"
      proof (rule covers_place [OF cov *(2)])
        show "set (db_orphan_files db'') = set (db_orphan_files db) - {g}" using *(8) by auto
        show "set (package_files db'' p) \<subseteq> set (package_files db p)" for p
          by (rule moved_package_files(3) [OF *(7) P])
        show "set (package_files db p) - {g} \<subseteq> set (package_files db'' p)" if "p \<in> P" for p
          using moved_package_files(1,2) [OF *(7) P that] by (cases "Some p = po") auto
      qed
      ultimately show ?thesis
        using up * g moved_package_files(3,4) [OF *(7) P] by (auto simp: same_packages_def)
    qed
  next
    case None
    show ?thesis
    proof (cases "stale_file_by_path db (fe_path e)")
      case (Some g)
      then have g: "g \<in> set (db_stale_files db)" "path_of db g = fe_path e"
        by (auto simp: stale_file_by_path_def dest!: index_by_Some)
      with trackedD(7) [OF tr] have play: "g \<notin> in_play db P D T" "g \<notin> set (db_orphan_files db)" by blast+
      then have "\<And>p. p \<in> P \<Longrightarrow> g \<notin> set (package_files db p)" "g \<notin> fst ` D" by (auto simp: in_play_def)
      from None Some show ?thesis
      proof (rule upsert_stale [where po = po])
        fix db'' assume *: "upsert_root_file po e db = (g, db'')" "same_roots db db''" "db_next_file db'' = db_next_file db"
          "db_next_package db'' = db_next_package db" "db_stale_packages db'' = db_stale_packages db"
          "db_file db'' = (db_file db)(g := (db_file db g)\<lparr> fl_revision := fe_revision e, fl_source_text_override := None, fl_package := po \<rparr>)"
          "db_package db'' = db_package db"
          "db_orphan_files db'' = db_orphan_files db" "db_stale_files db'' = filter (\<lambda>y. y \<noteq> g) (db_stale_files db)"
        have lists: "package_files db'' = package_files db" using *(7) by (rule package_files_cong)
        have "tracked db'' P (insert (g, po) D) T"
          using * play g trackedD(1) [OF tr, of g] \<open>g \<notin> fst ` D\<close> \<open>\<And>p. p \<in> P \<Longrightarrow> g \<notin> set (package_files db p)\<close>
          by (intro tracked_place [OF tr]) (auto simp: lists)
        moreover have "covers db'' P (insert (g, po) D) T"
          using * play by (intro covers_place [OF cov *(2)]) (auto simp: lists)
        ultimately show ?thesis using up * lists g \<open>g \<notin> fst ` D\<close> by (auto simp: same_packages_def)
      qed
    next
      case stale: None
      have "\<forall>g\<in>set (db_stale_files db). path_of db g \<noteq> fe_path e"
        using stale by (simp add: stale_file_by_path_def index_by_None)
      moreover have "in_play db P D T \<union> set (db_orphan_files db) \<subseteq> live_files db \<union> fst ` D"
        using cov by (auto simp: covers_def live_files_def)
      moreover have "\<forall>g\<in>live_files db \<union> fst ` D. path_of db g \<noteq> fe_path e"
        using None new unfolding file_by_path_None by (metis UnE imageI)
      ultimately have unused: "\<forall>g\<in>?all. path_of db g \<noteq> fe_path e" by blast
      have fresh: "db_next_file db \<notin> ?all" using trackedD(1) [OF tr] by blast
      from None stale show ?thesis
      proof (rule upsert_fresh [where po = po])
        fix db'' assume *: "upsert_root_file po e db = (db_next_file db, db'')" "same_roots db db''"
          "db_next_file db'' = Suc (db_next_file db)"
          "db_next_package db'' = db_next_package db" "db_stale_packages db'' = db_stale_packages db"
          "db_file db'' = (db_file db)(db_next_file db := \<lparr> fl_path = fe_path e, fl_revision = fe_revision e,
              fl_source_text_override = None, fl_package = po \<rparr>)"
          "db_package db'' = db_package db"
          "db_orphan_files db'' = db_orphan_files db" "db_stale_files db'' = db_stale_files db"
        have lists: "package_files db'' = package_files db" using *(7) by (rule package_files_cong)
        have out: "db_next_file db \<notin> fst ` D" "\<And>p. p \<in> P \<Longrightarrow> db_next_file db \<notin> set (package_files db p)"
          using fresh by (auto simp: in_play_def)
        have "tracked db'' P (insert (db_next_file db, po) D) T"
          using * fresh unused out by (intro tracked_place [OF tr]) (auto simp: lists)
        moreover have "covers db'' P (insert (db_next_file db, po) D) T"
          using * fresh by (intro covers_place [OF cov *(2)]) (auto simp: lists)
        ultimately show ?thesis using up * lists out by (auto simp: same_packages_def)
      qed
    qed
  qed
  then show "tracked db' P (insert (f, po) D) T" "covers db' P (insert (f, po) D) T" "same_roots db db'" "same_packages db db'"
    "path_of db' f = fe_path e" "f \<notin> fst ` D" "db_next_file db \<le> db_next_file db'"
    "\<And>g. g < db_next_file db \<Longrightarrow> path_of db' g = path_of db g"
    "\<And>p. set (package_files db' p) \<subseteq> set (package_files db p)" by auto
qed

subsection \<open>Upserting lists\<close>

lemma fst_placed [simp]: "fst ` (D \<union> (\<lambda>f. (f, po)) ` A) = fst ` D \<union> A"
  by (auto simp: image_Un image_image)

lemma upsert_root_files_tracked:
  assumes "tracked db P D T" and "covers db P D T"
    and "distinct (map fe_path es)" and "set (map fe_path es) \<inter> path_of db ` fst ` D = {}"
    and "upsert_root_files po es db = (fs, db')"
  shows "tracked db' P (D \<union> (\<lambda>f. (f, po)) ` set fs) T \<and> covers db' P (D \<union> (\<lambda>f. (f, po)) ` set fs) T \<and>
    same_roots db db' \<and> same_packages db db' \<and> map (path_of db') fs = map fe_path es \<and>
    db_next_file db \<le> db_next_file db' \<and> (\<forall>g<db_next_file db. path_of db' g = path_of db g) \<and>
    (\<forall>p. set (package_files db' p) \<subseteq> set (package_files db p))"
  using assms
proof (induction es arbitrary: db D fs)
  case (Cons e es)
  obtain f db1 where up: "upsert_root_file po e db = (f, db1)" by (cases "upsert_root_file po e db")
  obtain fs' where ups: "upsert_root_files po es db1 = (fs', db')" and fs: "fs = f # fs'"
    using Cons.prems(5) up by (auto split: prod.splits)
  have "fe_path e \<notin> path_of db ` fst ` D" using Cons.prems(4) by auto
  note one = upsert_root_file_tracked [OF Cons.prems(1,2) this up]
  have old: "path_of db1 ` fst ` D = path_of db ` fst ` D"
  proof (rule image_cong [OF refl])
    fix g assume "g \<in> fst ` D"
    then have "g < db_next_file db" by (intro trackedD(1) [OF Cons.prems(1)]) (auto simp: in_play_def)
    then show "path_of db1 g = path_of db g" by (rule one(8))
  qed
  have "set (map fe_path es) \<inter> path_of db1 ` fst ` insert (f, po) D = {}"
    using Cons.prems(3,4) old one(5) by auto
  from Cons.IH [OF one(1,2) _ this ups] Cons.prems(3)
  have *: "tracked db' P (insert (f, po) D \<union> (\<lambda>f. (f, po)) ` set fs') T"
    "covers db' P (insert (f, po) D \<union> (\<lambda>f. (f, po)) ` set fs') T" "same_roots db1 db'" "same_packages db1 db'"
    "map (path_of db') fs' = map fe_path es" "db_next_file db1 \<le> db_next_file db'"
    "\<forall>g<db_next_file db1. path_of db' g = path_of db1 g"
    "\<forall>p. set (package_files db' p) \<subseteq> set (package_files db1 p)"
    by auto
  have D: "insert (f, po) D \<union> (\<lambda>f. (f, po)) ` set fs' = D \<union> (\<lambda>f. (f, po)) ` set fs" by (auto simp: fs)
  have "f < db_next_file db1" by (intro trackedD(1) [OF one(1)]) (auto simp: in_play_def)
  with * one D show ?case
    by (auto simp: fs intro: same_trans dest: less_le_trans) blast
qed (auto simp: same_roots_def)

lemma upsert_root_files_distinct:
  "map (path_of db) fs = map fe_path es \<Longrightarrow> distinct (map fe_path es) \<Longrightarrow> distinct fs"
  by (metis distinct_map)

text \<open>Replacing the contents of a package in play.\<close>

definition paths_of :: "file_entry list \<Rightarrow> file_path set" where
  "paths_of es = fe_path ` set es"

lemma set_package_contents_tracked:
  assumes tr: "tracked db P D T" and cov: "covers db P D T" and q: "q \<in> P"
    and es: "distinct (map fe_path (files @ scripts))" "paths_of (files @ scripts) \<inter> path_of db ` fst ` D = {}"
    and db': "db' = set_package_contents q files scripts db"
  obtains fs where "tracked db' P (D \<union> (\<lambda>f. (f, Some q)) ` set fs) T"
    "covers db' P (D \<union> (\<lambda>f. (f, Some q)) ` set fs) T"
    "same_roots db db'" "same_packages db db'" "path_of db' ` set fs = paths_of (files @ scripts)"
    "set (package_files db' q) = set fs" "db_next_file db \<le> db_next_file db'"
    "\<And>g. g < db_next_file db \<Longrightarrow> path_of db' g = path_of db g"
    "\<And>p. p \<noteq> q \<Longrightarrow> set (package_files db' p) \<subseteq> set (package_files db p)"
proof -
  obtain fs1 db1 where 1: "upsert_root_files (Some q) files db = (fs1, db1)" by (cases "upsert_root_files (Some q) files db")
  obtain fs2 db2 where 2: "upsert_root_files (Some q) scripts db1 = (fs2, db2)" by (cases "upsert_root_files (Some q) scripts db1")
  have db2: "db' = upd_package q (\<lambda>d. d\<lparr> pk_files := fs1, pk_scripts := fs2 \<rparr>) db2"
    using db' 1 2 by (simp add: set_package_contents_def)
  let ?D1 = "D \<union> (\<lambda>f. (f, Some q)) ` set fs1" and ?D2 = "D \<union> (\<lambda>f. (f, Some q)) ` set (fs1 @ fs2)"
  have one: "tracked db1 P ?D1 T" "covers db1 P ?D1 T" "same_roots db db1" "same_packages db db1"
    "map (path_of db1) fs1 = map fe_path files" "db_next_file db \<le> db_next_file db1"
    "\<forall>g<db_next_file db. path_of db1 g = path_of db g" "\<forall>p. set (package_files db1 p) \<subseteq> set (package_files db p)"
    using upsert_root_files_tracked [OF tr cov _ _ 1] es by (auto simp: paths_of_def)
  have bound: "g < db_next_file db" if "g \<in> fst ` D" for g
    using that by (intro trackedD(1) [OF tr]) (auto simp: in_play_def)
  have "path_of db1 ` fst ` ?D1 = path_of db1 ` fst ` D \<union> set (map (path_of db1) fs1)" by force
  also have "path_of db1 ` fst ` D = path_of db ` fst ` D" using bound one(7) by (intro image_cong) auto
  finally have "set (map fe_path scripts) \<inter> path_of db1 ` fst ` ?D1 = {}"
    using es one(5) by (auto simp: paths_of_def)
  then have two: "tracked db2 P (?D1 \<union> (\<lambda>f. (f, Some q)) ` set fs2) T" "covers db2 P (?D1 \<union> (\<lambda>f. (f, Some q)) ` set fs2) T"
    "same_roots db1 db2" "same_packages db1 db2" "map (path_of db2) fs2 = map fe_path scripts"
    "db_next_file db1 \<le> db_next_file db2" "\<forall>g<db_next_file db1. path_of db2 g = path_of db1 g"
    "\<forall>p. set (package_files db2 p) \<subseteq> set (package_files db1 p)"
    using upsert_root_files_tracked [OF one(1,2) _ _ 2] es by auto
  have D2: "?D1 \<union> (\<lambda>f. (f, Some q)) ` set fs2 = ?D2" by auto
  have bound1: "f < db_next_file db1" if "f \<in> set fs1" for f
    using that by (intro trackedD(1) [OF one(1)]) (auto simp: in_play_def)
  have paths: "map (path_of db2) (fs1 @ fs2) = map fe_path (files @ scripts)"
    using one(5) two(5,7) bound1 by (simp add: map_eq_conv [symmetric]) (metis (mono_tags, lifting) map_eq_conv)
  then have dist: "distinct (fs1 @ fs2)" using es(1) by (rule upsert_root_files_distinct)
  have lists: "package_files db' p = (if p = q then fs1 @ fs2 else package_files db2 p)" for p
    by (simp add: db2 package_files_def)
  have play: "in_play db' P ?D2 T \<subseteq> in_play db2 P ?D2 T"
    by (auto simp: in_play_def lists split: if_splits)
  have tr2: "tracked db2 P ?D2 T" and cov2: "covers db2 P ?D2 T" using two(1,2) D2 by simp_all
  have "tracked db' P ?D2 T"
  proof (rule trackedI)
    show "inj_on (path_of db') (in_play db' P ?D2 T \<union> set (db_orphan_files db') \<union> set (db_stale_files db'))"
      using trackedD(2) [OF tr2] play by (simp add: db2) (erule inj_on_subset; blast)
  next
    fix p f assume "p \<in> P" "f \<in> set (package_files db' p)"
    then show "package_of db' f = Some p"
      using trackedD(4) [OF tr2, of p f] trackedD(5) [OF tr2, of f "Some q"] by (simp add: db2 lists [unfolded db2] split: if_splits)
  next
    fix p assume "p \<in> set (db_stale_packages db')"
    moreover have "db_stale_packages db2 = db_stale_packages db" using one(4) two(4) by (simp add: same_packages_def)
    ultimately show "package_files db' p = [] \<and> p \<notin> P" using trackedD(9) [OF tr2, of p] q by (auto simp: db2 lists [unfolded db2])
  qed (use trackedD [OF tr2] play dist in \<open>auto simp: db2 lists [unfolded db2] split: if_splits\<close>)
  moreover have "covers db' P ?D2 T"
  proof -
    have roots: "same_roots db2 db'" by (simp add: db2 same_roots_def)
    have "g \<in> live_files db' \<union> fst ` ?D2" if g: "g \<in> in_play db' P ?D2 T" for g
    proof -
      from g consider "g \<in> fst ` ?D2" | p where "p \<in> P" "p \<noteq> q" "g \<in> set (package_files db2 p)" | "g \<in> T"
        by (fastforce simp: in_play_def lists split: if_splits)
      then show ?thesis
      proof cases
        case (2 p)
        have "g \<in> live_files db2 \<union> fst ` ?D2" using cov2 g play by (auto simp: covers_def)
        moreover have "g \<in> live_files db'" if "g \<in> live_files db2"
        proof -
          have "p' = p" if "p' \<in> P" "g \<in> set (package_files db2 p')" for p'
            using trackedD(4) [OF tr2 that] trackedD(4) [OF tr2 2(1,3)] by simp
          with coversD(1) [OF cov2] 2(2) that show ?thesis unfolding live_files_iff lists
            by (simp add: db2) blast
        qed
        ultimately show ?thesis by blast
      next
        case 3
        with cov2 show ?thesis by (auto simp: covers_def live_files_iff db2)
      qed simp
    qed
    with cov2 roots show ?thesis by (auto simp: covers_def same_roots_def)
  qed
  moreover have "same_roots db db'" "same_packages db db'"
    using same_trans(1) [OF one(3) two(3)] same_trans(2) [OF one(4) two(4)]
    by (simp_all add: db2 same_roots_def same_packages_def)
  moreover have "path_of db' ` set (fs1 @ fs2) = paths_of (files @ scripts)"
    using arg_cong [OF paths, of set] by (simp add: db2 paths_of_def image_Un)
  moreover have "set (package_files db' q) = set (fs1 @ fs2)" using lists [of q] by simp
  moreover have "db_next_file db \<le> db_next_file db'" using one(6) two(6) by (simp add: db2)
  moreover have "\<And>g. g < db_next_file db \<Longrightarrow> path_of db' g = path_of db g" using one(6,7) two(7) by (simp add: db2)
  moreover have "\<And>p. p \<noteq> q \<Longrightarrow> set (package_files db' p) \<subseteq> set (package_files db p)"
    using one(8) two(8) lists by (metis subset_trans)
  ultimately show ?thesis by (rule that)
qed

lemma tracked_mono:
  assumes "tracked db P D T" and "P' \<subseteq> P" and "D' \<subseteq> D" and "T' \<subseteq> fst ` D \<union> T"
  shows "tracked db P' D' T'"
proof -
  have play: "in_play db P' D' T' \<subseteq> in_play db P D T" using assms(2-4) by (fastforce simp: in_play_def)
  show ?thesis
  proof (rule trackedI)
    show "inj_on (path_of db) (in_play db P' D' T' \<union> set (db_orphan_files db) \<union> set (db_stale_files db))"
      by (rule inj_on_subset [OF trackedD(2) [OF assms(1)]]) (use play in blast)
    show "set (db_stale_files db) \<inter> (in_play db P' D' T' \<union> set (db_orphan_files db)) = {}"
      using trackedD(7) [OF assms(1)] play by blast
    show "f < db_next_file db" if "f \<in> in_play db P' D' T' \<union> set (db_orphan_files db) \<union> set (db_stale_files db)" for f
      using that play by (intro trackedD(1) [OF assms(1)]) blast
    show "package_of db f = po \<and> f \<notin> set (db_orphan_files db)" if "(f, po) \<in> D'" for f po
      using that assms(3) by (intro trackedD(5) [OF assms(1)]) blast
    show "distinct (package_files db p)" if "p \<in> P'" for p
      using that assms(2) by (intro trackedD(3) [OF assms(1)]) blast
    show "package_of db f = Some p" if "p \<in> P'" "f \<in> set (package_files db p)" for p f
      using that assms(2) by (intro trackedD(4) [OF assms(1)]) blast
    show "package_of db f = None" if "f \<in> set (db_orphan_files db)" for f
      using that by (rule trackedD(6) [OF assms(1)])
    show "p < db_next_package db" if "p \<in> P' \<union> set (db_stale_packages db)" for p
      using that assms(2) by (intro trackedD(8) [OF assms(1)]) blast
    show "package_files db p = [] \<and> p \<notin> P'" if "p \<in> set (db_stale_packages db)" for p
      using trackedD(9) [OF assms(1) that] assms(2) by blast
  qed
qed

subsection \<open>The packages of a root\<close>

lemma package_by_path_Some:
  assumes "package_by_path db path = Some p"
  shows "pk_description_path (db_package db p) = path"
    and "p \<in> set (db_stale_packages db) \<or>
      (\<exists>r\<in>set (db_workspace_roots db) \<union> set (db_library_roots db). p \<in> set (rt_packages (db_root db r)))"
proof -
  from assms consider root where "root \<in> set (live_roots db)"
      "(case live_root_id root of Some r \<Rightarrow> root_package_path_index db r path | None \<Rightarrow> None) = Some p"
    | "stale_package_path_index db path = Some p"
    unfolding package_by_path_def by (auto split: option.splits dest!: first_some_Some)
  then have "pk_description_path (db_package db p) = path \<and> (p \<in> set (db_stale_packages db) \<or>
      (\<exists>r\<in>set (db_workspace_roots db) \<union> set (db_library_roots db). p \<in> set (rt_packages (db_root db r))))"
    by cases (auto simp: root_package_path_index_def stale_package_path_index_def live_roots_def
        split: option.splits dest!: index_by_Some)
  then show "pk_description_path (db_package db p) = path"
    and "p \<in> set (db_stale_packages db) \<or>
      (\<exists>r\<in>set (db_workspace_roots db) \<union> set (db_library_roots db). p \<in> set (rt_packages (db_root db r)))" by blast+
qed

lemma live_files_mono:
  assumes "same_roots db db'" and "set (db_orphan_files db) \<subseteq> set (db_orphan_files db')"
    and "\<And>r p. r \<in> set (db_workspace_roots db) \<union> set (db_library_roots db) \<Longrightarrow> p \<in> set (rt_packages (db_root db r)) \<Longrightarrow>
      set (package_files db p) \<subseteq> set (package_files db' p)"
  shows "live_files db \<subseteq> live_files db'"
proof
  fix f assume "f \<in> live_files db"
  then consider "f \<in> set (db_orphan_files db)"
    | r where "r \<in> set (db_workspace_roots db) \<union> set (db_library_roots db)" "f \<in> set (rt_scripts (db_root db r))"
    | r p where "r \<in> set (db_workspace_roots db) \<union> set (db_library_roots db)"
        "p \<in> set (rt_packages (db_root db r))" "f \<in> set (package_files db p)"
    by (auto simp: live_files_iff)
  then show "f \<in> live_files db'"
  proof cases
    case 3
    with assms(3) have "f \<in> set (package_files db' p)" by blast
    with 3 assms(1) show ?thesis unfolding live_files_iff same_roots_def by metis
  qed (use assms in \<open>auto simp: live_files_iff same_roots_def\<close>)
qed

lemma tracked_add_package:
  assumes tr: "tracked db P D T" and cov: "covers db P D T" and roots: "same_roots db db'"
    and files: "db_file db' = db_file db" "db_next_file db' = db_next_file db"
      "db_orphan_files db' = db_orphan_files db" "db_stale_files db' = db_stale_files db"
    and lists: "\<And>p. p \<in> P \<union> set (db_stale_packages db) \<Longrightarrow> package_files db' p = package_files db p"
    and q: "q \<in> P \<or> package_files db' q = []" "q < db_next_package db'"
    and stale: "set (db_stale_packages db') = set (db_stale_packages db) - {q}"
    and nxt: "db_next_package db \<le> db_next_package db'"
  shows "tracked db' (insert q P) D T" and "covers db' (insert q P) D T"
proof -
  have play: "in_play db' (insert q P) D T = in_play db P D T"
    using lists q(1) by (auto simp: in_play_def)
  show "tracked db' (insert q P) D T"
  proof (rule trackedI)
    fix p assume p: "p \<in> insert q P"
    then have pl: "package_files db' p = [] \<or> p \<in> P \<and> package_files db' p = package_files db p"
      using q(1) lists by auto
    then show "distinct (package_files db' p)" using trackedD(3) [OF tr, of p] by auto
    show "package_of db' f = Some p" if "f \<in> set (package_files db' p)" for f
      using pl that trackedD(4) [OF tr, of p f] by (auto simp: files)
  next
    show "p < db_next_package db'" if "p \<in> insert q P \<union> set (db_stale_packages db')" for p
    proof (cases "p = q")
      case False
      with that stale have "p \<in> P \<union> set (db_stale_packages db)" by blast
      from trackedD(8) [OF tr this] nxt show ?thesis by simp
    qed (simp add: q(2))
    show "package_files db' p = [] \<and> p \<notin> insert q P" if "p \<in> set (db_stale_packages db')" for p
      using that trackedD(9) [OF tr, of p] lists [of p] stale by auto
  qed (use trackedD(1,2,5,6,7) [OF tr] in \<open>simp_all add: play files\<close>)
  have "live_files db \<subseteq> live_files db'"
  proof (rule live_files_mono [OF roots])
    show "set (package_files db p) \<subseteq> set (package_files db' p)"
      if "r \<in> set (db_workspace_roots db) \<union> set (db_library_roots db)" "p \<in> set (rt_packages (db_root db r))" for r p
      using lists [of p] coversD(1) [OF cov that(1)] that(2) by auto
  qed (simp add: files(3))
  then show "covers db' (insert q P) D T"
    using cov roots unfolding covers_def play same_roots_def by auto
qed

lemma find_or_new_package_tracked:
  assumes tr: "tracked db P D T" and cov: "covers db P D T" and fp: "find_or_new_package ix e db = (q, db')"
  shows "tracked db' (insert q P) D T" and "covers db' (insert q P) D T" and "same_roots db db'"
    and "db_file db' = db_file db" and "db_next_file db' = db_next_file db"
    and "pk_description_path (db_package db' q) = pe_description_path e"
    and "\<And>p. p < db_next_package db \<Longrightarrow> pk_description_path (db_package db' p) = pk_description_path (db_package db p)"
    and "db_next_package db \<le> db_next_package db'" and "q < db_next_package db'"
proof -
  have main: "tracked db' (insert q P) D T \<and> covers db' (insert q P) D T \<and> same_roots db db' \<and>
      db_file db' = db_file db \<and> db_next_file db' = db_next_file db \<and>
      pk_description_path (db_package db' q) = pe_description_path e \<and>
      (\<forall>p<db_next_package db. pk_description_path (db_package db' p) = pk_description_path (db_package db p)) \<and>
      db_next_package db \<le> db_next_package db' \<and> q < db_next_package db'"
  proof (cases "package_by_path db (pe_description_path e)")
    case (Some p)
    note found = package_by_path_Some [OF Some]
    let ?u = "\<lambda>d. d\<lparr> pk_name := pe_name e, pk_description_revision := pe_description_revision e,
                pk_namespace_revision := pe_namespace_revision e \<rparr>"
    have q: "q = p" and db': "db' = remove_from_stale_packages q (upd_package q ?u db)"
      using fp Some by (auto simp: find_or_new_package_def)
    have lists: "package_files db' p' = package_files db p'" for p'
      by (simp add: db' remove_from_stale_packages_eq package_files_def)
    have "q \<in> P \<or> q \<in> set (db_stale_packages db)" using found(2) coversD(1) [OF cov] q by blast
    then have "q \<in> P \<or> package_files db' q = []" "q < db_next_package db"
      using trackedD(9) [OF tr, of q] trackedD(8) [OF tr, of q] lists by auto
    moreover have sel: "same_roots db db'" "db_file db' = db_file db" "db_next_file db' = db_next_file db"
      "db_orphan_files db' = db_orphan_files db" "db_stale_files db' = db_stale_files db"
      "set (db_stale_packages db') = set (db_stale_packages db) - {q}" "db_next_package db' = db_next_package db"
      by (auto simp: db' remove_from_stale_packages_eq same_roots_def)
    ultimately have "tracked db' (insert q P) D T" "covers db' (insert q P) D T"
      using tracked_add_package [OF tr cov sel(1-5) lists _ _ sel(6)] by simp_all
    then show ?thesis
      using found(1) q \<open>q < db_next_package db\<close> by (simp add: db' remove_from_stale_packages_eq same_roots_def)
  next
    case None
    let ?d = "\<lparr> pk_description_path = pe_description_path e, pk_name = pe_name e,
            pk_description_revision = pe_description_revision e,
            pk_namespace_revision = pe_namespace_revision e,
            pk_index_revision = ix, pk_namespace_override = None, pk_files = [], pk_scripts = [] \<rparr>"
    have q: "q = db_next_package db"
      and db': "db' = db\<lparr> db_package := (db_package db)(q := ?d), db_next_package := Suc q \<rparr>"
      using fp None by (auto simp: find_or_new_package_def new_package_def)
    have "q \<notin> P \<union> set (db_stale_packages db)" using trackedD(8) [OF tr, of q] q by blast
    moreover have sel: "same_roots db db'" "db_file db' = db_file db" "db_next_file db' = db_next_file db"
      "db_orphan_files db' = db_orphan_files db" "db_stale_files db' = db_stale_files db"
      "db_stale_packages db' = db_stale_packages db" "db_next_package db' = Suc (db_next_package db)"
      by (simp_all add: db' q same_roots_def)
    moreover have "package_files db' q = []" "\<And>p. p \<noteq> q \<Longrightarrow> package_files db' p = package_files db p"
      by (simp_all add: db' package_files_def)
    then have lists: "package_files db' q = []"
      "\<And>p. p \<in> P \<union> set (db_stale_packages db) \<Longrightarrow> package_files db' p = package_files db p"
      using \<open>q \<notin> P \<union> set (db_stale_packages db)\<close> by metis+
    ultimately have "tracked db' (insert q P) D T" "covers db' (insert q P) D T"
      using tracked_add_package [OF tr cov sel(1-5) lists(2), of q] lists(1) q by simp_all
    then show ?thesis using q by (simp add: db' same_roots_def)
  qed
  then show "tracked db' (insert q P) D T" and "covers db' (insert q P) D T" and "same_roots db db'"
    and "db_file db' = db_file db" and "db_next_file db' = db_next_file db"
    and "pk_description_path (db_package db' q) = pe_description_path e"
    and "\<And>p. p < db_next_package db \<Longrightarrow> pk_description_path (db_package db' p) = pk_description_path (db_package db p)"
    and "db_next_package db \<le> db_next_package db'" and "q < db_next_package db'" by blast+
qed

end
