(* ===== verification/Scan_Scheduler.thy ===== *)
theory Scan_Scheduler
  imports Package_Scan
begin

text \<open>
  The coordinator of workspace scans (\<^verbatim>\<open>oak_scan/src/scheduler.rs\<close>): which roots have a scan in
  flight, the watcher paths that wait for those scans, and what each event of the main loop does to
  the scheduler and to the database. The disk is what the file system calls of one event see.
\<close>

section \<open>Scan requests and their results\<close>

record scan_request =
  rq_root :: root_id
  rq_path :: fs_path

record scan_completed =
  cp_root :: root_id
  cp_packages :: "package_entry list"
  cp_scripts :: "file_entry list"
  cp_environment_dirs :: "file_path list"

definition run_request :: "disk \<Rightarrow> scan_request \<Rightarrow> scan_completed" where
  "run_request dk rq =
     \<lparr> cp_root = rq_root rq,
       cp_packages = scan_workspace_packages dk (rq_path rq),
       cp_scripts = scan_workspace_scripts dk (rq_path rq),
       cp_environment_dirs = scan_workspace_environment_dirs dk (rq_path rq) \<rparr>"

fun set_packages :: "package_entry list \<Rightarrow> oak_db \<Rightarrow> package_id list \<times> oak_db" where
  "set_packages [] db = ([], db)"
| "set_packages (e # es) db =
     (let (p, db) = set_package None e db;
          (ps, db) = set_packages es db
      in (p # ps, db))"

definition apply_completed :: "scan_completed \<Rightarrow> oak_db \<Rightarrow> oak_db" where
  "apply_completed c db =
     (let r = cp_root c;
          (package_entities, db) = set_packages (cp_packages c) db;
          db = upd_root r (\<lambda>d. d\<lparr> rt_packages := package_entities \<rparr>) db;
          db = set_workspace_scripts r (cp_scripts c) db
      in upd_root r (\<lambda>d. d\<lparr> rt_environment_dirs := cp_environment_dirs c \<rparr>) db)"

section \<open>The scheduler\<close>

datatype root_scan_state = Scanning | ScanningWithRescanQueued

record scan_scheduler =
  sc_state :: "(root_id \<times> root_scan_state) list"
  sc_buffered :: "file_path list"

abbreviation scanning :: "scan_scheduler \<Rightarrow> root_id \<Rightarrow> root_scan_state option" where
  "scanning sc \<equiv> map_of (sc_state sc)"

definition scheduler_new :: scan_scheduler where
  "scheduler_new = \<lparr> sc_state = [], sc_buffered = [] \<rparr>"

definition has_pending_scans :: "scan_scheduler \<Rightarrow> bool" where
  "has_pending_scans sc \<longleftrightarrow> sc_state sc \<noteq> []"

definition state_insert :: "root_id \<Rightarrow> root_scan_state \<Rightarrow> scan_scheduler \<Rightarrow> scan_scheduler" where
  "state_insert r st sc = sc\<lparr> sc_state := AList.update r st (sc_state sc) \<rparr>"

definition state_remove :: "root_id \<Rightarrow> scan_scheduler \<Rightarrow> scan_scheduler" where
  "state_remove r sc = sc\<lparr> sc_state := AList.delete r (sc_state sc) \<rparr>"

definition workspace_root_paths :: "oak_db \<Rightarrow> (fs_path \<times> root_id) list" where
  "workspace_root_paths db =
     List.map_filter (\<lambda>r. map_option (\<lambda>p. (p, r)) (as_path (root_path db r))) (db_workspace_roots db)"

definition triggers_rescan :: "fs_path \<Rightarrow> bool" where
  "triggers_rescan p = (case file_name p of
     None \<Rightarrow> False
   | Some name \<Rightarrow> name = lit ''DESCRIPTION'' \<or> is_environment_sentinel name)"

subsection \<open>The spelling of a path on disk\<close>

definition ascii_lower :: "nat \<Rightarrow> nat" where
  "ascii_lower c = (if 65 \<le> c \<and> c \<le> 90 then c + 32 else c)"

definition eq_ignore_ascii_case :: "str \<Rightarrow> str \<Rightarrow> bool" where
  "eq_ignore_ascii_case a b \<longleftrightarrow> map ascii_lower a = map ascii_lower b"

text \<open>
  One directory listing: is the name there exactly, and was a case variant seen before that. An
  unreadable entry ends the search with its error.
\<close>

fun find_spelling :: "str \<Rightarrow> bool \<Rightarrow> (io_error_kind + str) list \<Rightarrow> io_error_kind + bool \<times> bool" where
  "find_spelling name variant [] = Inr (False, variant)"
| "find_spelling name variant (Inl e # entries) = Inl e"
| "find_spelling name variant (Inr n # entries) =
     (if n = name then Inr (True, variant)
      else find_spelling name (variant \<or> eq_ignore_ascii_case n name) entries)"

fun spelled_on_disk :: "disk \<Rightarrow> fs_path \<Rightarrow> str list \<Rightarrow> io_error_kind + bool" where
  "spelled_on_disk dk dir [] = Inr True"
| "spelled_on_disk dk dir (name # names) =
     (case dk_read_dir dk dir of
        Inl e \<Rightarrow> Inl e
      | Inr entries \<Rightarrow>
          (case find_spelling name False entries of
             Inl e \<Rightarrow> Inl e
           | Inr (exact, variant) \<Rightarrow>
               if variant \<and> \<not> exact then Inr False else spelled_on_disk dk (dir @ [name]) names))"

definition is_file_on_disk :: "disk \<Rightarrow> fs_path \<Rightarrow> fs_path \<Rightarrow> io_error_kind + bool" where
  "is_file_on_disk dk root fs_path =
     (case dk_metadata dk fs_path of
        Inl e \<Rightarrow> Inl e
      | Inr False \<Rightarrow> Inr False
      | Inr True \<Rightarrow>
          if path_starts_with fs_path root then spelled_on_disk dk root (drop (length root) fs_path)
          else Inr True)"

subsection \<open>Buffered paths\<close>

text \<open>What becomes of one buffered path: kept, or dropped after its effect on the database.\<close>

definition containing_roots :: "(fs_path \<times> root_id) list \<Rightarrow> fs_path \<Rightarrow> (fs_path \<times> root_id) list" where
  "containing_roots roots p = filter (\<lambda>(rp, _). path_starts_with p rp) roots"

definition reconcile :: "disk \<Rightarrow> fs_path \<Rightarrow> file_path \<Rightarrow> fs_path \<Rightarrow> oak_db \<Rightarrow> oak_db" where
  "reconcile dk root path fs_path db =
     (case is_file_on_disk dk root fs_path of
        Inr True \<Rightarrow> add_watched_file dk path db
      | Inr False \<Rightarrow> remove_watched_file path db
      | Inl NotFound \<Rightarrow> remove_watched_file path db
      | Inl NotADirectory \<Rightarrow> remove_watched_file path db
      | Inl OtherIoError \<Rightarrow> db)"

definition drain_one :: "disk \<Rightarrow> file_path set \<Rightarrow> (fs_path \<times> root_id) list \<Rightarrow> scan_scheduler \<Rightarrow> file_path \<Rightarrow>
    oak_db \<Rightarrow> bool \<times> oak_db" where
  "drain_one dk editor_owned roots sc path db =
     (case as_path path of
        None \<Rightarrow> (False, db)
      | Some fs_path \<Rightarrow>
          (case containing_roots roots fs_path of
             [] \<Rightarrow> (False, db)
           | (root, r) # others \<Rightarrow>
               if \<exists>(_, r)\<in>set ((root, r) # others). scanning sc r \<noteq> None then (True, db)
               else if path \<in> editor_owned then (False, db)
               else (False, reconcile dk root path fs_path db)))"

fun retain_buffered :: "disk \<Rightarrow> file_path set \<Rightarrow> (fs_path \<times> root_id) list \<Rightarrow> scan_scheduler \<Rightarrow> file_path list \<Rightarrow>
    oak_db \<Rightarrow> file_path list \<times> oak_db" where
  "retain_buffered dk editor_owned roots sc [] db = ([], db)"
| "retain_buffered dk editor_owned roots sc (path # paths) db =
     (let (keep, db) = drain_one dk editor_owned roots sc path db;
          (kept, db) = retain_buffered dk editor_owned roots sc paths db
      in (if keep then path # kept else kept, db))"

definition drain_buffered :: "disk \<Rightarrow> file_path set \<Rightarrow> scan_scheduler \<Rightarrow> oak_db \<Rightarrow> scan_scheduler \<times> oak_db" where
  "drain_buffered dk editor_owned sc db =
     (let (kept, db) = retain_buffered dk editor_owned (workspace_root_paths db) sc (sc_buffered sc) db
      in (sc\<lparr> sc_buffered := kept \<rparr>, db))"

subsection \<open>Rescans\<close>

definition request_rescan :: "oak_db \<Rightarrow> root_id \<Rightarrow> scan_scheduler \<Rightarrow> scan_request option \<times> scan_scheduler" where
  "request_rescan db r sc =
     (case scanning sc r of
        Some Scanning \<Rightarrow> (None, state_insert r ScanningWithRescanQueued sc)
      | Some ScanningWithRescanQueued \<Rightarrow> (None, sc)
      | None \<Rightarrow>
          (case as_path (root_path db r) of
             None \<Rightarrow> (None, sc)
           | Some path \<Rightarrow> (Some \<lparr> rq_root = r, rq_path = path \<rparr>, state_insert r Scanning sc)))"

fun request_rescans :: "oak_db \<Rightarrow> root_id list \<Rightarrow> scan_scheduler \<Rightarrow> scan_request list \<times> scan_scheduler" where
  "request_rescans db [] sc = ([], sc)"
| "request_rescans db (r # rs) sc =
     (let (rq, sc) = request_rescan db r sc;
          (rqs, sc) = request_rescans db rs sc
      in (case rq of Some rq \<Rightarrow> rq # rqs | None \<Rightarrow> rqs, sc))"

definition push_new :: "'a \<Rightarrow> 'a list \<Rightarrow> 'a list" where
  "push_new x xs = (if x \<in> set xs then xs else xs @ [x])"

definition rescan_roots :: "(fs_path \<times> root_id) list \<Rightarrow> file_path list \<Rightarrow> root_id list" where
  "rescan_roots roots paths = fold (\<lambda>path rs. case as_path path of
     None \<Rightarrow> rs
   | Some fs_path \<Rightarrow>
       if triggers_rescan fs_path
       then fold (\<lambda>(rp, r) rs. if path_starts_with fs_path rp then push_new r rs else rs) roots rs
       else rs) paths []"

section \<open>The events\<close>

text \<open>The two loops of \<open>set_workspace_paths\<close>: evicting folders, then creating roots for the new paths.\<close>

definition evict_roots :: "(fs_path \<times> file_path) list \<Rightarrow> file_path set \<Rightarrow> (file_path \<times> root_id) list \<Rightarrow>
    scan_scheduler \<times> oak_db \<Rightarrow> scan_scheduler \<times> oak_db" where
  "evict_roots new owned = fold (\<lambda>(old_path, old_root) (sc, db).
     if old_path \<in> snd ` set new then (sc, db)
     else (state_remove old_root sc, set_root_stale old_root (Some owned) db))"

definition create_roots :: "(file_path \<times> root_id) list \<Rightarrow> (fs_path \<times> file_path) list \<Rightarrow>
    root_id list \<times> scan_request list \<times> scan_scheduler \<times> oak_db \<Rightarrow>
    root_id list \<times> scan_request list \<times> scan_scheduler \<times> oak_db" where
  "create_roots old = fold (\<lambda>(scan_path, path) (rs, rqs, sc, db). case map_of old path of
     Some r \<Rightarrow> (rs @ [r], rqs, sc, db)
   | None \<Rightarrow>
       (let (r, db) = new_root \<lparr> rt_path = path, rt_kind = WorkspaceKind, rt_scripts = [],
                                 rt_packages = [], rt_environment_dirs = [] \<rparr> db
        in (rs @ [r], rqs @ [\<lparr> rq_root = r, rq_path = scan_path \<rparr>], state_insert r Scanning sc, db)))"

definition set_workspace_paths :: "disk \<Rightarrow> path_buf list \<Rightarrow> file_path set \<Rightarrow> scan_scheduler \<Rightarrow> oak_db \<Rightarrow>
    scan_request list \<times> scan_scheduler \<times> oak_db" where
  "set_workspace_paths dk paths editor_owned sc db =
     (let new = new_paths paths;
          old = roots_by_path db (db_workspace_roots db);
          (sc, db) = evict_roots new editor_owned old (sc, db);
          (new_roots, requests, sc, db) = create_roots old new ([], [], sc, db);
          db = db\<lparr> db_workspace_roots := new_roots \<rparr>;
          (sc, db) = drain_buffered dk editor_owned sc db
      in (requests, sc, db))"

definition apply_watcher_events :: "disk \<Rightarrow> file_path list \<Rightarrow> file_path set \<Rightarrow> scan_scheduler \<Rightarrow> oak_db \<Rightarrow>
    scan_request list \<times> scan_scheduler \<times> oak_db" where
  "apply_watcher_events dk paths skip sc db =
     (let roots = workspace_root_paths db;
          (requests, sc) = request_rescans db (rescan_roots roots paths) sc;
          sc = fold (\<lambda>path sc. case as_path path of
              None \<Rightarrow> sc
            | Some fs_path \<Rightarrow>
                if triggers_rescan fs_path then sc
                else sc\<lparr> sc_buffered := push_new path (sc_buffered sc) \<rparr>) paths sc;
          (sc, db) = drain_buffered dk skip sc db
      in (requests, sc, db))"

definition apply_scan_completed :: "disk \<Rightarrow> scan_completed \<Rightarrow> file_path set \<Rightarrow> scan_scheduler \<Rightarrow> oak_db \<Rightarrow>
    scan_request list \<times> scan_scheduler \<times> oak_db" where
  "apply_scan_completed dk result editor_owned sc db =
     (let r = cp_root result in
      if r \<notin> set (db_workspace_roots db) then ([], state_remove r sc, db)
      else
        (let db = apply_completed result db;
             prior = scanning sc r;
             sc = state_remove r sc;
             (requests, sc) =
               (case prior of
                  Some ScanningWithRescanQueued \<Rightarrow>
                    (case as_path (root_path db r) of
                       Some path \<Rightarrow> ([\<lparr> rq_root = r, rq_path = path \<rparr>], state_insert r Scanning sc)
                     | None \<Rightarrow> ([], sc))
                | _ \<Rightarrow> ([], sc));
             (sc, db) = drain_buffered dk editor_owned sc db
         in (requests, sc, db)))"

section \<open>The effect of each event\<close>

text \<open>
  A path waits when some workspace folder above it has a scan in flight. Draining keeps the waiting
  paths, in their order, and leaves the scan states and the folders alone.
\<close>

definition waiting :: "oak_db \<Rightarrow> scan_scheduler \<Rightarrow> file_path \<Rightarrow> bool" where
  "waiting db sc path \<longleftrightarrow> (\<exists>r\<in>set (db_workspace_roots db). scanning sc r \<noteq> None \<and>
     (case (as_path path, as_path (root_path db r)) of
        (Some fs, Some rp) \<Rightarrow> path_starts_with fs rp
      | _ \<Rightarrow> False))"

lemma in_workspace_root_paths:
  "(rp, r) \<in> set (workspace_root_paths db) \<longleftrightarrow> r \<in> set (db_workspace_roots db) \<and> as_path (root_path db r) = Some rp"
  by (force simp: workspace_root_paths_def map_filter_def split: option.splits)

lemma waiting_iff:
  "waiting db sc path \<longleftrightarrow> (\<exists>fs r rp. as_path path = Some fs \<and> r \<in> set (db_workspace_roots db) \<and>
     as_path (root_path db r) = Some rp \<and> path_starts_with fs rp \<and> scanning sc r \<noteq> None)"
proof -
  have "(case (as_path path, as_path (root_path db r)) of (Some fs, Some rp) \<Rightarrow> path_starts_with fs rp | _ \<Rightarrow> False) \<longleftrightarrow>
      (\<exists>fs rp. as_path path = Some fs \<and> as_path (root_path db r) = Some rp \<and> path_starts_with fs rp)" for r
    by (auto split: option.splits)
  then show ?thesis unfolding waiting_def by blast
qed

lemma state_insert_sel [simp]:
  "scanning (state_insert r st sc) = (scanning sc)(r \<mapsto> st)" "sc_buffered (state_insert r st sc) = sc_buffered sc"
  by (simp_all add: state_insert_def update_conv')

lemma state_remove_sel [simp]:
  "scanning (state_remove r sc) = (scanning sc)(r := None)" "sc_buffered (state_remove r sc) = sc_buffered sc"
  by (simp_all add: state_remove_def delete_conv')

lemma drain_one_keeps:
  assumes "drain_one dk owned (workspace_root_paths db0) sc path db = (keep, db')"
  shows "keep \<longleftrightarrow> waiting db0 sc path" and "keeps_layout db db'"
proof -
  have waits: "waiting db0 sc path \<longleftrightarrow> (\<exists>fs. as_path path = Some fs \<and>
      (\<exists>x\<in>set (containing_roots (workspace_root_paths db0) fs). scanning sc (snd x) \<noteq> None))"
    by (force simp: waiting_iff containing_roots_def in_workspace_root_paths)
  show "keep \<longleftrightarrow> waiting db0 sc path"
    using assms unfolding waits drain_one_def
    by (auto split: option.splits list.splits if_splits simp: case_prod_beta)
  have "keeps_layout db (reconcile dk rp path fs db)" for rp fs
    by (auto simp: reconcile_def keeps_layout_ops split: sum.splits bool.splits io_error_kind.splits)
  then show "keeps_layout db db'"
    using assms by (auto simp: drain_one_def split: option.splits list.splits if_splits)
qed

lemma waiting_cong:
  assumes "\<And>r. r \<in> set (db_workspace_roots db) \<Longrightarrow> scanning sc' r = scanning sc r"
  shows "waiting db sc' = waiting db sc"
  using assms unfolding waiting_def by (intro ext bex_cong) auto

lemma drain_buffered_effect:
  assumes "drain_buffered dk owned sc db = (sc', db')"
  shows "scanning sc' = scanning sc" and "sc_buffered sc' = filter (waiting db sc') (sc_buffered sc)"
    and "keeps_layout db db'"
proof -
  have "fst (retain_buffered dk owned (workspace_root_paths db0) sc paths db) = filter (waiting db0 sc) paths \<and>
      keeps_layout db (snd (retain_buffered dk owned (workspace_root_paths db0) sc paths db))" for paths db db0
  proof (induction paths arbitrary: db)
    case (Cons path paths)
    obtain keep db1 where one: "drain_one dk owned (workspace_root_paths db0) sc path db = (keep, db1)" by (metis surj_pair)
    from drain_one_keeps [OF one] Cons.IH [of db1] show ?case
      by (auto simp: one case_prod_beta Let_def intro: keeps_layout_trans)
  qed simp
  from this [of db "sc_buffered sc" db] assms
  have sc': "sc' = sc\<lparr> sc_buffered := filter (waiting db sc) (sc_buffered sc) \<rparr>" and "keeps_layout db db'"
    by (auto simp: drain_buffered_def split: prod.splits)
  then show "keeps_layout db db'" "scanning sc' = scanning sc" by simp_all
  with waiting_cong [of db sc' sc] sc' show "sc_buffered sc' = filter (waiting db sc') (sc_buffered sc)" by simp
qed

lemma request_rescans_effect:
  assumes "request_rescans db rs sc = (rqs, sc')" and "distinct rs" and "\<forall>r\<in>set rs. as_path (root_path db r) \<noteq> None"
  shows "map rq_root rqs = filter (\<lambda>r. scanning sc r = None) rs"
    and "\<forall>rq\<in>set rqs. as_path (root_path db (rq_root rq)) = Some (rq_path rq)"
    and "scanning sc' = (\<lambda>r. if r \<in> set rs
           then Some (if scanning sc r = None then Scanning else ScanningWithRescanQueued) else scanning sc r)"
    and "sc_buffered sc' = sc_buffered sc"
proof -
  have "map rq_root rqs = filter (\<lambda>r. scanning sc r = None) rs \<and>
    (\<forall>rq\<in>set rqs. as_path (root_path db (rq_root rq)) = Some (rq_path rq)) \<and>
    scanning sc' = (\<lambda>r. if r \<in> set rs
           then Some (if scanning sc r = None then Scanning else ScanningWithRescanQueued) else scanning sc r) \<and>
    sc_buffered sc' = sc_buffered sc"
    using assms
  proof (induction rs arbitrary: sc rqs)
    case (Cons r rs)
    obtain rq sc1 where one: "request_rescan db r sc = (rq, sc1)" by (metis surj_pair)
    obtain rqs2 where rest: "request_rescans db rs sc1 = (rqs2, sc')"
      and rqs: "rqs = (case rq of Some rq \<Rightarrow> rq # rqs2 | None \<Rightarrow> rqs2)"
      using Cons.prems(1) one by (auto split: prod.splits)
    obtain path where path: "as_path (root_path db r) = Some path" using Cons.prems(3) by auto
    have sc1: "scanning sc1 = (scanning sc)(r \<mapsto> if scanning sc r = None then Scanning else ScanningWithRescanQueued)"
      "sc_buffered sc1 = sc_buffered sc"
      "rq = (if scanning sc r = None then Some \<lparr> rq_root = r, rq_path = path \<rparr> else None)"
      using one path by (auto simp: request_rescan_def fun_eq_iff split: option.splits root_scan_state.splits)
    have "filter (\<lambda>r. scanning sc1 r = None) rs = filter (\<lambda>r. scanning sc r = None) rs"
      using Cons.prems(2) by (intro filter_cong) (auto simp: sc1)
    with Cons.IH [OF rest] Cons.prems(2,3) path show ?case
      by (auto simp: rqs sc1 fun_eq_iff)
  qed simp
  then show "map rq_root rqs = filter (\<lambda>r. scanning sc r = None) rs"
    and "\<forall>rq\<in>set rqs. as_path (root_path db (rq_root rq)) = Some (rq_path rq)"
    and "scanning sc' = (\<lambda>r. if r \<in> set rs
           then Some (if scanning sc r = None then Scanning else ScanningWithRescanQueued) else scanning sc r)"
    and "sc_buffered sc' = sc_buffered sc" by simp_all
qed

text \<open>A batch of watcher paths reports a discovery for a folder when one below it triggers a rescan.\<close>

definition reports_discovery :: "oak_db \<Rightarrow> file_path list \<Rightarrow> root_id \<Rightarrow> bool" where
  "reports_discovery db paths r \<longleftrightarrow> r \<in> set (db_workspace_roots db) \<and>
     (\<exists>path\<in>set paths. case (as_path path, as_path (root_path db r)) of
        (Some fs, Some rp) \<Rightarrow> triggers_rescan fs \<and> path_starts_with fs rp
      | _ \<Rightarrow> False)"

lemma push_new_set [simp]: "set (push_new x xs) = insert x (set xs)" "distinct (push_new x xs) = distinct xs"
  by (auto simp: push_new_def)

lemma rescan_roots_spec:
  "distinct (rescan_roots (workspace_root_paths db) paths)"
  "set (rescan_roots (workspace_root_paths db) paths) = {r. reports_discovery db paths r}"
proof -
  let ?inner = "\<lambda>fs. \<lambda>(rp, r) rs. if path_starts_with fs rp then push_new r rs else rs"
  let ?outer = "\<lambda>path rs. case as_path path of None \<Rightarrow> rs
     | Some fs \<Rightarrow> if triggers_rescan fs then fold (?inner fs) (workspace_root_paths db) rs else rs"
  let ?hit = "\<lambda>path r. \<exists>fs rp. as_path path = Some fs \<and> triggers_rescan fs \<and>
      (rp, r) \<in> set (workspace_root_paths db) \<and> path_starts_with fs rp"
  have inner: "distinct (fold (?inner fs) roots rs) = distinct rs \<and>
      set (fold (?inner fs) roots rs) = set rs \<union> {r. \<exists>rp. (rp, r) \<in> set roots \<and> path_starts_with fs rp}"
    for fs roots rs
    by (induction roots arbitrary: rs) (auto split: if_splits)
  have "distinct (?outer path rs) = distinct rs \<and> set (?outer path rs) = set rs \<union> {r. ?hit path r}" for path rs
    using inner [of _ "workspace_root_paths db" rs] by (auto split: option.splits)
  then have "distinct (fold ?outer paths rs) = distinct rs \<and>
      set (fold ?outer paths rs) = set rs \<union> {r. \<exists>path\<in>set paths. ?hit path r}" for rs
    by (induction paths arbitrary: rs) auto
  from this [of "[]"]
  have spec: "distinct (rescan_roots (workspace_root_paths db) paths)"
    "set (rescan_roots (workspace_root_paths db) paths) = {r. \<exists>path\<in>set paths. ?hit path r}"
    by (simp_all add: rescan_roots_def)
  show "distinct (rescan_roots (workspace_root_paths db) paths)" by (rule spec(1))
  have "reports_discovery db paths r \<longleftrightarrow> (\<exists>path\<in>set paths. ?hit path r)" for r
    unfolding reports_discovery_def in_workspace_root_paths by (auto split: option.splits) blast+
  then show "set (rescan_roots (workspace_root_paths db) paths) = {r. reports_discovery db paths r}"
    using spec(2) by simp
qed

text \<open>The paths a watcher batch adds to the buffer: the file paths that do not trigger a rescan.\<close>

definition file_event :: "file_path \<Rightarrow> bool" where
  "file_event path = (case as_path path of None \<Rightarrow> False | Some fs \<Rightarrow> \<not> triggers_rescan fs)"

lemma buffer_fold:
  "fold (\<lambda>path sc. case as_path path of None \<Rightarrow> sc
     | Some fs \<Rightarrow> if triggers_rescan fs then sc else sc\<lparr> sc_buffered := push_new path (sc_buffered sc) \<rparr>) paths sc =
   sc\<lparr> sc_buffered := fold push_new (filter file_event paths) (sc_buffered sc) \<rparr>"
  by (induction paths arbitrary: sc) (auto simp: file_event_def split: option.splits)

lemma fold_push_new: "set (fold push_new xs ys) = set ys \<union> set xs" "distinct (fold push_new xs ys) = distinct ys"
  by (induction xs arbitrary: ys) auto

lemma waiting_layout:
  assumes "keeps_layout db db'" and "\<forall>r\<in>set (db_workspace_roots db). r < db_next_root db"
  shows "waiting db' sc = waiting db sc"
proof -
  have "root_path db' r = root_path db r" if "r \<in> set (db_workspace_roots db)" for r
    using assms that by (auto simp: keeps_layout_def)
  then show ?thesis using assms(1) unfolding waiting_def keeps_layout_def fun_eq_iff by (metis (no_types, lifting))
qed

lemma apply_watcher_events_effect:
  assumes "apply_watcher_events dk paths skip sc db = (rqs, sc', db')"
    and "\<forall>r\<in>set (db_workspace_roots db). as_path (root_path db r) \<noteq> None"
  shows "distinct (map rq_root rqs)"
    and "rq_root ` set rqs = {r. reports_discovery db paths r \<and> scanning sc r = None}"
    and "\<forall>rq\<in>set rqs. as_path (root_path db (rq_root rq)) = Some (rq_path rq)"
    and "scanning sc' = (\<lambda>r. if reports_discovery db paths r
           then Some (if scanning sc r = None then Scanning else ScanningWithRescanQueued) else scanning sc r)"
    and "sc_buffered sc' = filter (waiting db sc') (fold push_new (filter file_event paths) (sc_buffered sc))"
    and "keeps_layout db db'"
proof -
  let ?rs = "rescan_roots (workspace_root_paths db) paths"
  obtain sc1 where rr: "request_rescans db ?rs sc = (rqs, sc1)"
    and drain: "drain_buffered dk skip (sc1\<lparr> sc_buffered := fold push_new (filter file_event paths) (sc_buffered sc1) \<rparr>) db = (sc', db')"
    using assms(1) by (auto simp: apply_watcher_events_def buffer_fold Let_def split: prod.splits)
  have "\<forall>r\<in>set ?rs. as_path (root_path db r) \<noteq> None"
    using assms(2) by (auto simp: rescan_roots_spec reports_discovery_def)
  note eff = request_rescans_effect [OF rr rescan_roots_spec(1) this]
  show "distinct (map rq_root rqs)" by (simp add: eff(1) rescan_roots_spec(1))
  have "set (map rq_root rqs) = {r. reports_discovery db paths r \<and> scanning sc r = None}"
    by (auto simp: eff(1) rescan_roots_spec(2))
  then show "rq_root ` set rqs = {r. reports_discovery db paths r \<and> scanning sc r = None}" by simp
  show "\<forall>rq\<in>set rqs. as_path (root_path db (rq_root rq)) = Some (rq_path rq)" by (rule eff(2))
  note d = drain_buffered_effect [OF drain]
  then show "scanning sc' = (\<lambda>r. if reports_discovery db paths r
           then Some (if scanning sc r = None then Scanning else ScanningWithRescanQueued) else scanning sc r)"
    using eff(3) by (simp add: rescan_roots_spec(2))
  show "sc_buffered sc' = filter (waiting db sc') (fold push_new (filter file_event paths) (sc_buffered sc))"
    using d(2) by (simp add: eff(4))
  show "keeps_layout db db'" by (rule d(3))
qed

lemma keeps_layout_apply_completed: "keeps_layout db (apply_completed c db)"
proof -
  have "keeps_layout db (snd (set_packages es db))" for es db
  proof (induction es arbitrary: db)
    case (Cons e es)
    show ?case
      using keeps_layout_trans [OF keeps_layout_set_package [of db None e] Cons.IH [of "snd (set_package None e db)"]]
      by (simp add: case_prod_beta Let_def)
  qed simp
  moreover have "keeps_layout db (upd_root r (\<lambda>d. d\<lparr> rt_packages := ps \<rparr>) db)"
    "keeps_layout db (upd_root r (\<lambda>d. d\<lparr> rt_environment_dirs := ds \<rparr>) db)" for r ps ds db by simp_all
  ultimately show ?thesis
    unfolding apply_completed_def Let_def case_prod_beta
    by (meson keeps_layout_trans keeps_layout_set_workspace_scripts)
qed

lemma apply_scan_completed_stale:
  "cp_root c \<notin> set (db_workspace_roots db) \<Longrightarrow>
   apply_scan_completed dk c owned sc db = ([], state_remove (cp_root c) sc, db)"
  by (simp add: apply_scan_completed_def)

lemma apply_scan_completed_live:
  assumes "apply_scan_completed dk c owned sc db = (rqs, sc', db')"
    and live: "cp_root c \<in> set (db_workspace_roots db)"
    and paths: "as_path (root_path db (cp_root c)) = Some p"
    and bounds: "\<forall>r\<in>set (db_workspace_roots db). r < db_next_root db"
  shows "rqs = (if scanning sc (cp_root c) = Some ScanningWithRescanQueued then [\<lparr> rq_root = cp_root c, rq_path = p \<rparr>] else [])"
    and "scanning sc' = (scanning sc)(cp_root c :=
           (if scanning sc (cp_root c) = Some ScanningWithRescanQueued then Some Scanning else None))"
    and "sc_buffered sc' = filter (waiting db sc') (sc_buffered sc)"
    and "keeps_layout db db'"
proof -
  let ?r = "cp_root c" and ?db1 = "apply_completed c db"
  let ?sc1 = "if scanning sc ?r = Some ScanningWithRescanQueued then state_insert ?r Scanning (state_remove ?r sc)
    else state_remove ?r sc"
  note layout = keeps_layout_apply_completed [of db c]
  from layout live bounds paths have p: "as_path (root_path ?db1 ?r) = Some p" by (auto simp: keeps_layout_def)
  from assms(1) live p
  have rqs: "rqs = (if scanning sc ?r = Some ScanningWithRescanQueued then [\<lparr> rq_root = ?r, rq_path = p \<rparr>] else [])"
    and drain: "drain_buffered dk owned ?sc1 ?db1 = (sc', db')"
    by (auto simp: apply_scan_completed_def Let_def split: prod.splits option.splits root_scan_state.splits)
  show "rqs = (if scanning sc ?r = Some ScanningWithRescanQueued then [\<lparr> rq_root = ?r, rq_path = p \<rparr>] else [])" by (rule rqs)
  note d = drain_buffered_effect [OF drain]
  from d(1) show "scanning sc' = (scanning sc)(?r := (if scanning sc ?r = Some ScanningWithRescanQueued then Some Scanning else None))"
    by (auto simp: fun_eq_iff)
  from d(2) show "sc_buffered sc' = filter (waiting db sc') (sc_buffered sc)"
    by (simp add: waiting_layout [OF layout bounds])
  show "keeps_layout db db'" by (rule keeps_layout_trans [OF layout d(3)])
qed

lemma set_alist_update: "set (AList.update k v m) \<subseteq> insert (k, v) (set m)"
  by (induction m) auto

lemma roots_by_path_mem:
  "(path, r) \<in> set (roots_by_path db roots) \<Longrightarrow> r \<in> set roots \<and> root_path db r = path"
proof -
  have "set (fold (\<lambda>r m. AList.update (root_path db r) r m) roots m) \<subseteq> set m \<union> (\<lambda>r. (root_path db r, r)) ` set roots" for m
  proof (induction roots arbitrary: m)
    case (Cons r roots)
    from Cons.IH [of "AList.update (root_path db r) r m"] set_alist_update [of "root_path db r" r m] show ?case by auto
  qed simp
  from this [of "[]"] show "(path, r) \<in> set (roots_by_path db roots) \<Longrightarrow> r \<in> set roots \<and> root_path db r = path"
    by (auto simp: roots_by_path_def)
qed

lemma new_paths_mem: "(scan_path, path) \<in> set (new_paths paths) \<Longrightarrow> as_path path = Some scan_path"
  by (auto simp: new_paths_def map_filter_def split: option.splits)

lemma evict_roots_effect:
  "evict_roots new owned old (sc, db) = (sc', db') \<Longrightarrow>
   scanning sc' = (\<lambda>r. if \<exists>path. (path, r) \<in> set old \<and> path \<notin> snd ` set new then None else scanning sc r) \<and>
   sc_buffered sc' = sc_buffered sc \<and> keeps_layout db db'"
proof (induction old arbitrary: sc db)
  case (Cons pr old)
  obtain path r where pr [simp]: "pr = (path, r)" by (cases pr)
  show ?case
  proof (cases "path \<in> snd ` set new")
    case True
    with Cons show ?thesis by (auto simp: evict_roots_def fun_eq_iff)
  next
    case False
    with Cons.prems have "evict_roots new owned old (state_remove r sc, set_root_stale r (Some owned) db) = (sc', db')"
      by (simp add: evict_roots_def)
    from Cons.IH [OF this] False show ?thesis
      using keeps_layout_trans [OF keeps_layout_stale [of db r "Some owned"], of db'] by (auto simp: fun_eq_iff)
  qed
qed (simp add: evict_roots_def)

lemma create_roots_effect:
  assumes "create_roots old new (rs, rqs, sc, db) = (rs', rqs', sc', db')"
    and "\<forall>(scan_path, path)\<in>set new. as_path path = Some scan_path"
  shows "\<exists>rs2 rqs2. rs' = rs @ rs2 \<and> rqs' = rqs @ rqs2 \<and> map rq_root rqs2 = [db_next_root db..<db_next_root db'] \<and>
      db_next_root db \<le> db_next_root db' \<and> (\<forall>r<db_next_root db. root_path db' r = root_path db r) \<and>
      {db_next_root db..<db_next_root db'} \<subseteq> set rs2 \<and>
      set rs2 \<subseteq> {r. \<exists>path\<in>snd ` set new. map_of old path = Some r} \<union> {db_next_root db..<db_next_root db'} \<and>
      (\<forall>rq\<in>set rqs2. as_path (root_path db' (rq_root rq)) = Some (rq_path rq)) \<and>
      scanning sc' = (\<lambda>r. if db_next_root db \<le> r \<and> r < db_next_root db' then Some Scanning else scanning sc r) \<and>
      sc_buffered sc' = sc_buffered sc"
  using assms
proof (induction new arbitrary: rs rqs sc db)
  case (Cons n new)
  obtain scan_path path where n [simp]: "n = (scan_path, path)" by (cases n)
  show ?case
  proof (cases "map_of old path")
    case (Some r)
    with Cons.prems(1) have "create_roots old new (rs @ [r], rqs, sc, db) = (rs', rqs', sc', db')"
      by (simp add: create_roots_def)
    from Cons.IH [OF this] Cons.prems(2) Some show ?thesis by auto
  next
    case None
    let ?n = "db_next_root db"
    let ?d = "\<lparr> rt_path = path, rt_kind = WorkspaceKind, rt_scripts = [], rt_packages = [], rt_environment_dirs = [] \<rparr>"
    let ?db = "db\<lparr> db_root := (db_root db)(?n := ?d), db_next_root := Suc ?n \<rparr>"
    have path: "as_path path = Some scan_path" using Cons.prems(2) by simp
    from None Cons.prems(1)
    have "create_roots old new (rs @ [?n], rqs @ [\<lparr> rq_root = ?n, rq_path = scan_path \<rparr>], state_insert ?n Scanning sc, ?db) = (rs', rqs', sc', db')"
      by (simp add: create_roots_def new_root_def)
    from Cons.IH [OF this] Cons.prems(2)
    obtain rs2 rqs2 where *: "rs' = rs @ ?n # rs2" "rqs' = rqs @ \<lparr> rq_root = ?n, rq_path = scan_path \<rparr> # rqs2"
      "map rq_root rqs2 = [Suc ?n..<db_next_root db']" "Suc ?n \<le> db_next_root db'"
      "\<forall>r<Suc ?n. root_path db' r = root_path ?db r" "{Suc ?n..<db_next_root db'} \<subseteq> set rs2"
      "set rs2 \<subseteq> {r. \<exists>path\<in>snd ` set new. map_of old path = Some r} \<union> {Suc ?n..<db_next_root db'}"
      "\<forall>rq\<in>set rqs2. as_path (root_path db' (rq_root rq)) = Some (rq_path rq)"
      "scanning sc' = (\<lambda>r. if Suc ?n \<le> r \<and> r < db_next_root db' then Some Scanning else scanning (state_insert ?n Scanning sc) r)"
      "sc_buffered sc' = sc_buffered sc"
      by auto
    have split_new: "{?n..<db_next_root db'} = insert ?n {Suc ?n..<db_next_root db'}" using *(4) by auto
    show ?thesis
    proof (intro exI conjI)
      show "rs' = rs @ ?n # rs2" "rqs' = rqs @ \<lparr> rq_root = ?n, rq_path = scan_path \<rparr> # rqs2" by (fact *)+
      show "map rq_root (\<lparr> rq_root = ?n, rq_path = scan_path \<rparr> # rqs2) = [?n..<db_next_root db']"
        using *(3,4) by (simp add: upt_conv_Cons)
      show "scanning sc' = (\<lambda>r. if ?n \<le> r \<and> r < db_next_root db' then Some Scanning else scanning sc r)"
        using *(4,9) by (auto simp: fun_eq_iff)
      show "set (?n # rs2) \<subseteq> {r. \<exists>path\<in>snd ` set (n # new). map_of old path = Some r} \<union> {?n..<db_next_root db'}"
        using *(7) unfolding split_new by auto
    qed (use * path split_new in auto)
  qed
qed (auto simp: create_roots_def fun_eq_iff)

lemma set_workspace_paths_effect:
  assumes "set_workspace_paths dk paths owned sc db = (rqs, sc', db')"
    and bounds: "\<forall>r\<in>set (db_workspace_roots db). r < db_next_root db"
  obtains gone m n where
    "db_next_root db \<le> m" "m \<le> n" "n \<le> db_next_root db'" "map rq_root rqs = [m..<n]"
    "\<forall>r<db_next_root db. root_path db' r = root_path db r"
    "\<forall>rq\<in>set rqs. as_path (root_path db' (rq_root rq)) = Some (rq_path rq)"
    "set (db_workspace_roots db') \<subseteq> set (db_workspace_roots db) \<union> {m..<n}"
    "gone \<inter> set (db_workspace_roots db') = {}"
    "scanning sc' = (\<lambda>r. if m \<le> r \<and> r < n then Some Scanning else if r \<in> gone then None else scanning sc r)"
    "sc_buffered sc' = filter (waiting db' sc') (sc_buffered sc)"
proof -
  let ?old = "roots_by_path db (db_workspace_roots db)" and ?new = "new_paths paths"
  let ?gone = "{r. \<exists>path. (path, r) \<in> set ?old \<and> path \<notin> snd ` set ?new}"
  obtain sc1 db1 where evict: "evict_roots ?new owned ?old (sc, db) = (sc1, db1)" by (metis surj_pair)
  obtain rs sc2 db2 where create: "create_roots ?old ?new ([], [], sc1, db1) = (rs, rqs, sc2, db2)"
    and drain: "drain_buffered dk owned sc2 (db2\<lparr> db_workspace_roots := rs \<rparr>) = (sc', db')"
    using assms(1) evict by (auto simp: set_workspace_paths_def split: prod.splits)
  note e = evict_roots_effect [OF evict] and d = drain_buffered_effect [OF drain]
  let ?m = "db_next_root db1" and ?n = "db_next_root db2"
  have m: "db_next_root db \<le> ?m" "\<forall>r<db_next_root db. root_path db1 r = root_path db r"
    using e by (simp_all add: keeps_layout_def)
  have "\<forall>(scan_path, path)\<in>set ?new. as_path path = Some scan_path" using new_paths_mem by blast
  from create_roots_effect [OF create this]
  have c: "map rq_root rqs = [?m..<?n]" "?m \<le> ?n" "\<forall>r<?m. root_path db2 r = root_path db1 r"
    "set rs \<subseteq> {r. \<exists>path\<in>snd ` set ?new. map_of ?old path = Some r} \<union> {?m..<?n}"
    "\<forall>rq\<in>set rqs. as_path (root_path db2 (rq_root rq)) = Some (rq_path rq)"
    "scanning sc2 = (\<lambda>r. if ?m \<le> r \<and> r < ?n then Some Scanning else scanning sc1 r)"
    "sc_buffered sc2 = sc_buffered sc1" by auto
  have ws: "db_workspace_roots db' = rs" "?n \<le> db_next_root db'" "\<forall>r<?n. root_path db' r = root_path db2 r"
    using d(3) by (simp_all add: keeps_layout_def)
  have kept: "r \<in> set (db_workspace_roots db) \<and> root_path db r \<in> snd ` set ?new" if "r \<in> set rs" "r \<notin> {?m..<?n}" for r
    using that c(4) roots_by_path_mem [OF map_of_SomeD, of db "db_workspace_roots db"] by blast
  have fresh: "r \<notin> set (db_workspace_roots db)" if "r \<in> {?m..<?n}" for r using that bounds m(1) by fastforce
  show ?thesis
  proof (rule that [where gone = ?gone and m = ?m and n = ?n])
    show "\<forall>r<db_next_root db. root_path db' r = root_path db r" using ws(3) c(2,3) m by auto
    have "rq_root rq < ?n" if "rq \<in> set rqs" for rq
    proof -
      from that have "rq_root rq \<in> set (map rq_root rqs)" by simp
      then show ?thesis unfolding c(1) by simp
    qed
    then show "\<forall>rq\<in>set rqs. as_path (root_path db' (rq_root rq)) = Some (rq_path rq)" using c(5) ws(3) by auto
    show "set (db_workspace_roots db') \<subseteq> set (db_workspace_roots db) \<union> {?m..<?n}" using kept ws(1) by auto
    show "?gone \<inter> set (db_workspace_roots db') = {}"
      unfolding ws(1) using kept fresh roots_by_path_mem [of _ _ db "db_workspace_roots db"] by blast
    have "\<forall>r\<in>set rs. r < ?n" using kept bounds m(1) c(2) by fastforce
    then have "waiting db' sc' = waiting (db2\<lparr> db_workspace_roots := rs \<rparr>) sc'"
      by (intro waiting_layout [OF d(3)]) simp
    then show "sc_buffered sc' = filter (waiting db' sc') (sc_buffered sc)" using d(2) c(7) e by simp
  qed (use m c ws d(1) e in \<open>auto simp: fun_eq_iff\<close>)
qed

end
