(* ===== verification/Placement_Invariant.thy ===== *)
theory Placement_Invariant
  imports Workspace_Placement Scan_Scheduler
begin

text \<open>
  The placement invariant of the documentation of \<^verbatim>\<open>File\<close>, \<^verbatim>\<open>Package\<close> and
  \<^verbatim>\<open>OrphanRoot\<close> (\<^verbatim>\<open>oak_db\<close>), for the whole database, and its preservation by the single
  operations of \<^verbatim>\<open>oak_scan\<close> when no root lies inside another: applying a scan, editor
  buffers, watched files, eviction and new folders.
\<close>

section \<open>Applying a scan\<close>

lemma set_package_tracked:
  assumes tr: "tracked db P D T" and cov: "covers db P D T"
    and es: "distinct (map fe_path (pe_files e @ pe_scripts e))"
      "paths_of (pe_files e @ pe_scripts e) \<inter> path_of db ` fst ` D = {}"
    and sp: "set_package ix e db = (q, db')"
  obtains fs where "tracked db' (insert q P) (D \<union> (\<lambda>f. (f, Some q)) ` set fs) T"
    "covers db' (insert q P) (D \<union> (\<lambda>f. (f, Some q)) ` set fs) T" "same_roots db db'"
    "path_of db' ` set fs = paths_of (pe_files e @ pe_scripts e)" "db_next_file db \<le> db_next_file db'"
    "\<And>g. g < db_next_file db \<Longrightarrow> path_of db' g = path_of db g"
    "pk_description_path (db_package db' q) = pe_description_path e"
    "\<And>p. p < db_next_package db \<Longrightarrow> pk_description_path (db_package db' p) = pk_description_path (db_package db p)"
    "db_next_package db \<le> db_next_package db'" "q < db_next_package db'"
proof -
  obtain db1 where fp: "find_or_new_package ix e db = (q, db1)"
    and db': "db' = set_package_contents q (pe_files e) (pe_scripts e) db1"
    using sp by (auto simp: set_package_def split: prod.splits)
  note fnd = find_or_new_package_tracked [OF tr cov fp]
  have "paths_of (pe_files e @ pe_scripts e) \<inter> path_of db1 ` fst ` D = {}" using es(2) fnd(4) by simp
  note contents = set_package_contents_tracked [OF fnd(1,2) insertI1 es(1) this db']
  show ?thesis
  proof (rule contents)
    fix fs assume fs: "tracked db' (insert q P) (D \<union> (\<lambda>f. (f, Some q)) ` set fs) T"
      "covers db' (insert q P) (D \<union> (\<lambda>f. (f, Some q)) ` set fs) T" "same_roots db1 db'" "same_packages db1 db'"
      "path_of db' ` set fs = paths_of (pe_files e @ pe_scripts e)" "db_next_file db1 \<le> db_next_file db'"
      "\<And>g. g < db_next_file db1 \<Longrightarrow> path_of db' g = path_of db1 g"
    show ?thesis
      using fs(4,6,7) fnd(6-9)
      by (intro that [OF fs(1,2) same_trans(1) [OF fnd(3) fs(3)] fs(5)])
        (simp_all add: fnd(4,5) same_packages_def)
  qed
qed

definition package_paths :: "package_entry list \<Rightarrow> file_path list" where
  "package_paths es = map fe_path (concat (map (\<lambda>e. pe_files e @ pe_scripts e) es))"

lemma paths_of_set: "paths_of es = set (map fe_path es)"
  by (simp add: paths_of_def)

lemma set_packages_tracked:
  assumes "tracked db P D T" and "covers db P D T"
    and "distinct (package_paths es)" and "set (package_paths es) \<inter> path_of db ` fst ` D = {}"
    and "set_packages es db = (qs, db')"
  shows "\<exists>D'. tracked db' (P \<union> set qs) (D \<union> D') T \<and> covers db' (P \<union> set qs) (D \<union> D') T \<and> same_roots db db' \<and>
    path_of db' ` fst ` D' = set (package_paths es) \<and>
    db_next_file db \<le> db_next_file db' \<and> (\<forall>g<db_next_file db. path_of db' g = path_of db g) \<and>
    db_next_package db \<le> db_next_package db' \<and>
    (\<forall>p<db_next_package db. pk_description_path (db_package db' p) = pk_description_path (db_package db p)) \<and>
    map (\<lambda>p. pk_description_path (db_package db' p)) qs = map pe_description_path es"
  using assms
proof (induction es arbitrary: db P D qs)
  case (Cons e es)
  obtain q db1 where sp: "set_package None e db = (q, db1)" by (metis surj_pair)
  obtain qs' where rest: "set_packages es db1 = (qs', db')" and qs: "qs = q # qs'"
    using Cons.prems(5) sp by (auto split: prod.splits)
  let ?es = "pe_files e @ pe_scripts e"
  have split_paths: "package_paths (e # es) = map fe_path ?es @ package_paths es" by (simp add: package_paths_def)
  have paths: "distinct (map fe_path ?es)" "distinct (package_paths es)" "paths_of ?es \<inter> path_of db ` fst ` D = {}"
    "set (package_paths es) \<inter> path_of db ` fst ` D = {}" "paths_of ?es \<inter> set (package_paths es) = {}"
    using Cons.prems(3,4) by (simp_all only: split_paths distinct_append set_append paths_of_set) blast+
  from set_package_tracked [OF Cons.prems(1,2) paths(1,3) sp] obtain fs where
    one: "tracked db1 (insert q P) (D \<union> (\<lambda>f. (f, Some q)) ` set fs) T"
    "covers db1 (insert q P) (D \<union> (\<lambda>f. (f, Some q)) ` set fs) T" "same_roots db db1"
    "path_of db1 ` set fs = paths_of ?es" "db_next_file db \<le> db_next_file db1"
    "\<And>g. g < db_next_file db \<Longrightarrow> path_of db1 g = path_of db g"
    "pk_description_path (db_package db1 q) = pe_description_path e"
    "\<And>p. p < db_next_package db \<Longrightarrow> pk_description_path (db_package db1 p) = pk_description_path (db_package db p)"
    "db_next_package db \<le> db_next_package db1" "q < db_next_package db1" by blast
  let ?D1 = "D \<union> (\<lambda>f. (f, Some q)) ` set fs"
  have bound: "g < db_next_file db1" if "g \<in> fst ` ?D1" for g
    using that by (intro trackedD(1) [OF one(1)]) (auto simp: in_play_def)
  have "path_of db1 ` fst ` D = path_of db ` fst ` D"
    by (intro image_cong refl one(6) trackedD(1) [OF Cons.prems(1)]) (auto simp: in_play_def)
  then have "set (package_paths es) \<inter> path_of db1 ` fst ` ?D1 = {}"
    using paths(4,5) one(4) by (auto simp: image_Un)
  from Cons.IH [OF one(1,2) paths(2) this rest] obtain D' where
    two: "tracked db' (insert q P \<union> set qs') (?D1 \<union> D') T" "covers db' (insert q P \<union> set qs') (?D1 \<union> D') T"
    "same_roots db1 db'" "path_of db' ` fst ` D' = set (package_paths es)" "db_next_file db1 \<le> db_next_file db'"
    "\<forall>g<db_next_file db1. path_of db' g = path_of db1 g" "db_next_package db1 \<le> db_next_package db'"
    "\<forall>p<db_next_package db1. pk_description_path (db_package db' p) = pk_description_path (db_package db1 p)"
    "map (\<lambda>p. pk_description_path (db_package db' p)) qs' = map pe_description_path es" by blast
  show ?case
  proof (intro exI conjI)
    let ?D' = "(\<lambda>f. (f, Some q)) ` set fs \<union> D'"
    show "tracked db' (P \<union> set qs) (D \<union> ?D') T" "covers db' (P \<union> set qs) (D \<union> ?D') T"
      using two(1,2) by (simp_all add: qs Un_assoc)
    show "same_roots db db'" by (rule same_trans(1) [OF one(3) two(3)])
    have "path_of db' ` set fs = path_of db1 ` set fs" using two(6) bound by (intro image_cong refl) auto
    then show "path_of db' ` fst ` ?D' = set (package_paths (e # es))"
      using two(4) one(4) by (simp add: image_Un image_image package_paths_def paths_of_def Un_assoc)
  qed (use one two in \<open>auto simp: qs\<close>)
qed (auto simp: package_paths_def same_roots_def intro: exI [of _ "{}"])

section \<open>The invariant\<close>

definition live_ids :: "oak_db \<Rightarrow> root_id set" where
  "live_ids db = set (db_workspace_roots db) \<union> set (db_library_roots db)"

definition live_packages :: "oak_db \<Rightarrow> package_id set" where
  "live_packages db = (\<Union>r\<in>live_ids db. set (rt_packages (db_root db r)))"

definition live_scripts :: "oak_db \<Rightarrow> file_id set" where
  "live_scripts db = (\<Union>r\<in>live_ids db. set (rt_scripts (db_root db r)))"

definition placed :: "oak_db \<Rightarrow> bool" where
  "placed db \<longleftrightarrow> tracked db (live_packages db) ((\<lambda>f. (f, None)) ` live_scripts db) {}"

definition below :: "oak_db \<Rightarrow> root_id \<Rightarrow> file_path \<Rightarrow> bool" where
  "below db r path = (case (as_path path, as_path (root_path db r)) of
     (Some p, Some rp) \<Rightarrow> path_starts_with p rp
   | _ \<Rightarrow> False)"

text \<open>Scripts and packages lie below the root that lists them, and no root lies inside another.\<close>

definition homed :: "oak_db \<Rightarrow> bool" where
  "homed db \<longleftrightarrow> (\<forall>r\<in>live_ids db. (\<forall>f\<in>set (rt_scripts (db_root db r)). below db r (path_of db f)) \<and>
     (\<forall>p\<in>set (rt_packages (db_root db r)). below db r (pk_description_path (db_package db p))))"

definition apart :: "oak_db \<Rightarrow> bool" where
  "apart db \<longleftrightarrow> (\<forall>r\<in>live_ids db. \<forall>r'\<in>live_ids db. r \<noteq> r' \<longrightarrow>
     (case (as_path (root_path db r), as_path (root_path db r')) of
        (Some rp, Some rp') \<Rightarrow> \<not> path_starts_with rp rp'
      | _ \<Rightarrow> True))"

lemma below_iff: "below db r path \<longleftrightarrow>
    (\<exists>p rp. as_path path = Some p \<and> as_path (root_path db r) = Some rp \<and> prefix rp p)"
  by (auto simp: below_def path_starts_with_def split: option.splits)

lemma below_cong: "root_path db' = root_path db \<Longrightarrow> below db' = below db"
  by (simp add: below_def fun_eq_iff)

lemma apart_cong: "live_ids db' = live_ids db \<Longrightarrow> root_path db' = root_path db \<Longrightarrow> apart db' = apart db"
  unfolding apart_def by metis

lemma apart_below:
  assumes "apart db" and "r \<in> live_ids db" and "r' \<in> live_ids db" and "below db r path" and "below db r' path"
  shows "r = r'"
proof (rule ccontr)
  assume "r \<noteq> r'"
  from assms(4,5) obtain p rp rp' where *: "as_path (root_path db r) = Some rp" "as_path (root_path db r') = Some rp'"
    "prefix rp p" "prefix rp' p" by (auto simp: below_iff)
  then have "prefix rp rp' \<or> prefix rp' rp" using prefix_same_cases by blast
  with * assms(1-3) \<open>r \<noteq> r'\<close> show False unfolding apart_def path_starts_with_def by fastforce
qed

lemma homedD:
  assumes "homed db" and "r \<in> live_ids db"
  shows "f \<in> set (rt_scripts (db_root db r)) \<Longrightarrow> below db r (path_of db f)"
    and "p \<in> set (rt_packages (db_root db r)) \<Longrightarrow> below db r (pk_description_path (db_package db p))"
  using assms by (auto simp: homed_def)

lemma tracked_upd_root [simp]: "tracked (upd_root r u db) P D T = tracked db P D T"
  by (simp add: tracked_def in_play_def package_files_def)

lemma live_files_eq:
  "live_files db = (\<Union>p\<in>live_packages db. set (package_files db p)) \<union> live_scripts db \<union> set (db_orphan_files db)"
  by (auto simp: live_files_def root_files_def live_packages_def live_scripts_def live_ids_def)

lemma live_ids_upd_root [simp]: "live_ids (upd_root r u db) = live_ids db"
  by (simp add: live_ids_def)

lemma covers_live:
  assumes "P = live_packages db" and "live_scripts db \<subseteq> fst ` D \<union> T" and "T \<subseteq> live_scripts db"
  shows "covers db P D T"
proof -
  have "f \<in> live_files db \<union> fst ` D" if "f \<in> in_play db P D T" for f
    using that assms(1,3) unfolding in_play_def live_files_eq by blast
  moreover have "set (rt_packages (db_root db r)) \<subseteq> P \<and> set (rt_scripts (db_root db r)) \<subseteq> fst ` D \<union> T"
    if "r \<in> live_ids db" for r
    using that assms(1,2) unfolding live_packages_def live_scripts_def by blast
  ultimately show ?thesis using assms(3) unfolding covers_def live_ids_def live_scripts_def by blast
qed

text \<open>The results of a scan that the invariant relies on: no path is found twice, all below the root.\<close>

definition scan_ok :: "oak_db \<Rightarrow> scan_completed \<Rightarrow> bool" where
  "scan_ok db c \<longleftrightarrow> distinct (package_paths (cp_packages c) @ map fe_path (cp_scripts c)) \<and>
     (\<forall>path\<in>set (package_paths (cp_packages c) @ map fe_path (cp_scripts c) @ map pe_description_path (cp_packages c)).
        below db (cp_root c) path)"

text \<open>The scripts of the other roots are placed before the scan; those of the root itself only have their paths.\<close>

definition other_scripts :: "oak_db \<Rightarrow> root_id \<Rightarrow> file_id set" where
  "other_scripts db r = (\<Union>r'\<in>live_ids db - {r}. set (rt_scripts (db_root db r')))"

lemma scan_start:
  assumes "placed db" and "r \<in> live_ids db"
  shows "tracked db (live_packages db) ((\<lambda>f. (f, None)) ` other_scripts db r) (set (rt_scripts (db_root db r)))"
    and "covers db (live_packages db) ((\<lambda>f. (f, None)) ` other_scripts db r) (set (rt_scripts (db_root db r)))"
    and "f \<in> other_scripts db r \<Longrightarrow> f < db_next_file db"
proof -
  show tr: "tracked db (live_packages db) ((\<lambda>f. (f, None)) ` other_scripts db r) (set (rt_scripts (db_root db r)))"
    using assms(2)
    by (intro tracked_mono [OF assms(1) [unfolded placed_def]]) (auto simp: other_scripts_def live_scripts_def image_image)
  show "covers db (live_packages db) ((\<lambda>f. (f, None)) ` other_scripts db r) (set (rt_scripts (db_root db r)))"
    using assms(2) by (intro covers_live) (auto simp: other_scripts_def live_scripts_def image_image)
  show "f < db_next_file db" if "f \<in> other_scripts db r"
    using that by (intro trackedD(1) [OF tr]) (auto simp: in_play_def image_image)
qed

lemma scan_apart:
  assumes "homed db" and "apart db" and "cp_root c \<in> live_ids db" and "scan_ok db c"
  shows "set (package_paths (cp_packages c)) \<inter> path_of db ` other_scripts db (cp_root c) = {}"
    and "set (map fe_path (cp_scripts c)) \<inter> path_of db ` other_scripts db (cp_root c) = {}"
    and "set (map fe_path (cp_scripts c)) \<inter> set (package_paths (cp_packages c)) = {}"
proof -
  have "\<not> below db (cp_root c) (path_of db f)" if "f \<in> other_scripts db (cp_root c)" for f
    using that homedD(1) [OF assms(1)] apart_below [OF assms(2,3)] unfolding other_scripts_def by blast
  moreover have "below db (cp_root c) path"
    if "path \<in> set (package_paths (cp_packages c)) \<union> set (map fe_path (cp_scripts c))" for path
    using assms(4) that unfolding scan_ok_def set_append by blast
  ultimately show "set (package_paths (cp_packages c)) \<inter> path_of db ` other_scripts db (cp_root c) = {}"
    "set (map fe_path (cp_scripts c)) \<inter> path_of db ` other_scripts db (cp_root c) = {}" by blast+
  show "set (map fe_path (cp_scripts c)) \<inter> set (package_paths (cp_packages c)) = {}"
    using assms(4) unfolding scan_ok_def distinct_append by blast
qed

text \<open>A root takes the packages of a scan.\<close>

lemma packages_applied:
  assumes ok: "placed db" "homed db" "apart db" and r: "cp_root c \<in> live_ids db" and scan: "scan_ok db c"
    and sp: "set_packages (cp_packages c) db = (qs, db1)"
  defines "db2 \<equiv> upd_root (cp_root c) (\<lambda>d. d\<lparr> rt_packages := qs \<rparr>) db1"
  obtains D where "tracked db2 (live_packages db2) ((\<lambda>f. (f, None)) ` other_scripts db (cp_root c) \<union> D) (set (rt_scripts (db_root db (cp_root c))))"
    "covers db2 (live_packages db2) ((\<lambda>f. (f, None)) ` other_scripts db (cp_root c) \<union> D) (set (rt_scripts (db_root db (cp_root c))))"
    "set (map fe_path (cp_scripts c)) \<inter> path_of db2 ` fst ` ((\<lambda>f. (f, None)) ` other_scripts db (cp_root c) \<union> D) = {}"
    "same_roots db db1" "\<forall>g<db_next_file db. path_of db1 g = path_of db g" "db_next_file db \<le> db_next_file db1"
    "\<forall>p<db_next_package db. pk_description_path (db_package db1 p) = pk_description_path (db_package db p)"
    "map (\<lambda>p. pk_description_path (db_package db1 p)) qs = map pe_description_path (cp_packages c)"
proof -
  let ?r = "cp_root c" and ?D0 = "(\<lambda>f. (f, None)) ` other_scripts db (cp_root c)" and ?T0 = "set (rt_scripts (db_root db (cp_root c)))"
  note start = scan_start [OF ok(1) r] and disj = scan_apart [OF ok(2,3) r scan]
  have fst0: "fst ` ?D0 = other_scripts db ?r" by (simp add: image_image)
  have "distinct (package_paths (cp_packages c))" using scan by (simp add: scan_ok_def)
  with disj(1) obtain D where
    one: "tracked db1 (live_packages db \<union> set qs) (?D0 \<union> D) ?T0" "same_roots db db1"
    "path_of db1 ` fst ` D = set (package_paths (cp_packages c))"
    "db_next_file db \<le> db_next_file db1" "\<forall>g<db_next_file db. path_of db1 g = path_of db g"
    "\<forall>p<db_next_package db. pk_description_path (db_package db1 p) = pk_description_path (db_package db p)"
    "map (\<lambda>p. pk_description_path (db_package db1 p)) qs = map pe_description_path (cp_packages c)"
    using set_packages_tracked [OF start(1,2) _ _ sp] unfolding fst0 by blast
  have s [simp]: "db_root db1 = db_root db" "live_ids db1 = live_ids db"
    using one(2) by (simp_all add: same_roots_def live_ids_def)
  have scripts: "live_scripts db2 = live_scripts db" by (auto simp: live_scripts_def db2_def split: if_splits)
  have "live_packages db2 \<subseteq> live_packages db \<union> set qs" by (auto simp: live_packages_def db2_def split: if_splits)
  then have "tracked db2 (live_packages db2) (?D0 \<union> D) ?T0"
    using tracked_mono [OF one(1), of "live_packages db2" "?D0 \<union> D" ?T0] by (simp add: db2_def)
  moreover have "covers db2 (live_packages db2) (?D0 \<union> D) ?T0"
    using r by (intro covers_live refl) (unfold scripts, auto simp: live_scripts_def other_scripts_def image_Un image_image)
  moreover have "path_of db2 ` other_scripts db ?r = path_of db ` other_scripts db ?r"
    using one(5) start(3) by (intro image_cong refl) (simp add: db2_def)
  then have "set (map fe_path (cp_scripts c)) \<inter> path_of db2 ` fst ` (?D0 \<union> D) = {}"
    using disj(2,3) one(3) by (simp add: image_Un image_image Int_Un_distrib db2_def)
  ultimately show ?thesis using one(2,4,5,6,7) by (intro that)
qed

lemma homed_update:
  assumes homed: "homed db" and ids: "live_ids db' = live_ids db" and paths: "root_path db' = root_path db"
    and lists: "\<And>r'. r' \<noteq> r \<Longrightarrow> rt_scripts (db_root db' r') = rt_scripts (db_root db r')"
      "\<And>r'. r' \<noteq> r \<Longrightarrow> rt_packages (db_root db' r') = rt_packages (db_root db r')"
    and old: "\<And>r' f. r' \<in> live_ids db \<Longrightarrow> r' \<noteq> r \<Longrightarrow> f \<in> set (rt_scripts (db_root db r')) \<Longrightarrow> path_of db' f = path_of db f"
      "\<And>r' p. r' \<in> live_ids db \<Longrightarrow> r' \<noteq> r \<Longrightarrow> p \<in> set (rt_packages (db_root db r')) \<Longrightarrow>
        pk_description_path (db_package db' p) = pk_description_path (db_package db p)"
    and new: "\<And>f. f \<in> set (rt_scripts (db_root db' r)) \<Longrightarrow> below db r (path_of db' f)"
      "\<And>p. p \<in> set (rt_packages (db_root db' r)) \<Longrightarrow> below db r (pk_description_path (db_package db' p))"
  shows "homed db'"
  unfolding homed_def ids below_cong [OF paths]
proof (intro ballI conjI)
  fix r' f assume r': "r' \<in> live_ids db"
  show "below db r' (path_of db' f)" if "f \<in> set (rt_scripts (db_root db' r'))"
    using that new(1) lists(1) old(1) homedD(1) [OF homed r'] r' by (cases "r' = r") auto
  show "below db r' (pk_description_path (db_package db' f))" if "f \<in> set (rt_packages (db_root db' r'))"
    using that new(2) lists(2) old(2) homedD(2) [OF homed r'] r' by (cases "r' = r") auto
qed

lemma apply_completed_placed:
  assumes ok: "placed db" "homed db" "apart db" and r: "cp_root c \<in> live_ids db" and scan: "scan_ok db c"
  shows "placed (apply_completed c db)" and "homed (apply_completed c db)"
    and "live_ids (apply_completed c db) = live_ids db" and "root_path (apply_completed c db) = root_path db"
proof -
  let ?r = "cp_root c" and ?db' = "apply_completed c db"
  let ?D0 = "(\<lambda>f. (f, None)) ` other_scripts db (cp_root c)" and ?T0 = "set (rt_scripts (db_root db (cp_root c)))"
  obtain qs db1 where sp: "set_packages (cp_packages c) db = (qs, db1)" by (metis surj_pair)
  let ?db2 = "upd_root ?r (\<lambda>d. d\<lparr> rt_packages := qs \<rparr>) db1"
  obtain D where one: "tracked ?db2 (live_packages ?db2) (?D0 \<union> D) ?T0" "covers ?db2 (live_packages ?db2) (?D0 \<union> D) ?T0"
    "set (map fe_path (cp_scripts c)) \<inter> path_of ?db2 ` fst ` (?D0 \<union> D) = {}"
    "same_roots db db1" "\<forall>g<db_next_file db. path_of db1 g = path_of db g" "db_next_file db \<le> db_next_file db1"
    "\<forall>p<db_next_package db. pk_description_path (db_package db1 p) = pk_description_path (db_package db p)"
    "map (\<lambda>p. pk_description_path (db_package db1 p)) qs = map pe_description_path (cp_packages c)"
    by (rule packages_applied [OF ok r scan sp])
  obtain fs db3 where up: "upsert_root_files None (cp_scripts c) ?db2 = (fs, db3)" by (metis surj_pair)
  have two: "tracked db3 (live_packages ?db2) (?D0 \<union> D \<union> (\<lambda>f. (f, None)) ` set fs) ?T0" "same_roots ?db2 db3"
    "same_packages ?db2 db3" "map (path_of db3) fs = map fe_path (cp_scripts c)"
    "\<forall>g<db_next_file db1. path_of db3 g = path_of db1 g"
    using upsert_root_files_tracked [OF one(1,2) _ one(3) up] scan by (simp_all add: scan_ok_def)
  have db': "?db' = upd_root ?r (\<lambda>d. d\<lparr> rt_environment_dirs := cp_environment_dirs c \<rparr>)
      (upd_root ?r (\<lambda>d. d\<lparr> rt_scripts := fs \<rparr>) db3)"
    using sp up by (simp add: apply_completed_def set_workspace_scripts_def Let_def)
  have s: "db_root db3 = (db_root db)(?r := (db_root db ?r)\<lparr> rt_packages := qs \<rparr>)"
    "live_ids db1 = live_ids db" "live_ids db3 = live_ids db"
    using one(4) two(2) by (simp_all add: same_roots_def live_ids_def)
  show ids: "live_ids ?db' = live_ids db" using s(3) by (simp add: db' live_ids_def)
  show paths: "root_path ?db' = root_path db" by (simp add: db' s fun_eq_iff)
  have packages': "rt_packages (db_root ?db' r') = (if r' = ?r then qs else rt_packages (db_root db r'))"
    and scripts': "rt_scripts (db_root ?db' r') = (if r' = ?r then fs else rt_scripts (db_root db r'))" for r'
    by (simp_all add: db' s)
  have "live_packages ?db' = live_packages ?db2"
    using one(4) by (auto simp: live_packages_def ids s packages' same_roots_def split: if_splits)
  moreover have "live_scripts ?db' = other_scripts db ?r \<union> set fs"
    using r by (auto simp: live_scripts_def other_scripts_def ids scripts' split: if_splits)
  moreover have "tracked ?db' (live_packages ?db2) ((\<lambda>f. (f, None)) ` (other_scripts db ?r \<union> set fs)) {}"
    unfolding db' tracked_upd_root by (rule tracked_mono [OF two(1)]) auto
  ultimately show "placed ?db'" by (simp add: placed_def)
  have desc: "pk_description_path (db_package ?db' p) = pk_description_path (db_package db1 p)" for p
    using two(3) by (simp add: db' same_packages_def)
  show "homed ?db'"
  proof (rule homed_update [OF ok(2) ids paths, of ?r])
    show "path_of ?db' f = path_of db f" if "r' \<in> live_ids db" "r' \<noteq> ?r" "f \<in> set (rt_scripts (db_root db r'))" for r' f
      using scan_start(3) [OF ok(1) r, of f] that one(5,6) two(5) by (force simp: other_scripts_def db')
    show "pk_description_path (db_package ?db' p) = pk_description_path (db_package db p)"
      if "r' \<in> live_ids db" "r' \<noteq> ?r" "p \<in> set (rt_packages (db_root db r'))" for r' p
      using trackedD(8) [OF scan_start(1) [OF ok(1) r], of p] that one(7) desc by (auto simp: live_packages_def)
    show "below db ?r (path_of ?db' f)" if "f \<in> set (rt_scripts (db_root ?db' ?r))" for f
      using that arg_cong [OF two(4), of set] scan by (auto simp: scripts' scan_ok_def db')
    show "below db ?r (pk_description_path (db_package ?db' p))" if "p \<in> set (rt_packages (db_root ?db' ?r))" for p
    proof -
      from that have "pk_description_path (db_package db1 p) \<in> set (map (\<lambda>p. pk_description_path (db_package db1 p)) qs)"
        by (simp add: packages')
      with one(8) scan desc show ?thesis by (simp add: scan_ok_def)
    qed
  qed (simp_all add: packages' scripts')
qed

section \<open>Single files\<close>

definition workspace_ok :: "oak_db \<Rightarrow> bool" where
  "workspace_ok db \<longleftrightarrow> placed db \<and> homed db \<and> apart db \<and> (\<forall>r\<in>live_ids db. r < db_next_root db)"

lemma workspace_okI:
  assumes "placed db'" and "homed db'" and "workspace_ok db" and "live_ids db' = live_ids db"
    and "root_path db' = root_path db" and "db_next_root db \<le> db_next_root db'"
  shows "workspace_ok db'"
  using assms apart_cong [OF assms(4,5)] by (auto simp: workspace_ok_def)

text \<open>
  An update that leaves the roots and the package lists alone keeps the invariant when tracking
  survives and the listed files keep their paths.
\<close>

lemma workspace_ok_same_lists:
  assumes ok: "workspace_ok db" and roots: "same_roots db db'" and packages: "same_packages db db'"
    and tr: "tracked db' (live_packages db) ((\<lambda>f. (f, None)) ` live_scripts db) {}"
    and paths: "\<And>f. f < db_next_file db \<Longrightarrow> path_of db' f = path_of db f"
  shows "workspace_ok db'"
proof -
  have s: "db_root db' = db_root db" "live_ids db' = live_ids db" "db_next_root db' = db_next_root db"
    using roots by (simp_all add: same_roots_def live_ids_def)
  have "placed db'" using tr by (simp add: placed_def live_packages_def live_scripts_def s)
  moreover have "f < db_next_file db" if "r \<in> live_ids db" "f \<in> set (rt_scripts (db_root db r))" for r f
    using ok that by (intro trackedD(1) [of db "live_packages db" "(\<lambda>f. (f, None)) ` live_scripts db" "{}"])
      (auto simp: workspace_ok_def placed_def in_play_def live_scripts_def image_image)
  then have "homed db'"
    using ok packages paths by (simp add: workspace_ok_def homed_def s below_def same_packages_def)
  ultimately show ?thesis by (rule workspace_okI [OF _ _ ok]) (simp_all add: s)
qed

lemma tracked_touch:
  assumes "tracked db P D T"
    and "\<And>f. path_of (upd_file g u db) f = path_of db f" "\<And>f. package_of (upd_file g u db) f = package_of db f"
  shows "tracked (upd_file g u db) P D T"
  using assms unfolding tracked_def in_play_def package_files_def by (simp add: inj_on_def)

lemma workspace_ok_touch:
  assumes "workspace_ok db" and "\<And>d. fl_path (u d) = fl_path d" and "\<And>d. fl_package (u d) = fl_package d"
  shows "workspace_ok (upd_file g u db)"
  using assms by (intro workspace_ok_same_lists [OF assms(1)] tracked_touch)
    (auto simp: same_roots_def same_packages_def workspace_ok_def placed_def)

subsection \<open>Editor buffers\<close>

lemma tracked_to_orphan:
  assumes tr: "tracked db P D T" and out: "g \<notin> in_play db P D T"
    and g: "g \<in> set (db_stale_files db) \<or> g = db_next_file db \<and>
      (\<forall>f\<in>in_play db P D T \<union> set (db_orphan_files db) \<union> set (db_stale_files db). path_of db f \<noteq> path_of db' g)"
    and paths: "\<And>f. f < db_next_file db \<Longrightarrow> path_of db' f = path_of db f"
    and packages: "\<And>f. f \<noteq> g \<Longrightarrow> package_of db' f = package_of db f" "package_of db' g = None"
    and nxt: "db_next_file db \<le> db_next_file db'" "g < db_next_file db'" "db_next_package db' = db_next_package db"
    and sets: "set (db_orphan_files db') = insert g (set (db_orphan_files db))"
      "set (db_stale_files db') = set (db_stale_files db) - {g}" "db_stale_packages db' = db_stale_packages db"
    and lists: "db_package db' = db_package db"
  shows "tracked db' P D T"
proof -
  let ?all = "in_play db P D T \<union> set (db_orphan_files db) \<union> set (db_stale_files db)"
  have pf: "package_files db' = package_files db" using lists by (simp add: package_files_def fun_eq_iff)
  have play: "in_play db' P D T = in_play db P D T" by (simp add: in_play_def pf)
  have bound: "f < db_next_file db" if "f \<in> ?all" for f using that by (rule trackedD(1) [OF tr])
  have all': "in_play db' P D T \<union> set (db_orphan_files db') \<union> set (db_stale_files db') = insert g ?all"
    using sets by (auto simp: play)
  have "inj_on (path_of db') (insert g ?all)"
  proof (cases "g \<in> ?all")
    case True
    then have "insert g ?all = ?all" by blast
    then show ?thesis using trackedD(2) [OF tr] bound paths by (simp add: inj_on_def)
  next
    case False
    then have "\<forall>f\<in>?all. path_of db f \<noteq> path_of db' g" using g by blast
    then have "path_of db' g \<notin> path_of db' ` ?all" using bound paths by auto
    moreover have "inj_on (path_of db') ?all" using trackedD(2) [OF tr] bound paths by (simp add: inj_on_def)
    ultimately show ?thesis using False by (simp add: inj_on_insert)
  qed
  show ?thesis
  proof (rule trackedI)
    show "inj_on (path_of db') (in_play db' P D T \<union> set (db_orphan_files db') \<union> set (db_stale_files db'))"
      unfolding all' by fact
    show "f < db_next_file db'" if "f \<in> in_play db' P D T \<union> set (db_orphan_files db') \<union> set (db_stale_files db')" for f
      using that nxt(1,2) bound unfolding all' by fastforce
    show "package_of db' f = Some p" if "p \<in> P" "f \<in> set (package_files db' p)" for p f
    proof -
      have "f \<noteq> g" using that out by (auto simp: pf in_play_def)
      with trackedD(4) [OF tr, of p f] that packages(1) show ?thesis by (simp add: pf)
    qed
    show "package_of db' f = po \<and> f \<notin> set (db_orphan_files db')" if "(f, po) \<in> D" for f po
    proof -
      have "f \<noteq> g" using that out by (force simp: in_play_def)
      with trackedD(5) [OF tr that] packages(1) sets(1) show ?thesis by simp
    qed
    show "set (db_stale_files db') \<inter> (in_play db' P D T \<union> set (db_orphan_files db')) = {}"
      using trackedD(7) [OF tr] sets by (auto simp: play)
    show "package_of db' f = None" if "f \<in> set (db_orphan_files db')" for f
      using that packages trackedD(6) [OF tr, of f] sets(1) by (cases "f = g") auto
  qed (use trackedD(3,8,9) [OF tr] sets nxt in \<open>auto simp: pf\<close>)
qed

lemma live_in_play: "live_files db = in_play db (live_packages db) ((\<lambda>f. (f, None)) ` live_scripts db) {} \<union> set (db_orphan_files db)"
  by (auto simp: live_files_eq in_play_def image_image)

lemma workspace_okD:
  assumes "workspace_ok db"
  shows "placed db" "homed db" "apart db" "tracked db (live_packages db) ((\<lambda>f. (f, None)) ` live_scripts db) {}"
    and "r \<in> live_ids db \<Longrightarrow> r < db_next_root db"
  using assms by (simp_all add: workspace_ok_def placed_def)

lemma add_to_orphan_eq: "set (db_orphan_files (add_to_orphan_files f db)) = insert f (set (db_orphan_files db))"
  by (auto simp: add_to_orphan_files_def)

lemma add_to_orphan_frame [simp]:
  "db_file (add_to_orphan_files f db) = db_file db" "db_package (add_to_orphan_files f db) = db_package db"
  "db_next_file (add_to_orphan_files f db) = db_next_file db" "db_next_package (add_to_orphan_files f db) = db_next_package db"
  "db_stale_files (add_to_orphan_files f db) = db_stale_files db" "db_stale_packages (add_to_orphan_files f db) = db_stale_packages db"
  "db_root (add_to_orphan_files f db) = db_root db" "db_next_root (add_to_orphan_files f db) = db_next_root db"
  "db_workspace_roots (add_to_orphan_files f db) = db_workspace_roots db"
  "db_library_roots (add_to_orphan_files f db) = db_library_roots db"
  by (simp_all add: add_to_orphan_files_def)

lemma upsert_editor_ok:
  assumes ok: "workspace_ok db"
  shows "workspace_ok (snd (upsert_editor path contents db))"
proof -
  note tr = workspace_okD(4) [OF ok]
  show ?thesis
  proof (cases "file_by_path db path")
    case (Some f)
    then show ?thesis using workspace_ok_touch [OF ok] by (simp add: upsert_editor_def set_override_def)
  next
    case None
    show ?thesis
    proof (cases "stale_file_by_path db path")
      case (Some g)
      then have g: "g \<in> set (db_stale_files db)" by (auto simp: stale_file_by_path_def dest!: index_by_Some)
      let ?db' = "snd (upsert_editor path contents db)"
      have db': "?db' = add_to_orphan_files g (remove_from_stale_files g (set_package_back g None (set_override g (Some contents) db)))"
        using None Some by (simp add: upsert_editor_def)
      have sel: "db_file ?db' = (db_file db)(g := (db_file db g)\<lparr> fl_source_text_override := Some contents, fl_package := None \<rparr>)"
        "db_package ?db' = db_package db" "db_next_file ?db' = db_next_file db" "db_next_package ?db' = db_next_package db"
        "set (db_orphan_files ?db') = insert g (set (db_orphan_files db))"
        "set (db_stale_files ?db') = set (db_stale_files db) - {g}" "db_stale_packages ?db' = db_stale_packages db"
        "same_roots db ?db'"
        by (auto simp: db' add_to_orphan_eq remove_from_stale_files_eq set_package_back_def set_override_def same_roots_def)
      show ?thesis
        using g trackedD(1,7) [OF tr]
        by (intro workspace_ok_same_lists [OF ok sel(8)] tracked_to_orphan [OF tr, of g])
          (auto simp: sel same_packages_def)
    next
      case stale: None
      let ?g = "db_next_file db" and ?db' = "snd (upsert_editor path contents db)"
      let ?d = "\<lparr> fl_path = path, fl_revision = zero_revision, fl_source_text_override = Some contents, fl_package = None \<rparr>"
      have db': "?db' = add_to_orphan_files ?g (db\<lparr> db_file := (db_file db)(?g := ?d), db_next_file := Suc ?g \<rparr>)"
        using None stale by (simp add: upsert_editor_def new_file_def)
      have sel: "db_file ?db' = (db_file db)(?g := ?d)"
        "db_package ?db' = db_package db" "db_next_file ?db' = Suc ?g" "db_next_package ?db' = db_next_package db"
        "set (db_orphan_files ?db') = insert ?g (set (db_orphan_files db))"
        "db_stale_files ?db' = db_stale_files db" "db_stale_packages ?db' = db_stale_packages db"
        "same_roots db ?db'"
        by (auto simp: db' add_to_orphan_eq same_roots_def)
      have unused: "\<forall>f\<in>live_files db \<union> set (db_stale_files db). path_of db f \<noteq> path"
        using None stale by (auto simp: file_by_path_None stale_file_by_path_def index_by_None)
      have fresh: "?g \<notin> live_files db \<union> set (db_stale_files db)" using trackedD(1) [OF tr] by (auto simp: live_in_play)
      show ?thesis
        using unused fresh unfolding live_in_play
        by (intro workspace_ok_same_lists [OF ok sel(8)] tracked_to_orphan [OF tr, of ?g])
          (auto simp: sel same_packages_def)
    qed
  qed
qed

lemma tracked_orphan_out: "tracked db P D {} \<Longrightarrow> in_play db P D {} \<inter> set (db_orphan_files db) = {}"
  using trackedD(4-6) [of db P D "{}"] unfolding in_play_def by fastforce

lemma tracked_buckets:
  assumes tr: "tracked db P D T"
    and same: "db_file db' = db_file db" "db_package db' = db_package db" "db_next_file db' = db_next_file db"
      "db_next_package db' = db_next_package db" "db_stale_packages db' = db_stale_packages db"
    and sets: "set (db_orphan_files db') \<subseteq> set (db_orphan_files db)"
      "set (db_stale_files db') \<subseteq> set (db_orphan_files db) \<union> set (db_stale_files db)"
      "set (db_stale_files db') \<inter> (in_play db P D T \<union> set (db_orphan_files db')) = {}"
  shows "tracked db' P D T"
proof -
  have pf: "package_files db' = package_files db" using same(2) by (simp add: package_files_def fun_eq_iff)
  have play: "in_play db' P D T = in_play db P D T" by (simp add: in_play_def pf)
  have sub: "in_play db' P D T \<union> set (db_orphan_files db') \<union> set (db_stale_files db') \<subseteq>
      in_play db P D T \<union> set (db_orphan_files db) \<union> set (db_stale_files db)" using sets play by blast
  show ?thesis
  proof (rule trackedI)
    show "inj_on (path_of db') (in_play db' P D T \<union> set (db_orphan_files db') \<union> set (db_stale_files db'))"
      unfolding same(1) by (rule inj_on_subset [OF trackedD(2) [OF tr] sub])
    show "f < db_next_file db'" if "f \<in> in_play db' P D T \<union> set (db_orphan_files db') \<union> set (db_stale_files db')" for f
      unfolding same(3) by (rule trackedD(1) [OF tr]) (use that sub in blast)
    show "set (db_stale_files db') \<inter> (in_play db' P D T \<union> set (db_orphan_files db')) = {}" unfolding play by fact
    show "package_of db' f = po \<and> f \<notin> set (db_orphan_files db')" if "(f, po) \<in> D" for f po
      using trackedD(5) [OF tr that] sets(1) by (auto simp: same)
  qed (use trackedD(3,4,6,8,9) [OF tr] sets(1) in \<open>auto simp: pf same\<close>)
qed

lemma close_editor_ok:
  assumes ok: "workspace_ok db"
  shows "workspace_ok (close_editor path db)"
proof (cases "file_by_path db path")
  case (Some f)
  let ?db1 = "set_override f None db"
  have ok1: "workspace_ok ?db1" using workspace_ok_touch [OF ok] by (simp add: set_override_def)
  note tr = workspace_okD(4) [OF ok1]
  show ?thesis
  proof (cases "f \<in> set (db_orphan_files ?db1)")
    case True
    let ?db' = "close_editor path db"
    from True trackedD(7) [OF tr] have "f \<notin> set (db_stale_files ?db1)" by blast
    with Some True have db': "?db' = ?db1\<lparr> db_orphan_files := filter (\<lambda>y. y \<noteq> f) (db_orphan_files ?db1),
        db_stale_files := db_stale_files ?db1 @ [f] \<rparr>"
      by (simp add: close_editor_def Let_def)
    show ?thesis
      using True trackedD(7) [OF tr] tracked_orphan_out [OF tr] unfolding db'
      by (intro workspace_ok_same_lists [OF ok1] tracked_buckets [OF tr])
        (auto simp: same_roots_def same_packages_def)
  next
    case False
    then show ?thesis using Some ok1 by (simp add: close_editor_def Let_def)
  qed
qed (simp add: close_editor_def ok)

subsection \<open>Watched files\<close>

lemma tracked_lists:
  assumes tr: "tracked db P D T"
    and same: "db_file db' = db_file db" "db_next_file db' = db_next_file db" "db_next_package db' = db_next_package db"
      "db_orphan_files db' = db_orphan_files db" "db_stale_files db' = db_stale_files db" "db_stale_packages db' = db_stale_packages db"
    and lists: "\<And>p. set (package_files db' p) \<subseteq> set (package_files db p) \<union> {f. (f, Some p) \<in> D \<and> p \<in> P}"
      "\<And>p. p \<in> P \<Longrightarrow> distinct (package_files db' p)"
  shows "tracked db' P D T"
proof -
  have sub: "in_play db' P D T \<subseteq> in_play db P D T" using lists(1) unfolding in_play_def by force
  show ?thesis
  proof (rule trackedI)
    show "inj_on (path_of db') (in_play db' P D T \<union> set (db_orphan_files db') \<union> set (db_stale_files db'))"
      unfolding same by (rule inj_on_subset [OF trackedD(2) [OF tr]]) (use sub in blast)
    show "f < db_next_file db'" if "f \<in> in_play db' P D T \<union> set (db_orphan_files db') \<union> set (db_stale_files db')" for f
      unfolding same by (rule trackedD(1) [OF tr]) (use that sub in \<open>auto simp: same\<close>)
    show "package_of db' f = Some p" if "p \<in> P" "f \<in> set (package_files db' p)" for p f
      using lists(1) [of p] that trackedD(4) [OF tr that(1), of f] trackedD(5) [OF tr, of f "Some p"] by (auto simp: same)
    show "set (db_stale_files db') \<inter> (in_play db' P D T \<union> set (db_orphan_files db')) = {}"
      using trackedD(7) [OF tr] sub unfolding same by blast
    show "package_files db' p = [] \<and> p \<notin> P" if "p \<in> set (db_stale_packages db')" for p
      using trackedD(9) [OF tr, of p] that lists(1) [of p] by (simp add: same)
  qed (use trackedD(5,6,8) [OF tr] lists(2) in \<open>simp_all add: same\<close>)
qed

text \<open>The scripts of a root change to files that are tracked without a package and lie below it.\<close>

lemma workspace_ok_scripts:
  assumes ok: "workspace_ok db" and r: "r \<in> live_ids db"
    and tr: "tracked db (live_packages db) ((\<lambda>f. (f, None)) ` (live_scripts db \<union> set ss)) {}"
    and home: "\<And>f. f \<in> set ss \<Longrightarrow> below db r (path_of db f)"
  shows "workspace_ok (upd_root r (\<lambda>d. d\<lparr> rt_scripts := ss \<rparr>) db)" (is "workspace_ok ?db'")
proof -
  have ids: "live_ids ?db' = live_ids db" by (simp add: live_ids_def)
  have paths: "root_path ?db' = root_path db" by (simp add: fun_eq_iff)
  have packages: "live_packages ?db' = live_packages db" by (auto simp: live_packages_def ids split: if_splits)
  have scripts: "live_scripts ?db' \<subseteq> live_scripts db \<union> set ss" by (auto simp: live_scripts_def ids split: if_splits)
  have "tracked ?db' (live_packages db) ((\<lambda>f. (f, None)) ` live_scripts ?db') {}"
    unfolding tracked_upd_root by (rule tracked_mono [OF tr]) (use scripts in auto)
  then have "placed ?db'" by (simp add: placed_def packages)
  moreover have "homed ?db'"
    using workspace_okD(2) [OF ok] home unfolding homed_def ids below_cong [OF paths] by auto
  ultimately show ?thesis by (rule workspace_okI [OF _ _ ok ids paths]) simp
qed

lemma remove_from_first_root_cases:
  "(\<exists>r\<in>set rs. f \<in> set (rt_scripts (db_root db r)) \<and> remove_from_first_root rs f db =
      upd_root r (\<lambda>d. d\<lparr> rt_scripts := filter (\<lambda>y. y \<noteq> f) (rt_scripts (db_root db r)) \<rparr>) db) \<or>
   (\<forall>r\<in>set rs. f \<notin> set (rt_scripts (db_root db r))) \<and> remove_from_first_root rs f db = remove_from_orphan f db"
  by (induction rs) auto

lemma remove_watched_file_ok:
  assumes ok: "workspace_ok db"
  shows "workspace_ok (remove_watched_file path db)"
proof (cases "file_by_path db path")
  case (Some f)
  note tr = workspace_okD(4) [OF ok]
  show ?thesis
  proof (cases "package_of db f")
    case (Some p)
    have "tracked (remove_from_pkg_files p f db) (live_packages db) ((\<lambda>f. (f, None)) ` live_scripts db) {}"
    proof (rule tracked_lists [OF tr])
      fix q
      show "set (package_files (remove_from_pkg_files p f db) q) \<subseteq> set (package_files db q) \<union>
          {g. (g, Some q) \<in> (\<lambda>f. (f, None)) ` live_scripts db \<and> q \<in> live_packages db}"
        using package_files_remove_subset by blast
      show "distinct (package_files (remove_from_pkg_files p f db) q)" if "q \<in> live_packages db"
        using trackedD(3) [OF tr that] by (cases "q = p") (simp_all add: package_files_remove)
    qed simp_all
    then show ?thesis
      using \<open>file_by_path db path = Some f\<close> Some
      by (simp add: remove_watched_file_def) (rule workspace_ok_same_lists [OF ok]; simp add: same_roots_def same_packages_def)
  next
    case None
    let ?db' = "remove_from_first_root (db_workspace_roots db) f db"
    have db': "remove_watched_file path db = ?db'"
      using \<open>file_by_path db path = Some f\<close> None by (simp add: remove_watched_file_def)
    from remove_from_first_root_cases [of "db_workspace_roots db" f db] show ?thesis
      unfolding db'
    proof (elim disjE bexE conjE)
      fix r assume r: "r \<in> set (db_workspace_roots db)" and eq: "?db' =
          upd_root r (\<lambda>d. d\<lparr> rt_scripts := filter (\<lambda>y. y \<noteq> f) (rt_scripts (db_root db r)) \<rparr>) db"
      have live: "r \<in> live_ids db" using r by (simp add: live_ids_def)
      then have "live_scripts db \<union> set (filter (\<lambda>y. y \<noteq> f) (rt_scripts (db_root db r))) = live_scripts db"
        by (auto simp: live_scripts_def)
      then show "workspace_ok ?db'"
        unfolding eq using tr homedD(1) [OF workspace_okD(2) [OF ok] live] by (intro workspace_ok_scripts [OF ok live]) auto
    next
      assume "?db' = remove_from_orphan f db"
      then show "workspace_ok ?db'"
        using trackedD(7) [OF tr] unfolding remove_from_orphan_eq
        by (simp only:) (intro workspace_ok_same_lists [OF ok] tracked_buckets [OF tr];
            auto simp: same_roots_def same_packages_def)
    qed
  qed
qed (simp add: remove_watched_file_def ok)

lemma find_SomeD: "find P xs = Some x \<Longrightarrow> x \<in> set xs \<and> P x"
  by (auto simp: find_Some_iff)

lemma classify_Some:
  assumes "classify dk db path = Some pl"
  obtains r where "r \<in> set (db_workspace_roots db)" "below db r (FilePath path)"
    "pl = Script r \<or> (\<exists>p\<in>set (rt_packages (db_root db r)). pl = PackageFile p \<or> pl = PackageScript p)"
proof -
  from assms obtain r where r: "workspace_root_containing db path = Some r"
    and pl: "pl = Script r \<or> (\<exists>p\<in>set (rt_packages (db_root db r)). pl = PackageFile p \<or> pl = PackageScript p)"
    by (auto simp: classify_def split: if_splits option.splits package_placement.splits dest!: find_SomeD)
  from r have "r \<in> set (db_workspace_roots db)" "below db r (FilePath path)"
    unfolding workspace_root_containing_def by (auto simp: below_def split: option.splits dest!: find_SomeD)
  then show ?thesis using pl by (rule that)
qed

lemma tracked_push:
  assumes tr: "tracked db P D T" and f: "(f, Some p) \<in> D" and p: "p \<in> P"
    and same: "db_file db' = db_file db" "db_next_file db' = db_next_file db" "db_next_package db' = db_next_package db"
      "db_orphan_files db' = db_orphan_files db" "db_stale_files db' = db_stale_files db" "db_stale_packages db' = db_stale_packages db"
    and lists: "set (package_files db' p) = insert f (set (package_files db p))" "distinct (package_files db' p)"
      "\<And>q. q \<noteq> p \<Longrightarrow> package_files db' q = package_files db q"
  shows "tracked db' P D T"
proof (rule tracked_lists [OF tr same])
  fix q
  show "set (package_files db' q) \<subseteq> set (package_files db q) \<union> {g. (g, Some q) \<in> D \<and> q \<in> P}"
    using lists f p by (cases "q = p") auto
  show "distinct (package_files db' q)" if "q \<in> P"
    using lists trackedD(3) [OF tr that] by (cases "q = p") auto
qed

lemma workspace_ok_push:
  assumes ok: "workspace_ok db" and p: "p \<in> live_packages db" and new: "f \<notin> set (package_files db p)"
    and tr: "tracked db (live_packages db) (insert (f, Some p) ((\<lambda>f. (f, None)) ` live_scripts db)) {}"
    and u: "\<And>d. pk_description_path (u d) = pk_description_path d"
      "package_files (upd_package p u db) p = xs @ f # ys" "xs @ ys = package_files db p"
  shows "workspace_ok (upd_package p u db)"
proof -
  let ?db' = "upd_package p u db"
  have "set (package_files ?db' p) = insert f (set (package_files db p))" unfolding u(2) u(3) [symmetric] by simp
  moreover have "distinct (package_files ?db' p)"
    using trackedD(3) [OF tr p] new unfolding u(2) u(3) [symmetric] by auto
  moreover have "\<And>q. q \<noteq> p \<Longrightarrow> package_files ?db' q = package_files db q" by (simp add: package_files_def)
  ultimately have "tracked ?db' (live_packages db) (insert (f, Some p) ((\<lambda>f. (f, None)) ` live_scripts db)) {}"
    by (intro tracked_push [OF tr insertI1 p]) simp_all
  then have "tracked ?db' (live_packages db) ((\<lambda>f. (f, None)) ` live_scripts db) {}" by (rule tracked_mono) auto
  then show ?thesis using u(1) by (intro workspace_ok_same_lists [OF ok]) (simp_all add: same_roots_def same_packages_def)
qed

lemma add_watched_file_ok:
  assumes ok: "workspace_ok db"
  shows "workspace_ok (add_watched_file dk path db)"
proof -
  let ?db' = "add_watched_file dk path db"
  consider "?db' = db" | g v where "?db' = set_revision g v db"
    | fs pl where "as_path path = Some fs" "file_by_path db path = None" "classify dk db fs = Some pl"
    by (cases "as_path path"; cases "file_by_path db path"; cases "classify dk db (the (as_path path))")
      (simp_all add: add_watched_file_def Let_def)
  then show ?thesis
  proof cases
    case (2 g v)
    then show ?thesis using workspace_ok_touch [OF ok] by (simp add: set_revision_def)
  next
    case (3 fs pl)
    let ?e = "\<lparr> fe_path = path, fe_revision = disk_revision dk fs \<rparr>" and ?P = "live_packages db"
    let ?D = "(\<lambda>f. (f, None)) ` live_scripts db"
    obtain f db1 where up: "upsert_root_file (package_backpointer pl) ?e db = (f, db1)" by (metis surj_pair)
    have db': "?db' = append_to_container f pl db1" using 3 up by (simp add: add_watched_file_def Let_def)
    have path: "path = FilePath fs" using 3(1) by (cases path) auto
    note tr = workspace_okD(4) [OF ok]
    have cov: "covers db ?P ?D {}" by (rule covers_live) (auto simp: image_image)
    have unseen: "\<forall>g\<in>live_files db. path_of db g \<noteq> path" using 3(2) by (simp add: file_by_path_None)
    then have "fe_path ?e \<notin> path_of db ` fst ` ?D" by (auto simp: live_files_eq)
    note one = upsert_root_file_tracked [OF tr cov this up]
    have s [simp]: "db_root db1 = db_root db" "live_ids db1 = live_ids db"
      using one(3) by (simp_all add: same_roots_def live_ids_def)
    have lp [simp]: "live_packages db1 = ?P" and ls [simp]: "live_scripts db1 = live_scripts db"
      by (simp_all add: live_packages_def live_scripts_def)
    have ok1: "workspace_ok db1"
      by (rule workspace_ok_same_lists [OF ok one(3,4) tracked_mono [OF one(1)] one(8)]) auto
    obtain r where r: "r \<in> set (db_workspace_roots db)" "below db r path"
      and pl: "pl = Script r \<or> (\<exists>p\<in>set (rt_packages (db_root db r)). pl = PackageFile p \<or> pl = PackageScript p)"
      using classify_Some [OF 3(3)] path by metis
    have live: "r \<in> live_ids db" using r(1) by (simp add: live_ids_def)
    have new: "f \<notin> set (package_files db1 p)" if "p \<in> ?P" for p
    proof
      assume "f \<in> set (package_files db1 p)"
      with one(9) have f: "f \<in> set (package_files db p)" by blast
      with that have "f \<in> live_files db" by (auto simp: live_files_eq)
      moreover from f that have "f < db_next_file db" by (intro trackedD(1) [OF tr]) (auto simp: in_play_def)
      ultimately show False using unseen one(5,8) by auto
    qed
    show ?thesis
    proof (cases pl)
      case (Script r')
      then have r': "r' = r" using pl by auto
      have "workspace_ok (upd_root r (\<lambda>d. d\<lparr> rt_scripts := rt_scripts (db_root db r) @ [f] \<rparr>) db1)"
      proof (rule workspace_ok_scripts [OF ok1])
        show "tracked db1 (live_packages db1) ((\<lambda>f. (f, None)) ` (live_scripts db1 \<union> set (rt_scripts (db_root db r) @ [f]))) {}"
          using one(1) live Script by (elim tracked_mono) (auto simp: live_scripts_def)
        show "below db1 r (path_of db1 g)" if "g \<in> set (rt_scripts (db_root db r) @ [f])" for g
          using that homedD(1) [OF workspace_okD(2) [OF ok1], of r g] live r(2) one(5) by (auto simp: below_def)
      qed (simp add: live)
      then show ?thesis using ok1 by (simp add: db' Script r')
    next
      case (PackageFile p)
      then have p: "p \<in> ?P" using pl live by (auto simp: live_packages_def)
      have "workspace_ok (upd_package p (\<lambda>d. d\<lparr> pk_files := pk_files (db_package db1 p) @ [f] \<rparr>) db1)"
        using one(1) p PackageFile
        by (intro workspace_ok_push [OF ok1 _ new [OF p], where xs = "pk_files (db_package db1 p)" and ys = "pk_scripts (db_package db1 p)"])
          (simp_all add: package_files_def)
      then show ?thesis using ok1 by (simp add: db' PackageFile)
    next
      case (PackageScript p)
      then have p: "p \<in> ?P" using pl live by (auto simp: live_packages_def)
      have "workspace_ok (upd_package p (\<lambda>d. d\<lparr> pk_scripts := pk_scripts (db_package db1 p) @ [f] \<rparr>) db1)"
        using one(1) p PackageScript
        by (intro workspace_ok_push [OF ok1 _ new [OF p], where xs = "package_files db1 p" and ys = "[]"])
          (simp_all add: package_files_def)
      then show ?thesis using ok1 by (simp add: db' PackageScript)
    qed
  qed (simp add: ok)
qed

section \<open>Workspace folders\<close>

lemma fold_unset_package:
  "fold (\<lambda>f. set_package_back f None) fs db =
   db\<lparr> db_file := (\<lambda>f. if f \<in> set fs then (db_file db f)\<lparr> fl_package := None \<rparr> else db_file db f) \<rparr>"
  by (induction fs arbitrary: db) (auto simp: set_package_back_def upd_file_def intro!: oak_db.fold_congs)

lemma clear_packages_eq:
  "clear_packages ps db =
   db\<lparr> db_package := (\<lambda>p. if p \<in> set ps then (db_package db p)\<lparr> pk_files := [], pk_scripts := [] \<rparr> else db_package db p) \<rparr>"
  unfolding clear_packages_def
  by (induction ps arbitrary: db) (auto simp: upd_package_def intro!: oak_db.fold_congs)

lemma extend_set_set: "set (extend_set xs ys) = set xs \<union> set ys"
  unfolding extend_set_def by (induction ys arbitrary: xs) auto

definition owned_by :: "file_path set option \<Rightarrow> oak_db \<Rightarrow> file_id \<Rightarrow> bool" where
  "owned_by owned db f = (case owned of None \<Rightarrow> False | Some ps \<Rightarrow> path_of db f \<in> ps)"

lemma set_root_stale_shape:
  fixes db r owned
  defines "db' \<equiv> set_root_stale r owned db"
  shows "db_file db' = (\<lambda>f. if f \<in> set (root_files db r) then (db_file db f)\<lparr> fl_package := None \<rparr> else db_file db f)"
    and "db_package db' = (\<lambda>p. if p \<in> set (rt_packages (db_root db r))
           then (db_package db p)\<lparr> pk_files := [], pk_scripts := [] \<rparr> else db_package db p)"
    and "db_root db' = (db_root db)(r := (db_root db r)\<lparr> rt_scripts := [], rt_packages := [], rt_environment_dirs := [] \<rparr>)"
    and "set (db_orphan_files db') = set (db_orphan_files db) \<union> {f \<in> set (root_files db r). owned_by owned db f}"
    and "set (db_stale_files db') = set (db_stale_files db) \<union> {f \<in> set (root_files db r). \<not> owned_by owned db f}"
    and "set (db_stale_packages db') = set (db_stale_packages db) \<union> set (rt_packages (db_root db r))"
    and "db_next_file db' = db_next_file db" "db_next_package db' = db_next_package db" "db_next_root db' = db_next_root db"
    and "db_workspace_roots db' = db_workspace_roots db" "db_library_roots db' = db_library_roots db"
  unfolding db'_def set_root_stale_def Let_def fold_unset_package clear_packages_eq
  by (auto simp: extend_set_set owned_by_def split: option.splits if_splits)

text \<open>What a root lists is not listed by any other root.\<close>

lemma root_disjoint:
  assumes ok: "workspace_ok db" and r: "r \<in> live_ids db" "r' \<in> live_ids db" "r \<noteq> r'"
  shows "p \<in> set (rt_packages (db_root db r)) \<Longrightarrow> p \<notin> set (rt_packages (db_root db r'))"
    and "f \<in> set (root_files db r) \<Longrightarrow> f \<notin> set (rt_scripts (db_root db r'))"
    and "f \<in> set (root_files db r) \<Longrightarrow> p \<in> set (rt_packages (db_root db r')) \<Longrightarrow> f \<notin> set (package_files db p)"
proof -
  note tr = workspace_okD(4) [OF ok] and homed = workspace_okD(2) [OF ok] and apart = workspace_okD(3) [OF ok]
  have D: "package_of db f = None" if "r \<in> live_ids db" "f \<in> set (rt_scripts (db_root db r))" for r f
    using trackedD(5) [OF tr, of f None] that by (auto simp: live_scripts_def)
  have L: "package_of db f = Some p" if "r \<in> live_ids db" "p \<in> set (rt_packages (db_root db r))" "f \<in> set (package_files db p)" for r p f
    using that by (intro trackedD(4) [OF tr]) (auto simp: live_packages_def)
  show packages: "p \<notin> set (rt_packages (db_root db r'))" if "p \<in> set (rt_packages (db_root db r))" for p
    using homedD(2) [OF homed r(1) that] homedD(2) [OF homed r(2), of p] apart_below [OF apart r(1,2)] r(3) by blast
  have scripts: "f \<notin> set (rt_scripts (db_root db r'))" if "f \<in> set (rt_scripts (db_root db r))" for f
    using homedD(1) [OF homed r(1) that] homedD(1) [OF homed r(2), of f] apart_below [OF apart r(1,2)] r(3) by blast
  show "f \<notin> set (rt_scripts (db_root db r'))" if "f \<in> set (root_files db r)" for f
    using that scripts [of f] D [OF r(2), of f] L [OF r(1), of _ f] by (auto simp: root_files_def)
  show "f \<notin> set (package_files db p)" if "f \<in> set (root_files db r)" "p \<in> set (rt_packages (db_root db r'))"
  proof
    assume "f \<in> set (package_files db p)"
    then have *: "package_of db f = Some p" using that(2) L [OF r(2)] by blast
    from that(1) consider "f \<in> set (rt_scripts (db_root db r))"
      | q where "q \<in> set (rt_packages (db_root db r))" "f \<in> set (package_files db q)" by (auto simp: root_files_def)
    then show False
    proof cases
      case 1
      with * D [OF r(1)] show False by simp
    next
      case (2 q)
      with L [OF r(1)] * have "q = p" by fastforce
      with 2 packages that(2) show False by blast
    qed
  qed
qed

lemma set_root_stale_ok:
  assumes ok: "workspace_ok db" and r: "r \<in> live_ids db"
  shows "workspace_ok (set_root_stale r owned db)"
proof -
  let ?db' = "set_root_stale r owned db" and ?rs = "set (root_files db r)"
  let ?P = "live_packages db" and ?D = "(\<lambda>f. (f, None)) ` live_scripts db"
  note tr = workspace_okD(4) [OF ok] and s = set_root_stale_shape [of r owned db]
  have ids: "live_ids ?db' = live_ids db" by (simp add: live_ids_def s)
  have paths: "root_path ?db' = root_path db" by (simp add: s fun_eq_iff)
  have P': "live_packages ?db' = (\<Union>r'\<in>live_ids db - {r}. set (rt_packages (db_root db r')))"
    unfolding live_packages_def ids s by (auto split: if_splits)
  have S': "live_scripts ?db' = (\<Union>r'\<in>live_ids db - {r}. set (rt_scripts (db_root db r')))"
    unfolding live_scripts_def ids s by (auto split: if_splits)
  have lists: "package_files ?db' p = (if p \<in> set (rt_packages (db_root db r)) then [] else package_files db p)" for p
    by (simp add: package_files_def s)
  have out_packages: "p \<notin> set (rt_packages (db_root db r))" if "p \<in> live_packages ?db'" for p
    using that root_disjoint(1) [OF ok r] unfolding P' by blast
  have out: "f \<notin> ?rs" if "f \<in> live_scripts ?db' \<or> (\<exists>p\<in>live_packages ?db'. f \<in> set (package_files db p))" for f
    using that root_disjoint(2,3) [OF ok r] unfolding P' S' by blast
  let ?D' = "(\<lambda>f. (f, None)) ` live_scripts ?db'"
  have play': "in_play ?db' (live_packages ?db') ?D' {} =
      (\<Union>p\<in>live_packages ?db'. set (package_files db p)) \<union> live_scripts ?db'"
    using out_packages by (auto simp: in_play_def lists image_image)
  have sub: "live_packages ?db' \<subseteq> ?P" "live_scripts ?db' \<subseteq> live_scripts db"
    unfolding P' S' by (auto simp: live_packages_def live_scripts_def)
  have rs: "?rs \<subseteq> in_play db ?P ?D {}"
    using r by (auto simp: root_files_def in_play_def image_image live_packages_def live_scripts_def)
  have play_sub: "in_play ?db' (live_packages ?db') ?D' {} \<subseteq> in_play db ?P ?D {} - ?rs"
    unfolding play' using sub out by (auto simp: in_play_def image_image)
  have "placed ?db'"
    unfolding placed_def
  proof (rule trackedI)
    have all: "in_play ?db' (live_packages ?db') ?D' {} \<union> set (db_orphan_files ?db') \<union> set (db_stale_files ?db') \<subseteq>
        in_play db ?P ?D {} \<union> set (db_orphan_files db) \<union> set (db_stale_files db)"
      using play_sub rs unfolding s by blast
    show "inj_on (path_of ?db') (in_play ?db' (live_packages ?db') ?D' {} \<union> set (db_orphan_files ?db') \<union> set (db_stale_files ?db'))"
      using inj_on_subset [OF trackedD(2) [OF tr] all] by (simp add: s inj_on_def)
    show "f < db_next_file ?db'"
      if "f \<in> in_play ?db' (live_packages ?db') ?D' {} \<union> set (db_orphan_files ?db') \<union> set (db_stale_files ?db')" for f
      using trackedD(1) [OF tr, of f] that all by (auto simp: s)
    show "distinct (package_files ?db' p)" if "p \<in> live_packages ?db'" for p
      using trackedD(3) [OF tr, of p] that sub by (auto simp: lists)
    show "package_of ?db' f = Some p" if "p \<in> live_packages ?db'" "f \<in> set (package_files ?db' p)" for p f
      using that trackedD(4) [OF tr, of p f] sub(1) out [of f] by (auto simp: lists s split: if_splits)
    show "package_of ?db' f = po \<and> f \<notin> set (db_orphan_files ?db')" if "(f, po) \<in> ?D'" for f po
      using that trackedD(5) [OF tr, of f po] sub(2) out [of f] by (auto simp: s)
    show "package_of ?db' f = None" if "f \<in> set (db_orphan_files ?db')" for f
      using that trackedD(6) [OF tr, of f] by (auto simp: s)
    show "set (db_stale_files ?db') \<inter> (in_play ?db' (live_packages ?db') ?D' {} \<union> set (db_orphan_files ?db')) = {}"
      using trackedD(7) [OF tr] tracked_orphan_out [OF tr] play_sub rs unfolding s by blast
    show "p < db_next_package ?db'" if "p \<in> live_packages ?db' \<union> set (db_stale_packages ?db')" for p
      using that trackedD(8) [OF tr, of p] sub(1) r by (auto simp: s live_packages_def)
    show "package_files ?db' p = [] \<and> p \<notin> live_packages ?db'" if "p \<in> set (db_stale_packages ?db')" for p
      using that trackedD(9) [OF tr, of p] sub(1) out_packages [of p] by (auto simp: s lists)
  qed
  moreover have "homed ?db'"
    using workspace_okD(2) [OF ok] unfolding homed_def ids below_cong [OF paths] by (simp add: s)
  ultimately show ?thesis by (rule workspace_okI [OF _ _ ok ids paths]) (simp add: s)
qed

lemma evict_roots_ok:
  assumes "evict_roots new owned old (sc, db) = (sc', db')" and "workspace_ok db" and "snd ` set old \<subseteq> live_ids db"
  shows "workspace_ok db' \<and> live_ids db' = live_ids db"
  using assms
proof (induction old arbitrary: sc db)
  case (Cons pr old)
  obtain path r where pr [simp]: "pr = (path, r)" by (cases pr)
  show ?case
  proof (cases "path \<in> snd ` set new")
    case True
    with Cons show ?thesis by (simp add: evict_roots_def)
  next
    case False
    let ?db1 = "set_root_stale r (Some owned) db"
    have ids: "live_ids ?db1 = live_ids db" by (simp add: live_ids_def set_root_stale_shape)
    have "workspace_ok ?db1" using Cons.prems(2,3) by (intro set_root_stale_ok) simp_all
    moreover have "evict_roots new owned old (state_remove r sc, ?db1) = (sc', db')"
      using Cons.prems(1) False by (simp add: evict_roots_def)
    ultimately show ?thesis using Cons.IH [of "state_remove r sc" ?db1] Cons.prems(3) ids by simp
  qed
qed (simp add: evict_roots_def)

definition listed_root :: "oak_db \<Rightarrow> root_id \<Rightarrow> bool" where
  "listed_root db r \<longleftrightarrow> r \<in> live_ids db \<or>
     r < db_next_root db \<and> rt_packages (db_root db r) = [] \<and> rt_scripts (db_root db r) = []"

lemma new_root_ok:
  fixes db d
  assumes ok: "workspace_ok db"
  defines "db' \<equiv> db\<lparr> db_root := (db_root db)(db_next_root db := d), db_next_root := Suc (db_next_root db) \<rparr>"
  shows "workspace_ok db'" and "live_ids db' = live_ids db" and "listed_root db r \<Longrightarrow> listed_root db' r"
proof -
  show ids: "live_ids db' = live_ids db" by (simp add: db'_def live_ids_def)
  have same: "db_root db' r = db_root db r" if "r \<in> live_ids db" for r
    using workspace_okD(5) [OF ok that] by (simp add: db'_def)
  have files: "db_file db' = db_file db" "db_package db' = db_package db" "db_next_root db' = Suc (db_next_root db)"
    by (simp_all add: db'_def)
  have "live_packages db' = live_packages db" "live_scripts db' = live_scripts db"
    using same by (simp_all add: live_packages_def live_scripts_def ids)
  then have "placed db'"
    using workspace_okD(1) [OF ok] by (simp add: placed_def tracked_def in_play_def package_files_def db'_def)
  moreover have "homed db'" using workspace_okD(2) [OF ok] same by (simp add: homed_def ids below_def files)
  moreover have "apart db'" using workspace_okD(3) [OF ok] same by (simp add: apart_def ids)
  moreover have "\<forall>r\<in>live_ids db'. r < db_next_root db'" using workspace_okD(5) [OF ok] by (auto simp: ids files less_SucI)
  ultimately show "workspace_ok db'" by (simp add: workspace_ok_def)
  show "listed_root db' r" if "listed_root db r"
    using that unfolding listed_root_def ids by (auto simp: db'_def)
qed

lemma create_roots_ok:
  assumes "create_roots old new (rs, rqs, sc, db) = (rs', rqs', sc', db')" and "workspace_ok db"
    and "\<forall>r\<in>set rs. listed_root db r" and "ran (map_of old) \<subseteq> live_ids db"
  shows "workspace_ok db' \<and> live_ids db' = live_ids db \<and> (\<forall>r\<in>set rs'. listed_root db' r)"
  using assms
proof (induction new arbitrary: rs rqs sc db)
  case (Cons n new)
  obtain scan_path path where n [simp]: "n = (scan_path, path)" by (cases n)
  show ?case
  proof (cases "map_of old path")
    case (Some r)
    then have "r \<in> live_ids db" using Cons.prems(4) by (auto simp: ran_def)
    then have "listed_root db r" by (simp add: listed_root_def)
    with Some Cons.prems Cons.IH [of "rs @ [r]" rqs sc db] show ?thesis by (auto simp: create_roots_def)
  next
    case None
    let ?n = "db_next_root db"
    let ?d = "\<lparr> rt_path = path, rt_kind = WorkspaceKind, rt_scripts = [], rt_packages = [], rt_environment_dirs = [] \<rparr>"
    let ?db1 = "db\<lparr> db_root := (db_root db)(?n := ?d), db_next_root := Suc ?n \<rparr>"
    note new = new_root_ok [OF Cons.prems(2), where d = ?d]
    have "listed_root ?db1 ?n" by (simp add: listed_root_def)
    then have "\<forall>r\<in>set (rs @ [?n]). listed_root ?db1 r" using Cons.prems(3) new(3) by simp
    moreover have "create_roots old new (rs @ [?n], rqs @ [\<lparr> rq_root = ?n, rq_path = scan_path \<rparr>], state_insert ?n Scanning sc, ?db1) = (rs', rqs', sc', db')"
      using None Cons.prems(1) by (simp add: create_roots_def new_root_def)
    ultimately show ?thesis
      using Cons.IH [of "rs @ [?n]" "rqs @ [\<lparr> rq_root = ?n, rq_path = scan_path \<rparr>]" "state_insert ?n Scanning sc" ?db1]
        new(1,2) Cons.prems(4) by simp
  qed
qed (simp add: create_roots_def)

lemma set_folders_ok:
  assumes ok: "workspace_ok db" and rs: "\<forall>r\<in>set rs. listed_root db r" and apart: "apart (db\<lparr> db_workspace_roots := rs \<rparr>)"
  shows "workspace_ok (db\<lparr> db_workspace_roots := rs \<rparr>)" (is "workspace_ok ?db'")
proof -
  have r: "r \<in> live_ids db \<or> r < db_next_root db \<and> rt_packages (db_root db r) = [] \<and> rt_scripts (db_root db r) = []"
    if "r \<in> live_ids ?db'" for r
    using that rs by (auto simp: live_ids_def listed_root_def)
  have sub: "live_packages ?db' \<subseteq> live_packages db" "live_scripts ?db' \<subseteq> live_scripts db"
    using r by (fastforce simp: live_packages_def live_scripts_def)+
  have "tracked db (live_packages ?db') ((\<lambda>f. (f, None)) ` live_scripts ?db') {}"
    by (rule tracked_mono [OF workspace_okD(4) [OF ok] sub(1)]) (use sub(2) in auto)
  then have "placed ?db'" by (simp add: placed_def tracked_def in_play_def package_files_def)
  moreover have "homed ?db'"
    using workspace_okD(2) [OF ok] r by (fastforce simp: homed_def below_def)
  moreover have "\<forall>r\<in>live_ids ?db'. r < db_next_root ?db'" using r workspace_okD(5) [OF ok] by fastforce
  ultimately show ?thesis using apart by (simp add: workspace_ok_def)
qed

end
