(* ===== verification/Scan_Progress.thy ===== *)
theory Scan_Progress
  imports Scan_Scheduler
begin

text \<open>
  The main loop and the scans in flight as a step relation. A step is one event of the main loop: a
  change of the workspace folders, a batch of watcher paths, the result of a scan, or an editor or
  library update. Results arrive in any order, and a scan may see any disk. Two clocks, kept only for
  the statements, say when a folder last had a discovery event and when the scan that its contents
  come from was requested.
\<close>

section \<open>The system\<close>

record scan_system =
  ss_sc :: scan_scheduler
  ss_db :: oak_db
  ss_flight :: "(scan_request \<times> nat) list"
  ss_clock :: nat
  ss_discovered :: "root_id \<Rightarrow> nat"
  ss_applied :: "root_id \<Rightarrow> nat"

definition dispatch :: "scan_request list \<Rightarrow> scan_system \<Rightarrow> scan_system" where
  "dispatch rqs s = s\<lparr> ss_flight := ss_flight s @ map (\<lambda>rq. (rq, ss_clock s)) rqs, ss_clock := Suc (ss_clock s) \<rparr>"

definition system_start :: "oak_db \<Rightarrow> scan_system" where
  "system_start db = \<lparr> ss_sc = scheduler_new, ss_db = db, ss_flight = [], ss_clock = 0,
     ss_discovered = (\<lambda>_. 0), ss_applied = (\<lambda>_. 0) \<rparr>"

text \<open>A result comes back: the scan leaves the flight list, and a live folder takes its contents.\<close>

inductive completes :: "scan_system \<Rightarrow> scan_system \<Rightarrow> bool" where
  "ss_flight s = xs @ (rq, t) # ys \<Longrightarrow>
   apply_scan_completed dk (run_request dk' rq) owned (ss_sc s) (ss_db s) = (rqs, sc, db) \<Longrightarrow>
   completes s (dispatch rqs (s\<lparr> ss_sc := sc, ss_db := db, ss_flight := xs @ ys,
     ss_applied := (if rq_root rq \<in> set (db_workspace_roots (ss_db s))
       then (ss_applied s)(rq_root rq := t) else ss_applied s) \<rparr>))"

inductive scan_step :: "scan_system \<Rightarrow> scan_system \<Rightarrow> bool" where
  folders: "set_workspace_paths dk paths owned (ss_sc s) (ss_db s) = (rqs, sc, db) \<Longrightarrow>
    scan_step s (dispatch rqs (s\<lparr> ss_sc := sc, ss_db := db,
      ss_discovered := (\<lambda>r. if r \<in> rq_root ` set rqs then ss_clock s else ss_discovered s r) \<rparr>))"
| watcher: "apply_watcher_events dk paths skip (ss_sc s) (ss_db s) = (rqs, sc, db) \<Longrightarrow>
    scan_step s (dispatch rqs (s\<lparr> ss_sc := sc, ss_db := db,
      ss_discovered := (\<lambda>r. if reports_discovery (ss_db s) paths r then ss_clock s else ss_discovered s r) \<rparr>))"
| result: "completes s s' \<Longrightarrow> scan_step s s'"
| opened: "scan_step s (s\<lparr> ss_db := snd (upsert_editor path contents (ss_db s)) \<rparr>)"
| closed: "scan_step s (s\<lparr> ss_db := close_editor path (ss_db s) \<rparr>)"
| libraries: "scan_step s (s\<lparr> ss_db := set_library_paths dk lib_paths (ss_db s) \<rparr>)"
| sources: "scan_step s (s\<lparr> ss_db := set_package_sources dk p dir (ss_db s) \<rparr>)"

inductive_cases completesE: "completes s s'"

inductive reachable :: "scan_system \<Rightarrow> bool" where
  start: "db_workspace_roots db = [] \<Longrightarrow> reachable (system_start db)"
| step: "reachable s \<Longrightarrow> scan_step s s' \<Longrightarrow> reachable s'"

section \<open>The invariant\<close>

abbreviation flight_roots :: "scan_system \<Rightarrow> root_id list" where
  "flight_roots s \<equiv> map (rq_root \<circ> fst) (ss_flight s)"

abbreviation folders_of :: "scan_system \<Rightarrow> root_id set" where
  "folders_of s \<equiv> set (db_workspace_roots (ss_db s))"

abbreviation state_of :: "scan_system \<Rightarrow> root_id \<Rightarrow> root_scan_state option" where
  "state_of s \<equiv> scanning (ss_sc s)"

text \<open>Every scanning root has exactly one scan in flight, and a folder with one is scanning.\<close>

definition flight_ok :: "scan_system \<Rightarrow> bool" where
  "flight_ok s \<longleftrightarrow>
     (\<forall>r. state_of s r \<noteq> None \<longrightarrow> count_list (flight_roots s) r = 1) \<and>
     (\<forall>r\<in>folders_of s. r \<in> set (flight_roots s) \<longrightarrow> state_of s r \<noteq> None)"

definition bounds_ok :: "scan_system \<Rightarrow> bool" where
  "bounds_ok s \<longleftrightarrow>
     (\<forall>r\<in>folders_of s \<union> set (flight_roots s). r < db_next_root (ss_db s)) \<and>
     (\<forall>r\<in>folders_of s. as_path (root_path (ss_db s) r) \<noteq> None) \<and>
     (\<forall>(rq, t)\<in>set (ss_flight s). as_path (root_path (ss_db s) (rq_root rq)) = Some (rq_path rq))"

definition buffer_ok :: "scan_system \<Rightarrow> bool" where
  "buffer_ok s \<longleftrightarrow> distinct (sc_buffered (ss_sc s)) \<and> (\<forall>path\<in>set (sc_buffered (ss_sc s)). waiting (ss_db s) (ss_sc s) path)"

text \<open>
  The contents of a folder come from a scan requested after its last discovery event, or such a scan
  is in flight or queued. A scan in flight is newer than the one that was applied.
\<close>

definition fresh_ok :: "scan_system \<Rightarrow> bool" where
  "fresh_ok s \<longleftrightarrow> (\<forall>r. ss_discovered s r \<le> ss_clock s \<and> ss_applied s r \<le> ss_clock s) \<and>
     (\<forall>(rq, t)\<in>set (ss_flight s). ss_applied s (rq_root rq) \<le> t \<and> t \<le> ss_clock s) \<and>
     (\<forall>r\<in>folders_of s. ss_discovered s r \<le> ss_applied s r \<or>
        (\<exists>(rq, t)\<in>set (ss_flight s). rq_root rq = r \<and> ss_discovered s r \<le> t) \<or>
        state_of s r = Some ScanningWithRescanQueued)"

definition system_ok :: "scan_system \<Rightarrow> bool" where
  "system_ok s \<longleftrightarrow> flight_ok s \<and> bounds_ok s \<and> buffer_ok s \<and> fresh_ok s"

lemma dispatch_sel [simp]:
  "ss_sc (dispatch rqs s) = ss_sc s" "ss_db (dispatch rqs s) = ss_db s"
  "ss_flight (dispatch rqs s) = ss_flight s @ map (\<lambda>rq. (rq, ss_clock s)) rqs"
  "ss_clock (dispatch rqs s) = Suc (ss_clock s)" "ss_discovered (dispatch rqs s) = ss_discovered s"
  "ss_applied (dispatch rqs s) = ss_applied s"
  by (simp_all add: dispatch_def)

lemma bounds_okD:
  assumes "bounds_ok s"
  shows "r \<in> folders_of s \<Longrightarrow> r < db_next_root (ss_db s)"
    and "r \<in> set (flight_roots s) \<Longrightarrow> r < db_next_root (ss_db s)"
    and "r \<in> folders_of s \<Longrightarrow> as_path (root_path (ss_db s) r) \<noteq> None"
    and "(rq, t) \<in> set (ss_flight s) \<Longrightarrow> as_path (root_path (ss_db s) (rq_root rq)) = Some (rq_path rq)"
  using assms unfolding bounds_ok_def by blast+

lemma in_flight_roots: "(rq, t) \<in> set (ss_flight s) \<Longrightarrow> rq_root rq \<in> set (flight_roots s)"
  by force

lemma bounds_okI:
  assumes "\<And>r. r \<in> folders_of s \<Longrightarrow> r < db_next_root (ss_db s) \<and> as_path (root_path (ss_db s) r) \<noteq> None"
    and "\<And>rq t. (rq, t) \<in> set (ss_flight s) \<Longrightarrow> rq_root rq < db_next_root (ss_db s) \<and>
      as_path (root_path (ss_db s) (rq_root rq)) = Some (rq_path rq)"
  shows "bounds_ok s"
  unfolding bounds_ok_def using assms by fastforce

text \<open>What a change of the layout must leave alone for the old folders and scans to stay in bounds.\<close>

lemma bounds_ok_step:
  assumes "bounds_ok s"
    and "db_next_root (ss_db s) \<le> db_next_root (ss_db s')" "\<forall>r<db_next_root (ss_db s). root_path (ss_db s') r = root_path (ss_db s) r"
    and "\<And>r. r \<in> folders_of s' \<Longrightarrow> r \<in> folders_of s \<or> r < db_next_root (ss_db s') \<and> as_path (root_path (ss_db s') r) \<noteq> None"
    and "\<And>rq t. (rq, t) \<in> set (ss_flight s') \<Longrightarrow> (rq, t) \<in> set (ss_flight s) \<or> rq_root rq < db_next_root (ss_db s') \<and>
      as_path (root_path (ss_db s') (rq_root rq)) = Some (rq_path rq)"
  shows "bounds_ok s'"
proof (rule bounds_okI)
  fix r assume "r \<in> folders_of s'"
  from assms(4) [OF this] show "r < db_next_root (ss_db s') \<and> as_path (root_path (ss_db s') r) \<noteq> None"
    using bounds_okD(1,3) [OF assms(1), of r] assms(2,3) by auto
next
  fix rq t assume "(rq, t) \<in> set (ss_flight s')"
  from assms(5) [OF this] show "rq_root rq < db_next_root (ss_db s') \<and>
      as_path (root_path (ss_db s') (rq_root rq)) = Some (rq_path rq)"
    using bounds_okD(4) [OF assms(1), of rq t] bounds_okD(2) [OF assms(1) in_flight_roots, of rq t] assms(2,3) by auto
qed

lemma system_start_ok: "db_workspace_roots db = [] \<Longrightarrow> system_ok (system_start db)"
  by (simp add: system_ok_def flight_ok_def bounds_ok_def buffer_ok_def fresh_ok_def system_start_def scheduler_new_def)

text \<open>Updates that keep the layout of the roots and the scheduler keep the invariant.\<close>

lemma system_ok_layout:
  assumes "system_ok s" and "keeps_layout (ss_db s) db"
  shows "system_ok (s\<lparr> ss_db := db \<rparr>)"
proof -
  have b: "bounds_ok s" and ws: "db_workspace_roots db = db_workspace_roots (ss_db s)"
    using assms by (simp_all add: system_ok_def keeps_layout_def)
  have "waiting db sc = waiting (ss_db s) sc" for sc using waiting_layout [OF assms(2)] bounds_okD(1) [OF b] by blast
  then have "buffer_ok (s\<lparr> ss_db := db \<rparr>)" using assms(1) by (simp add: system_ok_def buffer_ok_def)
  moreover have "bounds_ok (s\<lparr> ss_db := db \<rparr>)"
    using assms(2) by (intro bounds_ok_step [OF b]) (simp_all add: keeps_layout_def)
  ultimately show ?thesis using assms(1) by (simp add: system_ok_def flight_ok_def fresh_ok_def ws)
qed

lemma count_list_distinct: "distinct xs \<Longrightarrow> count_list xs x = (if x \<in> set xs then 1 else 0)"
  by (induction xs) auto

lemma flight_okD:
  assumes "flight_ok s"
  shows "state_of s r \<noteq> None \<Longrightarrow> count_list (flight_roots s) r = 1"
    and "r \<in> folders_of s \<Longrightarrow> r \<in> set (flight_roots s) \<Longrightarrow> state_of s r \<noteq> None"
    and "r \<in> folders_of s \<Longrightarrow> state_of s r = None \<Longrightarrow> count_list (flight_roots s) r = 0"
  using assms unfolding flight_ok_def by (auto simp: count_list_0_iff)

lemma flight_okI:
  assumes "\<And>r. state_of s r \<noteq> None \<Longrightarrow> count_list (flight_roots s) r = 1"
    and "\<And>r. r \<in> folders_of s \<Longrightarrow> r \<in> set (flight_roots s) \<Longrightarrow> state_of s r \<noteq> None"
  shows "flight_ok s"
  using assms unfolding flight_ok_def by blast

lemma fresh_okI:
  assumes "\<And>r. ss_discovered s r \<le> ss_clock s \<and> ss_applied s r \<le> ss_clock s"
    and "\<And>rq t. (rq, t) \<in> set (ss_flight s) \<Longrightarrow> ss_applied s (rq_root rq) \<le> t \<and> t \<le> ss_clock s"
    and "\<And>r. r \<in> folders_of s \<Longrightarrow> ss_discovered s r \<le> ss_applied s r \<or>
        (\<exists>rq t. (rq, t) \<in> set (ss_flight s) \<and> rq_root rq = r \<and> ss_discovered s r \<le> t) \<or>
        state_of s r = Some ScanningWithRescanQueued"
  shows "fresh_ok s"
  using assms unfolding fresh_ok_def by fastforce

lemma fresh_okD:
  assumes "fresh_ok s"
  shows "ss_discovered s r \<le> ss_clock s" "ss_applied s r \<le> ss_clock s"
    and "(rq, t) \<in> set (ss_flight s) \<Longrightarrow> ss_applied s (rq_root rq) \<le> t \<and> t \<le> ss_clock s"
    and "r \<in> folders_of s \<Longrightarrow> ss_discovered s r \<le> ss_applied s r \<or>
        (\<exists>rq t. (rq, t) \<in> set (ss_flight s) \<and> rq_root rq = r \<and> ss_discovered s r \<le> t) \<or>
        state_of s r = Some ScanningWithRescanQueued"
  using assms unfolding fresh_ok_def by fastforce+

lemma dispatch_in_flight:
  "rq \<in> set rqs \<Longrightarrow> (rq, ss_clock s) \<in> set (ss_flight (dispatch rqs s))"
  "x \<in> set (ss_flight s) \<Longrightarrow> x \<in> set (ss_flight (dispatch rqs s))"
  by simp_all

subsection \<open>Watcher events\<close>

lemma system_ok_watcher:
  assumes ok: "system_ok s" and ev: "apply_watcher_events dk paths skip (ss_sc s) (ss_db s) = (rqs, sc, db)"
  shows "system_ok (dispatch rqs (s\<lparr> ss_sc := sc, ss_db := db,
      ss_discovered := (\<lambda>r. if reports_discovery (ss_db s) paths r then ss_clock s else ss_discovered s r) \<rparr>))"
    (is "system_ok ?s'")
proof -
  note f = flight_okD [OF conjunct1 [OF ok [unfolded system_ok_def]]]
  have b: "bounds_ok s" and fr: "fresh_ok s" and bu: "buffer_ok s" using ok by (simp_all add: system_ok_def)
  have "\<forall>r\<in>folders_of s. as_path (root_path (ss_db s) r) \<noteq> None" using bounds_okD(3) [OF b] by blast
  note w = apply_watcher_events_effect [OF ev this]
  let ?new = "\<lambda>r. reports_discovery (ss_db s) paths r \<and> state_of s r = None"
  have ws: "folders_of ?s' = folders_of s" and live: "\<And>r. reports_discovery (ss_db s) paths r \<Longrightarrow> r \<in> folders_of s"
    using w(6) by (simp_all add: keeps_layout_def reports_discovery_def)
  have counts: "count_list (flight_roots ?s') r = count_list (flight_roots s) r + (if ?new r then 1 else 0)" for r
    using count_list_distinct [OF w(1), of r] w(2) by (simp add: o_def)
  have roots: "set (flight_roots ?s') = set (flight_roots s) \<union> {r. ?new r}" using w(2) by (auto simp: image_image)
  have "flight_ok ?s'"
  proof (rule flight_okI)
    show "count_list (flight_roots ?s') r = 1" if "state_of ?s' r \<noteq> None" for r
      using that f(1) [of r] f(3) [of r] live [of r] unfolding counts by (auto simp: w(4) split: if_splits)
    show "state_of ?s' r \<noteq> None" if "r \<in> folders_of ?s'" "r \<in> set (flight_roots ?s')" for r
      using that f(2) [of r] unfolding roots ws by (auto simp: w(4))
  qed
  moreover have "bounds_ok ?s'"
  proof (rule bounds_ok_step [OF b])
    fix rq t assume "(rq, t) \<in> set (ss_flight ?s')"
    then consider "(rq, t) \<in> set (ss_flight s)" | "rq \<in> set rqs" by auto
    then show "(rq, t) \<in> set (ss_flight s) \<or> rq_root rq < db_next_root (ss_db ?s') \<and>
        as_path (root_path (ss_db ?s') (rq_root rq)) = Some (rq_path rq)"
    proof cases
      case 2
      with w(2) live have "rq_root rq \<in> folders_of s" by blast
      then have "rq_root rq < db_next_root (ss_db s)" by (rule bounds_okD(1) [OF b])
      with 2 w(3,6) show ?thesis by (simp add: keeps_layout_def)
    qed simp
  qed (use w(6) in \<open>simp_all add: keeps_layout_def\<close>)
  moreover have "buffer_ok ?s'"
    using bu w(5) waiting_layout [OF w(6)] bounds_okD(1) [OF b] by (simp add: buffer_ok_def fold_push_new)
  moreover have "fresh_ok ?s'"
  proof (rule fresh_okI)
    show "ss_discovered ?s' r \<le> ss_clock ?s' \<and> ss_applied ?s' r \<le> ss_clock ?s'" for r
      using fresh_okD(1,2) [OF fr, of r] by (simp add: le_SucI)
    show "ss_applied ?s' (rq_root rq) \<le> t \<and> t \<le> ss_clock ?s'" if "(rq, t) \<in> set (ss_flight ?s')" for rq t
      using that fresh_okD(3) [OF fr, of rq t] fresh_okD(2) [OF fr] by (auto simp: le_SucI)
    fix r assume "r \<in> folders_of ?s'"
    then have r: "r \<in> folders_of s" using ws by simp
    consider "?new r" | "reports_discovery (ss_db s) paths r" "state_of s r \<noteq> None" | "\<not> reports_discovery (ss_db s) paths r"
      by blast
    then show "ss_discovered ?s' r \<le> ss_applied ?s' r \<or>
        (\<exists>rq t. (rq, t) \<in> set (ss_flight ?s') \<and> rq_root rq = r \<and> ss_discovered ?s' r \<le> t) \<or>
        state_of ?s' r = Some ScanningWithRescanQueued"
    proof cases
      case 1
      with w(2) obtain rq where "rq \<in> set rqs" "rq_root rq = r" by (metis (mono_tags, lifting) imageE mem_Collect_eq)
      with 1 show ?thesis by auto
    next
      case 3
      then show ?thesis using fresh_okD(4) [OF fr r] by (auto simp: w(4))
    qed (auto simp: w(4))
  qed
  ultimately show ?thesis by (simp add: system_ok_def)
qed

subsection \<open>Workspace folders\<close>

lemma system_ok_folders:
  assumes ok: "system_ok s" and ev: "set_workspace_paths dk paths owned (ss_sc s) (ss_db s) = (rqs, sc, db)"
  shows "system_ok (dispatch rqs (s\<lparr> ss_sc := sc, ss_db := db,
      ss_discovered := (\<lambda>r. if r \<in> rq_root ` set rqs then ss_clock s else ss_discovered s r) \<rparr>))"
    (is "system_ok ?s'")
proof -
  note f = flight_okD [OF conjunct1 [OF ok [unfolded system_ok_def]]]
  have b: "bounds_ok s" and fr: "fresh_ok s" and bu: "buffer_ok s" using ok by (simp_all add: system_ok_def)
  have "\<forall>r\<in>folders_of s. r < db_next_root (ss_db s)" using bounds_okD(1) [OF b] by blast
  from set_workspace_paths_effect [OF ev this] obtain gone m n where
    w: "db_next_root (ss_db s) \<le> m" "m \<le> n" "n \<le> db_next_root db" "map rq_root rqs = [m..<n]"
    "\<forall>r<db_next_root (ss_db s). root_path db r = root_path (ss_db s) r"
    "\<forall>rq\<in>set rqs. as_path (root_path db (rq_root rq)) = Some (rq_path rq)"
    "set (db_workspace_roots db) \<subseteq> folders_of s \<union> {m..<n}"
    "gone \<inter> set (db_workspace_roots db) = {}"
    "scanning sc = (\<lambda>r. if m \<le> r \<and> r < n then Some Scanning else if r \<in> gone then None else state_of s r)"
    "sc_buffered sc = filter (waiting db sc) (sc_buffered (ss_sc s))" .
  have new: "rq_root ` set rqs = {m..<n}" using w(4) by (metis atLeastLessThan_upt list.set_map)
  have old: "r \<notin> set (flight_roots s)" "r \<notin> folders_of s" if "m \<le> r" for r
    using that w(1) bounds_okD(1,2) [OF b, of r] by auto
  have counts: "count_list (flight_roots ?s') r = (if r \<in> {m..<n} then 1 else count_list (flight_roots s) r)" for r
    using count_list_distinct [of "[m..<n]" r] old(1) [of r] w(4) by (auto simp: o_def count_list_0_iff)
  have roots: "set (flight_roots ?s') = set (flight_roots s) \<union> {m..<n}" using new by (auto simp: image_image)
  have "flight_ok ?s'"
  proof (rule flight_okI)
    show "count_list (flight_roots ?s') r = 1" if "state_of ?s' r \<noteq> None" for r
      using that f(1) [of r] unfolding counts by (auto simp: w(9) split: if_splits)
    show "state_of ?s' r \<noteq> None" if "r \<in> folders_of ?s'" "r \<in> set (flight_roots ?s')" for r
    proof (cases "r \<in> {m..<n}")
      case False
      with that w(7,8) have "r \<in> folders_of s" "r \<in> set (flight_roots s)" "r \<notin> gone" unfolding roots by auto
      with f(2) [of r] False show ?thesis by (auto simp: w(9))
    qed (simp add: w(9))
  qed
  moreover have "bounds_ok ?s'"
  proof (rule bounds_ok_step [OF b])
    have req: "\<exists>rq\<in>set rqs. rq_root rq = r" if "r \<in> {m..<n}" for r using that new by (metis imageE)
    show "r \<in> folders_of s \<or> r < db_next_root (ss_db ?s') \<and> as_path (root_path (ss_db ?s') r) \<noteq> None"
      if "r \<in> folders_of ?s'" for r
      using that w(3,6,7) req [of r] by fastforce
    have "rq_root rq < n" if "rq \<in> set rqs" for rq using that new by (metis atLeastLessThan_iff imageI)
    with w(3) have "rq_root rq < db_next_root db" if "rq \<in> set rqs" for rq using that by fastforce
    then show "(rq, t) \<in> set (ss_flight s) \<or> rq_root rq < db_next_root (ss_db ?s') \<and>
        as_path (root_path (ss_db ?s') (rq_root rq)) = Some (rq_path rq)" if "(rq, t) \<in> set (ss_flight ?s')" for rq t
      using that w(6) by auto
  qed (use w in simp_all)
  moreover have "buffer_ok ?s'" using bu w(10) by (simp add: buffer_ok_def)
  moreover have "fresh_ok ?s'"
  proof (rule fresh_okI)
    show "ss_discovered ?s' r \<le> ss_clock ?s' \<and> ss_applied ?s' r \<le> ss_clock ?s'" for r
      using fresh_okD(1,2) [OF fr, of r] by (simp add: le_SucI)
    show "ss_applied ?s' (rq_root rq) \<le> t \<and> t \<le> ss_clock ?s'" if "(rq, t) \<in> set (ss_flight ?s')" for rq t
      using that fresh_okD(3) [OF fr, of rq t] fresh_okD(2) [OF fr] by (auto simp: le_SucI)
    fix r assume r: "r \<in> folders_of ?s'"
    show "ss_discovered ?s' r \<le> ss_applied ?s' r \<or>
        (\<exists>rq t. (rq, t) \<in> set (ss_flight ?s') \<and> rq_root rq = r \<and> ss_discovered ?s' r \<le> t) \<or>
        state_of ?s' r = Some ScanningWithRescanQueued"
    proof (cases "r \<in> {m..<n}")
      case True
      with new obtain rq where "rq \<in> set rqs" "rq_root rq = r" by (metis imageE)
      with True new show ?thesis by auto
    next
      case False
      with r w(7,8) have "r \<in> folders_of s" "r \<notin> gone" by auto
      with fresh_okD(4) [OF fr, of r] False show ?thesis by (auto simp: w(9) new)
    qed
  qed
  ultimately show ?thesis by (simp add: system_ok_def)
qed

subsection \<open>Results\<close>

lemma in_flight_split:
  assumes "ss_flight s = xs @ (rq, t) # ys" and "count_list (flight_roots s) (rq_root rq) = 1"
  shows "rq_root rq \<notin> set (map (rq_root \<circ> fst) (xs @ ys))"
  using assms by (simp add: count_list_0_iff [symmetric] del: count_list_0_iff set_map) 

lemma system_ok_result_stale:
  assumes ok: "system_ok s" and fl: "ss_flight s = xs @ (rq, t) # ys" and dead: "rq_root rq \<notin> folders_of s"
  shows "system_ok (dispatch [] (s\<lparr> ss_sc := state_remove (rq_root rq) (ss_sc s), ss_flight := xs @ ys \<rparr>))"
    (is "system_ok ?s'")
proof -
  let ?r = "rq_root rq"
  note f = flight_okD [OF conjunct1 [OF ok [unfolded system_ok_def]]]
  have b: "bounds_ok s" and fr: "fresh_ok s" and bu: "buffer_ok s" using ok by (simp_all add: system_ok_def)
  have "flight_ok ?s'"
  proof (rule flight_okI)
    show "count_list (flight_roots ?s') r = 1" if "state_of ?s' r \<noteq> None" for r
      using that f(1) [of r] by (auto simp: fl split: if_splits)
    show "state_of ?s' r \<noteq> None" if "r \<in> folders_of ?s'" "r \<in> set (flight_roots ?s')" for r
      using that f(2) [of r] dead by (auto simp: fl)
  qed
  moreover have "bounds_ok ?s'" by (rule bounds_ok_step [OF b]) (auto simp: fl)
  moreover have "waiting (ss_db s) (state_remove ?r (ss_sc s)) = waiting (ss_db s) (ss_sc s)"
    using dead by (intro waiting_cong) auto
  then have "buffer_ok ?s'" using bu by (simp add: buffer_ok_def)
  moreover have "fresh_ok ?s'"
  proof (rule fresh_okI)
    show "ss_discovered ?s' r \<le> ss_clock ?s' \<and> ss_applied ?s' r \<le> ss_clock ?s'" for r
      using fresh_okD(1,2) [OF fr, of r] by (simp add: le_SucI)
    show "ss_applied ?s' (rq_root rq) \<le> t \<and> t \<le> ss_clock ?s'" if "(rq, t) \<in> set (ss_flight ?s')" for rq t
      using that fresh_okD(3) [OF fr, of rq t] by (auto simp: fl le_SucI)
    fix r assume "r \<in> folders_of ?s'"
    then have "r \<in> folders_of s" "r \<noteq> ?r" using dead by auto
    with fresh_okD(4) [OF fr, of r] fl
    show "ss_discovered ?s' r \<le> ss_applied ?s' r \<or>
        (\<exists>rq t. (rq, t) \<in> set (ss_flight ?s') \<and> rq_root rq = r \<and> ss_discovered ?s' r \<le> t) \<or>
        state_of ?s' r = Some ScanningWithRescanQueued" by auto
  qed
  ultimately show ?thesis by (simp add: system_ok_def)
qed

lemma system_ok_result_live:
  assumes ok: "system_ok s" and fl: "ss_flight s = xs @ (rq, t) # ys" and live: "rq_root rq \<in> folders_of s"
    and root: "cp_root c = rq_root rq" and ev: "apply_scan_completed dk c owned (ss_sc s) (ss_db s) = (rqs, sc, db)"
  shows "system_ok (dispatch rqs (s\<lparr> ss_sc := sc, ss_db := db, ss_flight := xs @ ys,
     ss_applied := (ss_applied s)(rq_root rq := t) \<rparr>))"
    (is "system_ok ?s'")
proof -
  let ?r = "rq_root rq"
  note f = flight_okD [OF conjunct1 [OF ok [unfolded system_ok_def]]]
  have b: "bounds_ok s" and fr: "fresh_ok s" and bu: "buffer_ok s" using ok by (simp_all add: system_ok_def)
  have bounds: "\<forall>r\<in>folders_of s. r < db_next_root (ss_db s)" using bounds_okD(1) [OF b] by blast
  have path: "as_path (root_path (ss_db s) ?r) = Some (rq_path rq)" using bounds_okD(4) [OF b, of rq t] fl by simp
  note w = apply_scan_completed_live [OF ev, unfolded root, OF live path bounds]
  have ws: "folders_of ?s' = folders_of s" using w(4) by (simp add: keeps_layout_def)
  have state: "state_of s ?r \<noteq> None" using f(2) [OF live] fl by simp
  have one: "?r \<notin> set (map (rq_root \<circ> fst) (xs @ ys))" by (rule in_flight_split [OF fl f(1) [OF state]])
  have counts: "count_list (flight_roots ?s') r = (if r = ?r then (if state_of s ?r = Some ScanningWithRescanQueued then 1 else 0)
      else count_list (flight_roots s) r)" for r
    using one by (auto simp: w(1) fl count_list_0_iff [symmetric] simp del: count_list_0_iff)
  have "flight_ok ?s'"
  proof (rule flight_okI)
    show "count_list (flight_roots ?s') r = 1" if "state_of ?s' r \<noteq> None" for r
      using that f(1) [of r] unfolding counts by (auto simp: w(2) split: if_splits)
    show "state_of ?s' r \<noteq> None" if "r \<in> folders_of ?s'" "r \<in> set (flight_roots ?s')" for r
    proof (cases "r = ?r")
      case True
      with that(2) counts [of r] show ?thesis by (auto simp: w(2) count_list_0_iff split: if_splits)
    next
      case False
      with that(2) have "r \<in> set (flight_roots s)" by (auto simp: w(1) fl split: if_splits)
      with f(2) [of r] that(1) False show ?thesis unfolding ws by (simp add: w(2))
    qed
  qed
  moreover have "bounds_ok ?s'"
    using w(4) path bounds live
    by (intro bounds_ok_step [OF b]) (auto simp: w(1) fl keeps_layout_def split: if_splits)
  moreover have "buffer_ok ?s'"
    using bu w(3) waiting_layout [OF w(4) bounds] by (simp add: buffer_ok_def)
  moreover have "fresh_ok ?s'"
  proof (rule fresh_okI)
    have t: "ss_applied s ?r \<le> t" "t \<le> ss_clock s" using fresh_okD(3) [OF fr, of rq t] fl by simp_all
    show "ss_discovered ?s' r \<le> ss_clock ?s' \<and> ss_applied ?s' r \<le> ss_clock ?s'" for r
      using fresh_okD(1,2) [OF fr, of r] t by (simp add: le_SucI)
    show "ss_applied ?s' (rq_root rq') \<le> t' \<and> t' \<le> ss_clock ?s'" if "(rq', t') \<in> set (ss_flight ?s')" for rq' t'
      using that fresh_okD(3) [OF fr, of rq' t'] one t by (force simp: fl w(1) le_SucI split: if_splits)
    fix r assume "r \<in> folders_of ?s'"
    then have r: "r \<in> folders_of s" using ws by simp
    show "ss_discovered ?s' r \<le> ss_applied ?s' r \<or>
        (\<exists>rq t. (rq, t) \<in> set (ss_flight ?s') \<and> rq_root rq = r \<and> ss_discovered ?s' r \<le> t) \<or>
        state_of ?s' r = Some ScanningWithRescanQueued"
    proof (cases "r = ?r")
      case False
      with fresh_okD(4) [OF fr r] fl show ?thesis by (auto simp: w(2))
    next
      case True
      show ?thesis
      proof (cases "state_of s ?r = Some ScanningWithRescanQueued")
        case queued: True
        then have "(\<lparr> rq_root = ?r, rq_path = rq_path rq \<rparr>, ss_clock s) \<in> set (ss_flight ?s')" by (simp add: w(1))
        with True fresh_okD(1) [OF fr, of ?r] show ?thesis by fastforce
      next
        case False
        have "rq' = rq \<and> t' = t" if "(rq', t') \<in> set (ss_flight s)" "rq_root rq' = ?r" for rq' t'
          using that one fl by force
        then have "ss_discovered s ?r \<le> t" using fresh_okD(4) [OF fr live] False t by fastforce
        with True show ?thesis by simp
      qed
    qed
  qed
  ultimately show ?thesis by (simp add: system_ok_def)
qed

lemma system_ok_completes: "completes s s' \<Longrightarrow> system_ok s \<Longrightarrow> system_ok s'"
proof (erule completesE)
  fix xs rq t ys dk dk' owned rqs sc db
  assume ok: "system_ok s" and fl: "ss_flight s = xs @ (rq, t) # ys"
    and ev: "apply_scan_completed dk (run_request dk' rq) owned (ss_sc s) (ss_db s) = (rqs, sc, db)"
    and s': "s' = dispatch rqs (s\<lparr> ss_sc := sc, ss_db := db, ss_flight := xs @ ys,
      ss_applied := (if rq_root rq \<in> folders_of s then (ss_applied s)(rq_root rq := t) else ss_applied s) \<rparr>)"
  have root: "cp_root (run_request dk' rq) = rq_root rq" by (simp add: run_request_def)
  show "system_ok s'"
  proof (cases "rq_root rq \<in> folders_of s")
    case True
    from system_ok_result_live [OF ok fl True root ev] True show ?thesis by (simp add: s')
  next
    case False
    with ev root have "rqs = []" "sc = state_remove (rq_root rq) (ss_sc s)" "db = ss_db s"
      by (simp_all add: apply_scan_completed_stale)
    with system_ok_result_stale [OF ok fl False] False show ?thesis by (simp add: s')
  qed
qed

lemma system_ok_step: "scan_step s s' \<Longrightarrow> system_ok s \<Longrightarrow> system_ok s'"
  by (induction rule: scan_step.induct)
    (auto simp: set_package_sources_def case_prod_beta Let_def intro: system_ok_folders system_ok_watcher system_ok_completes
      system_ok_layout keeps_layout_ops)

lemma reachable_ok: "reachable s \<Longrightarrow> system_ok s"
  by (induction rule: reachable.induct) (auto intro: system_start_ok system_ok_step)

section \<open>Waiting paths\<close>

text \<open>Some workspace folder above the path has a scan in flight.\<close>

definition scan_above :: "scan_system \<Rightarrow> file_path \<Rightarrow> bool" where
  "scan_above s path \<longleftrightarrow> (\<exists>fs r rp. as_path path = Some fs \<and> r \<in> folders_of s \<and> r \<in> set (flight_roots s) \<and>
     as_path (root_path (ss_db s) r) = Some rp \<and> path_starts_with fs rp)"

lemma scanning_iff_in_flight:
  assumes "flight_ok s" and "r \<in> folders_of s"
  shows "state_of s r \<noteq> None \<longleftrightarrow> r \<in> set (flight_roots s)"
proof
  assume "state_of s r \<noteq> None"
  with flight_okD(1) [OF assms(1)] have "count_list (flight_roots s) r \<noteq> 0" by simp
  then show "r \<in> set (flight_roots s)" by (metis count_notin)
qed (rule flight_okD(2) [OF assms])

lemma waiting_scan_above: "system_ok s \<Longrightarrow> waiting (ss_db s) (ss_sc s) path \<longleftrightarrow> scan_above s path"
  unfolding waiting_iff scan_above_def system_ok_def using scanning_iff_in_flight by blast

lemma buffered_step:
  assumes "scan_step s s'" and "system_ok s" and "path \<in> set (sc_buffered (ss_sc s))"
  shows "path \<in> set (sc_buffered (ss_sc s')) \<longleftrightarrow> waiting (ss_db s') (ss_sc s') path"
proof -
  have b: "bounds_ok s" using assms(2) by (simp add: system_ok_def)
  have bounds: "\<forall>r\<in>folders_of s. r < db_next_root (ss_db s)" using bounds_okD(1) [OF b] by blast
  have kept: ?thesis if "sc_buffered (ss_sc s') = sc_buffered (ss_sc s)"
    using system_ok_step [OF assms(1,2)] that assms(3) by (auto simp: system_ok_def buffer_ok_def)
  from assms(1) show ?thesis
  proof cases
    case (folders dk paths owned rqs sc db)
    have "sc_buffered sc = filter (waiting db sc) (sc_buffered (ss_sc s))"
      by (rule set_workspace_paths_effect [OF folders(2) bounds])
    with folders(1) assms(3) show ?thesis by simp
  next
    case (watcher dk paths skip rqs sc db)
    have "\<forall>r\<in>folders_of s. as_path (root_path (ss_db s) r) \<noteq> None" using bounds_okD(3) [OF b] by blast
    note w = apply_watcher_events_effect [OF watcher(2) this]
    from w(5) waiting_layout [OF w(6) bounds] assms(3) watcher(1) show ?thesis by (auto simp: fold_push_new)
  next
    case result
    then show ?thesis
    proof (cases rule: completes.cases)
      case (1 xs rq t ys dk dk' owned rqs sc db)
      have root: "cp_root (run_request dk' rq) = rq_root rq" by (simp add: run_request_def)
      show ?thesis
      proof (cases "rq_root rq \<in> folders_of s")
        case True
        have path: "as_path (root_path (ss_db s) (rq_root rq)) = Some (rq_path rq)" using bounds_okD(4) [OF b, of rq t] 1 by simp
        note w = apply_scan_completed_live [OF 1(3), unfolded root, OF True path bounds]
        from w(3) waiting_layout [OF w(4) bounds] assms(3) 1(1) show ?thesis by simp
      next
        case False
        with 1(1,3) root show ?thesis by (intro kept) (auto simp: apply_scan_completed_stale)
      qed
    qed
  qed (rule kept; simp)+
qed

section \<open>Progress\<close>

text \<open>The scans in flight and those that are queued behind one.\<close>

definition pending_work :: "scan_system \<Rightarrow> nat" where
  "pending_work s = length (ss_flight s) + card {r. state_of s r = Some ScanningWithRescanQueued}"

lemma finite_queued: "finite {r. state_of s r = Some st}"
  by (rule finite_subset [OF _ finite_dom_map_of [of "sc_state (ss_sc s)"]]) auto

lemma completes_less_work:
  assumes "completes s s'" and "system_ok s"
  shows "pending_work s' < pending_work s"
  using assms(1)
proof (cases rule: completes.cases)
  case (1 xs rq t ys dk dk' owned rqs sc db)
  let ?r = "rq_root rq" and ?Q = "\<lambda>s. {r. state_of s r = Some ScanningWithRescanQueued}"
  have b: "bounds_ok s" using assms(2) by (simp add: system_ok_def)
  have bounds: "\<forall>r\<in>folders_of s. r < db_next_root (ss_db s)" using bounds_okD(1) [OF b] by blast
  have path: "as_path (root_path (ss_db s) ?r) = Some (rq_path rq)" using bounds_okD(4) [OF b, of rq t] 1 by simp
  have root: "cp_root (run_request dk' rq) = ?r" by (simp add: run_request_def)
  have "?Q s' = ?Q s - {?r} \<and> length rqs \<le> (if ?r \<in> ?Q s then 1 else 0)"
  proof (cases "?r \<in> folders_of s")
    case True
    note w = apply_scan_completed_live [OF 1(3), unfolded root, OF True path bounds]
    show ?thesis by (auto simp: 1(1) w(1,2))
  next
    case False
    with 1(1,3) root show ?thesis by (auto simp: apply_scan_completed_stale split: if_splits)
  qed
  moreover have "card (?Q s) = card (?Q s - {?r}) + (if ?r \<in> ?Q s then 1 else 0)"
    using card.remove [OF finite_queued [of s ScanningWithRescanQueued]] by (cases "?r \<in> ?Q s") simp_all
  ultimately show ?thesis using 1(1,2) by (simp add: pending_work_def split: if_splits)
qed

lemma completes_possible:
  assumes "ss_flight s \<noteq> []"
  shows "\<exists>s'. completes s s'"
proof -
  obtain rq t ys where "ss_flight s = [] @ (rq, t) # ys" using assms by (metis append_Nil list.exhaust surj_pair)
  moreover obtain rqs sc db where
    "apply_scan_completed undefined (run_request undefined rq) {} (ss_sc s) (ss_db s) = (rqs, sc, db)"
    by (metis surj_pair)
  ultimately show ?thesis by (blast intro: completes.intros)
qed

lemma completes_chain:
  assumes "(completes ^^ k) s s'" and "system_ok s"
  shows "system_ok s' \<and> pending_work s' + k \<le> pending_work s"
  using assms(1)
proof (induction k arbitrary: s')
  case (Suc k)
  then obtain s1 where "(completes ^^ k) s s1" "completes s1 s'" by auto
  with Suc.IH completes_less_work [of s1 s'] system_ok_completes [of s1 s'] show ?case by fastforce
qed (simp add: assms(2))

lemma settled:
  assumes "system_ok s" and "ss_flight s = []"
  shows "\<not> has_pending_scans (ss_sc s)" and "sc_buffered (ss_sc s) = []"
    and "r \<in> folders_of s \<Longrightarrow> ss_discovered s r \<le> ss_applied s r"
proof -
  have none: "state_of s r = None" for r
    using assms flight_okD(1) [of s r] by (fastforce simp: system_ok_def)
  then have empty: "sc_state (ss_sc s) = []" by (metis ext map_of_eq_empty_iff)
  then show "\<not> has_pending_scans (ss_sc s)" by (simp add: has_pending_scans_def)
  have "\<not> waiting (ss_db s) (ss_sc s) path" for path using none by (simp add: waiting_def)
  then show "sc_buffered (ss_sc s) = []" using assms(1) by (auto simp: system_ok_def buffer_ok_def)
  show "ss_discovered s r \<le> ss_applied s r" if "r \<in> folders_of s"
    using assms none [of r] fresh_okD(4) [of s r] that by (auto simp: system_ok_def)
qed

section \<open>A small session\<close>

text \<open>
  One folder is opened; while its scan runs, the watcher reports an R file and a DESCRIPTION below it;
  then the first result arrives.
\<close>

definition empty_db :: oak_db where
  "empty_db = \<lparr> db_file = (\<lambda>_. \<lparr> fl_path = FilePath [], fl_revision = 0, fl_source_text_override = None, fl_package = None \<rparr>),
     db_next_file = 0,
     db_package = (\<lambda>_. \<lparr> pk_description_path = FilePath [], pk_name = [], pk_description_revision = 0,
       pk_namespace_revision = 0, pk_index_revision = None, pk_namespace_override = None, pk_files = [], pk_scripts = [] \<rparr>),
     db_next_package = 0,
     db_root = (\<lambda>_. \<lparr> rt_path = FilePath [], rt_kind = WorkspaceKind, rt_scripts = [], rt_packages = [], rt_environment_dirs = [] \<rparr>),
     db_next_root = 0,
     db_notebook = (\<lambda>_. \<lparr> nb_path = FilePath [], nb_cells = [] \<rparr>), db_next_notebook = 0,
     db_workspace_roots = [], db_library_roots = [], db_orphan_files = [], db_stale_files = [],
     db_stale_packages = [], db_open_notebooks = [] \<rparr>"

definition bare_disk :: disk where
  "bare_disk = \<lparr> dk_metadata = (\<lambda>_. Inl NotFound), dk_read_dir = (\<lambda>_. Inl NotFound), dk_mtime = (\<lambda>_. None),
     dk_read = (\<lambda>_. None), dk_subdirs = (\<lambda>_. []), dk_walk = (\<lambda>_. []) \<rparr>"

definition opened_folder :: scan_system where
  "opened_folder = (let s = system_start empty_db;
     (rqs, sc, db) = set_workspace_paths bare_disk [AbsPathBuf [lit ''w'']] {} (ss_sc s) (ss_db s)
   in dispatch rqs (s\<lparr> ss_sc := sc, ss_db := db,
        ss_discovered := (\<lambda>r. if r \<in> rq_root ` set rqs then ss_clock s else ss_discovered s r) \<rparr>))"

definition reported :: "file_path list" where
  "reported = [FilePath [lit ''w'', lit ''a.R''], FilePath [lit ''w'', lit ''DESCRIPTION'']]"

definition after_report :: scan_system where
  "after_report = (let s = opened_folder;
     (rqs, sc, db) = apply_watcher_events bare_disk reported {} (ss_sc s) (ss_db s)
   in dispatch rqs (s\<lparr> ss_sc := sc, ss_db := db,
        ss_discovered := (\<lambda>r. if reports_discovery (ss_db s) reported r then ss_clock s else ss_discovered s r) \<rparr>))"

lemma reachable_opened_folder: "reachable opened_folder"
proof -
  have "reachable (system_start empty_db)" by (rule reachable.start) (simp add: empty_db_def)
  then show ?thesis
    unfolding opened_folder_def Let_def
    by (auto split: prod.splits intro: reachable.step scan_step.folders)
qed

lemma reachable_after_report: "reachable after_report"
  using reachable_opened_folder unfolding after_report_def Let_def
  by (auto split: prod.splits intro: reachable.step scan_step.watcher)

lemma opened_folder_flight:
  "ss_flight opened_folder = [(\<lparr> rq_root = 0, rq_path = [lit ''w''] \<rparr>, 0)]" "db_workspace_roots (ss_db opened_folder) = [0]"
  "sc_state (ss_sc opened_folder) = [(0, Scanning)]" "sc_buffered (ss_sc opened_folder) = []"
  by code_simp+

lemma after_report_flight:
  "ss_flight after_report = [(\<lparr> rq_root = 0, rq_path = [lit ''w''] \<rparr>, 0)]" "db_workspace_roots (ss_db after_report) = [0]"
  "sc_state (ss_sc after_report) = [(0, ScanningWithRescanQueued)]"
  "sc_buffered (ss_sc after_report) = [FilePath [lit ''w'', lit ''a.R'']]"
  by code_simp+

text \<open>The first scan in flight comes back with what it finds on the empty disk.\<close>

definition take_first :: "scan_system \<Rightarrow> scan_system" where
  "take_first s = (case ss_flight s of
     [] \<Rightarrow> s
   | (rq, t) # ys \<Rightarrow>
       (case apply_scan_completed bare_disk (run_request bare_disk rq) {} (ss_sc s) (ss_db s) of
          (rqs, sc, db) \<Rightarrow> dispatch rqs (s\<lparr> ss_sc := sc, ss_db := db, ss_flight := ys,
            ss_applied := (if rq_root rq \<in> set (db_workspace_roots (ss_db s))
              then (ss_applied s)(rq_root rq := t) else ss_applied s) \<rparr>)))"

lemma take_first_completes: "ss_flight s \<noteq> [] \<Longrightarrow> completes s (take_first s)"
proof -
  assume "ss_flight s \<noteq> []"
  then obtain rq t ys where fl: "ss_flight s = (rq, t) # ys" by (metis list.exhaust surj_pair)
  obtain rqs sc db where "apply_scan_completed bare_disk (run_request bare_disk rq) {} (ss_sc s) (ss_db s) = (rqs, sc, db)"
    by (metis surj_pair)
  with completes.intros [of s "[]" rq t ys, OF _ this] fl show ?thesis by (simp add: take_first_def)
qed

lemma first_result:
  "ss_flight (take_first after_report) = [(\<lparr> rq_root = 0, rq_path = [lit ''w''] \<rparr>, 2)]"
  "sc_buffered (ss_sc (take_first after_report)) = [FilePath [lit ''w'', lit ''a.R'']]"
  by code_simp+

lemma second_result:
  "ss_flight (take_first (take_first after_report)) = []"
  "db_workspace_roots (ss_db (take_first (take_first after_report))) = [0]"
  by code_simp+

section \<open>Properties\<close>

text \<open>
  C36. In every reachable state, a workspace folder is marked as scanning exactly when a scan of it is
  in flight, and then there is only one; every root that is still marked has one scan in flight. So a
  result for a live folder is never untracked, and no folder stays pending with nothing in flight.
\<close>

theorem one_scan_in_flight:
  assumes "reachable s"
  shows "(\<forall>r\<in>folders_of s. state_of s r \<noteq> None \<longleftrightarrow> r \<in> set (flight_roots s)) \<and>
    (\<forall>r. state_of s r \<noteq> None \<longrightarrow> count_list (flight_roots s) r = 1)"
  using reachable_ok [OF assms] scanning_iff_in_flight [of s] by (auto simp: system_ok_def flight_ok_def)

theorem one_scan_in_flight_witness:
  "reachable after_report \<and> state_of after_report 0 \<noteq> None \<and> count_list (flight_roots after_report) 0 = 1"
  using one_scan_in_flight [OF reachable_after_report] reachable_after_report
  by (simp add: after_report_flight)

text \<open>
  A watcher path that does not itself trigger a rescan is buffered by its event exactly when some
  workspace folder above it has a scan in flight after the event, also one that the same batch started.
\<close>

theorem watcher_path_waits:
  assumes "reachable s" and "apply_watcher_events dk paths skip (ss_sc s) (ss_db s) = (rqs, sc, db)"
    and "path \<in> set paths" and "file_event path"
  shows "path \<in> set (sc_buffered sc) \<longleftrightarrow> scan_above (dispatch rqs (s\<lparr> ss_sc := sc, ss_db := db \<rparr>)) path"
proof -
  let ?s' = "dispatch rqs (s\<lparr> ss_sc := sc, ss_db := db,
      ss_discovered := (\<lambda>r. if reports_discovery (ss_db s) paths r then ss_clock s else ss_discovered s r) \<rparr>)"
  have b: "bounds_ok s" using reachable_ok [OF assms(1)] by (simp add: system_ok_def)
  have bounds: "\<forall>r\<in>folders_of s. r < db_next_root (ss_db s)"
    and paths: "\<forall>r\<in>folders_of s. as_path (root_path (ss_db s) r) \<noteq> None" using bounds_okD(1,3) [OF b] by blast+
  note w = apply_watcher_events_effect [OF assms(2) paths]
  have "path \<in> set (sc_buffered sc) \<longleftrightarrow> waiting db sc path"
    using w(5) waiting_layout [OF w(6) bounds] assms(3,4) by (simp add: fold_push_new)
  also have "\<dots> \<longleftrightarrow> scan_above ?s' path"
    using waiting_scan_above [OF system_ok_watcher [OF reachable_ok [OF assms(1)] assms(2)], of path] by simp
  finally show ?thesis by (simp add: scan_above_def)
qed

theorem watcher_path_waits_witness:
  "reachable opened_folder \<and>
   (case apply_watcher_events bare_disk reported {} (ss_sc opened_folder) (ss_db opened_folder) of
      (rqs, sc, db) \<Rightarrow> FilePath [lit ''w'', lit ''a.R''] \<in> set (sc_buffered sc) \<and>
        scan_above (dispatch rqs (opened_folder\<lparr> ss_sc := sc, ss_db := db \<rparr>)) (FilePath [lit ''w'', lit ''a.R'']))"
proof -
  obtain rqs sc db where ev: "apply_watcher_events bare_disk reported {} (ss_sc opened_folder) (ss_db opened_folder) = (rqs, sc, db)"
    by (metis surj_pair)
  then have "sc_buffered sc = [FilePath [lit ''w'', lit ''a.R'']]"
    using after_report_flight(4) by (simp add: after_report_def)
  moreover have "file_event (FilePath [lit ''w'', lit ''a.R''])" by code_simp
  ultimately show ?thesis
    using watcher_path_waits [OF reachable_opened_folder ev, of "FilePath [lit ''w'', lit ''a.R'']"]
      reachable_opened_folder ev by (simp add: reported_def)
qed

text \<open>
  C35. A buffered path stays buffered through any event until no workspace folder above it has a scan
  in flight, and leaves the buffer then: an older scan result cannot overwrite its effect.
\<close>

theorem buffered_until_idle:
  assumes "reachable s" and "scan_step s s'" and "path \<in> set (sc_buffered (ss_sc s))"
  shows "path \<in> set (sc_buffered (ss_sc s')) \<longleftrightarrow> scan_above s' path"
  using buffered_step [OF assms(2) reachable_ok [OF assms(1)] assms(3)]
    waiting_scan_above [OF system_ok_step [OF assms(2) reachable_ok [OF assms(1)]]] by simp

theorem buffered_until_idle_witness:
  "reachable after_report \<and> scan_step after_report (take_first after_report) \<and>
   FilePath [lit ''w'', lit ''a.R''] \<in> set (sc_buffered (ss_sc after_report)) \<and>
   scan_above (take_first after_report) (FilePath [lit ''w'', lit ''a.R''])"
proof -
  have "scan_step after_report (take_first after_report)"
    by (rule scan_step.result [OF take_first_completes]) (simp add: after_report_flight)
  then show ?thesis
    using buffered_until_idle [OF reachable_after_report, of "take_first after_report" "FilePath [lit ''w'', lit ''a.R'']"]
      reachable_after_report by (simp add: after_report_flight first_result)
qed

text \<open>
  C34. Scans settle. From any reachable state, results arrive at most as often as scans are in flight or
  queued, in whatever order they arrive; while one is in flight the next result can be applied; and
  when none is left, nothing is pending, no path is buffered, and the contents of every workspace
  folder come from a scan requested at or after its last discovery event.
\<close>

theorem scans_settle:
  assumes "reachable s" and "(completes ^^ k) s s'"
  shows "k \<le> pending_work s \<and> (ss_flight s' \<noteq> [] \<longrightarrow> (\<exists>s''. completes s' s'')) \<and>
    (ss_flight s' = [] \<longrightarrow> \<not> has_pending_scans (ss_sc s') \<and> sc_buffered (ss_sc s') = [] \<and>
      (\<forall>r\<in>folders_of s'. ss_discovered s' r \<le> ss_applied s' r))"
  using completes_chain [OF assms(2) reachable_ok [OF assms(1)]] completes_possible [of s'] settled [of s'] by auto

theorem scans_settle_witness:
  "reachable after_report \<and> (completes ^^ 2) after_report (take_first (take_first after_report)) \<and>
   2 \<le> pending_work after_report \<and>
   sc_buffered (ss_sc (take_first (take_first after_report))) = [] \<and>
   ss_discovered (take_first (take_first after_report)) 0 \<le> ss_applied (take_first (take_first after_report)) 0"
proof -
  have "completes after_report (take_first after_report)"
    "completes (take_first after_report) (take_first (take_first after_report))"
    by (rule take_first_completes, simp add: after_report_flight first_result)+
  then have chain: "(completes ^^ 2) after_report (take_first (take_first after_report))"
    by (auto simp: numeral_2_eq_2)
  from scans_settle [OF reachable_after_report this] reachable_after_report chain second_result show ?thesis by simp
qed

end
