(* ===== verification/Placement_Session.thy ===== *)
theory Placement_Session
  imports Placement_Invariant Scan_Progress
begin

text \<open>
  Sessions of the workspace: every event of the scheduler keeps the placement invariant, so it holds
  in every database that a session without nested folders produces. From it follow what the lookup by
  path returns and that a watched path agrees with the disk once it is reconciled. Three small
  sessions with nested folders or packages show why the conditions are needed.
\<close>

section \<open>The events\<close>

text \<open>Updates of single files keep the roots and their paths.\<close>

definition keeps_roots :: "oak_db \<Rightarrow> oak_db \<Rightarrow> bool" where
  "keeps_roots db db' \<longleftrightarrow> db_workspace_roots db' = db_workspace_roots db \<and>
     db_library_roots db' = db_library_roots db \<and> root_path db' = root_path db"

lemma keeps_roots_trans: "keeps_roots db db' \<Longrightarrow> keeps_roots db' db'' \<Longrightarrow> keeps_roots db db''"
  by (simp add: keeps_roots_def)

lemma keeps_roots_apart: "keeps_roots db db' \<Longrightarrow> apart db' = apart db"
  unfolding keeps_roots_def by (intro apart_cong) (simp_all add: live_ids_def)

lemma same_roots_keeps: "same_roots db db' \<Longrightarrow> keeps_roots db db'"
  by (simp add: same_roots_def keeps_roots_def live_ids_def)

lemma upsert_same_roots: "same_roots db (snd (upsert_root_file po e db))"
proof (cases "file_by_path db (fe_path e)")
  case (Some f)
  then show ?thesis by (rule upsert_existing [where po = po]) simp
next
  case None
  show ?thesis
  proof (cases "stale_file_by_path db (fe_path e)")
    case (Some f)
    with None show ?thesis by (rule upsert_stale [where po = po]) simp
  next
    case stale: None
    with None show ?thesis by (rule upsert_fresh [where po = po]) simp
  qed
qed

lemma keeps_roots_append: "keeps_roots db (append_to_container f pl db)"
  by (cases pl) (auto simp: keeps_roots_def live_ids_def fun_eq_iff)

lemma keeps_roots_add_watched: "keeps_roots db (add_watched_file dk path db)"
proof -
  have "keeps_roots db (append_to_container f pl (snd (upsert_root_file po e db)))" for f pl po e
    by (rule keeps_roots_trans [OF same_roots_keeps [OF upsert_same_roots] keeps_roots_append])
  moreover have "keeps_roots db (set_revision g v db)" for g v
    by (simp add: set_revision_def keeps_roots_def live_ids_def)
  moreover have "keeps_roots db db" by (simp add: keeps_roots_def)
  ultimately show ?thesis
    by (auto simp: add_watched_file_def case_prod_beta Let_def split: option.splits)
qed

lemma keeps_roots_remove_watched: "keeps_roots db (remove_watched_file path db)"
proof -
  have "keeps_roots db (remove_from_first_root rs f db)" for rs f
    by (induction rs) (simp_all add: remove_from_orphan_eq keeps_roots_def live_ids_def fun_eq_iff)
  then show ?thesis
    by (auto simp: remove_watched_file_def remove_from_pkg_files_def keeps_roots_def live_ids_def split: option.splits)
qed

lemma reconcile_ok:
  "workspace_ok db \<Longrightarrow> workspace_ok (reconcile dk rp path fs db)" "keeps_roots db (reconcile dk rp path fs db)"
  using keeps_roots_add_watched [of db] keeps_roots_remove_watched [of db]
  by (auto simp: reconcile_def add_watched_file_ok remove_watched_file_ok keeps_roots_def
      split: sum.splits bool.splits io_error_kind.splits)

lemma drain_buffered_ok:
  assumes "drain_buffered dk owned sc db = (sc', db')"
  shows "workspace_ok db \<Longrightarrow> workspace_ok db'" and "keeps_roots db db'"
proof -
  have one: "(workspace_ok db \<longrightarrow> workspace_ok (snd (drain_one dk owned roots sc path db))) \<and>
      keeps_roots db (snd (drain_one dk owned roots sc path db))" for roots path db
    using reconcile_ok by (auto simp: drain_one_def keeps_roots_def split: option.splits list.splits)
  have "(workspace_ok db \<longrightarrow> workspace_ok (snd (retain_buffered dk owned roots sc paths db))) \<and>
      keeps_roots db (snd (retain_buffered dk owned roots sc paths db))" for roots paths db
  proof (induction paths arbitrary: db)
    case (Cons path paths)
    from one [of db roots path] Cons.IH [of "snd (drain_one dk owned roots sc path db)"] show ?case
      by (auto simp: case_prod_beta Let_def intro: keeps_roots_trans)
  qed (simp add: keeps_roots_def)
  from this [of db "workspace_root_paths db" "sc_buffered sc"] assms
  show "workspace_ok db \<Longrightarrow> workspace_ok db'" "keeps_roots db db'"
    by (auto simp: drain_buffered_def split: prod.splits)
qed

lemma set_workspace_paths_ok:
  assumes ev: "set_workspace_paths dk paths owned sc db = (rqs, sc', db')" and ok: "workspace_ok db" and apart: "apart db'"
  shows "workspace_ok db'"
proof -
  let ?old = "roots_by_path db (db_workspace_roots db)" and ?new = "new_paths paths"
  obtain sc1 db1 where evict: "evict_roots ?new owned ?old (sc, db) = (sc1, db1)" by (metis surj_pair)
  obtain rs sc2 db2 where create: "create_roots ?old ?new ([], [], sc1, db1) = (rs, rqs, sc2, db2)"
    and drain: "drain_buffered dk owned sc2 (db2\<lparr> db_workspace_roots := rs \<rparr>) = (sc', db')"
    using ev evict by (auto simp: set_workspace_paths_def split: prod.splits)
  have old: "snd ` set ?old \<subseteq> live_ids db" using roots_by_path_mem by (fastforce simp: live_ids_def)
  have 1: "workspace_ok db1" "live_ids db1 = live_ids db" using evict_roots_ok [OF evict ok old] by simp_all
  have "ran (map_of ?old) \<subseteq> snd ` set ?old" by (auto simp: ran_def intro: rev_image_eqI dest!: map_of_SomeD)
  with old 1(2) have "ran (map_of ?old) \<subseteq> live_ids db1" by simp
  then have 2: "workspace_ok db2" "\<forall>r\<in>set rs. listed_root db2 r" using create_roots_ok [OF create 1(1)] by simp_all
  note d = drain_buffered_ok [OF drain]
  have "apart (db2\<lparr> db_workspace_roots := rs \<rparr>)" using apart keeps_roots_apart [OF d(2)] by blast
  from d(1) [OF set_folders_ok [OF 2 this]] show ?thesis .
qed

lemma apply_watcher_events_ok:
  assumes "apply_watcher_events dk paths skip sc db = (rqs, sc', db')" and "workspace_ok db"
  shows "workspace_ok db'"
  using assms drain_buffered_ok(1) [OF _ assms(2)]
  by (auto simp: apply_watcher_events_def Let_def split: prod.splits)

lemma apply_completed_ok:
  assumes "workspace_ok db" and "cp_root c \<in> live_ids db" and "scan_ok db c"
  shows "workspace_ok (apply_completed c db)"
  using apply_completed_placed [OF workspace_okD(1-3) [OF assms(1)] assms(2,3)] keeps_layout_apply_completed [of db c]
  by (intro workspace_okI [OF _ _ assms(1)]) (simp_all add: keeps_layout_def)

lemma apply_scan_completed_ok:
  assumes ev: "apply_scan_completed dk c owned sc db = (rqs, sc', db')" and ok: "workspace_ok db" and scan: "scan_ok db c"
  shows "workspace_ok db'"
proof (cases "cp_root c \<in> set (db_workspace_roots db)")
  case True
  then have "workspace_ok (apply_completed c db)" using apply_completed_ok [OF ok _ scan] by (simp add: live_ids_def)
  moreover from ev True obtain sc1 where "drain_buffered dk owned sc1 (apply_completed c db) = (sc', db')"
    by (auto simp: apply_scan_completed_def Let_def split: prod.splits)
  ultimately show ?thesis by (rule drain_buffered_ok(1) [rotated])
next
  case False
  with ev ok show ?thesis by (simp add: apply_scan_completed_stale)
qed

section \<open>A workspace session\<close>

text \<open>The library roots are only touched by the library scanner.\<close>

lemma set_packages_same_roots: "same_roots db (snd (set_packages es db))"
proof -
  have ups: "same_roots db (snd (upsert_root_files po es db))" for po es db
  proof (induction es arbitrary: db)
    case (Cons e es)
    show ?case
      using same_trans(1) [OF upsert_same_roots [of db po e] Cons.IH [of "snd (upsert_root_file po e db)"]]
      by (simp add: case_prod_beta Let_def)
  qed simp
  have one: "same_roots db (snd (set_package ix e db))" for ix e db
  proof -
    let ?f = "find_or_new_package ix e db"
    have "same_roots db (snd ?f)"
      by (auto simp: find_or_new_package_def remove_from_stale_packages_eq new_package_def same_roots_def split: option.splits)
    moreover have "same_roots db' (set_package_contents p fs ss db')" for p fs ss db'
      using same_trans(1) [OF ups [of db' "Some p" fs] ups [of "snd (upsert_root_files (Some p) fs db')" "Some p" ss]]
      by (simp add: set_package_contents_def case_prod_beta Let_def same_roots_def)
    ultimately show ?thesis
      using same_trans(1) by (simp add: set_package_def case_prod_beta)
  qed
  show ?thesis
  proof (induction es arbitrary: db)
    case (Cons e es)
    show ?case
      using same_trans(1) [OF one [of db None e] Cons.IH [of "snd (set_package None e db)"]]
      by (simp add: case_prod_beta Let_def)
  qed simp
qed

inductive workspace_run :: "oak_db \<Rightarrow> bool" where
  new: "workspace_run empty_db"
| folders: "workspace_run db \<Longrightarrow> set_workspace_paths dk paths owned sc db = (rqs, sc', db') \<Longrightarrow> apart db' \<Longrightarrow>
    workspace_run db'"
| watcher: "workspace_run db \<Longrightarrow> apply_watcher_events dk paths skip sc db = (rqs, sc', db') \<Longrightarrow> workspace_run db'"
| result: "workspace_run db \<Longrightarrow> scan_ok db c \<Longrightarrow> apply_scan_completed dk c owned sc db = (rqs, sc', db') \<Longrightarrow>
    workspace_run db'"
| opened: "workspace_run db \<Longrightarrow> workspace_run (snd (upsert_editor path contents db))"
| closed: "workspace_run db \<Longrightarrow> workspace_run (close_editor path db)"

lemma empty_db_ok: "workspace_ok empty_db"
  by (simp add: workspace_ok_def placed_def tracked_def homed_def apart_def in_play_def live_ids_def live_packages_def
      live_scripts_def empty_db_def)

lemma workspace_run_ok: "workspace_run db \<Longrightarrow> workspace_ok db"
  by (induction rule: workspace_run.induct)
    (auto intro: empty_db_ok set_workspace_paths_ok apply_watcher_events_ok apply_scan_completed_ok upsert_editor_ok close_editor_ok)

lemma no_libraries: "workspace_run db \<Longrightarrow> db_library_roots db = []"
proof (induction rule: workspace_run.induct)
  case (folders db dk paths owned sc rqs sc' db')
  let ?old = "roots_by_path db (db_workspace_roots db)" and ?new = "new_paths paths"
  obtain sc1 db1 where evict: "evict_roots ?new owned ?old (sc, db) = (sc1, db1)" by (metis surj_pair)
  obtain rs sc2 db2 where create: "create_roots ?old ?new ([], [], sc1, db1) = (rs, rqs, sc2, db2)"
    and drain: "drain_buffered dk owned sc2 (db2\<lparr> db_workspace_roots := rs \<rparr>) = (sc', db')"
    using folders.hyps(2) evict by (auto simp: set_workspace_paths_def split: prod.splits)
  have "db_library_roots (snd (evict_roots new owned old (sc, db))) = db_library_roots db" for new old sc db
    by (induction old arbitrary: sc db) (auto simp: evict_roots_def set_root_stale_shape)
  moreover have "db_library_roots (snd (snd (snd (create_roots old new (rs, rqs, sc, db))))) = db_library_roots db" for old new rs rqs sc db
    by (induction new arbitrary: rs rqs sc db) (auto simp: create_roots_def new_root_def split: option.splits)
  ultimately have "db_library_roots db2 = db_library_roots db" using evict create by (metis snd_conv)
  then show ?case using drain_buffered_ok(2) [OF drain] folders.IH by (simp add: keeps_roots_def)
next
  case (watcher db dk paths skip sc rqs sc' db')
  then obtain sc1 where "drain_buffered dk skip sc1 db = (sc', db')"
    by (auto simp: apply_watcher_events_def Let_def split: prod.splits)
  from drain_buffered_ok(2) [OF this] watcher.IH show ?case by (simp add: keeps_roots_def)
next
  case (result db c dk owned sc rqs sc' db')
  have "db_library_roots (snd (upsert_root_files po es db)) = db_library_roots db" for po es db
  proof (induction es arbitrary: db)
    case (Cons e es)
    with upsert_same_roots [of db po e] show ?case by (simp add: case_prod_beta Let_def same_roots_def)
  qed simp
  then have lib: "db_library_roots (apply_completed c db) = db_library_roots db"
    using set_packages_same_roots [of db "cp_packages c"]
    by (simp add: apply_completed_def set_workspace_scripts_def case_prod_beta Let_def same_roots_def)
  consider "db' = db" | sc1 where "drain_buffered dk owned sc1 (apply_completed c db) = (sc', db')"
    using result.hyps(3) by (auto simp: apply_scan_completed_def Let_def split: prod.splits if_splits)
  then show ?case
  proof cases
    case 2
    from drain_buffered_ok(2) [OF this] lib result.IH show ?thesis by (simp add: keeps_roots_def)
  qed (simp add: result.IH)
next
  case (opened db path contents)
  then show ?case
    by (auto simp: upsert_editor_def remove_from_stale_files_eq new_file_def set_package_back_def set_override_def split: option.splits)
next
  case (closed db path)
  then show ?case by (auto simp: close_editor_def Let_def set_override_def split: option.splits)
qed (simp add: empty_db_def)

lemma placed_path_unique:
  assumes "workspace_ok db"
  shows "inj_on (path_of db) (live_files db \<union> set (db_stale_files db))"
  using trackedD(2) [OF workspace_okD(4) [OF assms]] by (simp add: live_in_play)

lemma file_by_path_iff:
  assumes "workspace_ok db"
  shows "file_by_path db path = Some f \<longleftrightarrow> f \<in> live_files db \<and> path_of db f = path"
proof
  assume f: "f \<in> live_files db \<and> path_of db f = path"
  then obtain g where g: "file_by_path db path = Some g" using file_by_path_None [of db path] by (cases "file_by_path db path") auto
  with f file_by_path_Some [OF g] placed_path_unique [OF assms] show "file_by_path db path = Some f"
    by (auto dest: inj_onD)
qed (rule file_by_path_Some)

text \<open>Where a visible file is listed, by its back-pointer.\<close>

lemma live_file_cases:
  assumes ok: "workspace_ok db" and f: "f \<in> live_files db"
  obtains (package) p where "package_of db f = Some p" "p \<in> live_packages db" "f \<in> set (package_files db p)"
      "f \<notin> live_scripts db" "f \<notin> set (db_orphan_files db)" "\<And>q. q \<in> live_packages db \<Longrightarrow> q \<noteq> p \<Longrightarrow> f \<notin> set (package_files db q)"
  | (script) r where "package_of db f = None" "r \<in> live_ids db" "f \<in> set (rt_scripts (db_root db r))"
      "f \<notin> set (db_orphan_files db)" "\<And>q. q \<in> live_packages db \<Longrightarrow> f \<notin> set (package_files db q)"
      "\<And>r'. r' \<in> live_ids db \<Longrightarrow> r' \<noteq> r \<Longrightarrow> f \<notin> set (rt_scripts (db_root db r'))"
  | (orphan) "package_of db f = None" "f \<in> set (db_orphan_files db)" "f \<notin> live_scripts db"
      "\<And>q. q \<in> live_packages db \<Longrightarrow> f \<notin> set (package_files db q)"
proof -
  note tr = workspace_okD(4) [OF ok]
  have L: "package_of db f = Some p" if "p \<in> live_packages db" "f \<in> set (package_files db p)" for p
    using trackedD(4) [OF tr that] .
  have S: "package_of db f = None \<and> f \<notin> set (db_orphan_files db)" if "f \<in> live_scripts db"
    using that by (intro trackedD(5) [OF tr]) auto
  have N: "package_of db f = None" if "f \<in> set (db_orphan_files db)" using trackedD(6) [OF tr that] .
  from f consider p where "p \<in> live_packages db" "f \<in> set (package_files db p)" | "f \<in> live_scripts db" | "f \<in> set (db_orphan_files db)"
    by (auto simp: live_files_eq)
  then show ?thesis
  proof cases
    case (1 p)
    have ptr: "package_of db f = Some p" using L [OF 1] .
    then have "f \<notin> set (package_files db q)" if "q \<in> live_packages db" "q \<noteq> p" for q using L [OF that(1)] that(2) by auto
    with 1 ptr S N show ?thesis by (intro package [of p]) auto
  next
    case 2
    then obtain r where r: "r \<in> live_ids db" "f \<in> set (rt_scripts (db_root db r))" by (auto simp: live_scripts_def)
    have "f \<notin> set (rt_scripts (db_root db r'))" if "r' \<in> live_ids db" "r' \<noteq> r" for r'
      using root_disjoint(2) [OF ok r(1) that(1)] that(2) r(2) by (auto simp: root_files_def)
    with S [OF 2] L r show ?thesis by (intro script [of r]) auto
  next
    case 3
    with N L S show ?thesis by (intro orphan) auto
  qed
qed

text \<open>A workspace without libraries whose placement is sound.\<close>

definition sound_db :: "oak_db \<Rightarrow> bool" where
  "sound_db db \<longleftrightarrow> workspace_ok db \<and> db_library_roots db = []"

lemma sound_dbD: "sound_db db \<Longrightarrow> workspace_ok db" "sound_db db \<Longrightarrow> db_library_roots db = []"
  by (simp_all add: sound_db_def)

lemma workspace_run_sound: "workspace_run db \<Longrightarrow> sound_db db"
  by (simp add: sound_db_def workspace_run_ok no_libraries)

lemma remove_watched_file_live:
  assumes run: "sound_db db" and f: "file_by_path db path = Some f"
  shows "live_files (remove_watched_file path db) = live_files db - {f}" and "db_file (remove_watched_file path db) = db_file db"
proof -
  note ok = sound_dbD(1) [OF run]
  let ?db' = "remove_watched_file path db"
  have "f \<in> live_files db" using file_by_path_Some [OF f] by blast
  from ok this have "live_files ?db' = live_files db - {f} \<and> db_file ?db' = db_file db"
  proof (cases rule: live_file_cases)
    case (package p)
    have db': "?db' = remove_from_pkg_files p f db" using f package(1) by (simp add: remove_watched_file_def)
    have same: "live_packages ?db' = live_packages db" "live_scripts ?db' = live_scripts db"
      by (simp_all add: db' live_packages_def live_scripts_def live_ids_def)
    have "set (package_files ?db' q) = set (package_files db q) - {f}" if "q \<in> live_packages db" for q
      using package(6) [OF that] trackedD(3) [OF workspace_okD(4) [OF ok] that]
      by (cases "q = p") (auto simp: db' package_files_remove)
    then have "live_files ?db' = live_files db - {f}"
      using package(4,5) unfolding live_files_eq same by (auto simp: db')
    then show ?thesis by (simp add: db')
  next
    case (script r)
    have ws: "live_ids db = set (db_workspace_roots db)" by (simp add: live_ids_def sound_dbD(2) [OF run])
    have db': "?db' = remove_from_first_root (db_workspace_roots db) f db" using f script(1) by (simp add: remove_watched_file_def)
    from remove_from_first_root_cases [of "db_workspace_roots db" f db] script(2,3,6)
    have db'': "?db' = upd_root r (\<lambda>d. d\<lparr> rt_scripts := filter (\<lambda>y. y \<noteq> f) (rt_scripts (db_root db r)) \<rparr>) db"
      unfolding ws db' by metis
    have ids: "live_ids ?db' = live_ids db" by (simp add: db'' live_ids_def)
    have "live_packages ?db' = live_packages db"
      by (auto simp: live_packages_def ids) (auto simp: db'' split: if_splits)
    moreover have "package_files ?db' = package_files db" "db_orphan_files ?db' = db_orphan_files db"
      by (simp_all add: db'' package_files_def fun_eq_iff)
    moreover have "live_scripts ?db' = live_scripts db - {f}"
      using script(2,3,6) by (auto simp: live_scripts_def ids) (auto simp: db'' split: if_splits)
    ultimately show ?thesis using script(4,5) unfolding live_files_eq by (auto simp: db'')
  next
    case orphan
    have db': "?db' = remove_from_first_root (db_workspace_roots db) f db" using f orphan(1) by (simp add: remove_watched_file_def)
    have "f \<notin> set (rt_scripts (db_root db r))" if "r \<in> set (db_workspace_roots db)" for r
      using orphan(3) that by (auto simp: live_scripts_def live_ids_def)
    with remove_from_first_root_cases [of "db_workspace_roots db" f db]
    have db'': "?db' = db\<lparr> db_orphan_files := filter (\<lambda>y. y \<noteq> f) (db_orphan_files db) \<rparr>"
      unfolding db' remove_from_orphan_eq by blast
    have "live_packages ?db' = live_packages db" "package_files ?db' = package_files db" "live_scripts ?db' = live_scripts db"
      by (simp_all add: db'' live_packages_def live_scripts_def live_ids_def package_files_def fun_eq_iff)
    then show ?thesis using orphan(3,4) unfolding live_files_eq by (auto simp: db'')
  qed
  then show "live_files ?db' = live_files db - {f}" "db_file ?db' = db_file db" by simp_all
qed

lemma remove_watched_file_lookup:
  assumes run: "sound_db db"
  shows "file_by_path (remove_watched_file path db) = (file_by_path db)(path := None)"
proof (cases "file_by_path db path")
  case (Some f)
  note ok = sound_dbD(1) [OF run]
  have "file_by_path (remove_watched_file path db) q = Some g \<longleftrightarrow> q \<noteq> path \<and> file_by_path db q = Some g" for q g
    unfolding file_by_path_iff [OF ok] file_by_path_iff [OF remove_watched_file_ok [OF ok]] remove_watched_file_live [OF run Some]
    using Some [unfolded file_by_path_iff [OF ok]] placed_path_unique [OF ok] by (auto dest: inj_onD)
  then show ?thesis by (auto simp: fun_eq_iff) (metis not_None_eq)+
qed (auto simp: remove_watched_file_def)

text \<open>
  The lookup by path as a map from which paths are deleted: the laws a client of the watcher relies on,
  and what follows for a whole batch of deleted paths.
\<close>

locale path_index =
  fixes invar :: "'db \<Rightarrow> bool" and lookup :: "'db \<Rightarrow> 'path \<Rightarrow> 'v option" and unlink :: "'path \<Rightarrow> 'db \<Rightarrow> 'db"
  assumes lookup_unlink: "invar db \<Longrightarrow> lookup (unlink path db) = (lookup db)(path := None)"
    and invar_unlink: "invar db \<Longrightarrow> invar (unlink path db)"
begin

lemma lookup_unlinks:
  "invar db \<Longrightarrow> lookup (fold unlink paths db) = (\<lambda>q. if q \<in> set paths then None else lookup db q)"
proof (induction paths arbitrary: db)
  case (Cons p paths)
  from Cons.IH [OF invar_unlink [OF Cons.prems]] lookup_unlink [OF Cons.prems] show ?case
    by (simp add: fun_eq_iff)
qed simp

lemma unlink_order: "invar db \<Longrightarrow> set paths = set paths' \<Longrightarrow> lookup (fold unlink paths db) = lookup (fold unlink paths' db)"
  by (simp add: lookup_unlinks)

end

interpretation watched: path_index sound_db file_by_path remove_watched_file
proof unfold_locales
  fix db path assume "sound_db db"
  then show "file_by_path (remove_watched_file path db) = (file_by_path db)(path := None)"
    by (rule remove_watched_file_lookup)
  show "sound_db (remove_watched_file path db)"
    using \<open>sound_db db\<close> remove_watched_file_ok keeps_roots_remove_watched [of db path]
    by (simp add: sound_db_def keeps_roots_def)
qed

lemma upsert_revision: "upsert_root_file po e db = (f, db') \<Longrightarrow> fl_revision (db_file db' f) = fe_revision e"
  by (auto simp: upsert_root_file_def Let_def remove_from_orphan_eq remove_from_stale_files_eq new_file_def
      set_revision_def set_package_back_def set_override_def split: option.splits if_splits)

lemma append_to_container_file [simp]: "db_file (append_to_container f pl db) = db_file db"
  by (cases pl) simp_all

lemma append_to_container_live:
  assumes "pl = Script r \<or> (\<exists>p\<in>set (rt_packages (db_root db r)). pl = PackageFile p \<or> pl = PackageScript p)"
    and "r \<in> set (db_workspace_roots db)"
  shows "f \<in> live_files (append_to_container f pl db)"
proof -
  let ?db' = "append_to_container f pl db"
  have ws: "db_workspace_roots ?db' = db_workspace_roots db" by (cases pl) simp_all
  have "f \<in> set (rt_scripts (db_root ?db' r)) \<or> (\<exists>p\<in>set (rt_packages (db_root ?db' r)). f \<in> set (package_files ?db' p))"
    using assms(1) by (elim disjE bexE) (auto simp: package_files_def intro: rev_bexI)
  then have "f \<in> set (root_files ?db' r)" by (auto simp: root_files_def)
  with assms(2) ws show ?thesis by (auto simp: live_files_def)
qed

lemma add_watched_file_lookup:
  assumes ok: "workspace_ok db" and fs: "as_path path = Some fs"
    and known: "file_by_path db path \<noteq> None \<or> classify dk db fs \<noteq> None"
  obtains f where "file_by_path (add_watched_file dk path db) path = Some f"
    "fl_revision (db_file (add_watched_file dk path db) f) = disk_revision dk fs"
proof (cases "file_by_path db path")
  case (Some g)
  let ?db' = "set_revision g (disk_revision dk fs) db"
  have eq: "add_watched_file dk path db = ?db'" using fs Some by (simp add: add_watched_file_def)
  have "workspace_ok ?db'" using add_watched_file_ok [OF ok, of dk path] by (simp add: eq)
  moreover have "live_files ?db' = live_files db" "path_of ?db' g = path_of db g"
    by (simp_all add: live_files_def root_files_def package_files_def set_revision_def cong: map_cong)
  ultimately have "file_by_path ?db' path = Some g" using Some by (simp add: file_by_path_iff ok)
  then show ?thesis by (intro that [of g]) (simp_all add: eq set_revision_def)
next
  case None
  then obtain pl where pl: "classify dk db fs = Some pl" using known by auto
  let ?e = "\<lparr> fe_path = path, fe_revision = disk_revision dk fs \<rparr>" and ?db' = "add_watched_file dk path db"
  obtain f db1 where up: "upsert_root_file (package_backpointer pl) ?e db = (f, db1)" by (metis surj_pair)
  have eq: "?db' = append_to_container f pl db1" using fs None pl up by (simp add: add_watched_file_def Let_def)
  have "\<forall>g\<in>live_files db. path_of db g \<noteq> path" using None by (simp add: file_by_path_None)
  then have "fe_path ?e \<notin> path_of db ` fst ` (\<lambda>f. (f, None)) ` live_scripts db" by (auto simp: live_files_eq)
  moreover have "covers db (live_packages db) ((\<lambda>f. (f, None)) ` live_scripts db) {}" by (rule covers_live) (auto simp: image_image)
  ultimately have path: "path_of db1 f = path" "same_roots db db1"
    using upsert_root_file_tracked(3,5) [OF workspace_okD(4) [OF ok] _ _ up] by simp_all
  obtain r where r: "r \<in> set (db_workspace_roots db)"
    "pl = Script r \<or> (\<exists>p\<in>set (rt_packages (db_root db r)). pl = PackageFile p \<or> pl = PackageScript p)"
    using classify_Some [OF pl] by metis
  then have "f \<in> live_files ?db'"
    unfolding eq using path(2) by (intro append_to_container_live [of pl r]) (simp_all add: same_roots_def)
  then have "file_by_path ?db' path = Some f"
    unfolding file_by_path_iff [OF add_watched_file_ok [OF ok]] using path(1) by (simp add: eq)
  then show ?thesis using upsert_revision [OF up] by (intro that [of f]) (simp_all add: eq)
qed

section \<open>Sessions\<close>

abbreviation wp :: "string list \<Rightarrow> file_path" where
  "wp names \<equiv> FilePath (map lit names)"

text \<open>A folder with one package and one script.\<close>

definition small_scan :: scan_completed where
  "small_scan = \<lparr> cp_root = 0,
     cp_packages = [\<lparr> pe_description_path = wp [''w'', ''p'', ''DESCRIPTION''], pe_name = lit ''p'',
       pe_description_revision = 0, pe_namespace_revision = 0,
       pe_files = [\<lparr> fe_path = wp [''w'', ''p'', ''R'', ''a.R''], fe_revision = 0 \<rparr>], pe_scripts = [] \<rparr>],
     cp_scripts = [\<lparr> fe_path = wp [''w'', ''s.R''], fe_revision = 0 \<rparr>], cp_environment_dirs = [] \<rparr>"

definition with_folders :: "string list list \<Rightarrow> oak_db" where
  "with_folders paths =
     snd (snd (set_workspace_paths bare_disk (map (\<lambda>p. AbsPathBuf (map lit p)) paths) {} scheduler_new empty_db))"

definition after_scan :: "scan_completed \<Rightarrow> oak_db \<Rightarrow> oak_db" where
  "after_scan c db = snd (snd (apply_scan_completed bare_disk c {} scheduler_new db))"

definition small_db :: oak_db where
  "small_db = after_scan small_scan (with_folders [[''w'']])"

lemma with_folders_run: "apart (with_folders paths) \<Longrightarrow> workspace_run (with_folders paths)"
proof -
  let ?paths = "map (\<lambda>p. AbsPathBuf (map lit p)) paths"
  obtain rqs sc db where ev: "set_workspace_paths bare_disk ?paths {} scheduler_new empty_db = (rqs, sc, db)"
    by (metis surj_pair)
  then have "with_folders paths = db" by (simp add: with_folders_def)
  with workspace_run.folders [OF workspace_run.new ev] show "apart (with_folders paths) \<Longrightarrow> workspace_run (with_folders paths)" by simp
qed

lemma after_scan_run: "workspace_run db \<Longrightarrow> scan_ok db c \<Longrightarrow> workspace_run (after_scan c db)"
  unfolding after_scan_def by (metis prod.collapse workspace_run.result)

lemma small_db_run: "workspace_run small_db"
proof -
  have "apart (with_folders [[''w'']])" "scan_ok (with_folders [[''w'']]) small_scan" by code_simp+
  then show ?thesis unfolding small_db_def by (intro after_scan_run with_folders_run)
qed

lemma small_db_shape:
  "db_workspace_roots small_db = [0]" "db_library_roots small_db = []" "rt_packages (db_root small_db 0) = [0]"
  "rt_scripts (db_root small_db 0) = [1]" "package_files small_db 0 = [0]" "db_orphan_files small_db = []"
  "path_of small_db 1 = wp [''w'', ''s.R'']"
  by code_simp+

text \<open>
  For the sessions with nested folders and packages, the components of a path are single characters
  given by their code points.

  Nested folders: \<open>1\<close> and \<open>1/2\<close> both list the script below the inner one. Removing it unlinks it
  from the first folder only, so the lookup still finds it.
\<close>

abbreviation np :: "nat list \<Rightarrow> fs_path" where
  "np names \<equiv> map (\<lambda>c. [c]) names"

text \<open>The state after both folders were opened.\<close>

definition two_folders :: oak_db where
  "two_folders = empty_db\<lparr> db_root := (\<lambda>r. \<lparr> rt_path = FilePath (np (if r = 0 then [1] else [1, 2])), rt_kind = WorkspaceKind,
       rt_scripts = [], rt_packages = [], rt_environment_dirs = [] \<rparr>),
     db_next_root := 2, db_workspace_roots := [0, 1] \<rparr>"

definition nested_folders_db :: oak_db where
  "nested_folders_db = (let es = [\<lparr> fe_path = FilePath (np [1, 2, 3]), fe_revision = 0 \<rparr>] in
     set_workspace_scripts 1 es (set_workspace_scripts 0 es two_folders))"

lemma nested_folder_removal:
  "rt_scripts (db_root (remove_watched_file (FilePath (np [1, 2, 3])) nested_folders_db) 1) = [0]"
  "db_workspace_roots (remove_watched_file (FilePath (np [1, 2, 3])) nested_folders_db) = [0, 1]"
  "path_of (remove_watched_file (FilePath (np [1, 2, 3])) nested_folders_db) 0 = FilePath (np [1, 2, 3])"
  by code_simp+

lemma nested_folder_keeps_removed_script:
  "file_by_path (remove_watched_file (FilePath (np [1, 2, 3])) nested_folders_db) (FilePath (np [1, 2, 3])) \<noteq> None"
proof -
  have "0 \<in> live_files (remove_watched_file (FilePath (np [1, 2, 3])) nested_folders_db)"
    using nested_folder_removal(1,2) by (auto simp: live_files_def root_files_def)
  then show ?thesis using nested_folder_removal(3) file_by_path_None by blast
qed

text \<open>
  A package (below \<open>1/2\<close>) inside another (below \<open>1\<close>): the outer package reports the files of the inner one as scripts. The two
  packages are upserted before the folder lists them, so the path gets two files in the first scan.
\<close>

definition package_at :: "nat list \<Rightarrow> nat \<Rightarrow> file_entry list \<Rightarrow> file_entry list \<Rightarrow> package_entry" where
  "package_at dir name files scripts = \<lparr> pe_description_path = FilePath (np (dir @ [0])), pe_name = [name],
     pe_description_revision = 0, pe_namespace_revision = 0, pe_files = files, pe_scripts = scripts \<rparr>"

definition nested_package_scan :: scan_completed where
  "nested_package_scan = (let f = \<lparr> fe_path = FilePath (np [1, 2, 3, 4]), fe_revision = 0 \<rparr> in
     \<lparr> cp_root = 0, cp_packages = [package_at [1] 5 [] [f], package_at [1, 2] 6 [f] []],
       cp_scripts = [], cp_environment_dirs = [] \<rparr>)"

lemma nested_package_two_files:
  "map (path_of (after_scan nested_package_scan two_folders))
     (root_files (after_scan nested_package_scan two_folders) 0) =
   [FilePath (np [1, 2, 3, 4]), FilePath (np [1, 2, 3, 4])] \<and>
   root_files (after_scan nested_package_scan two_folders) 0 = [0, 1]"
  by code_simp

text \<open>
  Nested folders that both list a package: removing the inner folder empties the package, although
  the outer folder still lists it.
\<close>

definition shared_package_db :: oak_db where
  "shared_package_db = (let e = package_at [1, 2] 5 [\<lparr> fe_path = FilePath (np [1, 2, 3, 4]), fe_revision = 0 \<rparr>] [];
     (p, db) = set_package None e two_folders;
     db = upd_root 0 (\<lambda>d. d\<lparr> rt_packages := [p] \<rparr>) db;
     (p, db) = set_package None e db
   in upd_root 1 (\<lambda>d. d\<lparr> rt_packages := [p] \<rparr>) db)"

lemma removing_inner_folder_empties_package:
  "file_by_path shared_package_db (FilePath (np [1, 2, 3, 4])) = Some 0"
  "db_workspace_roots (set_root_stale 1 (Some {}) shared_package_db) = [0, 1]"
  "rt_packages (db_root (set_root_stale 1 (Some {}) shared_package_db) 0) = [0]"
  "file_by_path (set_root_stale 1 (Some {}) shared_package_db) (FilePath (np [1, 2, 3, 4])) = None"
  by code_simp+

section \<open>Properties\<close>

text \<open>
  C37. The documented placement invariant, in restricted sessions: the database starts empty and is
  changed by folder changes, watcher events, scan results, and opened and closed buffers; after each
  folder change no folder lies inside another; a scan result lists no path twice (which a package
  nested in another would) and none outside its folder; there are no library paths and no notebooks.
  In every database of such a session, a file listed by a package points back to that package and is
  listed once, a script or an orphan has no package, no orphan is a script, no two files that are
  visible or evicted have the same path, and an evicted file is not visible. Without the conditions on
  nesting it fails: \<open>nested_package_two_files\<close>, \<open>removing_inner_folder_empties_package\<close>.
\<close>

theorem placement_invariant:
  assumes "workspace_run db"
  shows "(\<forall>r\<in>live_ids db. \<forall>p\<in>set (rt_packages (db_root db r)). distinct (package_files db p) \<and>
      (\<forall>f\<in>set (package_files db p). package_of db f = Some p)) \<and>
    (\<forall>r\<in>live_ids db. \<forall>f\<in>set (rt_scripts (db_root db r)). package_of db f = None \<and> f \<notin> set (db_orphan_files db)) \<and>
    (\<forall>f\<in>set (db_orphan_files db). package_of db f = None) \<and>
    inj_on (path_of db) (live_files db \<union> set (db_stale_files db)) \<and>
    live_files db \<inter> set (db_stale_files db) = {}"
proof -
  note ok = workspace_run_ok [OF assms]
  note tr = workspace_okD(4) [OF ok]
  have "distinct (package_files db p) \<and> (\<forall>f\<in>set (package_files db p). package_of db f = Some p)"
    if "r \<in> live_ids db" "p \<in> set (rt_packages (db_root db r))" for r p
    using that trackedD(3,4) [OF tr, of p] by (auto simp: live_packages_def)
  moreover have "package_of db f = None \<and> f \<notin> set (db_orphan_files db)"
    if "r \<in> live_ids db" "f \<in> set (rt_scripts (db_root db r))" for r f
    using that by (intro trackedD(5) [OF tr]) (auto simp: live_scripts_def)
  moreover have "live_files db \<inter> set (db_stale_files db) = {}"
    using trackedD(7) [OF tr] unfolding live_in_play by blast
  ultimately show ?thesis using trackedD(6) [OF tr] placed_path_unique [OF ok] by blast
qed

theorem placement_invariant_witness:
  "workspace_run small_db \<and> package_of small_db 0 = Some 0 \<and> package_of small_db 1 = None \<and>
   live_files small_db \<inter> set (db_stale_files small_db) = {}"
  using placement_invariant [OF small_db_run] small_db_run by (simp add: live_ids_def small_db_shape)

text \<open>
  C38. In every database of a session with the same restrictions (folders never nested, scan results
  without a repeated path or a path outside the folder, no libraries, no notebooks), the lookup by
  path finds exactly the visible files: every file that some root, package or the orphan bucket lists
  is the one its path leads to.
\<close>

theorem file_by_path_exact:
  assumes "workspace_run db"
  shows "file_by_path db path = Some f \<longleftrightarrow> f \<in> live_files db \<and> path_of db f = path"
  by (rule file_by_path_iff [OF workspace_run_ok [OF assms]])

theorem file_by_path_exact_witness:
  "workspace_run small_db \<and> file_by_path small_db (wp [''w'', ''s.R'']) = Some 1"
  using file_by_path_exact [OF small_db_run, of "wp [''w'', ''s.R'']" 1] small_db_run small_db_shape(7)
  by (simp add: live_files_def root_files_def small_db_shape)

text \<open>
  C39. Reconciling a watched path with the disk, in a database of a session with the same restrictions.
  When the path is not a file any more, it is no longer found, and nothing else changes for the
  lookup. When it is a file and is already known, or \<^const>\<open>classify\<close> gives it a place in a folder
  or a package, it is found afterwards with the revision of the disk. When it cannot be read, nothing
  changes. With nested folders the first part fails: \<open>nested_folder_keeps_removed_script\<close>.
\<close>

theorem reconcile_matches_disk:
  assumes "workspace_run db" and "as_path path = Some fs"
  shows "(is_file_on_disk dk root fs \<in> {Inr False, Inl NotFound, Inl NotADirectory} \<longrightarrow>
      file_by_path (reconcile dk root path fs db) = (file_by_path db)(path := None)) \<and>
    (is_file_on_disk dk root fs = Inr True \<and> (file_by_path db path \<noteq> None \<or> classify dk db fs \<noteq> None) \<longrightarrow>
      (\<exists>f. file_by_path (reconcile dk root path fs db) path = Some f \<and>
        fl_revision (db_file (reconcile dk root path fs db) f) = disk_revision dk fs)) \<and>
    (is_file_on_disk dk root fs = Inl OtherIoError \<longrightarrow> reconcile dk root path fs db = db)"
proof -
  have "\<exists>f. file_by_path (add_watched_file dk path db) path = Some f \<and>
      fl_revision (db_file (add_watched_file dk path db) f) = disk_revision dk fs"
    if "file_by_path db path \<noteq> None \<or> classify dk db fs \<noteq> None"
    using add_watched_file_lookup [OF workspace_run_ok [OF assms(1)] assms(2) that] by blast
  then show ?thesis using watched.lookup_unlink [OF workspace_run_sound [OF assms(1)]] by (auto simp: reconcile_def)
qed

theorem reconcile_matches_disk_witness:
  "workspace_run small_db \<and> is_file_on_disk bare_disk [lit ''w''] [lit ''w'', lit ''s.R''] = Inl NotFound \<and>
   file_by_path small_db (wp [''w'', ''s.R'']) = Some 1 \<and>
   file_by_path (reconcile bare_disk [lit ''w''] (wp [''w'', ''s.R'']) [lit ''w'', lit ''s.R''] small_db) (wp [''w'', ''s.R'']) = None"
proof -
  have "is_file_on_disk bare_disk [lit ''w''] [lit ''w'', lit ''s.R''] = Inl NotFound"
    "file_by_path small_db (wp [''w'', ''s.R'']) = Some 1" by code_simp+
  then show ?thesis
    using reconcile_matches_disk [OF small_db_run, of "wp [''w'', ''s.R'']" "[lit ''w'', lit ''s.R'']" bare_disk "[lit ''w'']"] small_db_run
    by simp
qed

end
