(* ===== verification/Load_Context.thy ===== *)
theory Load_Context
  imports Package_Scan Effects "HOL-Library.Option_ord"
begin

text \<open>
  What loads a file, and which other files it finds loaded (\<^verbatim>\<open>oak_db/src/load_context.rs\<close>,
  \<^verbatim>\<open>load_context/contrib\<close>, \<^verbatim>\<open>directory.rs\<close>): notebooks, testthat suites, packages, Shiny apps
  and standalone scripts. None of it reads a semantic index, which the type shows: the functions take
  the inputs and the text of the files only, the trait \<^verbatim>\<open>SourceDb\<close>.
\<close>

section \<open>UTF-8\<close>

text \<open>
  Names in the semantic index are UTF-8 bytes, paths and names in the inputs are code points. The
  decoder is used on valid text only, as Rust's strings are.
\<close>

fun utf8_decode :: "string \<Rightarrow> str" where
  "utf8_decode [] = []"
| "utf8_decode (a # bs) =
     (let x = of_char a :: nat in
      if x < 0x80 then x # utf8_decode bs
      else if x < 0xE0 then
        (case bs of
           b # bs \<Rightarrow> ((x - 0xC0) * 64 + (of_char b - 0x80)) # utf8_decode bs
         | _ \<Rightarrow> [])
      else if x < 0xF0 then
        (case bs of
           b # c # bs \<Rightarrow> ((x - 0xE0) * 4096 + (of_char b - 0x80) * 64 + (of_char c - 0x80)) # utf8_decode bs
         | _ \<Rightarrow> [])
      else
        (case bs of
           b # c # d # bs \<Rightarrow>
             ((x - 0xF0) * 262144 + (of_char b - 0x80) * 4096 + (of_char c - 0x80) * 64 + (of_char d - 0x80)) # utf8_decode bs
         | _ \<Rightarrow> []))"

lemma char_small: "n < 256 \<Longrightarrow> of_char (char_of n :: char) = (n :: nat)"
  by simp

lemma utf8_decode_char:
  assumes c: "c < 0x110000"
  shows "utf8_decode (utf8_char c @ s) = c # utf8_decode s"
proof -
  have split: "c = 64 * (c div 64) + c mod 64" "c div 64 = 64 * (c div 4096) + c div 64 mod 64"
    "c div 4096 = 64 * (c div 262144) + c div 4096 mod 64"
    using div_mult2_eq [of c 64 64] div_mult2_eq [of c 4096 64] by simp_all
  have small: "c mod 64 < 64" "c div 64 mod 64 < 64" "c div 4096 mod 64 < 64" by simp_all
  consider "c < 0x80" | "0x80 \<le> c" "c < 0x800" | "0x800 \<le> c" "c < 0x10000" | "0x10000 \<le> c" by linarith
  then show ?thesis
  proof cases
    case 1
    then show ?thesis by (simp add: utf8_char_def)
  next
    case 2
    then have "c div 64 < 32" "utf8_char c = map char_of [0xC0 + c div 64, 0x80 + c mod 64]" by (auto simp: utf8_char_def)
    with split(1) small(1) show ?thesis by (simp add: Let_def char_small)
  next
    case 3
    then have "c div 4096 < 16" by auto
    moreover have "c div 4096 * 4096 + c div 64 mod 64 * 64 + c mod 64 = c" using split(1,2) by linarith
    ultimately show ?thesis using 3 small by (simp add: utf8_char_def Let_def char_small)
  next
    case 4
    have "c div 262144 < 8" using c by auto
    then have "c div 262144 mod 8 = c div 262144" by simp
    moreover have "c div 262144 * 262144 + c div 4096 mod 64 * 4096 + c div 64 mod 64 * 64 + c mod 64 = c"
      using split by linarith
    ultimately show ?thesis using 4 small \<open>c div 262144 < 8\<close> by (simp add: utf8_char_def Let_def char_small)
  qed
qed

lemma utf8_decode_utf8: "\<forall>c\<in>set s. c < 0x110000 \<Longrightarrow> utf8_decode (utf8 s) = s"
  by (induction s) (simp_all add: utf8_decode_char)

section \<open>The source database\<close>

text \<open>
  The inputs, the disk and the libraries the queries call: the R parser on a NAMESPACE and on a script
  (with the range of its root), the conversion between paths and URLs, percent decoding.
\<close>

record source_db =
  sd_db :: oak_db
  sd_disk :: disk
  sd_namespace_parser :: "string \<Rightarrow> unit option \<times> r_expr list"
  sd_parser :: "str \<Rightarrow> text_range \<times> r_expr list"
  sd_to_url :: "file_path \<Rightarrow> url"
  sd_from_url :: "url \<Rightarrow> file_path"
  sd_percent_decode :: "str \<Rightarrow> str option"

abbreviation sd_path :: "'a source_db_scheme \<Rightarrow> file_id \<Rightarrow> file_path" where
  "sd_path S f \<equiv> path_of (sd_db S) f"

abbreviation sd_package :: "'a source_db_scheme \<Rightarrow> package_id \<Rightarrow> package_data" where
  "sd_package S p \<equiv> db_package (sd_db S) p"

abbreviation sd_text :: "'a source_db_scheme \<Rightarrow> file_id \<Rightarrow> str" where
  "sd_text S f \<equiv> source_text (sd_disk S) (sd_db S) f"

text \<open>The package with a name that the semantic index holds as bytes.\<close>

definition package_named :: "'a source_db_scheme \<Rightarrow> string \<Rightarrow> package_id option" where
  "package_named S name = package_by_name (sd_db S) (utf8_decode name)"

definition sd_namespace :: "'a source_db_scheme \<Rightarrow> package_id \<Rightarrow> namespace" where
  "sd_namespace S p = package_namespace (sd_namespace_parser S) (sd_disk S) (sd_db S) p"

section \<open>Paths and directories\<close>

text \<open>\<open>Path::parent\<close> of an absolute path.\<close>

definition path_parent :: "fs_path \<Rightarrow> fs_path option" where
  "path_parent p = (if p = [] then None else Some (butlast p))"

definition path_file_name :: "'a source_db_scheme \<Rightarrow> file_path \<Rightarrow> str option" where
  "path_file_name S path = (case path of
     FilePath p \<Rightarrow> file_name p
   | VirtualPath _ None \<Rightarrow> None
   | VirtualPath _ (Some segs) \<Rightarrow>
       if segs = [] \<or> last segs = [] then None else sd_percent_decode S (last segs))"

definition to_ascii_lowercase :: "str \<Rightarrow> str" where
  "to_ascii_lowercase s = map (\<lambda>c. if 0x41 \<le> c \<and> c \<le> 0x5A then c + 0x20 else c) s"

definition collation_basename_key :: "'a source_db_scheme \<Rightarrow> file_id \<Rightarrow> str option" where
  "collation_basename_key S f = map_option to_ascii_lowercase (path_file_name S (sd_path S f))"

definition file_dir :: "'a source_db_scheme \<Rightarrow> file_id \<Rightarrow> fs_path option" where
  "file_dir S f = Option.bind (as_path (sd_path S f)) path_parent"

definition files_in_directory :: "'a source_db_scheme \<Rightarrow> fs_path \<Rightarrow> file_id list" where
  "files_in_directory S dir = sort_key (collation_basename_key S)
     (filter (\<lambda>f. file_dir S f = Some dir) (workspace_root_files (sd_db S)))"

text \<open>\<open>Path::strip_prefix\<close>, and the text of a relative path.\<close>

definition relative_to :: "fs_path \<Rightarrow> fs_path \<Rightarrow> fs_path option" where
  "relative_to dir p = (if prefix dir p then Some (drop (length dir) p) else None)"

fun relative_str :: "fs_path \<Rightarrow> str" where
  "relative_str [] = []"
| "relative_str [c] = c"
| "relative_str (c # d # p) = c @ [0x2F] @ relative_str (d # p)"

definition files_in_directory_recursive :: "'a source_db_scheme \<Rightarrow> fs_path \<Rightarrow> file_id list" where
  "files_in_directory_recursive S dir =
     map snd (sort_key fst (List.map_filter (\<lambda>f. do {
         p \<leftarrow> as_path (sd_path S f);
         relative \<leftarrow> relative_to dir p;
         Some (to_ascii_lowercase (relative_str relative), f) }) (workspace_root_files (sd_db S))))"

definition collation_siblings :: "'a source_db_scheme \<Rightarrow> file_id \<Rightarrow> file_id list" where
  "collation_siblings S f = (case file_dir S f of None \<Rightarrow> [] | Some dir \<Rightarrow> files_in_directory S dir)"

definition in_r_directory :: "'a source_db_scheme \<Rightarrow> file_id \<Rightarrow> bool" where
  "in_r_directory S f \<longleftrightarrow> Option.bind (file_dir S f) file_name = Some (lit ''R'')"

section \<open>Contexts\<close>

datatype collation_view = EagerView | DeferredView

datatype load_kind = NamespaceLoad package_id | SessionLoad

datatype search_path_tail = BaseTail | DefaultTail

fun fixes_load_order :: "load_kind \<Rightarrow> bool" where
  "fixes_load_order (NamespaceLoad _) = True"
| "fixes_load_order SessionLoad = False"

fun tail_of_kind :: "load_kind \<Rightarrow> search_path_tail" where
  "tail_of_kind (NamespaceLoad _) = BaseTail"
| "tail_of_kind SessionLoad = DefaultTail"

record loader_info =
  li_name :: string
  li_loads :: string

text \<open>Files that write into one environment, in execution order; environments from child to parent.\<close>

type_synonym load_environment = "file_id list"
type_synonym environment_chain = "load_environment list"

definition environment_own :: "file_id \<Rightarrow> environment_chain" where
  "environment_own f = [[f]]"

definition lookup_files :: "environment_chain \<Rightarrow> file_id list" where
  "lookup_files chain = concat (map rev chain)"

record load_context =
  lc_kind :: load_kind
  lc_environments :: environment_chain
  lc_implicit_attaches :: "string list"
  lc_loader :: "loader_info option"

definition PACKAGE_LOADER :: loader_info where
  "PACKAGE_LOADER = \<lparr>li_name = ''The package'', li_loads = ''its `R/` files in collation order''\<rparr>"

definition NOTEBOOK_LOADER :: loader_info where
  "NOTEBOOK_LOADER = \<lparr>li_name = ''This notebook'', li_loads = ''its cells in document order''\<rparr>"

definition TESTTHAT_LOADER :: loader_info where
  "TESTTHAT_LOADER = \<lparr>li_name = ''testthat'', li_loads = ''`helper*.R` and `setup*.R` before your tests''\<rparr>"

definition SHINY_LOADER :: loader_info where
  "SHINY_LOADER = \<lparr>li_name = ''This Shiny app'',
     li_loads = ''its `global.R` and `R/` files through `shiny::loadSupport()`''\<rparr>"

definition environment_of :: "file_id \<Rightarrow> file_id list \<Rightarrow> collation_view \<Rightarrow> nat \<Rightarrow> load_environment" where
  "environment_of f collation view prefix_len =
     take prefix_len collation @ [f] @
     (if view = DeferredView then
        (let present = prefix_len < length collation \<and> collation ! prefix_len = f
         in drop (prefix_len + (if present then 1 else 0)) collation)
      else [])"

text \<open>The listing is sorted by the key, so \<open>partition_point\<close> is the length of the longest prefix below it.\<close>

definition collation_environment :: "'a source_db_scheme \<Rightarrow> file_id \<Rightarrow> collation_view \<Rightarrow> load_environment" where
  "collation_environment S f view =
     (let files = collation_siblings S f;
          prefix_len = (case position (\<lambda>sibling. sibling = f) files of
              Some i \<Rightarrow> i
            | None \<Rightarrow>
                (let own_key = collation_basename_key S f
                 in length (takeWhile (\<lambda>sibling. collation_basename_key S sibling < own_key) files)))
      in environment_of f files view prefix_len)"

section \<open>Loaders\<close>

definition notebook_load_context :: "'a source_db_scheme \<Rightarrow> file_id \<Rightarrow> collation_view \<Rightarrow> load_context option" where
  "notebook_load_context S f view = do {
     notebook \<leftarrow> notebook_by_cell (sd_db S) f;
     let cells = nb_cells (db_notebook (sd_db S) notebook);
     prefix_len \<leftarrow> position (\<lambda>cell. cell = f) cells;
     Some \<lparr>lc_kind = SessionLoad, lc_environments = [environment_of f cells view prefix_len],
        lc_implicit_attaches = [], lc_loader = Some NOTEBOOK_LOADER\<rparr> }"

definition package_load_context :: "'a source_db_scheme \<Rightarrow> file_id \<Rightarrow> collation_view \<Rightarrow> load_context option" where
  "package_load_context S f view = do {
     package \<leftarrow> package_of (sd_db S) f;
     let files = pk_files (sd_package S package);
     prefix_len \<leftarrow> position (\<lambda>sibling. sibling = f) files;
     Some \<lparr>lc_kind = NamespaceLoad package, lc_environments = [environment_of f files view prefix_len],
        lc_implicit_attaches = [], lc_loader = Some PACKAGE_LOADER\<rparr> }"

definition standalone_load_context :: "file_id \<Rightarrow> load_context" where
  "standalone_load_context f = \<lparr>lc_kind = SessionLoad, lc_environments = environment_own f,
     lc_implicit_attaches = [], lc_loader = None\<rparr>"

subsection \<open>testthat\<close>

definition in_testthat_dir :: "fs_path \<Rightarrow> bool" where
  "in_testthat_dir path = (case path_parent path of
     None \<Rightarrow> False
   | Some parent \<Rightarrow> file_name parent = Some (lit ''testthat'') \<and>
       Option.bind (path_parent parent) file_name = Some (lit ''tests''))"

definition is_testthat_file :: "'a source_db_scheme \<Rightarrow> file_id \<Rightarrow> bool" where
  "is_testthat_file S f = (case as_path (sd_path S f) of Some path \<Rightarrow> in_testthat_dir path | None \<Rightarrow> False)"

definition is_testthat_support_file :: "'a source_db_scheme \<Rightarrow> file_id \<Rightarrow> bool" where
  "is_testthat_support_file S f \<longleftrightarrow> is_testthat_file S f \<and>
     (case path_file_name S (sd_path S f) of
        Some name \<Rightarrow> prefix (lit ''helper'') name \<or> prefix (lit ''setup'') name
      | None \<Rightarrow> False)"

definition testthat_support_key :: "'a source_db_scheme \<Rightarrow> file_id \<Rightarrow> str" where
  "testthat_support_key S f = (case path_file_name S (sd_path S f) of Some name \<Rightarrow> name | None \<Rightarrow> [])"

definition testthat_load_context :: "'a source_db_scheme \<Rightarrow> file_id \<Rightarrow> collation_view \<Rightarrow> load_context option" where
  "testthat_load_context S f view = do {
     package \<leftarrow> package_of (sd_db S) f;
     if \<not> is_testthat_file S f then None
     else
       let support = sort_key (testthat_support_key S)
             (filter (is_testthat_support_file S) (pk_scripts (sd_package S package)));
           environments = (case position (\<lambda>script. script = f) support of
               Some i \<Rightarrow> [environment_of f support view i]
             | None \<Rightarrow> environment_own f @ [support])
       in Some \<lparr>lc_kind = NamespaceLoad package,
            lc_environments = environments @ [pk_files (sd_package S package)],
            lc_implicit_attaches = [''testthat''], lc_loader = Some TESTTHAT_LOADER\<rparr> }"

subsection \<open>Shiny\<close>

definition is_named :: "'a source_db_scheme \<Rightarrow> file_id \<Rightarrow> string \<Rightarrow> bool" where
  "is_named S f name = (case path_file_name S (sd_path S f) of
     None \<Rightarrow> False
   | Some base \<Rightarrow> to_ascii_lowercase base = to_ascii_lowercase (lit name))"

definition SHINY_ENTRY_FILES :: "(string \<times> string) list" where
  "SHINY_ENTRY_FILES = [(''app.R'', ''shinyApp''), (''ui.R'', ''shinyUI''), (''server.R'', ''shinyServer'')]"

definition is_shiny_entry_file :: "'a source_db_scheme \<Rightarrow> file_id \<Rightarrow> bool" where
  "is_shiny_entry_file S f = list_ex (\<lambda>(name, marker). is_named S f name \<and> sublist (lit marker) (sd_text S f))
     SHINY_ENTRY_FILES"

definition is_shiny_dir :: "'a source_db_scheme \<Rightarrow> fs_path \<Rightarrow> bool" where
  "is_shiny_dir S dir = list_ex (is_shiny_entry_file S) (files_in_directory S dir)"

definition shiny_global_file :: "'a source_db_scheme \<Rightarrow> fs_path \<Rightarrow> file_id option" where
  "shiny_global_file S app_dir = find (\<lambda>f. is_named S f ''global.R'') (files_in_directory S app_dir)"

definition r_autoload_disabled :: "'a source_db_scheme \<Rightarrow> fs_path \<Rightarrow> bool" where
  "r_autoload_disabled S app_dir =
     list_ex (\<lambda>f. is_named S f ''_disable_autoload.R'') (files_in_directory S (app_dir @ [lit ''R'']))"

definition shiny_support_files :: "'a source_db_scheme \<Rightarrow> fs_path \<Rightarrow> file_id list" where
  "shiny_support_files S app_dir =
     (let files = opt_list (shiny_global_file S app_dir)
      in if r_autoload_disabled S app_dir then files
         else files @ files_in_directory S (app_dir @ [lit ''R'']))"

definition is_shiny_global_file :: "'a source_db_scheme \<Rightarrow> file_id \<Rightarrow> bool" where
  "is_shiny_global_file S f \<longleftrightarrow> is_named S f ''global.R'' \<and>
     (case file_dir S f of None \<Rightarrow> False | Some dir \<Rightarrow> is_shiny_dir S dir)"

definition enclosing_app_dir :: "'a source_db_scheme \<Rightarrow> file_id \<Rightarrow> fs_path option" where
  "enclosing_app_dir S f =
     (if \<not> in_r_directory S f then None
      else do {
        parent \<leftarrow> file_dir S f;
        app_dir \<leftarrow> path_parent parent;
        if is_shiny_dir S app_dir then Some app_dir else None })"

definition shiny_app_dir :: "'a source_db_scheme \<Rightarrow> file_id \<Rightarrow> fs_path option" where
  "shiny_app_dir S f = (if \<not> is_shiny_entry_file S f then None else file_dir S f)"

definition shiny_autoload :: "'a source_db_scheme \<Rightarrow> file_id \<Rightarrow> file_id list option" where
  "shiny_autoload S f = (case enclosing_app_dir S f of
     Some app_dir \<Rightarrow>
       if r_autoload_disabled S app_dir then None else Some (opt_list (shiny_global_file S app_dir))
   | None \<Rightarrow> map_option (shiny_support_files S) (shiny_app_dir S f))"

definition autoload_context :: "'a source_db_scheme \<Rightarrow> file_id \<Rightarrow> collation_view \<Rightarrow> file_id list \<Rightarrow> load_context" where
  "autoload_context S f view autoload = \<lparr>lc_kind = SessionLoad,
     lc_environments = [collation_environment S f view, autoload],
     lc_implicit_attaches = [''shiny''], lc_loader = Some SHINY_LOADER\<rparr>"

definition entry_context :: "'a source_db_scheme \<Rightarrow> file_id \<Rightarrow> file_id list \<Rightarrow> load_context" where
  "entry_context S f autoload = \<lparr>lc_kind = SessionLoad,
     lc_environments = environment_own f @
       [filter (in_r_directory S) autoload, filter (\<lambda>support. \<not> in_r_directory S support) autoload],
     lc_implicit_attaches = [''shiny''], lc_loader = Some SHINY_LOADER\<rparr>"

definition global_context :: "file_id \<Rightarrow> load_context" where
  "global_context f = \<lparr>lc_kind = SessionLoad, lc_environments = environment_own f,
     lc_implicit_attaches = [''shiny''], lc_loader = Some SHINY_LOADER\<rparr>"

definition shiny_load_context :: "'a source_db_scheme \<Rightarrow> file_id \<Rightarrow> collation_view \<Rightarrow> load_context option" where
  "shiny_load_context S f view =
     (if in_r_directory S f then map_option (autoload_context S f view) (shiny_autoload S f)
      else case shiny_autoload S f of
        Some autoload \<Rightarrow> Some (entry_context S f autoload)
      | None \<Rightarrow> if is_shiny_global_file S f then Some (global_context f) else None)"

section \<open>The loader of a file\<close>

definition load_context_of :: "'a source_db_scheme \<Rightarrow> file_id \<Rightarrow> collation_view \<Rightarrow> load_context" where
  "load_context_of S f view = (case notebook_load_context S f view of
     Some context \<Rightarrow> context
   | None \<Rightarrow>
       (case testthat_load_context S f view of
          Some context \<Rightarrow> context
        | None \<Rightarrow>
            (case package_load_context S f view of
               Some context \<Rightarrow> context
             | None \<Rightarrow>
                 (case shiny_load_context S f view of
                    Some context \<Rightarrow> context
                  | None \<Rightarrow> standalone_load_context f))))"

definition loader :: "'a source_db_scheme \<Rightarrow> file_id \<Rightarrow> loader_info option" where
  "loader S f = lc_loader (load_context_of S f DeferredView)"

section \<open>What a context makes visible\<close>

lemma position_Some: "position P xs = Some i \<Longrightarrow> i < length xs \<and> P (xs ! i) \<and> (\<forall>j<i. \<not> P (xs ! j))"
  by (induction xs arbitrary: i) (auto simp: nth_Cons split: if_splits nat.splits)

lemma position_None: "position P xs = None \<longleftrightarrow> (\<forall>x\<in>set xs. \<not> P x)"
  by (induction xs) auto

lemma own_in_environment_of [simp]: "f \<in> set (environment_of f collation view n)"
  by (simp add: environment_of_def)

text \<open>At its own position, the environment is the collation, or its part up to the file.\<close>

lemma environment_of_present:
  assumes "position (\<lambda>x. x = f) collation = Some i"
  shows "environment_of f collation DeferredView i = collation"
    and "environment_of f collation EagerView i = take (Suc i) collation"
  using position_Some [OF assms] by (auto simp: environment_of_def take_Suc_conv_app_nth Cons_nth_drop_Suc)

lemma eager_within_deferred: "set (environment_of f collation EagerView n) \<subseteq> set (environment_of f collation DeferredView n)"
  by (auto simp: environment_of_def)

lemma own_in_collation_environment [simp]: "f \<in> set (collation_environment S f view)"
  by (simp add: collation_environment_def Let_def)

lemma set_lookup_files [simp]: "set (lookup_files chain) = (\<Union>e\<in>set chain. set e)"
  by (auto simp: lookup_files_def)

text \<open>Whatever loads a file, the file is in the chain, so its own bindings have a place in the lookup.\<close>

lemma own_in_environments: "f \<in> set (lookup_files (lc_environments (load_context_of S f view)))"
proof -
  have "f \<in> set (lookup_files (lc_environments c))" if "notebook_load_context S f view = Some c" for c
    using that by (auto simp: notebook_load_context_def Let_def split: bind_splits)
  moreover have "f \<in> set (lookup_files (lc_environments c))" if "testthat_load_context S f view = Some c" for c
    using that by (auto simp: testthat_load_context_def environment_own_def Let_def split: bind_splits if_splits option.splits)
  moreover have "f \<in> set (lookup_files (lc_environments c))" if "package_load_context S f view = Some c" for c
    using that by (auto simp: package_load_context_def Let_def split: bind_splits)
  moreover have "f \<in> set (lookup_files (lc_environments c))" if "shiny_load_context S f view = Some c" for c
    using that by (auto simp: shiny_load_context_def autoload_context_def entry_context_def global_context_def
        environment_own_def split: if_splits option.splits)
  moreover have "f \<in> set (lookup_files (lc_environments (standalone_load_context f)))"
    by (simp add: standalone_load_context_def environment_own_def)
  ultimately show ?thesis by (auto simp: load_context_of_def split: option.split)
qed


text \<open>
  The eager view is a part of the deferred one: the same loader, the same packages, and no file that
  is loaded before this one gets lost when loading is over.
\<close>

definition view_part :: "load_context option \<Rightarrow> load_context option \<Rightarrow> bool" where
  "view_part a b \<longleftrightarrow> (case (a, b) of
     (None, None) \<Rightarrow> True
   | (Some c, Some d) \<Rightarrow> lc_kind c = lc_kind d \<and> lc_implicit_attaches c = lc_implicit_attaches d \<and>
       lc_loader c = lc_loader d \<and> set (lookup_files (lc_environments c)) \<subseteq> set (lookup_files (lc_environments d))
   | _ \<Rightarrow> False)"

lemma collation_environment_part: "set (collation_environment S f EagerView) \<subseteq> set (collation_environment S f DeferredView)"
  unfolding collation_environment_def Let_def by (rule eager_within_deferred)

lemma loader_view_parts:
  "view_part (notebook_load_context S f EagerView) (notebook_load_context S f DeferredView)"
  "view_part (testthat_load_context S f EagerView) (testthat_load_context S f DeferredView)"
  "view_part (package_load_context S f EagerView) (package_load_context S f DeferredView)"
  "view_part (shiny_load_context S f EagerView) (shiny_load_context S f DeferredView)"
  using eager_within_deferred collation_environment_part [of S f]
  by (auto simp: view_part_def notebook_load_context_def testthat_load_context_def package_load_context_def
      shiny_load_context_def autoload_context_def Let_def dest: subsetD split: option.splits bind_splits)

lemma load_context_views:
  "view_part (Some (load_context_of S f EagerView)) (Some (load_context_of S f DeferredView))"
  using loader_view_parts [of S f]
  by (auto simp: load_context_of_def view_part_def split: option.splits)

end
