(* ===== verification/Import_Layers.thy ===== *)
theory Import_Layers
  imports Load_Context Index_Queries Binding_Timeline
begin

text \<open>
  The layers in which a file looks up a name it does not bind (\<^verbatim>\<open>oak_db/src/file_imports.rs\<close>):
  the files loaded before or beside it, the imports of its package, attached packages, the search
  path, and what it inherits from the files that source it (\<^verbatim>\<open>file_source_site.rs\<close>).

  The tracked queries that can meet themselves through a cycle of \<open>source()\<close> calls are stored results:
  Salsa gives each of them the value of its body, or the value of its recovery handler when the query
  takes part in a cycle. They are the fields that \<open>query_db\<close> adds to the source database; the
  definitions of their bodies have names ending in \<open>_query\<close>, and the bodies read other queries through
  the fields. A result of \<open>None\<close> is a panic.
\<close>

section \<open>Layers\<close>

datatype import_layer =
    LayerFile file_id
  | LayerSourcingFile file_id exports_at_source
  | LayerFrom package_id
  | LayerPackage package_id

record cross_file_layers =
  xl_enclosing :: "import_layer list"
  xl_attaches :: "import_layer list"
  xl_tail :: search_path_tail
  xl_recovered_source_cycle :: bool

record file_load_layers =
  fll_environments :: environment_chain
  fll_current_file :: file_id
  fll_layers :: cross_file_layers

record inherited_layers =
  inh_file :: file_id
  inh_layers :: cross_file_layers

datatype export_entry = LocalEntry | ImportEntry file_id string

text \<open>The hash map of exports, keys distinct.\<close>

type_synonym file_exports = "(string \<times> export_entry list) list"

record query_db = source_db +
  qd_semantic_index :: "file_id \<Rightarrow> semantic_index"
  qd_exports :: "file_id \<Rightarrow> file_exports"
  qd_attached_packages :: "file_id \<Rightarrow> string list"
  qd_cross_file_layers :: "file_id \<Rightarrow> collation_view \<Rightarrow> file_load_layers"
  qd_inherited_layers :: "file_id \<Rightarrow> collation_view \<Rightarrow> inherited_layers list"
  qd_base_binds :: "package_id \<Rightarrow> string \<Rightarrow> bool"

section \<open>The search path\<close>

definition DEFAULT_SEARCH_PATH_PACKAGES :: "string list" where
  "DEFAULT_SEARCH_PATH_PACKAGES =
     [''stats'', ''graphics'', ''grDevices'', ''utils'', ''datasets'', ''methods'', ''base'']"

definition package_layer :: "'a source_db_scheme \<Rightarrow> string \<Rightarrow> import_layer option" where
  "package_layer S name = map_option LayerPackage (package_named S name)"

definition base_layer :: "'a source_db_scheme \<Rightarrow> import_layer option" where
  "base_layer S = package_layer S ''base''"

definition default_search_path_layers :: "'a source_db_scheme \<Rightarrow> import_layer list" where
  "default_search_path_layers S = List.map_filter (package_layer S) DEFAULT_SEARCH_PATH_PACKAGES"

fun tail_layers :: "'a source_db_scheme \<Rightarrow> search_path_tail \<Rightarrow> import_layer list" where
  "tail_layers S BaseTail = opt_list (base_layer S)"
| "tail_layers S DefaultTail = default_search_path_layers S"

definition cross_lookup_order :: "'a source_db_scheme \<Rightarrow> cross_file_layers \<Rightarrow> import_layer list \<Rightarrow> import_layer list" where
  "cross_lookup_order S layers own =
     xl_enclosing layers @ own @ xl_attaches layers @ tail_layers S (xl_tail layers)"

definition sibling_layers :: "file_load_layers \<Rightarrow> import_layer list" where
  "sibling_layers fl = map LayerFile (filter (\<lambda>f. f \<noteq> fll_current_file fl) (lookup_files (fll_environments fl)))"

definition definition_layers :: "file_load_layers \<Rightarrow> import_layer list" where
  "definition_layers fl = sibling_layers fl @ xl_enclosing (fll_layers fl)"

definition import_layers :: "file_load_layers \<Rightarrow> cross_file_layers" where
  "import_layers fl = \<lparr>xl_enclosing = definition_layers fl, xl_attaches = xl_attaches (fll_layers fl),
     xl_tail = xl_tail (fll_layers fl), xl_recovered_source_cycle = False\<rparr>"

definition load_lookup_order :: "'a source_db_scheme \<Rightarrow> file_load_layers \<Rightarrow> import_layer list \<Rightarrow> import_layer list" where
  "load_lookup_order S fl own = sibling_layers fl @ cross_lookup_order S (fll_layers fl) own"

section \<open>Which attaches a position sees\<close>

datatype attach_view =
    AttachAnywhere
  | AttachEof
  | AttachLazy text_size nat
  | AttachEager "text_size list"

definition attach_sees :: "attach_view \<Rightarrow> semantic_index \<Rightarrow> semantic_call \<Rightarrow> attach_region \<Rightarrow> bool option" where
  "attach_sees view ix call region = (case view of
     AttachAnywhere \<Rightarrow> Some True
   | AttachEof \<Rightarrow> map_option (\<lambda>eager. eager \<and> region = Unconditional) (scope_is_eager ix (ca_scope call))
   | AttachLazy offset scope_id \<Rightarrow> do {
       unit_scope \<leftarrow> enclosing_lazy_scope ix (ca_scope call);
       case unit_scope of
         None \<Rightarrow> Some (case region of Unconditional \<Rightarrow> True | Conditional _ \<Rightarrow> region_contains region call offset)
       | Some unit \<Rightarrow>
           map_option (\<lambda>ancestors. unit \<in> set ancestors \<and> region_contains region call offset)
             (ancestor_scope_ids ix scope_id) }
   | AttachEager offsets \<Rightarrow>
       map_option (\<lambda>eager. eager \<and> list_ex (region_contains region call) offsets) (scope_is_eager ix (ca_scope call)))"

record import_view =
  vw_collation :: collation_view
  vw_attaches :: attach_view

definition DEFERRED :: import_view where
  "DEFERRED = \<lparr>vw_collation = DeferredView, vw_attaches = AttachEof\<rparr>"

definition import_view_at :: "semantic_index \<Rightarrow> text_size \<Rightarrow> import_view option" where
  "import_view_at ix offset = do {
     cursor_scope \<leftarrow> scope_at ix offset;
     eager \<leftarrow> scope_is_eager ix cursor_scope;
     Some (if eager then \<lparr>vw_collation = EagerView, vw_attaches = AttachEager [offset]\<rparr>
           else \<lparr>vw_collation = DeferredView, vw_attaches = AttachLazy offset cursor_scope\<rparr>) }"

definition attach_layers :: "'a query_db_scheme \<Rightarrow> file_id \<Rightarrow> attach_view \<Rightarrow> import_layer list option" where
  "attach_layers Q f view =
     (let ix = qd_semantic_index Q f
      in foldM (\<lambda>call acc. case ca_kind call of
           Attach package region \<Rightarrow> do {
             seen \<leftarrow> attach_sees view ix call region;
             Some (if seen then acc @ opt_list (package_layer Q package) else acc) }
         | Source _ _ \<Rightarrow> Some acc) (rev (ix_semantic_calls ix)) [])"

section \<open>Source sites\<close>

record source_site =
  sst_file :: file_id
  sst_target :: "file_id option"
  sst_path :: string
  sst_offset :: text_size
  sst_scope :: nat

definition file_by_url :: "'a source_db_scheme \<Rightarrow> url \<Rightarrow> file_id option" where
  "file_by_url S u = file_by_path (sd_db S) (sd_from_url S u)"

definition source_sites :: "'a query_db_scheme \<Rightarrow> file_id \<Rightarrow> source_site list" where
  "source_sites Q f = List.map_filter (\<lambda>call. case ca_kind call of
       Source path resolved \<Rightarrow> Some \<lparr>sst_file = f, sst_target = Option.bind resolved (file_by_url Q),
         sst_path = path, sst_offset = ca_offset call, sst_scope = ca_scope call\<rparr>
     | Attach _ _ \<Rightarrow> None) (ix_semantic_calls (qd_semantic_index Q f))"

text \<open>Paths are compared as the text of their URL.\<close>

definition path_key :: "'a source_db_scheme \<Rightarrow> file_id \<Rightarrow> string" where
  "path_key S f = sd_to_url S (sd_path S f)"

definition source_targets :: "'a query_db_scheme \<Rightarrow> file_id \<Rightarrow> file_id list" where
  "source_targets Q f = remdups_adj (sort_key (path_key Q) (List.map_filter sst_target (source_sites Q f)))"

definition sourcing_files_by_target :: "'a query_db_scheme \<Rightarrow> file_id \<Rightarrow> file_id list" where
  "sourcing_files_by_target Q =
     (let by_target = fold (\<lambda>f m. fold (\<lambda>target m. m(target := m target @ [f])) (source_targets Q f) m)
        (workspace_files (sd_db Q)) (\<lambda>_. [])
      in (\<lambda>target. remdups_adj (sort_key (path_key Q) (by_target target))))"

definition sourced_by :: "'a query_db_scheme \<Rightarrow> file_id \<Rightarrow> file_id list" where
  "sourced_by Q f = sourcing_files_by_target Q f"

definition source_offsets :: "'a query_db_scheme \<Rightarrow> file_id \<Rightarrow> file_id \<Rightarrow> text_size list option option" where
  "source_offsets Q sourcing_file f = do {
     offsets \<leftarrow> foldM (\<lambda>site acc.
         if acc = None \<or> sst_target site \<noteq> Some f then Some acc
         else do {
           eager \<leftarrow> scope_is_eager (qd_semantic_index Q sourcing_file) (sst_scope site);
           Some (if eager then map_option (\<lambda>os. os @ [sst_offset site]) acc else None) })
       (source_sites Q sourcing_file) (Some []);
     Some (case offsets of None \<Rightarrow> None | Some [] \<Rightarrow> None | Some os \<Rightarrow> Some os) }"

definition loaded_before :: "'a query_db_scheme \<Rightarrow> file_id \<Rightarrow> file_id \<Rightarrow> text_size list \<Rightarrow> file_id list" where
  "loaded_before Q source_file f offsets = fold (\<lambda>offset loaded.
       let targets = List.map_filter sst_target (filter (\<lambda>site. sst_offset site = offset) (source_sites Q source_file))
       in case position (\<lambda>target. target = f) targets of
            None \<Rightarrow> loaded
          | Some own \<Rightarrow> push_unseen (rev (take own targets)) loaded) (rev offsets) []"

section \<open>Layers of the loader\<close>

definition namespace_import_layers :: "package_id \<Rightarrow> namespace \<Rightarrow> import_layer list" where
  "namespace_import_layers package ns = (if ns_imports ns = [] then [] else [LayerFrom package])"

definition namespace_package_import_layers :: "'a source_db_scheme \<Rightarrow> namespace \<Rightarrow> import_layer list" where
  "namespace_package_import_layers S ns = List.map_filter (package_layer S) (ns_package_imports ns)"

definition lower_load_context :: "'a source_db_scheme \<Rightarrow> file_id \<Rightarrow> load_context \<Rightarrow> file_load_layers" where
  "lower_load_context S f context =
     \<lparr>fll_environments = lc_environments context, fll_current_file = f,
      fll_layers =
        \<lparr>xl_enclosing = (case lc_kind context of
             NamespaceLoad package \<Rightarrow>
               (let ns = sd_namespace S package
                in namespace_import_layers package ns @ namespace_package_import_layers S ns)
           | SessionLoad \<Rightarrow> []),
         xl_attaches = List.map_filter (package_layer S) (lc_implicit_attaches context),
         xl_tail = tail_of_kind (lc_kind context),
         xl_recovered_source_cycle = False\<rparr>\<rparr>"

definition predecessor_attach_layers :: "'a query_db_scheme \<Rightarrow> file_id list \<Rightarrow> import_layer list" where
  "predecessor_attach_layers Q files =
     concat (map (\<lambda>f. List.map_filter (package_layer Q) (rev (qd_attached_packages Q f))) files)"

definition cross_file_layers_query :: "'a query_db_scheme \<Rightarrow> file_id \<Rightarrow> collation_view \<Rightarrow> file_load_layers" where
  "cross_file_layers_query Q f view =
     (let context = load_context_of Q f view;
          fl = lower_load_context Q f context;
          visible_files = filter (\<lambda>member. member \<noteq> f) (lookup_files (lc_environments context));
          layers = fll_layers fl
      in fl\<lparr>fll_layers := layers\<lparr>xl_attaches := predecessor_attach_layers Q visible_files @ xl_attaches layers\<rparr>\<rparr>)"

definition cross_file_layers_fallback :: "'a source_db_scheme \<Rightarrow> file_id \<Rightarrow> collation_view \<Rightarrow> file_load_layers" where
  "cross_file_layers_fallback S f view =
     (let fl = lower_load_context S f (load_context_of S f view)
      in fl\<lparr>fll_layers := (fll_layers fl)\<lparr>xl_recovered_source_cycle := True\<rparr>\<rparr>)"

section \<open>Layers of a sourcing file\<close>

definition build_inherited_layers :: "'a query_db_scheme \<Rightarrow> file_id \<Rightarrow> file_id \<Rightarrow> collation_view \<Rightarrow> inherited_layers option" where
  "build_inherited_layers Q f source_site view = do {
     offsets \<leftarrow> (case view of DeferredView \<Rightarrow> Some None | EagerView \<Rightarrow> source_offsets Q source_site f);
     let own_cross = qd_cross_file_layers Q source_site view;
     let grandparents = qd_inherited_layers Q source_site view;
     own_attach \<leftarrow> attach_layers Q source_site (case offsets of
         Some os \<Rightarrow> AttachEager os
       | None \<Rightarrow> (case view of DeferredView \<Rightarrow> AttachEof | EagerView \<Rightarrow> AttachAnywhere));
     let exports_so_far = Option.bind offsets (exports_at_sources (qd_semantic_index Q source_site));
     let source_layer = (case exports_so_far of
         Some so_far \<Rightarrow> LayerSourcingFile source_site so_far
       | None \<Rightarrow> LayerFile source_site);
     let before = (case offsets of Some os \<Rightarrow> map LayerFile (loaded_before Q source_site f os) | None \<Rightarrow> []);
     Some \<lparr>inh_file = source_site,
       inh_layers =
         \<lparr>xl_enclosing = before @ [source_layer] @ definition_layers own_cross @
            concat (map (\<lambda>site. xl_enclosing (inh_layers site)) grandparents),
          xl_attaches = own_attach @ concat (map (\<lambda>site. xl_attaches (inh_layers site)) grandparents) @
            xl_attaches (fll_layers own_cross),
          xl_tail = xl_tail (fll_layers own_cross),
          xl_recovered_source_cycle = False\<rparr>\<rparr> }"

definition inherited_layers_query :: "'a query_db_scheme \<Rightarrow> file_id \<Rightarrow> collation_view \<Rightarrow> inherited_layers list option" where
  "inherited_layers_query Q f view =
     (if fixes_load_order (lc_kind (load_context_of Q f view)) then Some []
      else those (map (\<lambda>sourcing_file. build_inherited_layers Q f sourcing_file view) (sourced_by Q f)))"

section \<open>Import chains\<close>

definition layers_by_sourcing_file :: "'a query_db_scheme \<Rightarrow> file_id \<Rightarrow> collation_view \<Rightarrow> cross_file_layers list" where
  "layers_by_sourcing_file Q f view =
     import_layers (qd_cross_file_layers Q f view) # map inh_layers (qd_inherited_layers Q f view)"

definition resolution_layers :: "'a query_db_scheme \<Rightarrow> file_id \<Rightarrow> collation_view \<Rightarrow> cross_file_layers" where
  "resolution_layers Q f view =
     (if qd_inherited_layers Q f view = [] then import_layers (qd_cross_file_layers Q f view)
      else
        let alternatives = layers_by_sourcing_file Q f view
        in \<lparr>xl_enclosing = concat (map xl_enclosing alternatives), xl_attaches = concat (map xl_attaches alternatives),
            xl_tail = DefaultTail, xl_recovered_source_cycle = False\<rparr>)"

definition imports_in :: "'a query_db_scheme \<Rightarrow> file_id \<Rightarrow> import_view \<Rightarrow> import_layer list option" where
  "imports_in Q f view = map_option (cross_lookup_order Q (resolution_layers Q f (vw_collation view)))
     (attach_layers Q f (vw_attaches view))"

definition file_imports :: "'a query_db_scheme \<Rightarrow> file_id \<Rightarrow> import_layer list option" where
  "file_imports Q f = imports_in Q f DEFERRED"

definition imports_at :: "'a query_db_scheme \<Rightarrow> file_id \<Rightarrow> text_size \<Rightarrow> import_layer list option" where
  "imports_at Q f offset = Option.bind (import_view_at (qd_semantic_index Q f) offset) (imports_in Q f)"

definition loader_fallback_in :: "'a query_db_scheme \<Rightarrow> file_id \<Rightarrow> import_view \<Rightarrow> import_layer list option" where
  "loader_fallback_in Q f view =
     map_option (cross_lookup_order Q (fll_layers (qd_cross_file_layers Q f (vw_collation view))))
       (attach_layers Q f (vw_attaches view))"

definition loader_fallback :: "'a query_db_scheme \<Rightarrow> file_id \<Rightarrow> import_layer list option" where
  "loader_fallback Q f = loader_fallback_in Q f DEFERRED"

definition loader_fallback_at :: "'a query_db_scheme \<Rightarrow> file_id \<Rightarrow> text_size \<Rightarrow> import_layer list option" where
  "loader_fallback_at Q f offset = Option.bind (import_view_at (qd_semantic_index Q f) offset) (loader_fallback_in Q f)"

definition imports_by_sourcing_file_in :: "'a query_db_scheme \<Rightarrow> file_id \<Rightarrow> import_view \<Rightarrow> import_layer list list option" where
  "imports_by_sourcing_file_in Q f view =
     (let inherited = qd_inherited_layers Q f (vw_collation view)
      in if inherited = [] then Some []
         else map_option (\<lambda>own. map (\<lambda>site. cross_lookup_order Q (inh_layers site) own) inherited)
           (attach_layers Q f (vw_attaches view)))"

definition imports_by_sourcing_file :: "'a query_db_scheme \<Rightarrow> file_id \<Rightarrow> import_layer list list option" where
  "imports_by_sourcing_file Q f = imports_by_sourcing_file_in Q f DEFERRED"

definition imports_by_sourcing_file_at :: "'a query_db_scheme \<Rightarrow> file_id \<Rightarrow> text_size \<Rightarrow> import_layer list list option" where
  "imports_by_sourcing_file_at Q f offset =
     Option.bind (import_view_at (qd_semantic_index Q f) offset) (imports_by_sourcing_file_in Q f)"

definition inherited_imports_by_sourcing_file :: "'a query_db_scheme \<Rightarrow> file_id \<Rightarrow> (file_id \<times> import_layer list) list option" where
  "inherited_imports_by_sourcing_file Q f =
     map_option (\<lambda>own. map (\<lambda>site. (inh_file site, cross_lookup_order Q (inh_layers site) own))
       (qd_inherited_layers Q f DeferredView)) (attach_layers Q f AttachAnywhere)"

definition standalone_imports :: "'a query_db_scheme \<Rightarrow> file_id \<Rightarrow> import_layer list option" where
  "standalone_imports Q f =
     map_option (load_lookup_order Q (qd_cross_file_layers Q f DeferredView)) (attach_layers Q f AttachAnywhere)"

end
