(* ===== verification/Name_Resolution.thy ===== *)
theory Name_Resolution
  imports Import_Layers
begin

text \<open>
  Resolution of names across files and packages (\<^verbatim>\<open>oak_db/src/definition.rs\<close>,
  \<^verbatim>\<open>file_exports.rs\<close>, \<^verbatim>\<open>file_resolve.rs\<close>, \<^verbatim>\<open>package_resolve.rs\<close>): the exports of a
  file with their forwards through \<open>source()\<close>, the bindings of a package with its re-exports, and the
  definitions that a name at a position can refer to.
\<close>

section \<open>Definitions\<close>

text \<open>
  A \<open>Definition\<close> is a tracked entity. Within one revision it is the binding at one site: the file,
  the scope and the index in the scope determine the name and the kind.
\<close>

record definition_entity =
  dn_file :: file_id
  dn_scope :: nat
  dn_id :: nat
  dn_name :: string
  dn_kind :: definition_kind

definition definition_entities :: "'a query_db_scheme \<Rightarrow> file_id \<Rightarrow> ((nat \<times> nat) \<times> definition_entity) list option" where
  "definition_entities Q f =
     (let ix = qd_semantic_index Q f
      in foldM (\<lambda>scope_id acc. do {
           symbols \<leftarrow> iv_get (ix_symbol_tables ix) scope_id;
           defs \<leftarrow> iv_get (ix_definitions ix) scope_id;
           foldM (\<lambda>(def_id, d) acc. do {
             sy \<leftarrow> st_symbol symbols (df_symbol d);
             Some (acc @ [((scope_id, def_id), \<lparr>dn_file = f, dn_scope = scope_id, dn_id = def_id,
               dn_name = sy_name sy, dn_kind = df_kind d\<rparr>)]) }) (iv_iter defs) acc })
         (scope_ids ix) [])"

definition definition_entity_at :: "'a query_db_scheme \<Rightarrow> file_id \<Rightarrow> nat \<Rightarrow> nat \<Rightarrow> definition_entity option option" where
  "definition_entity_at Q f scope_id def_id = do {
     by_site \<leftarrow> definition_entities Q f;
     Some (map_of by_site (scope_id, def_id)) }"

section \<open>Exports of a file\<close>

fun is_import_kind :: "definition_kind \<Rightarrow> bool" where
  "is_import_kind (Import _ _ _) = True"
| "is_import_kind _ = False"

definition export_entry_of :: "'a query_db_scheme \<Rightarrow> defn \<Rightarrow> export_entry option" where
  "export_entry_of Q d = (case df_kind d of
     Import _ target_url target_name \<Rightarrow> map_option (\<lambda>target. ImportEntry target target_name) (file_by_url Q target_url)
   | _ \<Rightarrow> Some LocalEntry)"

definition push_entry :: "'e \<Rightarrow> 'e list \<Rightarrow> 'e list" where
  "push_entry e es = (if e \<in> set es then es else es @ [e])"

definition export_entries :: "'a query_db_scheme \<Rightarrow> (nat \<times> defn) list \<Rightarrow> export_entry list" where
  "export_entries Q defs =
     fold (\<lambda>(_, d) es. case export_entry_of Q d of None \<Rightarrow> es | Some e \<Rightarrow> push_entry e es) defs []"

definition exports_query :: "'a query_db_scheme \<Rightarrow> file_id \<Rightarrow> file_exports option" where
  "exports_query Q f =
     map_option (map (\<lambda>(name, defs). (name, export_entries Q defs))) (exports (qd_semantic_index Q f))"

definition file_export_is_bound :: "'a query_db_scheme \<Rightarrow> file_id \<Rightarrow> string \<Rightarrow> bool option" where
  "file_export_is_bound Q f name = export_is_bound (qd_semantic_index Q f) name"

definition attached_packages_query :: "'a query_db_scheme \<Rightarrow> file_id \<Rightarrow> string list option" where
  "attached_packages_query Q f = attached_packages (qd_semantic_index Q f)"

section \<open>Following the exports\<close>

text \<open>The definitions behind the marker \<open>Local\<close>: what the file leaves bound, without its forwards.\<close>

definition local_exports :: "'a query_db_scheme \<Rightarrow> file_id \<Rightarrow> string \<Rightarrow> definition_entity list option" where
  "local_exports Q f name = do {
     defs \<leftarrow> export (qd_semantic_index Q f) name;
     foldM (\<lambda>(def_id, d) acc.
       if is_import_kind (df_kind d) then Some acc
       else do {
         entity \<leftarrow> definition_entity_at Q f 0 def_id;
         Some (acc @ opt_list entity) }) defs [] }"

fun collect_exports_upto :: "nat \<Rightarrow> 'a query_db_scheme \<Rightarrow> file_id \<Rightarrow> string \<Rightarrow>
    (file_id \<times> string) list \<times> definition_entity list \<Rightarrow> ((file_id \<times> string) list \<times> definition_entity list) option" where
  "collect_exports_upto 0 Q f name st = None"
| "collect_exports_upto (Suc n) Q f name (visited, results) =
     (if (f, name) \<in> set visited then Some (visited, results)
      else case map_of (qd_exports Q f) name of
        None \<Rightarrow> Some ((f, name) # visited, results)
      | Some entries \<Rightarrow> foldM (\<lambda>entry (visited, results). case entry of
            LocalEntry \<Rightarrow> do {
              defs \<leftarrow> local_exports Q f name;
              Some (visited, results @ defs) }
          | ImportEntry target forwarded \<Rightarrow> collect_exports_upto n Q target forwarded (visited, results))
          entries ((f, name) # visited, results))"

text \<open>
  Only the pairs of a live file and a name it exports can be followed further, so their number bounds
  the depth.
\<close>

definition export_bound :: "'a query_db_scheme \<Rightarrow> nat" where
  "export_bound Q = 3 + sum_list (map (\<lambda>f. length (qd_exports Q f)) (all_known_files (sd_db Q)))"

definition resolve_export :: "'a query_db_scheme \<Rightarrow> file_id \<Rightarrow> string \<Rightarrow> definition_entity list option" where
  "resolve_export Q f name = map_option snd (collect_exports_upto (export_bound Q) Q f name ([], []))"

definition resolve_definition :: "'a query_db_scheme \<Rightarrow> file_id \<Rightarrow> nat \<Rightarrow> nat \<Rightarrow> definition_entity list option" where
  "resolve_definition Q f scope_id def_id = do {
     defs \<leftarrow> iv_get (ix_definitions (qd_semantic_index Q f)) scope_id;
     d \<leftarrow> iv_get defs def_id;
     case df_kind d of
       Import _ target_url forwarded \<Rightarrow>
         (case file_by_url Q target_url of
            None \<Rightarrow> Some []
          | Some target \<Rightarrow> resolve_export Q target forwarded)
     | _ \<Rightarrow> map_option opt_list (definition_entity_at Q f scope_id def_id) }"

section \<open>Bindings of a package\<close>

datatype namespace_visibility = Exported | InternalVisibility

definition package_exports_name :: "'a source_db_scheme \<Rightarrow> package_id \<Rightarrow> string \<Rightarrow> bool" where
  "package_exports_name S p name = sv_contains (ns_exports (sd_namespace S p)) name"

definition concatM :: "'b list option list \<Rightarrow> 'b list option" where
  "concatM xs = map_option concat (those xs)"

text \<open>
  A re-export that comes back to a package whose resolution is under way (\<open>active\<close>) has no candidates:
  the recovery handler of the query.
\<close>

fun package_resolve_upto :: "nat \<Rightarrow> 'a query_db_scheme \<Rightarrow> (package_id \<times> namespace_visibility) list \<Rightarrow> package_id \<Rightarrow>
    string \<Rightarrow> namespace_visibility \<Rightarrow> definition_entity list option" where
  "package_resolve_upto 0 Q active p name visibility = None"
| "package_resolve_upto (Suc n) Q active p name visibility =
     (if (p, visibility) \<in> set active then Some []
      else if visibility = Exported \<and> pk_name (sd_package Q p) \<noteq> lit ''base'' \<and> \<not> package_exports_name Q p name then Some []
      else do {
        results \<leftarrow> concatM (map (\<lambda>f. resolve_export Q f name) (pk_files (sd_package Q p)));
        if results \<noteq> [] then Some results
        else case imported_from (sd_namespace Q p) name of
          None \<Rightarrow> Some []
        | Some source_name \<Rightarrow>
            (case package_named Q source_name of
               None \<Rightarrow> Some []
             | Some source \<Rightarrow> package_resolve_upto n Q ((p, visibility) # active) source name Exported) })"

text \<open>Every package after the first is one of a live root.\<close>

definition package_bound :: "'a source_db_scheme \<Rightarrow> nat" where
  "package_bound S = 3 + length (concat (map (\<lambda>r. rt_packages (db_root (sd_db S) r))
     (db_workspace_roots (sd_db S) @ db_library_roots (sd_db S))))"

definition package_resolve :: "'a query_db_scheme \<Rightarrow> package_id \<Rightarrow> string \<Rightarrow> namespace_visibility \<Rightarrow> definition_entity list option" where
  "package_resolve Q p name visibility = package_resolve_upto (package_bound Q) Q [] p name visibility"

section \<open>Walking the layers\<close>

definition extend_definitions :: "'d list \<Rightarrow> 'd list \<Rightarrow> 'd list" where
  "extend_definitions definitions candidates = fold push_entry candidates definitions"

definition resolve_import_layer :: "'a query_db_scheme \<Rightarrow> import_layer \<Rightarrow> string \<Rightarrow> definition_entity list option" where
  "resolve_import_layer Q layer name = (case layer of
     LayerFile f \<Rightarrow> resolve_export Q f name
   | LayerSourcingFile f exports_so_far \<Rightarrow>
       if es_contains exports_so_far name then resolve_export Q f name else Some []
   | LayerPackage p \<Rightarrow> package_resolve Q p name Exported
   | LayerFrom importer \<Rightarrow>
       (case imported_from (sd_namespace Q importer) name of
          None \<Rightarrow> Some []
        | Some source \<Rightarrow>
            (case package_named Q source of
               None \<Rightarrow> Some []
             | Some p \<Rightarrow> package_resolve Q p name Exported)))"

definition layer_is_bound :: "'a query_db_scheme \<Rightarrow> import_layer \<Rightarrow> string \<Rightarrow> bool option" where
  "layer_is_bound Q layer name = (case layer of LayerFile f \<Rightarrow> file_export_is_bound Q f name | _ \<Rightarrow> Some True)"

fun resolve_import_layers :: "'a query_db_scheme \<Rightarrow> string \<Rightarrow> import_layer list \<Rightarrow> definition_entity list \<Rightarrow>
    (definition_entity list \<times> bool) option" where
  "resolve_import_layers Q name [] definitions = Some (definitions, False)"
| "resolve_import_layers Q name (layer # layers) definitions = do {
     defs \<leftarrow> resolve_import_layer Q layer name;
     if defs = [] then resolve_import_layers Q name layers definitions
     else do {
       bound \<leftarrow> layer_is_bound Q layer name;
       if bound then Some (extend_definitions definitions defs, True)
       else resolve_import_layers Q name layers (extend_definitions definitions defs) } }"

definition resolve_per_sourcing_file :: "'a query_db_scheme \<Rightarrow> string \<Rightarrow> import_layer list list \<Rightarrow> definition_entity list \<Rightarrow>
    definition_entity list option" where
  "resolve_per_sourcing_file Q name contexts definitions =
     foldM (\<lambda>context definitions. map_option fst (resolve_import_layers Q name context definitions)) contexts definitions"

fun walk_environments :: "'a query_db_scheme \<Rightarrow> file_id \<Rightarrow> string \<Rightarrow> definition_entity list \<Rightarrow> bool \<Rightarrow> file_id list \<Rightarrow>
    definition_entity list \<Rightarrow> (definition_entity list \<times> bool) option" where
  "walk_environments Q current name own own_bound [] definitions = Some (definitions, False)"
| "walk_environments Q current name own own_bound (m # members) definitions =
     (if m = current then
        if own_bound then Some (extend_definitions definitions own, True)
        else walk_environments Q current name own own_bound members (extend_definitions definitions own)
      else do {
        (definitions, stopped) \<leftarrow> resolve_import_layers Q name [LayerFile m] definitions;
        if stopped then Some (definitions, True)
        else walk_environments Q current name own own_bound members definitions })"

definition resolve_environments :: "'a query_db_scheme \<Rightarrow> file_id \<Rightarrow> collation_view \<Rightarrow> string \<Rightarrow> definition_entity list \<Rightarrow>
    bool \<Rightarrow> definition_entity list \<Rightarrow> (definition_entity list \<times> bool) option" where
  "resolve_environments Q f view name own own_bound definitions =
     (let layers = qd_cross_file_layers Q f view
      in walk_environments Q (fll_current_file layers) name own own_bound
           (lookup_files (fll_environments layers)) definitions)"

section \<open>Resolving a name\<close>

definition file_resolve :: "'a query_db_scheme \<Rightarrow> file_id \<Rightarrow> string \<Rightarrow> definition_entity list option" where
  "file_resolve Q f name = do {
     own_bound \<leftarrow> file_export_is_bound Q f name;
     own \<leftarrow> resolve_export Q f name;
     (definitions, environment_bound) \<leftarrow> resolve_environments Q f DeferredView name own own_bound [];
     if environment_bound \<and> own_bound then Some definitions
     else do {
       definitions \<leftarrow>
         (if environment_bound then Some definitions
          else do {
            layers \<leftarrow> loader_fallback Q f;
            map_option fst (resolve_import_layers Q name layers definitions) });
       if own_bound then Some definitions
       else do {
         contexts \<leftarrow> imports_by_sourcing_file Q f;
         resolve_per_sourcing_file Q name contexts definitions } } }"

definition resolve_at :: "'a query_db_scheme \<Rightarrow> file_id \<Rightarrow> text_size \<Rightarrow> definition_entity list option" where
  "resolve_at Q f offset =
     (let ix = qd_semantic_index Q f in do {
        at \<leftarrow> use_at ix offset;
        case at of
          None \<Rightarrow> do {
            at_def \<leftarrow> definition_at ix offset;
            case at_def of
              None \<Rightarrow> Some []
            | Some (scope, def_id, _) \<Rightarrow> map_option opt_list (definition_entity_at Q f scope def_id) }
        | Some (use_scope, use_id, site) \<Rightarrow> do {
            symbols \<leftarrow> iv_get (ix_symbol_tables ix) use_scope;
            sy \<leftarrow> st_symbol symbols (us_symbol site);
            let name = sy_name sy;
            reaching \<leftarrow> reaching_definitions ix use_scope use_id;
            let (globals, lexical) = partition (\<lambda>(scope, _). scope = 0) reaching;
            definitions \<leftarrow> concatM (map (\<lambda>(scope, def_id). resolve_definition Q f scope def_id) lexical);
            own_bound \<leftarrow> use_is_bound ix use_scope use_id;
            if own_bound \<and> globals = [] then Some definitions
            else do {
              eager \<leftarrow> scope_is_eager ix use_scope;
              own \<leftarrow> concatM (map (\<lambda>(scope, def_id). resolve_definition Q f scope def_id) globals);
              (definitions, environment_bound) \<leftarrow>
                resolve_environments Q f (if eager then EagerView else DeferredView) name own own_bound definitions;
              if environment_bound \<and> own_bound then Some definitions
              else do {
                definitions \<leftarrow>
                  (if environment_bound then Some definitions
                   else do {
                     layers \<leftarrow> loader_fallback_at Q f offset;
                     map_option fst (resolve_import_layers Q name layers definitions) });
                if own_bound then Some definitions
                else do {
                  contexts \<leftarrow> imports_by_sourcing_file_at Q f offset;
                  resolve_per_sourcing_file Q name contexts definitions } } } } })"

end
