(* ===== verification/Name_Total.thy ===== *)
theory Name_Total
  imports Name_Resolution
begin

text \<open>
  Name resolution returns, and what it returns: the definitions a chain of \<open>source()\<close> forwards reaches,
  in a database whose stored results are those of the query bodies or of the recovery handlers.
\<close>

section \<open>Stored results\<close>

definition stored_ok :: "'a query_db_scheme \<Rightarrow> bool" where
  "stored_ok Q \<longleftrightarrow>
     (\<forall>f. index_ok (qd_semantic_index Q f)) \<and>
     (\<forall>f. exports_query Q f = Some (qd_exports Q f) \<or> qd_exports Q f = []) \<and>
     (\<forall>f. attached_packages_query Q f = Some (qd_attached_packages Q f) \<or> qd_attached_packages Q f = []) \<and>
     (\<forall>f view. qd_cross_file_layers Q f view = cross_file_layers_query Q f view \<or>
        qd_cross_file_layers Q f view = cross_file_layers_fallback Q f view) \<and>
     (\<forall>f view. inherited_layers_query Q f view = Some (qd_inherited_layers Q f view) \<or> qd_inherited_layers Q f view = [])"

lemma stored_okD:
  assumes "stored_ok Q"
  shows "index_ok (qd_semantic_index Q f)"
    and "exports_query Q f = Some (qd_exports Q f) \<or> qd_exports Q f = []"
    and "attached_packages_query Q f = Some (qd_attached_packages Q f) \<or> qd_attached_packages Q f = []"
    and "qd_cross_file_layers Q f view = cross_file_layers_query Q f view \<or>
        qd_cross_file_layers Q f view = cross_file_layers_fallback Q f view"
    and "inherited_layers_query Q f view = Some (qd_inherited_layers Q f view) \<or> qd_inherited_layers Q f view = []"
  using assms unfolding stored_ok_def by blast+

text \<open>Recovery or not, a file keeps the environments its loader gives it.\<close>

lemma stored_environments:
  assumes "stored_ok Q"
  shows "fll_current_file (qd_cross_file_layers Q f view) = f"
    and "fll_environments (qd_cross_file_layers Q f view) = lc_environments (load_context_of Q f view)"
  using stored_okD(4) [OF assms, of f view]
  by (auto simp: cross_file_layers_query_def cross_file_layers_fallback_def lower_load_context_def Let_def)

section \<open>Definitions\<close>

definition entity_of :: "'a query_db_scheme \<Rightarrow> file_id \<Rightarrow> nat \<Rightarrow> nat \<Rightarrow> definition_entity" where
  "entity_of Q f s i = \<lparr>dn_file = f, dn_scope = s, dn_id = i, dn_name = def_name (qd_semantic_index Q f) s i,
     dn_kind = df_kind (ix_definitions (qd_semantic_index Q f) ! s ! i)\<rparr>"

definition definition_sites :: "'a query_db_scheme \<Rightarrow> file_id \<Rightarrow> (nat \<times> nat) list" where
  "definition_sites Q f = concat (map (\<lambda>s. map (Pair s) [0..<length (ix_definitions (qd_semantic_index Q f) ! s)])
     [0..<length (ix_scopes (qd_semantic_index Q f))])"

lemma in_definition_sites:
  "(s, i) \<in> set (definition_sites Q f) \<longleftrightarrow>
    s < length (ix_scopes (qd_semantic_index Q f)) \<and> i < length (ix_definitions (qd_semantic_index Q f) ! s)"
  by (auto simp: definition_sites_def intro!: bexI [of _ s])

lemma definition_entities_total:
  assumes ok: "index_ok (qd_semantic_index Q f)"
  shows "definition_entities Q f = Some (map (\<lambda>(s, i). ((s, i), entity_of Q f s i)) (definition_sites Q f))"
proof -
  let ?ix = "qd_semantic_index Q f"
  let ?row = "\<lambda>s. map (\<lambda>i. ((s, i), entity_of Q f s i)) [0..<length (ix_definitions ?ix ! s)]"
  have iter: "iv_iter xs = map (\<lambda>i. (i, xs ! i)) [0..<length xs]" for xs :: "defn list"
    by (rule nth_equalityI) (simp_all add: iv_iter_def)
  have inner: "foldM (\<lambda>(i, d) acc. do {
        sy \<leftarrow> st_symbol (ix_symbol_tables ?ix ! s) (df_symbol d);
        Some (acc @ [((s, i), \<lparr>dn_file = f, dn_scope = s, dn_id = i, dn_name = sy_name sy, dn_kind = df_kind d\<rparr>)]) })
      (map (\<lambda>i. (i, ix_definitions ?ix ! s ! i)) is) acc = Some (acc @ map (\<lambda>i. ((s, i), entity_of Q f s i)) is)"
    if "s < length (ix_scopes ?ix)" "\<forall>i\<in>set is. i < length (ix_definitions ?ix ! s)" for s "is" acc
    using that def_symbol_range [OF ok that(1)]
    by (induction "is" arbitrary: acc) (auto simp: st_symbol_def st_len_def entity_of_def def_name_def symbol_name_def)
  have outer: "foldM (\<lambda>s acc. do {
        symbols \<leftarrow> iv_get (ix_symbol_tables ?ix) s;
        defs \<leftarrow> iv_get (ix_definitions ?ix) s;
        foldM (\<lambda>(i, d) acc. do {
          sy \<leftarrow> st_symbol symbols (df_symbol d);
          Some (acc @ [((s, i), \<lparr>dn_file = f, dn_scope = s, dn_id = i, dn_name = sy_name sy, dn_kind = df_kind d\<rparr>)]) })
        (iv_iter defs) acc }) ss acc = Some (acc @ concat (map ?row ss))"
    if "\<forall>s\<in>set ss. s < length (ix_scopes ?ix)" for ss acc
    using that inner index_okD(2,3) [OF ok] by (induction ss arbitrary: acc) (simp_all add: iter)
  have "scope_ids ?ix = [0..<length (ix_scopes ?ix)]" by (simp add: scope_ids_def iv_iter_def)
  with outer [of "[0..<length (ix_scopes ?ix)]" "[]"] show ?thesis
    by (simp add: definition_entities_def definition_sites_def map_concat comp_def case_prod_unfold Let_def)
qed

lemma definition_entity_at_total:
  assumes "index_ok (qd_semantic_index Q f)"
  shows "definition_entity_at Q f s i =
    Some (if (s, i) \<in> set (definition_sites Q f) then Some (entity_of Q f s i) else None)"
proof -
  have "map_of (map (\<lambda>(s, i). ((s, i), entity_of Q f s i)) sites) (s, i) =
      (if (s, i) \<in> set sites then Some (entity_of Q f s i) else None)" for sites
    by (induction sites) auto
  then show ?thesis by (simp add: definition_entity_at_def definition_entities_total [OF assms])
qed

text \<open>A definition that stands for a binding of its file.\<close>

definition known_definition :: "'a query_db_scheme \<Rightarrow> definition_entity \<Rightarrow> bool" where
  "known_definition Q d \<longleftrightarrow> (dn_scope d, dn_id d) \<in> set (definition_sites Q (dn_file d)) \<and>
     d = entity_of Q (dn_file d) (dn_scope d) (dn_id d)"

lemma known_entity_of: "known_definition Q (entity_of Q f s i) \<longleftrightarrow> (s, i) \<in> set (definition_sites Q f)"
  by (simp add: known_definition_def entity_of_def)

section \<open>Local exports\<close>

definition local_ids :: "'a query_db_scheme \<Rightarrow> file_id \<Rightarrow> string \<Rightarrow> nat list" where
  "local_ids Q f name = map fst (filter (\<lambda>(i, d). \<not> is_import_kind (df_kind d))
     (the_list (export (qd_semantic_index Q f) name)))"

lemma local_exports_total:
  assumes ok: "index_ok (qd_semantic_index Q f)"
  shows "local_exports Q f name = Some (map (entity_of Q f 0) (local_ids Q f name))"
proof -
  obtain ds where ds: "export (qd_semantic_index Q f) name = Some ds" using export_total [OF ok] by blast
  have site: "(0, i) \<in> set (definition_sites Q f)" if "(i, d) \<in> set ds" for i d
    using export_names(1) [OF ok ds that] index_arena(3) [OF ok] by (simp add: in_definition_sites)
  have "foldM (\<lambda>(i, d) acc. if is_import_kind (df_kind d) then Some acc
      else do { entity \<leftarrow> definition_entity_at Q f 0 i; Some (acc @ opt_list entity) }) es acc =
    Some (acc @ map (entity_of Q f 0) (map fst (filter (\<lambda>(i, d). \<not> is_import_kind (df_kind d)) es)))"
    if "set es \<subseteq> set ds" for es acc
    using that site by (induction es arbitrary: acc) (auto simp: definition_entity_at_total [OF ok])
  with ds show ?thesis by (simp add: local_exports_def local_ids_def)
qed

lemma local_export_known:
  assumes ok: "index_ok (qd_semantic_index Q f)" and "i \<in> set (local_ids Q f name)"
  shows "known_definition Q (entity_of Q f 0 i)" and "dn_name (entity_of Q f 0 i) = name"
    and "\<not> is_import_kind (dn_kind (entity_of Q f 0 i))"
proof -
  obtain ds d where ds: "export (qd_semantic_index Q f) name = Some ds" "(i, d) \<in> set ds" "\<not> is_import_kind (df_kind d)"
    using assms export_total [OF ok] by (fastforce simp: local_ids_def)
  note names = export_names [OF ok ds(1,2)]
  with index_arena(3) [OF ok] show "known_definition Q (entity_of Q f 0 i)"
    by (simp add: known_entity_of in_definition_sites)
  show "dn_name (entity_of Q f 0 i) = name" using names by (simp add: entity_of_def)
  show "\<not> is_import_kind (dn_kind (entity_of Q f 0 i))" using names ds(3) by (simp add: entity_of_def)
qed


section \<open>Exports as a graph\<close>

lemma set_push_unseen: "set (push_unseen fs files) = set fs \<union> set files"
  unfolding push_unseen_def by (induction fs arbitrary: files) auto

lemma set_all_known_files: "set (all_known_files db) = live_files db"
proof -
  have "set (fold (\<lambda>root files. case root of
      LiveWorkspace r \<Rightarrow> push_root_files db (\<lambda>_. True) r files
    | LiveLibrary r \<Rightarrow> push_root_files db (\<lambda>_. True) r files
    | LiveOrphan \<Rightarrow> push_unseen (db_orphan_files db) files) roots files) =
    set files \<union> (\<Union>root\<in>set roots. case root of
      LiveWorkspace r \<Rightarrow> set (root_files db r) | LiveLibrary r \<Rightarrow> set (root_files db r)
    | LiveOrphan \<Rightarrow> set (db_orphan_files db))" for roots files
    by (induction roots arbitrary: files)
      (auto simp: push_root_files_def set_push_unseen root_files_def split: live_root.splits)
  from this [of "live_roots db" "[]"] show ?thesis by (auto simp: all_known_files_def live_roots_def live_files_def)
qed

inductive forwards :: "'a query_db_scheme \<Rightarrow> file_id \<times> string \<Rightarrow> file_id \<times> string \<Rightarrow> bool" for Q where
  forward: "map_of (qd_exports Q f) name = Some entries \<Longrightarrow> ImportEntry g m \<in> set entries \<Longrightarrow> forwards Q (f, name) (g, m)"

inductive_simps forwards_simp: "forwards Q (f, name) y"

text \<open>What a node of the graph contributes itself.\<close>

definition node_locals :: "'a query_db_scheme \<Rightarrow> file_id \<times> string \<Rightarrow> definition_entity set" where
  "node_locals Q x = (case map_of (qd_exports Q (fst x)) (snd x) of
     Some entries \<Rightarrow> if LocalEntry \<in> set entries then set (map (entity_of Q (fst x) 0) (local_ids Q (fst x) (snd x))) else {}
   | None \<Rightarrow> {})"

text \<open>The nodes that can be followed: exported names of live files.\<close>

definition expandable :: "'a query_db_scheme \<Rightarrow> (file_id \<times> string) set" where
  "expandable Q = (\<Union>f\<in>set (all_known_files (sd_db Q)). Pair f ` fst ` set (qd_exports Q f))"

lemma finite_expandable [simp]: "finite (expandable Q)"
  by (auto simp: expandable_def)

lemma card_expandable: "card (expandable Q) + 3 \<le> export_bound Q"
proof -
  have "card (\<Union>f\<in>set fs. Pair f ` fst ` set (qd_exports Q f)) \<le> sum_list (map (\<lambda>f. length (qd_exports Q f)) fs)" for fs
  proof (induction fs)
    case (Cons f fs)
    have "card (Pair f ` fst ` set (qd_exports Q f)) \<le> length (qd_exports Q f)"
      by (rule order_trans [OF card_image_le order_trans [OF card_image_le card_length]]) auto
    with Cons show ?case by (auto intro: order_trans [OF card_Un_le add_mono])
  qed simp
  then show ?thesis by (simp add: expandable_def export_bound_def)
qed

lemma export_entry_file: "export_entry_of Q d = Some (ImportEntry g m) \<Longrightarrow> g \<in> live_files (sd_db Q)"
  by (auto simp: export_entry_of_def file_by_url_def dest: file_by_path_Some split: definition_kind.splits)

lemma set_push_entry [simp]: "set (push_entry e es) = insert e (set es)"
  by (auto simp: push_entry_def)

lemma distinct_push_entry [simp]: "distinct (push_entry e es) \<longleftrightarrow> distinct es"
  by (auto simp: push_entry_def)

lemma set_export_entries: "set (export_entries Q defs) = {e. \<exists>(i, d)\<in>set defs. export_entry_of Q d = Some e}"
proof -
  have "set (fold (\<lambda>(_, d) es. case export_entry_of Q d of None \<Rightarrow> es | Some e \<Rightarrow> push_entry e es) defs es) =
      set es \<union> {e. \<exists>(i, d)\<in>set defs. export_entry_of Q d = Some e}" for es
    by (induction defs arbitrary: es) (auto split: option.splits)
  then show ?thesis by (simp add: export_entries_def)
qed

lemma distinct_export_entries: "distinct (export_entries Q defs)"
proof -
  have "distinct (fold (\<lambda>(_, d) es. case export_entry_of Q d of None \<Rightarrow> es | Some e \<Rightarrow> push_entry e es) defs es)"
    if "distinct es" for es using that by (induction defs arbitrary: es) (auto split: option.splits)
  then show ?thesis by (simp add: export_entries_def)
qed

lemma stored_exports:
  assumes "stored_ok Q" and "map_of (qd_exports Q f) name = Some entries"
  obtains defs where "entries = export_entries Q defs" and "export (qd_semantic_index Q f) name = Some defs" and "defs \<noteq> []"
proof -
  from stored_okD(2) [OF assms(1), of f] assms(2) have q: "exports_query Q f = Some (qd_exports Q f)" by auto
  from exports_total [OF stored_okD(1) [OF assms(1), of f]] obtain m where m: "exports (qd_semantic_index Q f) = Some m"
    "map_of m name = (case export (qd_semantic_index Q f) name of Some (d # ds) \<Rightarrow> Some (d # ds) | _ \<Rightarrow> None)" by blast
  from q m(1) have "qd_exports Q f = map (\<lambda>(name, defs). (name, export_entries Q defs)) m" by (simp add: exports_query_def)
  with assms(2) have "map_option (export_entries Q) (map_of m name) = Some entries" by (simp add: map_of_map)
  with m(2) that show thesis by (auto split: option.splits list.splits)
qed

lemma stored_entries:
  assumes "stored_ok Q" and "map_of (qd_exports Q f) name = Some entries"
  shows "distinct entries" and "ImportEntry g m \<in> set entries \<Longrightarrow> g \<in> live_files (sd_db Q)"
proof -
  obtain defs where defs: "entries = export_entries Q defs" by (rule stored_exports [OF assms])
  then show "distinct entries" by (simp add: distinct_export_entries)
  show "g \<in> live_files (sd_db Q)" if "ImportEntry g m \<in> set entries"
    using that export_entry_file unfolding defs set_export_entries by blast
qed

lemma forwards_live:
  assumes "stored_ok Q" and "forwards Q x (g, m)"
  shows "(g, m) \<in> expandable Q \<or> map_of (qd_exports Q g) m = None"
proof -
  from assms have "g \<in> live_files (sd_db Q)" by (auto elim!: forwards.cases dest: stored_entries(2))
  then show ?thesis
    by (cases "map_of (qd_exports Q g) m") (force simp: expandable_def set_all_known_files dest: map_of_SomeD)+
qed

lemma distinct_local_ids: "index_ok (qd_semantic_index Q f) \<Longrightarrow> distinct (local_ids Q f name)"
  by (auto simp: local_ids_def export_total final_defs_def bd_for_def bd_wf_def distinct_map inj_on_def filter_map comp_def strict_sorted_iff
      intro!: distinct_filter dest!: index_okD(9) split: option.splits)

lemma node_locals_key: "stored_ok Q \<Longrightarrow> d \<in> node_locals Q x \<Longrightarrow> (dn_file d, dn_name d) = x"
  using local_export_known(2) [OF stored_okD(1)]
  by (force simp: node_locals_def entity_of_def split: option.splits if_splits)

section \<open>The traversal visits what can be reached\<close>

text \<open>
  What following a list of nodes adds to the visited nodes and the results: nodes reached from \<open>x\<close>,
  with all they forward to, and besides \<open>own\<close> the contribution of each new node, once.
\<close>

type_synonym export_search = "(file_id \<times> string) list \<times> definition_entity list"

definition explores :: "'a query_db_scheme \<Rightarrow> file_id \<times> string \<Rightarrow> definition_entity set \<Rightarrow> export_search \<Rightarrow> export_search \<Rightarrow> bool" where
  "explores Q x own s t \<longleftrightarrow>
     set (fst s) \<subseteq> set (fst t) \<and>
     (\<forall>y\<in>set (fst t) - set (fst s). (forwards Q)\<^sup>*\<^sup>* x y \<and> (\<forall>z. forwards Q y z \<longrightarrow> z \<in> set (fst t))) \<and>
     (\<exists>ds. snd t = snd s @ ds \<and> set ds = own \<union> (\<Union>y\<in>set (fst t) - set (fst s). node_locals Q y) \<and> distinct ds)"

lemma exploresD:
  assumes "explores Q x own s t"
  shows "set (fst s) \<subseteq> set (fst t)"
    and "y \<in> set (fst t) \<Longrightarrow> y \<notin> set (fst s) \<Longrightarrow> (forwards Q)\<^sup>*\<^sup>* x y"
    and "y \<in> set (fst t) \<Longrightarrow> y \<notin> set (fst s) \<Longrightarrow> forwards Q y z \<Longrightarrow> z \<in> set (fst t)"
    and "\<exists>ds. snd t = snd s @ ds \<and> set ds = own \<union> (\<Union>y\<in>set (fst t) - set (fst s). node_locals Q y) \<and> distinct ds"
  using assms unfolding explores_def by blast+

lemma explores_refl: "explores Q x {} s s"
  by (simp add: explores_def)

abbreviation own_locals :: "'a query_db_scheme \<Rightarrow> file_id \<times> string \<Rightarrow> definition_entity list" where
  "own_locals Q x \<equiv> map (entity_of Q (fst x) 0) (local_ids Q (fst x) (snd x))"

lemma own_locals_key: "stored_ok Q \<Longrightarrow> d \<in> set (own_locals Q x) \<Longrightarrow> (dn_file d, dn_name d) = x"
  using local_export_known(2) [OF stored_okD(1)] by (cases x) (force simp: entity_of_def)

lemma distinct_own_locals: "stored_ok Q \<Longrightarrow> distinct (own_locals Q x)"
  using distinct_local_ids [OF stored_okD(1)] by (auto simp: distinct_map inj_on_def entity_of_def)

text \<open>Two searches in a row; what the second finds itself must not be a new find of the first.\<close>

lemma explores_trans:
  assumes ok: "stored_ok Q" and step: "(forwards Q)\<^sup>*\<^sup>* x y"
    and a: "explores Q y A s t" and b: "explores Q x B t u"
    and apart: "\<forall>d\<in>A. (dn_file d, dn_name d) \<notin> set (fst u) - set (fst t)" "\<forall>d\<in>B. (dn_file d, dn_name d) \<notin> set (fst t) - set (fst s)"
      "A \<inter> B = {}"
  shows "explores Q x (A \<union> B) s u"
proof -
  let ?a = "set (fst t) - set (fst s)" and ?b = "set (fst u) - set (fst t)"
  note sub = exploresD(1) [OF a] exploresD(1) [OF b]
  have new: "set (fst u) - set (fst s) = ?a \<union> ?b" using sub by blast
  from exploresD(4) [OF a] obtain ds where ds: "snd t = snd s @ ds" "set ds = A \<union> (\<Union>y\<in>?a. node_locals Q y)" "distinct ds" by blast
  from exploresD(4) [OF b] obtain es where es: "snd u = snd t @ es" "set es = B \<union> (\<Union>y\<in>?b. node_locals Q y)" "distinct es" by blast
  have key: "(dn_file d, dn_name d) \<in> X" if "d \<in> (\<Union>y\<in>X. node_locals Q y)" for d X using that node_locals_key [OF ok] by blast
  have "d \<notin> set es" if "d \<in> set ds" for d
    using that key [of d ?a] key [of d ?b] apart unfolding ds(2) es(2) by blast
  then have "snd u = snd s @ (ds @ es) \<and> set (ds @ es) = (A \<union> B) \<union> (\<Union>y\<in>?a \<union> ?b. node_locals Q y) \<and> distinct (ds @ es)"
    using ds es by (auto simp: Un_ac)
  moreover have "(forwards Q)\<^sup>*\<^sup>* x z \<and> (\<forall>w. forwards Q z w \<longrightarrow> w \<in> set (fst u))" if "z \<in> ?a \<union> ?b" for z
  proof (cases "z \<in> ?a")
    case True
    then show ?thesis using exploresD(2,3) [OF a, of z] rtranclp_trans [OF step] sub by blast
  next
    case False
    with that show ?thesis using exploresD(2,3) [OF b, of z] by blast
  qed
  ultimately show ?thesis using sub unfolding explores_def new by blast
qed

text \<open>The loop over the entries of a node that is marked as visited, given what the recursive calls do.\<close>

lemma entries_loop:
  assumes ok: "stored_ok Q" and Some: "map_of (qd_exports Q f) name = Some entries"
    and rec: "\<And>g m t. forwards Q (f, name) (g, m) \<Longrightarrow> V \<subseteq> set (fst t) \<Longrightarrow>
      \<exists>u. collect_exports_upto n Q g m t = Some u \<and> explores Q (g, m) {} t u \<and> (g, m) \<in> set (fst u)"
  shows "set es \<subseteq> set entries \<Longrightarrow> distinct es \<Longrightarrow> insert (f, name) V \<subseteq> set (fst t) \<Longrightarrow>
    \<exists>u. foldM (\<lambda>entry (visited, results). case entry of
        LocalEntry \<Rightarrow> do { defs \<leftarrow> local_exports Q f name; Some (visited, results @ defs) }
      | ImportEntry target forwarded \<Rightarrow> collect_exports_upto n Q target forwarded (visited, results)) es t = Some u \<and>
      explores Q (f, name) (if LocalEntry \<in> set es then set (own_locals Q (f, name)) else {}) t u \<and>
      (\<forall>g m. ImportEntry g m \<in> set es \<longrightarrow> (g, m) \<in> set (fst u))" (is "_ \<Longrightarrow> _ \<Longrightarrow> _ \<Longrightarrow> \<exists>u. foldM ?step es t = Some u \<and> _")
proof (induction es arbitrary: t)
  case Nil
  then show ?case by (simp add: explores_refl)
next
  case (Cons e es)
  let ?own = "\<lambda>es. if LocalEntry \<in> set es then set (own_locals Q (f, name)) else {}"
  have key: "(dn_file d, dn_name d) = (f, name)" if "d \<in> ?own es" for d es
    using that own_locals_key [OF ok, of d "(f, name)"] by (simp split: if_splits)
  show ?case
  proof (cases e)
    case LocalEntry
    let ?t = "(fst t, snd t @ own_locals Q (f, name))"
    have "set es \<subseteq> set entries" "distinct es" "insert (f, name) V \<subseteq> set (fst ?t)" using Cons.prems by simp_all
    from Cons.IH [OF this] obtain u where u: "foldM ?step es ?t = Some u" "explores Q (f, name) (?own es) ?t u"
      "\<forall>g m. ImportEntry g m \<in> set es \<longrightarrow> (g, m) \<in> set (fst u)" by blast
    have "explores Q (f, name) (set (own_locals Q (f, name))) t ?t"
      using distinct_own_locals [OF ok, of "(f, name)"] unfolding explores_def by (intro conjI exI) simp_all
    moreover have "(dn_file d, dn_name d) \<notin> set (fst u) - set (fst ?t)" if "d \<in> set (own_locals Q (f, name))" for d
      unfolding own_locals_key [OF ok that] using Cons.prems(3) by simp
    ultimately have "explores Q (f, name) (set (own_locals Q (f, name)) \<union> ?own es) t u"
      using Cons.prems LocalEntry u(2) by (intro explores_trans [OF ok rtranclp.rtrancl_refl _ u(2)]) auto
    moreover have "foldM ?step (e # es) t = Some u"
      using u(1) LocalEntry by (cases t) (simp add: local_exports_total [OF stored_okD(1) [OF ok]])
    ultimately show ?thesis using u(3) LocalEntry Cons.prems(2) by auto
  next
    case (ImportEntry g m)
    have edge: "forwards Q (f, name) (g, m)" using Some Cons.prems(1) ImportEntry by (auto intro: forward)
    from rec [OF edge] Cons.prems(3) obtain t' where t':
      "collect_exports_upto n Q g m t = Some t'" "explores Q (g, m) {} t t'" "(g, m) \<in> set (fst t')" by blast
    have sub: "insert (f, name) V \<subseteq> set (fst t')" using Cons.prems(3) exploresD(1) [OF t'(2)] by blast
    with Cons.prems obtain u where u: "foldM ?step es t' = Some u" "explores Q (f, name) (?own es) t' u"
      "\<forall>g m. ImportEntry g m \<in> set es \<longrightarrow> (g, m) \<in> set (fst u)" using Cons.IH [of t'] by auto
    have apart: "(dn_file d, dn_name d) \<notin> set (fst t') - set (fst t)" if "d \<in> ?own es" for d
      unfolding key [OF that] using Cons.prems(3) by simp
    have "explores Q (f, name) ({} \<union> ?own es) t u"
      by (rule explores_trans [OF ok r_into_rtranclp [of "forwards Q", OF edge] t'(2) u(2)]) (use apart in blast)+
    moreover have "foldM ?step (e # es) t = Some u" using u(1) t'(1) ImportEntry by (cases t) simp
    moreover have "(g, m) \<in> set (fst u)" using t'(3) exploresD(1) [OF u(2)] by blast
    ultimately show ?thesis using u(3) ImportEntry by auto
  qed
qed

lemma explores_node:
  assumes "explores Q x (node_locals Q x) (x # fst s, snd s) u" and "x \<notin> set (fst s)" and "\<And>y. forwards Q x y \<Longrightarrow> y \<in> set (fst u)"
  shows "explores Q x {} s u" and "x \<in> set (fst u)"
proof -
  show x: "x \<in> set (fst u)" using exploresD(1) [OF assms(1)] by auto
  have new: "set (fst u) - set (fst s) = insert x (set (fst u) - set (x # fst s))" using x assms(2) by auto
  from exploresD(4) [OF assms(1)] have "\<exists>ds. snd u = snd s @ ds \<and>
      set ds = {} \<union> (\<Union>y\<in>insert x (set (fst u) - set (x # fst s)). node_locals Q y) \<and> distinct ds" by auto
  moreover have "(forwards Q)\<^sup>*\<^sup>* x y \<and> (\<forall>z. forwards Q y z \<longrightarrow> z \<in> set (fst u))"
    if "y \<in> insert x (set (fst u) - set (x # fst s))" for y
    using that exploresD(2,3) [OF assms(1), of y] assms(3) by (cases "y = x") auto
  moreover have "set (fst s) \<subseteq> set (fst u)" using exploresD(1) [OF assms(1)] by auto
  ultimately show "explores Q x {} s u" unfolding explores_def new by blast
qed

lemma collect_exports_explores:
  assumes ok: "stored_ok Q"
  shows "(f, name) \<in> expandable Q \<or> map_of (qd_exports Q f) name = None \<Longrightarrow> card (expandable Q - set (fst s)) < n \<Longrightarrow>
    \<exists>t. collect_exports_upto n Q f name s = Some t \<and> explores Q (f, name) {} s t \<and> (f, name) \<in> set (fst t)"
proof (induction n arbitrary: f name s)
  case (Suc n)
  let ?x = "(f, name)" and ?s = "((f, name) # fst s, snd s)"
  show ?case
  proof (cases "?x \<in> set (fst s)")
    case True
    then show ?thesis by (intro exI [of _ s]) (cases s, simp add: explores_refl)
  next
    case new: False
    show ?thesis
    proof (cases "map_of (qd_exports Q f) name")
      case None
      then have "explores Q ?x {} s ?s"
        by (intro explores_node(1)) (use new in \<open>simp_all add: explores_refl node_locals_def forwards_simp\<close>)
      moreover have "collect_exports_upto (Suc n) Q f name s = Some ?s" using None new by (cases s) simp
      ultimately show ?thesis by auto
    next
      case (Some entries)
      with Suc.prems(1) have "?x \<in> expandable Q" by simp
      then have "card (expandable Q - insert ?x (set (fst s))) < card (expandable Q - set (fst s))"
        using new by (intro psubset_card_mono) auto
      with Suc.prems(2) have card: "card (expandable Q - insert ?x (set (fst s))) < n" by linarith
      have "\<exists>u. collect_exports_upto n Q g m t = Some u \<and> explores Q (g, m) {} t u \<and> (g, m) \<in> set (fst u)"
        if "forwards Q ?x (g, m)" "insert ?x (set (fst s)) \<subseteq> set (fst t)" for g m t
      proof (rule Suc.IH [OF forwards_live [OF ok that(1)]])
        show "card (expandable Q - set (fst t)) < n"
          using card card_mono [of "expandable Q - insert ?x (set (fst s))" "expandable Q - set (fst t)"] that(2) by force
      qed
      from entries_loop [where V = "insert ?x (set (fst s))", OF ok Some this order_refl stored_entries(1) [OF ok Some], of ?s] obtain u where u:
        "foldM (\<lambda>entry (visited, results). case entry of
            LocalEntry \<Rightarrow> do { defs \<leftarrow> local_exports Q f name; Some (visited, results @ defs) }
          | ImportEntry target forwarded \<Rightarrow> collect_exports_upto n Q target forwarded (visited, results)) entries ?s = Some u"
        "explores Q ?x (if LocalEntry \<in> set entries then set (own_locals Q ?x) else {}) ?s u"
        "\<forall>g m. ImportEntry g m \<in> set entries \<longrightarrow> (g, m) \<in> set (fst u)" by auto
      have "collect_exports_upto (Suc n) Q f name s = Some u" using u(1) Some new by (cases s) simp
      moreover have "explores Q ?x (node_locals Q ?x) ?s u" using u(2) Some by (simp add: node_locals_def)
      moreover have "y \<in> set (fst u)" if "forwards Q ?x y" for y using that u(3) Some by (cases y) (auto simp: forwards_simp)
      ultimately show ?thesis using explores_node [of Q ?x s u] new by blast
    qed
  qed
qed simp


section \<open>The exports of a name\<close>

text \<open>The start may be a file that no root lists any more: one step leads from it to live files.\<close>

lemma collect_exports_total:
  assumes ok: "stored_ok Q"
  obtains t where "collect_exports_upto (export_bound Q) Q f name ([], []) = Some t"
    and "explores Q (f, name) {} ([], []) t" and "(f, name) \<in> set (fst t)"
proof -
  obtain n where n: "export_bound Q = Suc n" by (cases "export_bound Q") (auto simp: export_bound_def)
  show thesis
  proof (cases "(f, name) \<in> expandable Q \<or> map_of (qd_exports Q f) name = None")
    case True
    have "card (expandable Q - set (fst ([], []))) < export_bound Q" using card_expandable [of Q] by simp
    from collect_exports_explores [OF ok True this] that show ?thesis by blast
  next
    case False
    then obtain entries where Some: "map_of (qd_exports Q f) name = Some entries" by blast
    have rec: "\<exists>u. collect_exports_upto n Q g m t = Some u \<and> explores Q (g, m) {} t u \<and> (g, m) \<in> set (fst u)"
      if "forwards Q (f, name) (g, m)" "{} \<subseteq> set (fst t)" for g m t
      using collect_exports_explores [OF ok forwards_live [OF ok that(1)], of t n] card_expandable [of Q] n
        card_mono [of "expandable Q" "expandable Q - set (fst t)"] by fastforce
    from entries_loop [where V = "{}", OF ok Some rec order_refl stored_entries(1) [OF ok Some], of "([(f, name)], [])"] obtain u where u:
      "foldM (\<lambda>entry (visited, results). case entry of
          LocalEntry \<Rightarrow> do { defs \<leftarrow> local_exports Q f name; Some (visited, results @ defs) }
        | ImportEntry target forwarded \<Rightarrow> collect_exports_upto n Q target forwarded (visited, results)) entries ([(f, name)], []) = Some u"
      "explores Q (f, name) (if LocalEntry \<in> set entries then set (own_locals Q (f, name)) else {}) ([(f, name)], []) u"
      "\<forall>g m. ImportEntry g m \<in> set entries \<longrightarrow> (g, m) \<in> set (fst u)" by auto
    have "explores Q (f, name) (node_locals Q (f, name)) ((f, name) # fst ([], []), snd ([], [])) u"
      using u(2) Some by (simp add: node_locals_def)
    moreover have "y \<in> set (fst u)" if "forwards Q (f, name) y" for y using that u(3) Some by (cases y) (auto simp: forwards_simp)
    moreover have "collect_exports_upto (export_bound Q) Q f name ([], []) = Some u" using u(1) Some n by simp
    ultimately show ?thesis using explores_node [of Q "(f, name)" "([], [])" u] that by simp
  qed
qed

text \<open>\<open>resolve_export\<close>: exactly the local definitions that forwards lead to, each once.\<close>

lemma resolve_export_reaches:
  assumes ok: "stored_ok Q"
  obtains ds where "resolve_export Q f name = Some ds" and "distinct ds"
    and "set ds = (\<Union>x\<in>{x. (forwards Q)\<^sup>*\<^sup>* (f, name) x}. node_locals Q x)"
proof -
  obtain t where t: "collect_exports_upto (export_bound Q) Q f name ([], []) = Some t"
    "explores Q (f, name) {} ([], []) t" "(f, name) \<in> set (fst t)" by (rule collect_exports_total [OF ok])
  have "x \<in> set (fst t)" if "(forwards Q)\<^sup>*\<^sup>* (f, name) x" for x
    using that by induction (use t(3) exploresD(3) [OF t(2)] in auto)
  then have "set (fst t) = {x. (forwards Q)\<^sup>*\<^sup>* (f, name) x}" using exploresD(2) [OF t(2)] by auto
  with exploresD(4) [OF t(2)] t(1) that show thesis by (auto simp: resolve_export_def)
qed

end
