(* ===== verification/Layer_Lookup.thy ===== *)
theory Layer_Lookup
  imports Name_Total
begin

text \<open>
  The bindings of packages, and the walk through the layers of a lookup: which layers contribute, and
  where the walk stops.
\<close>

section \<open>Bindings of a package\<close>

lemma concatM_total: "(\<And>x. x \<in> set xs \<Longrightarrow> f x = Some (g x)) \<Longrightarrow> concatM (map f xs) = Some (concat (map g xs))"
  by (simp add: concatM_def those_map_Some)

lemma resolve_export_total: "stored_ok Q \<Longrightarrow> resolve_export Q f name = Some (the_list (resolve_export Q f name))"
  using resolve_export_reaches [of Q f name] by (metis option.sel option.case(2))

definition own_bindings :: "'a query_db_scheme \<Rightarrow> string \<Rightarrow> package_id \<Rightarrow> definition_entity list" where
  "own_bindings Q name p = concat (map (\<lambda>f. the_list (resolve_export Q f name)) (pk_files (sd_package Q p)))"

definition binding_visible :: "'a source_db_scheme \<Rightarrow> string \<Rightarrow> package_id \<times> namespace_visibility \<Rightarrow> bool" where
  "binding_visible S name pv \<longleftrightarrow> snd pv = InternalVisibility \<or> pk_name (sd_package S (fst pv)) = lit ''base'' \<or>
     package_exports_name S (fst pv) name"

text \<open>A package that shows a name without binding it passes the question on to where it imports the name from.\<close>

inductive passes :: "'a query_db_scheme \<Rightarrow> string \<Rightarrow> package_id \<times> namespace_visibility \<Rightarrow> package_id \<times> namespace_visibility \<Rightarrow> bool"
  for Q name where
  "binding_visible Q name pv \<Longrightarrow> own_bindings Q name (fst pv) = [] \<Longrightarrow>
   imported_from (sd_namespace Q (fst pv)) name = Some src \<Longrightarrow> package_named Q src = Some q \<Longrightarrow> passes Q name pv (q, Exported)"

inductive_simps passes_simp: "passes Q name pv qv"

text \<open>The package in which the question ends.\<close>

inductive provides :: "'a query_db_scheme \<Rightarrow> string \<Rightarrow> package_id \<times> namespace_visibility \<Rightarrow> package_id \<Rightarrow> bool" for Q name where
  provides_own: "binding_visible Q name pv \<Longrightarrow> own_bindings Q name (fst pv) \<noteq> [] \<Longrightarrow> provides Q name pv (fst pv)"
| provides_passed: "passes Q name pv qv \<Longrightarrow> provides Q name qv r \<Longrightarrow> provides Q name pv r"

inductive_cases providesE: "provides Q name pv r"

lemma passes_unique: "passes Q name x y \<Longrightarrow> passes Q name x z \<Longrightarrow> y = z"
  by (auto simp: passes_simp)

lemma provides_no_cycle: "provides Q name x r \<Longrightarrow> \<not> (passes Q name)\<^sup>+\<^sup>+ x x"
proof (induction rule: provides.induct)
  case (provides_own pv)
  then show ?case by (auto simp: passes_simp dest: tranclpD)
next
  case (provides_passed pv qv r)
  show ?case
  proof
    assume "(passes Q name)\<^sup>+\<^sup>+ pv pv"
    then obtain y where y: "passes Q name pv y" "(passes Q name)\<^sup>*\<^sup>* y pv" by (blast dest: tranclpD)
    with provides_passed.hyps(1) have "(passes Q name)\<^sup>*\<^sup>* qv pv" using passes_unique by fastforce
    from rtranclp_into_tranclp1 [OF this provides_passed.hyps(1)] provides_passed.IH show False by blast
  qed
qed

definition live_package_list :: "'a source_db_scheme \<Rightarrow> package_id list" where
  "live_package_list S = concat (map (\<lambda>r. rt_packages (db_root (sd_db S) r))
     (db_workspace_roots (sd_db S) @ db_library_roots (sd_db S)))"

lemma package_named_live: "package_named S name = Some p \<Longrightarrow> p \<in> set (live_package_list S)"
  by (fastforce simp: package_named_def package_by_name_def root_package_index_def live_package_list_def live_roots_def
      dest!: first_some_Some dest: index_by_Some split: option.splits)

abbreviation askable :: "'a source_db_scheme \<Rightarrow> (package_id \<times> namespace_visibility) set" where
  "askable S \<equiv> set (live_package_list S) \<times> {Exported}"

lemma card_askable: "card (askable S) + 3 \<le> package_bound S"
  using card_length [of "live_package_list S"] by (simp add: package_bound_def live_package_list_def card_cartesian_product)

text \<open>The answer of a package: the bindings of whoever provides the name.\<close>

lemma package_resolve_upto_provides:
  assumes ok: "stored_ok Q"
  shows "(\<And>a. a \<in> set active \<Longrightarrow> (passes Q name)\<^sup>+\<^sup>+ a (p, vis)) \<Longrightarrow>
    card (askable Q - set active) + (if (p, vis) \<in> askable Q then 0 else 1) < n \<Longrightarrow>
    \<exists>ds. package_resolve_upto n Q active p name vis = Some ds \<and>
      set ds = (\<Union>q\<in>{q. provides Q name (p, vis) q}. set (own_bindings Q name q))"
proof (induction n arbitrary: active p vis)
  case (Suc n)
  have own: "concatM (map (\<lambda>f. resolve_export Q f name) (pk_files (sd_package Q p))) = Some (own_bindings Q name p)"
    unfolding own_bindings_def by (rule concatM_total) (rule resolve_export_total [OF ok])
  consider (active) "(p, vis) \<in> set active" | (hidden) "\<not> binding_visible Q name (p, vis)"
    | (own) "(p, vis) \<notin> set active" "binding_visible Q name (p, vis)" "own_bindings Q name p \<noteq> []"
    | (stuck) "(p, vis) \<notin> set active" "binding_visible Q name (p, vis)" "own_bindings Q name p = []" "\<not> (\<exists>y. passes Q name (p, vis) y)"
    | (passed) q where "(p, vis) \<notin> set active" "binding_visible Q name (p, vis)" "own_bindings Q name p = []" "passes Q name (p, vis) (q, Exported)"
    by (auto simp: passes_simp)
  then show ?case
  proof cases
    case active
    then have "\<not> provides Q name (p, vis) q" for q using Suc.prems(1) provides_no_cycle by blast
    with active show ?thesis by simp
  next
    case hidden
    then have "\<not> provides Q name (p, vis) q" for q by (auto simp: passes_simp elim: providesE)
    with hidden show ?thesis by (cases vis) (auto simp: binding_visible_def)
  next
    case own': own
    then have "provides Q name (p, vis) q \<longleftrightarrow> q = p" for q
      using provides_own [of Q name "(p, vis)"] by (auto simp: passes_simp elim: providesE)
    with own' show ?thesis by (cases vis) (auto simp: binding_visible_def own)
  next
    case stuck
    then have "\<not> provides Q name (p, vis) q" for q by (auto elim: providesE)
    with stuck show ?thesis by (cases vis) (auto simp: binding_visible_def own passes_simp split: option.splits)
  next
    case (passed q)
    from passed(4) obtain src where src: "imported_from (sd_namespace Q p) name = Some src" "package_named Q src = Some q"
      by (auto simp: passes_simp)
    have q: "(q, Exported) \<in> askable Q" using package_named_live [OF src(2)] by simp
    have "card (askable Q - set ((p, vis) # active)) < n"
    proof (cases "(p, vis) \<in> askable Q")
      case True
      then have "card (askable Q - set ((p, vis) # active)) < card (askable Q - set active)"
        using passed(1) by (intro psubset_card_mono) auto
      with Suc.prems(2) True show ?thesis by simp
    next
      case False
      moreover have "card (askable Q - set ((p, vis) # active)) \<le> card (askable Q - set active)" by (intro card_mono) auto
      ultimately show ?thesis using Suc.prems(2) by (auto split: if_splits)
    qed
    moreover have "(passes Q name)\<^sup>+\<^sup>+ a (q, Exported)" if "a \<in> set ((p, vis) # active)" for a
      using that Suc.prems(1) [of a] passed(4) by (auto intro: tranclp.trancl_into_trancl)
    ultimately obtain ds where ds: "package_resolve_upto n Q ((p, vis) # active) q name Exported = Some ds"
      "set ds = (\<Union>r\<in>{r. provides Q name (q, Exported) r}. set (own_bindings Q name r))"
      using Suc.IH [of "(p, vis) # active" q Exported] q by (smt (verit) add_0_right)
    have "provides Q name (q, Exported) r" if "provides Q name (p, vis) r" for r
      using that
    proof cases
      case provides_own
      with passed(3) show ?thesis by simp
    next
      case (provides_passed qv)
      with passes_unique [OF passed(4)] show ?thesis by simp
    qed
    with provides_passed [OF passed(4)] have "provides Q name (p, vis) = provides Q name (q, Exported)" by blast
    with ds passed src show ?thesis by (cases vis) (auto simp: binding_visible_def own)
  qed
qed simp

lemma package_resolve_provides:
  assumes "stored_ok Q"
  obtains ds where "package_resolve Q p name vis = Some ds"
    and "set ds = (\<Union>q\<in>{q. provides Q name (p, vis) q}. set (own_bindings Q name q))"
proof -
  have "card (askable Q - set []) + (if (p, vis) \<in> askable Q then 0 else 1) < package_bound Q"
    using card_askable [of Q] by (simp split: if_splits)
  from package_resolve_upto_provides [OF assms _ this, of name] that show thesis by (auto simp: package_resolve_def)
qed

lemma provides_unique: "provides Q name x q \<Longrightarrow> provides Q name x r \<Longrightarrow> q = r"
proof (induction arbitrary: r rule: provides.induct)
  case (provides_own pv)
  then show ?case by (auto simp: passes_simp elim: providesE)
next
  case (provides_passed pv qv q)
  then show ?case by (metis passes.cases passes_unique provides.cases)
qed


section \<open>Walking layers\<close>

text \<open>The elements up to and including the first one with a property.\<close>

fun through_first :: "('l \<Rightarrow> bool) \<Rightarrow> 'l list \<Rightarrow> 'l list" where
  "through_first P [] = []"
| "through_first P (x # xs) = (if P x then [x] else x # through_first P xs)"

lemma through_first_none: "\<forall>x\<in>set xs. \<not> P x \<Longrightarrow> through_first P xs = xs"
  by (induction xs) auto

lemma through_first_split: "\<forall>x\<in>set xs. \<not> P x \<Longrightarrow> P y \<Longrightarrow> through_first P (xs @ y # ys) = xs @ [y]"
  by (induction xs) auto

lemma set_through_first: "set (through_first P xs) \<subseteq> set xs"
  by (induction xs) auto

lemma set_extend [simp]: "set (extend_definitions ds cs) = set ds \<union> set cs"
  unfolding extend_definitions_def by (induction cs arbitrary: ds) auto

lemma distinct_extend [simp]: "distinct (extend_definitions ds cs) \<longleftrightarrow> distinct ds"
  unfolding extend_definitions_def by (induction cs arbitrary: ds) auto

lemma extend_Nil [simp]: "extend_definitions ds [] = ds"
  by (simp add: extend_definitions_def)

lemma prefix_extend: "prefix ds (extend_definitions ds cs)"
  unfolding extend_definitions_def
  by (induction cs arbitrary: ds) (auto simp: push_entry_def intro: append_prefixD)

text \<open>
  The contract of a walk: each layer has candidates, and the walk ends after a layer that binds for
  sure. Both walks of the resolver keep it.
\<close>

locale candidate_walk =
  fixes walk :: "'l list \<Rightarrow> 'd list \<Rightarrow> ('d list \<times> bool) option"
    and candidates :: "'l \<Rightarrow> 'd list option"
    and stops :: "'l \<Rightarrow> bool option"
  assumes walk_Nil: "walk [] ds = Some (ds, False)"
    and walk_Cons: "walk (l # ls) ds = do {
      cs \<leftarrow> candidates l;
      stop \<leftarrow> stops l;
      if stop then Some (extend_definitions ds cs, True) else walk ls (extend_definitions ds cs) }"
begin

lemma walk_result:
  assumes "\<And>l. l \<in> set ls \<Longrightarrow> candidates l = Some (c l)" and "\<And>l. l \<in> set ls \<Longrightarrow> stops l = Some (b l)"
  shows "walk ls ds = Some (foldl extend_definitions ds (map c (through_first b ls)), \<exists>l\<in>set ls. b l)"
  using assms by (induction ls arbitrary: ds) (auto simp: walk_Nil walk_Cons)

lemma walk_finds:
  assumes "\<And>l. l \<in> set ls \<Longrightarrow> candidates l = Some (c l)" and "\<And>l. l \<in> set ls \<Longrightarrow> stops l = Some (b l)"
  obtains es where "walk ls ds = Some (es, \<exists>l\<in>set ls. b l)" and "set es = set ds \<union> (\<Union>l\<in>set (through_first b ls). set (c l))"
    and "distinct ds \<longrightarrow> distinct es" and "prefix ds es"
proof -
  let ?es = "foldl extend_definitions ds (map c (through_first b ls))"
  have "set (foldl extend_definitions ds css) = set ds \<union> (\<Union>cs\<in>set css. set cs)" for css
    by (induction css arbitrary: ds) auto
  moreover have "distinct (foldl extend_definitions ds css)" if "distinct ds" for css
    using that by (induction css arbitrary: ds) auto
  moreover have "prefix ds (foldl extend_definitions ds css)" for css
    by (induction css arbitrary: ds) (auto intro: prefix_order.trans [OF prefix_extend])
  ultimately show thesis using that [of ?es] walk_result [OF assms, of ls ds] by auto
qed

end

definition layer_stops :: "'a query_db_scheme \<Rightarrow> string \<Rightarrow> import_layer \<Rightarrow> bool option" where
  "layer_stops Q name layer = do {
     defs \<leftarrow> resolve_import_layer Q layer name;
     if defs = [] then Some False else layer_is_bound Q layer name }"

interpretation import_walk: candidate_walk "resolve_import_layers Q name" "\<lambda>layer. resolve_import_layer Q layer name" "layer_stops Q name"
  for Q :: "'a query_db_scheme" and name
  by unfold_locales (auto simp: layer_stops_def split: bind_split)

definition member_candidates :: "'a query_db_scheme \<Rightarrow> file_id \<Rightarrow> string \<Rightarrow> definition_entity list \<Rightarrow> file_id \<Rightarrow> definition_entity list option" where
  "member_candidates Q current name own m = (if m = current then Some own else resolve_export Q m name)"

definition member_stops :: "'a query_db_scheme \<Rightarrow> file_id \<Rightarrow> string \<Rightarrow> bool \<Rightarrow> file_id \<Rightarrow> bool option" where
  "member_stops Q current name own_bound m = (if m = current then Some own_bound else layer_stops Q name (LayerFile m))"

interpretation environment_walk: candidate_walk "walk_environments Q current name own own_bound"
    "member_candidates Q current name own" "member_stops Q current name own_bound"
  for Q :: "'a query_db_scheme" and current name own own_bound
  by unfold_locales
    (auto simp: member_candidates_def member_stops_def layer_stops_def resolve_import_layer_def split: bind_split)


section \<open>The layers answer\<close>

lemma file_export_is_bound_total:
  assumes "stored_ok Q"
  shows "file_export_is_bound Q f name = Some (the (file_export_is_bound Q f name))"
proof -
  note ok = stored_okD(1) [OF assms, of f]
  have "ix_symbol_tables (qd_semantic_index Q f) \<noteq> []" using index_arena(3) [OF ok] index_okD(2) [OF ok] by auto
  then show ?thesis by (simp add: file_export_is_bound_def export_is_bound_def final_of_def iv_get_def)
qed

definition sound_definitions :: "'a query_db_scheme \<Rightarrow> definition_entity list \<Rightarrow> bool" where
  "sound_definitions Q ds \<longleftrightarrow> (\<forall>d\<in>set ds. known_definition Q d \<and> \<not> is_import_kind (dn_kind d))"

lemma sound_simps [simp]:
  "sound_definitions Q []" "sound_definitions Q (ds @ es) \<longleftrightarrow> sound_definitions Q ds \<and> sound_definitions Q es"
  "sound_definitions Q (concat dss) \<longleftrightarrow> (\<forall>ds\<in>set dss. sound_definitions Q ds)"
  by (auto simp: sound_definitions_def)

lemma node_locals_sound:
  assumes ok: "stored_ok Q" and d: "d \<in> node_locals Q x"
  shows "known_definition Q d" and "\<not> is_import_kind (dn_kind d)"
proof -
  from d obtain i where "d = entity_of Q (fst x) 0 i" "i \<in> set (local_ids Q (fst x) (snd x))"
    by (auto simp: node_locals_def split: option.splits if_splits)
  with local_export_known(1,3) [OF stored_okD(1) [OF ok]] show "known_definition Q d" "\<not> is_import_kind (dn_kind d)" by blast+
qed

lemma resolve_export_sound:
  assumes "stored_ok Q"
  shows "sound_definitions Q (the_list (resolve_export Q f name))"
proof -
  obtain ds where "resolve_export Q f name = Some ds"
    "set ds = (\<Union>x\<in>{x. (forwards Q)\<^sup>*\<^sup>* (f, name) x}. node_locals Q x)" by (rule resolve_export_reaches [OF assms])
  with node_locals_sound [OF assms] show ?thesis by (auto simp: sound_definitions_def)
qed

lemma package_resolve_sound:
  assumes "stored_ok Q"
  shows "package_resolve Q p name vis = Some (the_list (package_resolve Q p name vis))"
    and "sound_definitions Q (the_list (package_resolve Q p name vis))"
proof -
  obtain ds where ds: "package_resolve Q p name vis = Some ds"
    "set ds = (\<Union>q\<in>{q. provides Q name (p, vis) q}. set (own_bindings Q name q))"
    by (rule package_resolve_provides [OF assms])
  from ds(1) show "package_resolve Q p name vis = Some (the_list (package_resolve Q p name vis))" by simp
  have "sound_definitions Q (own_bindings Q name q)" for q
    using resolve_export_sound [OF assms] by (auto simp: own_bindings_def)
  with ds show "sound_definitions Q (the_list (package_resolve Q p name vis))" by (auto simp: sound_definitions_def)
qed

definition layer_definitions :: "'a query_db_scheme \<Rightarrow> string \<Rightarrow> import_layer \<Rightarrow> definition_entity list" where
  "layer_definitions Q name layer = the_list (resolve_import_layer Q layer name)"

definition layer_shadows :: "'a query_db_scheme \<Rightarrow> string \<Rightarrow> import_layer \<Rightarrow> bool" where
  "layer_shadows Q name layer \<longleftrightarrow> layer_definitions Q name layer \<noteq> [] \<and>
     (case layer of LayerFile f \<Rightarrow> file_export_is_bound Q f name = Some True | _ \<Rightarrow> True)"

lemma resolve_import_layer_total:
  assumes "stored_ok Q"
  shows "resolve_import_layer Q layer name = Some (layer_definitions Q name layer)"
    and "sound_definitions Q (layer_definitions Q name layer)"
    and "layer_stops Q name layer = Some (layer_shadows Q name layer)"
proof -
  show total: "resolve_import_layer Q layer name = Some (layer_definitions Q name layer)" for layer
    using resolve_export_total [OF assms] package_resolve_sound(1) [OF assms]
    by (auto simp: layer_definitions_def resolve_import_layer_def split: import_layer.split option.split)
  show "sound_definitions Q (layer_definitions Q name layer)"
    using resolve_export_sound [OF assms] package_resolve_sound [OF assms]
    by (cases layer; simp add: layer_definitions_def resolve_import_layer_def split: option.split; metis option.case(2))
  show "layer_stops Q name layer = Some (layer_shadows Q name layer)"
    using file_export_is_bound_total [OF assms]
    by (auto simp: layer_stops_def total layer_shadows_def layer_is_bound_def split: import_layer.split)
      (metis (full_types) option.inject)
qed

text \<open>The two walks, in a database with proper results.\<close>

lemma resolve_import_layers_total:
  assumes ok: "stored_ok Q"
  obtains es where "resolve_import_layers Q name layers ds = Some (es, \<exists>l\<in>set layers. layer_shadows Q name l)"
    and "set es = set ds \<union> (\<Union>l\<in>set (through_first (layer_shadows Q name) layers). set (layer_definitions Q name l))"
    and "distinct ds \<longrightarrow> distinct es" and "prefix ds es"
  by (rule import_walk.walk_finds [where ds = ds and ls = layers and name = name, OF resolve_import_layer_total(1,3) [OF ok]]) (rule that)

definition member_definitions :: "'a query_db_scheme \<Rightarrow> file_id \<Rightarrow> string \<Rightarrow> definition_entity list \<Rightarrow> file_id \<Rightarrow> definition_entity list" where
  "member_definitions Q f name own m = (if m = f then own else layer_definitions Q name (LayerFile m))"

definition member_shadows :: "'a query_db_scheme \<Rightarrow> file_id \<Rightarrow> string \<Rightarrow> bool \<Rightarrow> file_id \<Rightarrow> bool" where
  "member_shadows Q f name own_bound m = (if m = f then own_bound else layer_shadows Q name (LayerFile m))"

definition environment_members :: "'a source_db_scheme \<Rightarrow> file_id \<Rightarrow> collation_view \<Rightarrow> file_id list" where
  "environment_members S f view = lookup_files (lc_environments (load_context_of S f view))"

lemma resolve_environments_total:
  fixes Q :: "'a query_db_scheme"
  assumes ok: "stored_ok Q"
  obtains es where "resolve_environments Q f view name own own_bound ds =
      Some (es, \<exists>m\<in>set (environment_members Q f view). member_shadows Q f name own_bound m)"
    and "set es = set ds \<union> (\<Union>m\<in>set (through_first (member_shadows Q f name own_bound) (environment_members Q f view)).
      set (member_definitions Q f name own m))"
    and "distinct ds \<longrightarrow> distinct es" and "prefix ds es"
proof -
  have c: "member_candidates Q f name own m = Some (member_definitions Q f name own m)" for m
    using resolve_import_layer_total(1) [OF ok, of "LayerFile m" name]
    by (simp add: member_candidates_def member_definitions_def resolve_import_layer_def)
  have b: "member_stops Q f name own_bound m = Some (member_shadows Q f name own_bound m)" for m
    using resolve_import_layer_total(3) [OF ok] by (simp add: member_stops_def member_shadows_def)
  have walk: "resolve_environments Q f view name own own_bound ds =
      walk_environments Q f name own own_bound (environment_members Q f view) ds"
    using stored_environments [OF ok, of f view] by (simp add: resolve_environments_def environment_members_def Let_def)
  show thesis
    by (rule environment_walk.walk_finds [where ds = ds and ls = "environment_members Q f view", OF c b])
      (rule that, unfold walk)
qed

end
