(* ===== verification/Resolution_Sound.thy ===== *)
theory Resolution_Sound
  imports Layer_Lookup
begin

text \<open>
  \<open>File::resolve\<close> and \<open>File::resolve_at\<close> as a whole: they return, they return bindings that exist, and
  the order of the layers decides which.
\<close>

section \<open>Visible attaches\<close>

definition scope_eager :: "semantic_index \<Rightarrow> nat \<Rightarrow> bool" where
  "scope_eager ix s \<longleftrightarrow> (\<forall>a\<in>set (chain (ix_scopes ix) s). \<not> kind_is_lazy (sc_kind (ix_scopes ix ! a)))"

text \<open>The body that runs a scope: its innermost lazy ancestor, or itself.\<close>

definition lazy_unit :: "semantic_index \<Rightarrow> nat \<Rightarrow> nat option" where
  "lazy_unit ix s = find (\<lambda>a. kind_is_lazy (sc_kind (ix_scopes ix ! a))) (chain (ix_scopes ix) s)"

fun attach_visible :: "attach_view \<Rightarrow> semantic_index \<Rightarrow> semantic_call \<Rightarrow> attach_region \<Rightarrow> bool" where
  "attach_visible AttachAnywhere ix call region \<longleftrightarrow> True"
| "attach_visible AttachEof ix call region \<longleftrightarrow> scope_eager ix (ca_scope call) \<and> region = Unconditional"
| "attach_visible (AttachLazy offset s) ix call region \<longleftrightarrow> (case lazy_unit ix (ca_scope call) of
     None \<Rightarrow> region = Unconditional \<or> region_contains region call offset
   | Some unit \<Rightarrow> unit \<in> set (chain (ix_scopes ix) s) \<and> region_contains region call offset)"
| "attach_visible (AttachEager offsets) ix call region \<longleftrightarrow>
     scope_eager ix (ca_scope call) \<and> (\<exists>offset\<in>set offsets. region_contains region call offset)"

fun view_in_range :: "semantic_index \<Rightarrow> attach_view \<Rightarrow> bool" where
  "view_in_range ix (AttachLazy _ s) \<longleftrightarrow> s < length (ix_scopes ix)"
| "view_in_range ix _ \<longleftrightarrow> True"

lemma attach_sees_visible:
  assumes ok: "index_ok ix" and "ca_scope call < length (ix_scopes ix)" and "view_in_range ix view"
  shows "attach_sees view ix call region = Some (attach_visible view ix call region)"
proof -
  have "enclosing_lazy_scope ix (ca_scope call) = Some (lazy_unit ix (ca_scope call))"
    using assms by (simp add: enclosing_lazy_scope_def ancestors_chain lazy_unit_def)
  then show ?thesis
    using assms scope_is_eager_total [OF ok assms(2)]
    by (cases view) (auto simp: attach_sees_def scope_eager_def ancestors_chain list_ex_iff split: option.split attach_region.split)
qed

lemma attach_layers_total:
  assumes ok: "index_ok (qd_semantic_index Q f)" and "view_in_range (qd_semantic_index Q f) view"
  shows "attach_layers Q f view = Some (concat (map (\<lambda>call. case ca_kind call of
      Attach package region \<Rightarrow>
        if attach_visible view (qd_semantic_index Q f) call region then opt_list (package_layer Q package) else []
    | Source _ _ \<Rightarrow> []) (rev (ix_semantic_calls (qd_semantic_index Q f)))))"
proof -
  let ?ix = "qd_semantic_index Q f"
  have "foldM (\<lambda>call acc. case ca_kind call of
      Attach package region \<Rightarrow> do {
        seen \<leftarrow> attach_sees view ?ix call region;
        Some (if seen then acc @ opt_list (package_layer Q package) else acc) }
    | Source _ _ \<Rightarrow> Some acc) calls acc = Some (acc @ concat (map (\<lambda>call. case ca_kind call of
        Attach package region \<Rightarrow> if attach_visible view ?ix call region then opt_list (package_layer Q package) else []
      | Source _ _ \<Rightarrow> []) calls))" if "set calls \<subseteq> set (ix_semantic_calls ?ix)" for calls acc
    using that assms(2) index_okD(10) [OF ok]
    by (induction calls arbitrary: acc) (auto simp: attach_sees_visible [OF ok] split: semantic_call_kind.split)
  then show ?thesis by (simp add: attach_layers_def Let_def)
qed

lemma import_view_at_total:
  assumes "index_ok ix"
  obtains view where "import_view_at ix offset = Some view" and "view_in_range ix (vw_attaches view)"
proof -
  obtain s where s: "scope_at ix offset = Some s" "s < length (ix_scopes ix)" by (rule scope_at_total [OF assms])
  with scope_is_eager_total [OF assms s(2)] that show thesis by (fastforce simp: import_view_at_def)
qed

lemma fallbacks_total:
  assumes ok: "stored_ok Q" and "view_in_range (qd_semantic_index Q f) (vw_attaches view)"
  obtains layers contexts where "loader_fallback_in Q f view = Some layers" and "imports_by_sourcing_file_in Q f view = Some contexts"
proof -
  obtain own where "attach_layers Q f (vw_attaches view) = Some own"
    using attach_layers_total [OF stored_okD(1) [OF ok] assms(2)] by blast
  then have "loader_fallback_in Q f view \<noteq> None" "imports_by_sourcing_file_in Q f view \<noteq> None"
    by (simp_all add: loader_fallback_in_def imports_by_sourcing_file_in_def Let_def)
  with that show thesis by auto
qed

section \<open>After the environments\<close>

text \<open>What both entry points do once the loader environments are searched.\<close>

definition finish_lookup :: "'a query_db_scheme \<Rightarrow> string \<Rightarrow> bool \<Rightarrow> import_layer list option \<Rightarrow> import_layer list list option \<Rightarrow>
    definition_entity list \<times> bool \<Rightarrow> definition_entity list option" where
  "finish_lookup Q name own_bound fallback contexts st =
     (if snd st \<and> own_bound then Some (fst st)
      else do {
        definitions \<leftarrow>
          (if snd st then Some (fst st)
           else do { layers \<leftarrow> fallback; map_option fst (resolve_import_layers Q name layers (fst st)) });
        if own_bound then Some definitions
        else do { contexts \<leftarrow> contexts; resolve_per_sourcing_file Q name contexts definitions } })"

lemma sourcing_contexts_total:
  assumes ok: "stored_ok Q"
  obtains es where "resolve_per_sourcing_file Q name contexts ds = Some es" and "sound_definitions Q ds \<longrightarrow> sound_definitions Q es"
    and "distinct ds \<longrightarrow> distinct es" and "prefix ds es"
proof -
  have "\<exists>es. resolve_per_sourcing_file Q name contexts ds = Some es \<and> (sound_definitions Q ds \<longrightarrow> sound_definitions Q es) \<and>
      (distinct ds \<longrightarrow> distinct es) \<and> prefix ds es"
  proof (induction contexts arbitrary: ds)
    case Nil
    then show ?case by (simp add: resolve_per_sourcing_file_def)
  next
    case (Cons ctx contexts)
    obtain ds' where ds': "resolve_import_layers Q name ctx ds = Some (ds', \<exists>l\<in>set ctx. layer_shadows Q name l)"
      "set ds' = set ds \<union> (\<Union>l\<in>set (through_first (layer_shadows Q name) ctx). set (layer_definitions Q name l))"
      "distinct ds \<longrightarrow> distinct ds'" "prefix ds ds'" by (rule resolve_import_layers_total [OF ok, of name ctx ds])
    have "sound_definitions Q ds'" if "sound_definitions Q ds"
      using that ds'(2) resolve_import_layer_total(2) [OF ok] by (auto simp: sound_definitions_def)
    with Cons.IH [of ds'] ds' show ?case
      by (auto simp: resolve_per_sourcing_file_def intro: prefix_order.trans)
  qed
  with that show thesis by blast
qed

lemma finish_lookup_total:
  assumes ok: "stored_ok Q"
  obtains es where "finish_lookup Q name own_bound (Some layers) (Some contexts) (ds, stopped) = Some es"
    and "sound_definitions Q ds \<longrightarrow> sound_definitions Q es" and "distinct ds \<longrightarrow> distinct es" and "prefix ds es"
    and "stopped \<longrightarrow> own_bound \<or> contexts = [] \<longrightarrow> es = ds"
proof -
  obtain ds' where ds': "resolve_import_layers Q name layers ds = Some (ds', \<exists>l\<in>set layers. layer_shadows Q name l)"
    "set ds' = set ds \<union> (\<Union>l\<in>set (through_first (layer_shadows Q name) layers). set (layer_definitions Q name l))"
    "distinct ds \<longrightarrow> distinct ds'" "prefix ds ds'" by (rule resolve_import_layers_total [OF ok, of name layers ds])
  have sound: "sound_definitions Q ds'" if "sound_definitions Q ds"
    using that ds'(2) resolve_import_layer_total(2) [OF ok] by (auto simp: sound_definitions_def)
  let ?ds = "if stopped then ds else ds'"
  obtain es where es: "resolve_per_sourcing_file Q name contexts ?ds = Some es" "sound_definitions Q ?ds \<longrightarrow> sound_definitions Q es"
    "distinct ?ds \<longrightarrow> distinct es" "prefix ?ds es" by (rule sourcing_contexts_total [OF ok, of name contexts ?ds])
  have "prefix ds es" using es(4) ds'(4) by (auto split: if_splits intro: prefix_order.trans)
  moreover have "es = ?ds" if "contexts = []" using es(1) that by (simp add: resolve_per_sourcing_file_def)
  ultimately show thesis using es ds' sound that [of "if own_bound then ?ds else es"]
    by (auto simp: finish_lookup_def split: if_splits)
qed

section \<open>Resolving a name in a file\<close>

lemma file_resolve_finish:
  "file_resolve Q f name = do {
     own_bound \<leftarrow> file_export_is_bound Q f name;
     own \<leftarrow> resolve_export Q f name;
     st \<leftarrow> resolve_environments Q f DeferredView name own own_bound [];
     finish_lookup Q name own_bound (loader_fallback Q f) (imports_by_sourcing_file Q f) st }"
  by (simp add: file_resolve_def finish_lookup_def case_prod_unfold)

lemma member_definitions_sound:
  "stored_ok Q \<Longrightarrow> sound_definitions Q own \<Longrightarrow> sound_definitions Q (member_definitions Q f name own m)"
  by (simp add: member_definitions_def resolve_import_layer_total(2))

lemma file_resolve_total:
  assumes ok: "stored_ok Q"
  obtains ds es where "file_resolve Q f name = Some es" and "sound_definitions Q es" and "distinct es" and "prefix ds es"
    and "set ds = (\<Union>m\<in>set (through_first (member_shadows Q f name (file_export_is_bound Q f name = Some True))
        (environment_members Q f DeferredView)). set (layer_definitions Q name (LayerFile m)))"
    and "file_export_is_bound Q f name = Some True \<or> qd_inherited_layers Q f DeferredView = [] \<and>
      (\<exists>m\<in>set (environment_members Q f DeferredView). member_shadows Q f name (file_export_is_bound Q f name = Some True) m) \<longrightarrow> es = ds"
proof -
  let ?own = "layer_definitions Q name (LayerFile f)"
  obtain b where bound: "file_export_is_bound Q f name = Some b" using file_export_is_bound_total [OF ok] by blast
  have own: "resolve_export Q f name = Some ?own"
    using resolve_import_layer_total(1) [OF ok, of "LayerFile f" name] by (simp add: resolve_import_layer_def)
  obtain ds where ds: "resolve_environments Q f DeferredView name ?own b [] =
      Some (ds, \<exists>m\<in>set (environment_members Q f DeferredView). member_shadows Q f name b m)"
    "set ds = set [] \<union> (\<Union>m\<in>set (through_first (member_shadows Q f name b) (environment_members Q f DeferredView)).
      set (member_definitions Q f name ?own m))" "distinct ([] :: definition_entity list) \<longrightarrow> distinct ds"
    by (rule resolve_environments_total [OF ok, of f DeferredView name ?own b "[]"])
  have same: "member_definitions Q f name ?own m = layer_definitions Q name (LayerFile m)" for m
    by (simp add: member_definitions_def)
  have sound: "sound_definitions Q ds"
    using ds(2) resolve_import_layer_total(2) [OF ok] unfolding same by (auto simp: sound_definitions_def)
  obtain layers contexts where fb: "loader_fallback Q f = Some layers" "imports_by_sourcing_file Q f = Some contexts"
    unfolding loader_fallback_def imports_by_sourcing_file_def
    by (rule fallbacks_total [OF ok, of f DEFERRED]) (simp_all add: DEFERRED_def)
  have stop: "\<exists>m\<in>set (environment_members Q f DeferredView). member_shadows Q f name b m" if b
    using own_in_environments [of f Q DeferredView] that by (auto simp: environment_members_def member_shadows_def)
  obtain es where "finish_lookup Q name b (Some layers) (Some contexts)
      (ds, \<exists>m\<in>set (environment_members Q f DeferredView). member_shadows Q f name b m) = Some es"
    "sound_definitions Q ds \<longrightarrow> sound_definitions Q es" "distinct ds \<longrightarrow> distinct es" "prefix ds es"
    "(\<exists>m\<in>set (environment_members Q f DeferredView). member_shadows Q f name b m) \<longrightarrow> b \<or> contexts = [] \<longrightarrow> es = ds"
    by (rule finish_lookup_total [OF ok])
  moreover have "contexts = []" if "qd_inherited_layers Q f DeferredView = []"
    using fb(2) that by (simp add: imports_by_sourcing_file_def imports_by_sourcing_file_in_def DEFERRED_def)
  moreover from calculation(1) have "file_resolve Q f name = Some es" by (simp add: file_resolve_finish bound own ds(1) fb)
  ultimately show thesis using that [of es ds] ds(2,3) sound stop unfolding same bound by simp
qed


section \<open>Resolving the name at a position\<close>

lemma resolve_definition_total:
  assumes ok: "stored_ok Q" and site: "(s, i) \<in> set (definition_sites Q f)"
  shows "resolve_definition Q f s i = Some (the_list (resolve_definition Q f s i))"
    and "sound_definitions Q (the_list (resolve_definition Q f s i))"
proof -
  note ix = stored_okD(1) [OF ok, of f]
  let ?d = "ix_definitions (qd_semantic_index Q f) ! s ! i"
  have lt: "s < length (ix_definitions (qd_semantic_index Q f))" "i < length (ix_definitions (qd_semantic_index Q f) ! s)"
    using site index_okD(3) [OF ix] by (simp_all add: in_definition_sites)
  have local: "\<exists>ds. resolve_definition Q f s i = Some ds \<and> sound_definitions Q ds" if "\<not> is_import_kind (df_kind ?d)"
  proof -
    have "resolve_definition Q f s i = Some [entity_of Q f s i]"
      using that lt site by (cases "df_kind ?d") (simp_all add: resolve_definition_def definition_entity_at_total [OF ix])
    moreover have "sound_definitions Q [entity_of Q f s i]"
      using that site by (simp add: sound_definitions_def known_entity_of) (simp add: entity_of_def)
    ultimately show ?thesis by blast
  qed
  have forwarded: "\<exists>ds. resolve_definition Q f s i = Some ds \<and> sound_definitions Q ds" if "df_kind ?d = Import call url name" for call url name
    using that lt resolve_export_total [OF ok] resolve_export_sound [OF ok]
    by (cases "file_by_url Q url") (simp_all add: resolve_definition_def, blast)
  have "\<exists>ds. resolve_definition Q f s i = Some ds \<and> sound_definitions Q ds"
    using local forwarded by (cases "df_kind ?d") auto
  then show "resolve_definition Q f s i = Some (the_list (resolve_definition Q f s i))"
    "sound_definitions Q (the_list (resolve_definition Q f s i))" by auto
qed

lemma use_at_range:
  assumes ok: "index_ok ix" and "use_at ix offset = Some (Some (s, u, site))"
  shows "s < length (ix_scopes ix)" and "u < length (ix_uses ix ! s)" and "site = ix_uses ix ! s ! u"
proof -
  obtain s' where "scope_at ix offset = Some s'" "s' < length (ix_scopes ix)" by (rule scope_at_total [OF ok])
  with assms(2) index_okD(4) [OF ok] show "s < length (ix_scopes ix)" "u < length (ix_uses ix ! s)" "site = ix_uses ix ! s ! u"
    by (auto simp: use_at_def iv_contains_first)
qed

lemma use_at_total: "index_ok ix \<Longrightarrow> \<exists>r. use_at ix offset = Some r"
  by (rule scope_at_total [of ix offset]) (auto simp: use_at_def index_okD(4))

lemma definition_at_site:
  assumes ok: "index_ok (qd_semantic_index Q f)"
  obtains "definition_at (qd_semantic_index Q f) offset = Some None"
    | s i d where "definition_at (qd_semantic_index Q f) offset = Some (Some (s, i, d))" and "(s, i) \<in> set (definition_sites Q f)"
proof -
  let ?ix = "qd_semantic_index Q f"
  obtain s where s: "scope_at ?ix offset = Some s" "s < length (ix_scopes ?ix)" by (rule scope_at_total [OF ok])
  show thesis
  proof (cases "iv_contains df_range (ix_definitions ?ix ! s) offset")
    case None
    with s index_okD(3) [OF ok] that(1) show ?thesis by (simp add: definition_at_def)
  next
    case (Some p)
    with s index_okD(3) [OF ok] that(2) [of s "fst p" "snd p"] show ?thesis
      by (cases p) (auto simp: definition_at_def in_definition_sites iv_contains_first)
  qed
qed

lemma reaching_definitions_sites:
  assumes ok: "index_ok (qd_semantic_index Q f)"
    and "s < length (ix_scopes (qd_semantic_index Q f))" "u < length (ix_uses (qd_semantic_index Q f) ! s)"
  obtains ds b where "reaching_definitions (qd_semantic_index Q f) s u = Some ds" and "use_is_bound (qd_semantic_index Q f) s u = Some b"
    and "\<forall>x\<in>set ds. x \<in> set (definition_sites Q f) \<and>
      def_name (qd_semantic_index Q f) (fst x) (snd x) = use_name (qd_semantic_index Q f) s u"
proof -
  let ?ix = "qd_semantic_index Q f"
  obtain b0 bs where bs: "reaching_bindings ?ix s u = Some ((s, b0) # bs)"
    "\<forall>(s', b)\<in>set ((s, b0) # bs). s' \<in> set (chain (ix_scopes ?ix) s) \<and>
      (\<forall>d\<in>set (bd_definitions b). d < length (ix_definitions ?ix ! s') \<and> def_name ?ix s' d = use_name ?ix s u)"
    by (rule reaching_bindings_total [OF assms])
  let ?ds = "concat (map (\<lambda>(s', b). map (Pair s') (bd_definitions b)) ((s, b0) # bs))"
  have "x \<in> set (definition_sites Q f) \<and> def_name ?ix (fst x) (snd x) = use_name ?ix s u" if "x \<in> set ?ds" for x
  proof -
    from that obtain s' b where x: "(s', b) \<in> set ((s, b0) # bs)" "x \<in> Pair s' ` set (bd_definitions b)" by auto
    with bs(2) have "s' \<in> set (chain (ix_scopes ?ix) s)" "\<forall>d\<in>set (bd_definitions b).
      d < length (ix_definitions ?ix ! s') \<and> def_name ?ix s' d = use_name ?ix s u" by blast+
    with x(2) chain_range [OF ok assms(2), of s'] show ?thesis by (auto simp: in_definition_sites)
  qed
  with that [of ?ds] bs(1) show thesis by (simp add: reaching_definitions_def use_is_bound_def)
qed

text \<open>The candidates of a list of reaching definitions.\<close>

definition resolved_sites :: "'a query_db_scheme \<Rightarrow> file_id \<Rightarrow> (nat \<times> nat) list \<Rightarrow> definition_entity list" where
  "resolved_sites Q f sites = concat (map (\<lambda>(s, i). the_list (resolve_definition Q f s i)) sites)"

lemma resolved_sites_total:
  assumes ok: "stored_ok Q" and "set sites \<subseteq> set (definition_sites Q f)"
  shows "concatM (map (\<lambda>(s, i). resolve_definition Q f s i) sites) = Some (resolved_sites Q f sites)"
    and "sound_definitions Q (resolved_sites Q f sites)"
proof -
  have "resolve_definition Q f (fst x) (snd x) = Some (the_list (resolve_definition Q f (fst x) (snd x)))" if "x \<in> set sites" for x
    using resolve_definition_total(1) [OF ok] assms(2) that by (cases x) auto
  then show "concatM (map (\<lambda>(s, i). resolve_definition Q f s i) sites) = Some (resolved_sites Q f sites)"
    unfolding resolved_sites_def case_prod_unfold by (rule concatM_total)
  show "sound_definitions Q (resolved_sites Q f sites)"
    unfolding resolved_sites_def sound_simps using resolve_definition_total(2) [OF ok] assms(2) by auto
qed

lemma resolve_at_use:
  assumes "use_at (qd_semantic_index Q f) offset = Some (Some (s, u, site))"
  shows "resolve_at Q f offset = (let ix = qd_semantic_index Q f in do {
     symbols \<leftarrow> iv_get (ix_symbol_tables ix) s;
     sy \<leftarrow> st_symbol symbols (us_symbol site);
     reaching \<leftarrow> reaching_definitions ix s u;
     definitions \<leftarrow> concatM (map (\<lambda>(scope, def_id). resolve_definition Q f scope def_id) (filter (\<lambda>x. 0 < fst x) reaching));
     own_bound \<leftarrow> use_is_bound ix s u;
     if own_bound \<and> filter (\<lambda>x. fst x = 0) reaching = [] then Some definitions
     else do {
       eager \<leftarrow> scope_is_eager ix s;
       own \<leftarrow> concatM (map (\<lambda>(scope, def_id). resolve_definition Q f scope def_id) (filter (\<lambda>x. fst x = 0) reaching));
       st \<leftarrow> resolve_environments Q f (if eager then EagerView else DeferredView) (sy_name sy) own own_bound definitions;
       finish_lookup Q (sy_name sy) own_bound (loader_fallback_at Q f offset) (imports_by_sourcing_file_at Q f offset) st } })"
  using assms
  by (simp add: resolve_at_def finish_lookup_def [abs_def] case_prod_unfold Let_def partition_filter_conv comp_def cong: if_cong)

lemma resolve_at_use_total:
  assumes ok: "stored_ok Q" and use: "use_at (qd_semantic_index Q f) offset = Some (Some (s, u, site))"
  obtains es reaching b where "resolve_at Q f offset = Some es" and "sound_definitions Q es"
    and "reaching_definitions (qd_semantic_index Q f) s u = Some reaching" and "use_is_bound (qd_semantic_index Q f) s u = Some b"
    and "prefix (resolved_sites Q f (filter (\<lambda>x. 0 < fst x) reaching)) es"
    and "b \<and> (\<forall>x\<in>set reaching. 0 < fst x) \<longrightarrow> es = resolved_sites Q f reaching"
proof -
  note ix = stored_okD(1) [OF ok, of f]
  note site = use_at_range [OF ix use]
  obtain reaching b where r: "reaching_definitions (qd_semantic_index Q f) s u = Some reaching"
    "use_is_bound (qd_semantic_index Q f) s u = Some b"
    "\<forall>x\<in>set reaching. x \<in> set (definition_sites Q f) \<and>
      def_name (qd_semantic_index Q f) (fst x) (snd x) = use_name (qd_semantic_index Q f) s u"
    by (rule reaching_definitions_sites [OF ix site(1,2)])
  let ?lexical = "filter (\<lambda>x. 0 < fst x) reaching" and ?globals = "filter (\<lambda>x. fst x = 0) reaching"
  have sub: "set ?lexical \<subseteq> set (definition_sites Q f)" "set ?globals \<subseteq> set (definition_sites Q f)" using r(3) by auto
  note lexical = resolved_sites_total [OF ok sub(1)] and globals = resolved_sites_total [OF ok sub(2)]
  have sym: "s < length (ix_symbol_tables (qd_semantic_index Q f))"
    "us_symbol site < length (st_symbols (ix_symbol_tables (qd_semantic_index Q f) ! s))"
    using site(1) index_okD(2) [OF ix] use_symbol_range [OF ix site(1,2)] site(3) by (simp_all add: st_len_def)
  obtain eager where eager: "scope_is_eager (qd_semantic_index Q f) s = Some eager" using scope_is_eager_total [OF ix site(1)] by blast
  obtain view where view: "import_view_at (qd_semantic_index Q f) offset = Some view" "view_in_range (qd_semantic_index Q f) (vw_attaches view)"
    by (rule import_view_at_total [OF ix])
  obtain layers contexts where fb: "loader_fallback_in Q f view = Some layers" "imports_by_sourcing_file_in Q f view = Some contexts"
    by (rule fallbacks_total [OF ok view(2)])
  let ?name = "sy_name (st_symbols (ix_symbol_tables (qd_semantic_index Q f) ! s) ! us_symbol site)"
  let ?view = "if eager then EagerView else DeferredView" and ?ds = "resolved_sites Q f ?lexical" and ?own = "resolved_sites Q f ?globals"
  let ?stopped = "\<exists>m\<in>set (environment_members Q f ?view). member_shadows Q f ?name b m"
  obtain ds where ds: "resolve_environments Q f ?view ?name ?own b ?ds = Some (ds, ?stopped)"
    "set ds = set ?ds \<union> (\<Union>m\<in>set (through_first (member_shadows Q f ?name b) (environment_members Q f ?view)).
      set (member_definitions Q f ?name ?own m))" "prefix ?ds ds"
    by (rule resolve_environments_total [OF ok, of f ?view ?name ?own b ?ds])
  have sound: "sound_definitions Q ds"
    using ds(2) lexical(2) member_definitions_sound [OF ok globals(2)] by (auto simp: sound_definitions_def)
  obtain es where es: "finish_lookup Q ?name b (Some layers) (Some contexts) (ds, ?stopped) = Some es"
    "sound_definitions Q ds \<longrightarrow> sound_definitions Q es" "prefix ds es" by (rule finish_lookup_total [OF ok])
  let ?es = "if b \<and> ?globals = [] then ?ds else es"
  have "resolve_at Q f offset = Some ?es"
    using sym view fb ds(1) es(1) eager
    by (simp add: resolve_at_use [OF use] Let_def st_symbol_def r(1,2) lexical(1) globals(1) loader_fallback_at_def
        imports_by_sourcing_file_at_def)
  moreover have "prefix ?ds ?es" using ds(3) es(3) by (auto intro: prefix_order.trans)
  moreover have "sound_definitions Q ?es" using sound es(2) lexical(2) by simp
  moreover have "b \<and> (\<forall>x\<in>set reaching. 0 < fst x) \<longrightarrow> ?es = resolved_sites Q f reaching"
    by (auto simp: filter_empty_conv filter_id_conv)
  ultimately show thesis using that r(1,2) by blast
qed

text \<open>Wherever the cursor is: resolution returns, and returns bindings that exist.\<close>

lemma resolve_at_total:
  assumes ok: "stored_ok Q"
  obtains es where "resolve_at Q f offset = Some es" and "\<forall>d\<in>set es. known_definition Q d"
proof -
  note ix = stored_okD(1) [OF ok, of f]
  from use_at_total [OF ix] consider (none) "use_at (qd_semantic_index Q f) offset = Some None"
    | (use) s u site where "use_at (qd_semantic_index Q f) offset = Some (Some (s, u, site))"
    by (metis not_None_eq prod_cases3)
  then show thesis
  proof cases
    case none
    show ?thesis
      by (rule definition_at_site [OF ix, of offset])
        (use none that definition_entity_at_total [OF ix] in \<open>auto simp: resolve_at_def Let_def known_entity_of\<close>)
  next
    case use
    show ?thesis
      by (rule resolve_at_use_total [OF ok use]) (use that in \<open>auto simp: sound_definitions_def\<close>)
  qed
qed

end
