(* ===== verification/Project_Resolver.thy ===== *)
theory Project_Resolver
  imports Resolution_Sound
begin

text \<open>
  The imports resolver that the index builder calls while it builds the index of one file of the
  workspace (\<^verbatim>\<open>oak_db/src/imports.rs\<close>), the packages a workspace depends on
  (\<^verbatim>\<open>workspace.rs\<close>), and the contract between the builder, the queries and Salsa: where the
  resolver of one file reads the stored results of the others.
\<close>

section \<open>Paths in \<open>source()\<close> calls\<close>

text \<open>The components of a path text on Unix: empty ones are dropped.\<close>

definition path_components :: "str \<Rightarrow> fs_path" where
  "path_components s = filter (\<lambda>c. c \<noteq> []) (split (\<lambda>c. c = 0x2F) s)"

definition normalise_path :: "fs_path \<Rightarrow> fs_path" where
  "normalise_path components = fold (\<lambda>component out.
     if component = lit ''.'' then out
     else if component = lit ''..'' then butlast out
     else out @ [component]) components []"

definition resolve_relative_to :: "'a source_db_scheme \<Rightarrow> fs_path \<Rightarrow> string \<Rightarrow> file_path" where
  "resolve_relative_to S anchor path =
     (let p = utf8_decode path;
          raw = (if starts_with (\<lambda>c. c = 0x2F) p then path_components p else anchor @ path_components p)
      in sd_from_url S (sd_to_url S (FilePath (normalise_path raw))))"

definition anchor_dir :: "'a source_db_scheme \<Rightarrow> file_id \<Rightarrow> fs_path option" where
  "anchor_dir S f = do {
     path \<leftarrow> as_path (sd_path S f);
     case file_root (sd_db S) f of
       None \<Rightarrow> path_parent path
     | Some root \<Rightarrow>
         if rt_kind (db_root (sd_db S) root) \<noteq> WorkspaceKind then path_parent path
         else
           (case find (path_starts_with path)
               (rev (List.map_filter as_path (rt_environment_dirs (db_root (sd_db S) root)))) of
              Some dir \<Rightarrow> Some dir
            | None \<Rightarrow> as_path (root_path (sd_db S) root)) }"

definition source_dir_scripts :: "'a source_db_scheme \<Rightarrow> file_id \<Rightarrow> string \<Rightarrow> dir_walk \<Rightarrow> file_id list" where
  "source_dir_scripts S f path walk = (case anchor_dir S f of
     None \<Rightarrow> []
   | Some anchor \<Rightarrow>
       (case as_path (resolve_relative_to S anchor path) of
          None \<Rightarrow> []
        | Some dir \<Rightarrow> (case walk of
              Shallow \<Rightarrow> files_in_directory S dir
            | Recursive \<Rightarrow> files_in_directory_recursive S dir)))"

section \<open>Bindings in layers\<close>

definition package_text_name :: "'a source_db_scheme \<Rightarrow> package_id \<Rightarrow> string" where
  "package_text_name S p = utf8 (pk_name (sd_package S p))"

definition package_exports :: "'a source_db_scheme \<Rightarrow> package_id \<Rightarrow> string \<Rightarrow> bool" where
  "package_exports S p name \<longleftrightarrow> package_text_name S p \<noteq> ''base'' \<and> package_exports_name S p name"

definition package_handlers :: "'a source_db_scheme \<Rightarrow> package_id \<Rightarrow> string \<Rightarrow> function_handlers option" where
  "package_handlers S p name = (case lookup_handlers (package_text_name S p) name of
     Some handlers \<Rightarrow> Some handlers
   | None \<Rightarrow>
       if \<not> package_exports S p name then None
       else Option.bind (imported_from (sd_namespace S p) name) (\<lambda>source. lookup_handlers source name))"

datatype layer_binding = FileBinding | PackageBinding string "function_handlers option"

definition layer_binding_of :: "'a query_db_scheme \<Rightarrow> import_layer \<Rightarrow> string \<Rightarrow> layer_binding option" where
  "layer_binding_of Q layer name = (case layer of
     LayerFile f \<Rightarrow> if map_of (qd_exports Q f) name \<noteq> None then Some FileBinding else None
   | LayerSourcingFile f exports_so_far \<Rightarrow>
       if es_contains exports_so_far name \<and> map_of (qd_exports Q f) name \<noteq> None then Some FileBinding else None
   | LayerPackage p \<Rightarrow>
       (let handlers = package_handlers Q p name
        in if handlers = None \<and> \<not> package_exports Q p name then None
           else Some (PackageBinding (package_text_name Q p) handlers))
   | LayerFrom importer \<Rightarrow>
       (case imported_from (sd_namespace Q importer) name of
          None \<Rightarrow> None
        | Some source \<Rightarrow> Some (PackageBinding source
            (Option.bind (package_named Q source) (\<lambda>p. package_handlers Q p name)))))"

definition binding_handlers :: "layer_binding option \<Rightarrow> string \<Rightarrow> function_handlers option" where
  "binding_handlers binding name = (case binding of
     Some FileBinding \<Rightarrow> None
   | Some (PackageBinding _ handlers) \<Rightarrow> handlers
   | None \<Rightarrow> lookup_handlers ''base'' name)"

definition resolve_effect :: "'a query_db_scheme \<Rightarrow> import_layer list \<Rightarrow> string \<Rightarrow> function_handlers option" where
  "resolve_effect Q layers name = binding_handlers (first_some (\<lambda>layer. layer_binding_of Q layer name) layers) name"

definition own_attach_layers :: "'a source_db_scheme \<Rightarrow> string list \<Rightarrow> import_layer list" where
  "own_attach_layers S attached = List.map_filter (package_layer S) (rev attached)"

definition base_binds_query :: "'a query_db_scheme \<Rightarrow> package_id \<Rightarrow> string \<Rightarrow> bool" where
  "base_binds_query Q base name = list_ex (\<lambda>f. map_of (qd_exports Q f) name \<noteq> None) (pk_files (sd_package Q base))"

section \<open>The resolver\<close>

definition source_resolution_of :: "'a query_db_scheme \<Rightarrow> file_id \<Rightarrow> source_resolution" where
  "source_resolution_of Q f = \<lparr>sr_url = sd_to_url Q (sd_path Q f), sr_names = sort (map fst (qd_exports Q f)),
     sr_packages = qd_attached_packages Q f\<rparr>"

definition resolver_source :: "'a query_db_scheme \<Rightarrow> file_id \<Rightarrow> string \<Rightarrow> source_resolution option" where
  "resolver_source Q f path = do {
     anchor \<leftarrow> anchor_dir Q f;
     target \<leftarrow> file_by_path (sd_db Q) (resolve_relative_to Q anchor path);
     Some (source_resolution_of Q target) }"

definition resolver_source_dir :: "'a query_db_scheme \<Rightarrow> file_id \<Rightarrow> string \<Rightarrow> dir_walk \<Rightarrow> source_resolution list" where
  "resolver_source_dir Q f path walk =
     map (source_resolution_of Q) (filter (\<lambda>target. target \<noteq> f) (source_dir_scripts Q f path walk))"

definition resolve_effects_uncached :: "'a query_db_scheme \<Rightarrow> file_id \<Rightarrow> string \<Rightarrow> string list \<Rightarrow> function_handlers option" where
  "resolve_effects_uncached Q f name attached =
     resolve_effect Q (load_lookup_order Q (qd_cross_file_layers Q f EagerView) (own_attach_layers Q attached)) name"

definition indexes_base :: "'a source_db_scheme \<Rightarrow> file_id \<Rightarrow> bool" where
  "indexes_base S f = (case package_of (sd_db S) f of
     None \<Rightarrow> False
   | Some p \<Rightarrow> package_text_name S p = ''base'')"

definition base_binding_package :: "'a query_db_scheme \<Rightarrow> file_id \<Rightarrow> string \<Rightarrow> string option" where
  "base_binding_package Q f name =
     (if indexes_base Q f then None
      else do {
        base \<leftarrow> package_named Q ''base'';
        if qd_base_binds Q base name then Some ''base'' else None })"

definition resolver_binding_package :: "'a query_db_scheme \<Rightarrow> file_id \<Rightarrow> string \<Rightarrow> string list \<Rightarrow> string option" where
  "resolver_binding_package Q f name attached =
     (let layers = load_lookup_order Q (qd_cross_file_layers Q f EagerView) (own_attach_layers Q attached)
      in case first_some (\<lambda>layer. layer_binding_of Q layer name) layers of
           Some FileBinding \<Rightarrow> None
         | Some (PackageBinding package _) \<Rightarrow> if package = ''base'' \<and> indexes_base Q f then None else Some package
         | None \<Rightarrow> base_binding_package Q f name)"

definition salsa_imports_resolver :: "'a query_db_scheme \<Rightarrow> file_id \<Rightarrow> imports_resolver" where
  "salsa_imports_resolver Q f = \<lparr>ir_resolve_source = resolver_source Q f,
     ir_resolve_source_dir = resolver_source_dir Q f,
     ir_resolve_effects = resolve_effects_uncached Q f,
     ir_resolve_qualified_effects = lookup_handlers,
     ir_binding_package = resolver_binding_package Q f,
     ir_package_exists = (\<lambda>package. package_named Q package \<noteq> None)\<rparr>"

subsection \<open>The cache of effects\<close>

text \<open>
  The resolver keeps the answers of \<open>resolve_effects\<close> for the time of one build. The record above
  answers without it; the lemmas below justify that.
\<close>

type_synonym effects_cache = "string list \<rightharpoonup> (string \<rightharpoonup> function_handlers option)"

definition cache_get :: "effects_cache \<Rightarrow> string \<Rightarrow> string list \<Rightarrow> function_handlers option option" where
  "cache_get cache name attached = Option.bind (cache attached) (\<lambda>entries. entries name)"

definition cache_insert :: "string \<Rightarrow> string list \<Rightarrow> function_handlers option \<Rightarrow> effects_cache \<Rightarrow> effects_cache" where
  "cache_insert name attached effects cache =
     (let entries = (case cache attached of None \<Rightarrow> Map.empty | Some entries \<Rightarrow> entries)
      in cache(attached \<mapsto> entries(name \<mapsto> effects)))"

definition resolve_effects_cached :: "'a query_db_scheme \<Rightarrow> file_id \<Rightarrow> string \<Rightarrow> string list \<Rightarrow> effects_cache \<Rightarrow>
    function_handlers option \<times> effects_cache" where
  "resolve_effects_cached Q f name attached cache = (case cache_get cache name attached of
     Some effects \<Rightarrow> (effects, cache)
   | None \<Rightarrow>
       (let effects = resolve_effects_uncached Q f name attached
        in (effects, cache_insert name attached effects cache)))"

text \<open>The answers to a sequence of requests, as one build asks them.\<close>

fun resolve_effects_run :: "'a query_db_scheme \<Rightarrow> file_id \<Rightarrow> (string \<times> string list) list \<Rightarrow> effects_cache \<Rightarrow>
    function_handlers option list" where
  "resolve_effects_run Q f [] cache = []"
| "resolve_effects_run Q f ((name, attached) # requests) cache =
     (let (effects, cache) = resolve_effects_cached Q f name attached cache
      in effects # resolve_effects_run Q f requests cache)"

lemma cache_get_empty [simp]: "cache_get Map.empty name attached = None"
  by (simp add: cache_get_def)

lemma cache_get_insert:
  "cache_get (cache_insert name attached effects cache) n a =
    (if n = name \<and> a = attached then Some effects else cache_get cache n a)"
  by (auto simp: cache_get_def cache_insert_def Let_def split: option.split)

lemma resolve_effects_run_uncached:
  "(\<And>n a e. cache_get cache n a = Some e \<Longrightarrow> e = resolve_effects_uncached Q f n a) \<Longrightarrow>
    resolve_effects_run Q f requests cache = map (\<lambda>(name, attached). resolve_effects_uncached Q f name attached) requests"
proof (induction requests arbitrary: cache)
  case (Cons r requests)
  obtain name attached where r: "r = (name, attached)" by (cases r)
  show ?case
  proof (cases "cache_get cache name attached")
    case None
    have "resolve_effects_run Q f requests (cache_insert name attached (resolve_effects_uncached Q f name attached) cache) =
        map (\<lambda>(name, attached). resolve_effects_uncached Q f name attached) requests"
      by (rule Cons.IH) (use Cons.prems in \<open>auto simp: cache_get_insert split: if_splits\<close>)
    then show ?thesis using None by (simp add: r resolve_effects_cached_def Let_def)
  next
    case (Some e)
    then show ?thesis using Cons by (simp add: r resolve_effects_cached_def)
  qed
qed simp

section \<open>Normalised paths\<close>

lemma normalise_path_snoc:
  "normalise_path (p @ [c]) = (if c = lit ''.'' then normalise_path p
    else if c = lit ''..'' then butlast (normalise_path p) else normalise_path p @ [c])"
  by (simp add: normalise_path_def)

lemma normalise_path_no_dots: "c \<in> set (normalise_path p) \<Longrightarrow> c \<noteq> lit ''.'' \<and> c \<noteq> lit ''..''"
  by (induction p rule: rev_induct) (auto simp: normalise_path_snoc normalise_path_def [of "[]"] dest: in_set_butlastD split: if_splits)

lemma normalise_path_id: "(\<And>c. c \<in> set p \<Longrightarrow> c \<noteq> lit ''.'' \<and> c \<noteq> lit ''..'') \<Longrightarrow> normalise_path p = p"
  by (induction p rule: rev_induct) (auto simp: normalise_path_snoc normalise_path_def [of "[]"])

lemma normalise_path_idem: "normalise_path (normalise_path p) = normalise_path p"
  by (rule normalise_path_id) (rule normalise_path_no_dots)

section \<open>Packages of the workspace\<close>

definition file_attached_anywhere :: "'a query_db_scheme \<Rightarrow> file_id \<Rightarrow> string list" where
  "file_attached_anywhere Q f = attached_packages_anywhere (qd_semantic_index Q f)"

definition namespace_accessed_packages :: "'a query_db_scheme \<Rightarrow> file_id \<Rightarrow> string list" where
  "namespace_accessed_packages Q f = remdups_adj (sort (map na_package (ix_namespace_accesses (qd_semantic_index Q f))))"

definition used_packages :: "'a query_db_scheme \<Rightarrow> file_id \<Rightarrow> string list" where
  "used_packages Q f = remdups_adj (sort (file_attached_anywhere Q f @ namespace_accessed_packages Q f))"

text \<open>The iteration of a \<open>BTreeSet\<close> that was filled with some names.\<close>

definition btree_set :: "'k::linorder list \<Rightarrow> 'k list" where
  "btree_set xs = remdups_adj (sort xs)"

definition as_packages :: "'a source_db_scheme \<Rightarrow> string list \<Rightarrow> package_id list" where
  "as_packages S names = List.map_filter (\<lambda>name. do {
     p \<leftarrow> package_named S name;
     root \<leftarrow> root_by_package (sd_db S) p;
     if rt_kind (db_root (sd_db S) root) \<noteq> LibraryKind then None else Some p }) names"

definition all_workspace_file_dependencies :: "'a query_db_scheme \<Rightarrow> package_id list" where
  "all_workspace_file_dependencies Q =
     as_packages Q (btree_set (concat (map (used_packages Q) (workspace_files (sd_db Q)))))"

definition all_workspace_loader_dependencies :: "'a source_db_scheme \<Rightarrow> package_id list" where
  "all_workspace_loader_dependencies S = as_packages S (btree_set
     (concat (map (\<lambda>f. lc_implicit_attaches (load_context_of S f DeferredView)) (workspace_files (sd_db S)))))"

definition all_workspace_package_dependencies :: "'a source_db_scheme \<Rightarrow> package_id list" where
  "all_workspace_package_dependencies S = as_packages S (remdups_adj (sort (concat (map (\<lambda>root.
     concat (map (\<lambda>p. case package_description (sd_disk S) (sd_db S) p of
         None \<Rightarrow> []
       | Some d \<Rightarrow> map utf8 (de_depends d) @ map utf8 (de_imports d)) (rt_packages (db_root (sd_db S) root))))
     (db_workspace_roots (sd_db S))))))"

definition default_search_path_packages :: "'a source_db_scheme \<Rightarrow> package_id list" where
  "default_search_path_packages S = as_packages S DEFAULT_SEARCH_PATH_PACKAGES"

definition all_package_dependencies :: "'a query_db_scheme \<Rightarrow> package_id list" where
  "all_package_dependencies Q = dedup_key (package_text_name Q) (sort_key (package_text_name Q)
     (all_workspace_file_dependencies Q @ all_workspace_loader_dependencies Q @
      all_workspace_package_dependencies Q @ default_search_path_packages Q))"

text \<open>The files of the workspace and of the packages it depends on.\<close>

definition all_used_files_query :: "'a query_db_scheme \<Rightarrow> file_id list" where
  "all_used_files_query Q =
     (let dependencies = all_package_dependencies Q in all_used_files (\<lambda>p. p \<in> set dependencies) (sd_db Q))"

section \<open>Salsa\<close>

definition build_semantic_index :: "'a query_db_scheme \<Rightarrow> file_id \<Rightarrow> semantic_index option" where
  "build_semantic_index Q f =
     (let (rng, tree) = sd_parser Q (sd_text Q f) in build_index (salsa_imports_resolver Q f) rng tree)"

definition semantic_index_fallback :: "'a source_db_scheme \<Rightarrow> file_id \<Rightarrow> semantic_index option" where
  "semantic_index_fallback S f =
     (let (rng, tree) = sd_parser S (sd_text S f)
      in map_option (\<lambda>ix. with_diagnostic ix SourceCycle) (build_index noop_imports_resolver rng tree))"

text \<open>
  The contract with Salsa: a stored result is what the body of its query computes from the stored
  results, or, for a query that takes part in a cycle, what its recovery handler computes.
\<close>

definition salsa_results :: "'a query_db_scheme \<Rightarrow> bool" where
  "salsa_results Q \<longleftrightarrow>
     (\<forall>f. build_semantic_index Q f = Some (qd_semantic_index Q f) \<or> semantic_index_fallback Q f = Some (qd_semantic_index Q f)) \<and>
     (\<forall>f. exports_query Q f = Some (qd_exports Q f) \<or> qd_exports Q f = []) \<and>
     (\<forall>f. attached_packages_query Q f = Some (qd_attached_packages Q f) \<or> qd_attached_packages Q f = []) \<and>
     (\<forall>f view. qd_cross_file_layers Q f view = cross_file_layers_query Q f view \<or>
        qd_cross_file_layers Q f view = cross_file_layers_fallback Q f view) \<and>
     (\<forall>f view. inherited_layers_query Q f view = Some (qd_inherited_layers Q f view) \<or> qd_inherited_layers Q f view = []) \<and>
     (\<forall>base name. qd_base_binds Q base name = base_binds_query Q base name \<or> qd_base_binds Q base name = False)"

text \<open>What is asked of the R parser: distinct calls of a file have distinct ranges.\<close>

definition parser_ok :: "'a source_db_scheme \<Rightarrow> bool" where
  "parser_ok S \<longleftrightarrow> (\<forall>contents. calls_distinct (snd (sd_parser S contents)))"

lemma index_ok_with_diagnostic [simp]: "index_ok (with_diagnostic ix d) \<longleftrightarrow> index_ok ix"
  by (simp add: index_ok_def entry_ok_def with_diagnostic_def)

lemma salsa_index_ok:
  assumes "salsa_results Q" and "parser_ok Q"
  shows "index_ok (qd_semantic_index Q f)"
proof -
  obtain rng tree where p: "sd_parser Q (sd_text Q f) = (rng, tree)" by fastforce
  have "calls_distinct tree" using assms(2) p unfolding parser_ok_def by (metis snd_conv)
  moreover have "build_semantic_index Q f = Some (qd_semantic_index Q f) \<or> semantic_index_fallback Q f = Some (qd_semantic_index Q f)"
    using assms(1) by (simp add: salsa_results_def)
  ultimately show ?thesis
    using build_index_ok [of tree] index_ok_with_diagnostic
    by (auto simp: build_semantic_index_def semantic_index_fallback_def p simp del: index_ok_with_diagnostic) metis+
qed

lemma salsa_stored_ok: "salsa_results Q \<Longrightarrow> parser_ok Q \<Longrightarrow> stored_ok Q"
  unfolding stored_ok_def using salsa_index_ok [of Q] by (intro conjI allI) (simp_all add: salsa_results_def)


section \<open>The resolver reads no index\<close>

text \<open>
  The resolver of a file reads the results of other queries, never a semantic index itself, so it can
  run while the index is built.
\<close>

lemma index_free_paths:
  fixes Q :: "'a query_db_scheme" and ix :: "file_id \<Rightarrow> semantic_index"
  shows "path_file_name (Q\<lparr>qd_semantic_index := ix\<rparr>) = path_file_name Q"
    and "file_dir (Q\<lparr>qd_semantic_index := ix\<rparr>) = file_dir Q"
    and "package_named (Q\<lparr>qd_semantic_index := ix\<rparr>) = package_named Q"
    and "sd_namespace (Q\<lparr>qd_semantic_index := ix\<rparr>) = sd_namespace Q"
    and "package_text_name (Q\<lparr>qd_semantic_index := ix\<rparr>) = package_text_name Q"
    and "anchor_dir (Q\<lparr>qd_semantic_index := ix\<rparr>) = anchor_dir Q"
    and "resolve_relative_to (Q\<lparr>qd_semantic_index := ix\<rparr>) = resolve_relative_to Q"
    and "source_resolution_of (Q\<lparr>qd_semantic_index := ix\<rparr>) = source_resolution_of Q"
    and "files_in_directory_recursive (Q\<lparr>qd_semantic_index := ix\<rparr>) = files_in_directory_recursive Q"
proof -
  show "path_file_name (Q\<lparr>qd_semantic_index := ix\<rparr>) = path_file_name Q"
    by (simp add: fun_eq_iff path_file_name_def split: file_path.split option.split)
  show "anchor_dir (Q\<lparr>qd_semantic_index := ix\<rparr>) = anchor_dir Q"
    by (simp add: fun_eq_iff anchor_dir_def cong: option.case_cong if_cong)
qed (simp_all add: fun_eq_iff file_dir_def package_named_def sd_namespace_def package_text_name_def
    resolve_relative_to_def source_resolution_of_def files_in_directory_recursive_def)

lemma index_free_base:
  fixes Q :: "'a query_db_scheme" and ix :: "file_id \<Rightarrow> semantic_index"
  shows "indexes_base (Q\<lparr>qd_semantic_index := ix\<rparr>) f \<longleftrightarrow> indexes_base Q f"
  by (simp add: indexes_base_def index_free_paths split: option.split)

lemma index_free_layers:
  fixes Q :: "'a query_db_scheme" and ix :: "file_id \<Rightarrow> semantic_index"
  shows "collation_basename_key (Q\<lparr>qd_semantic_index := ix\<rparr>) = collation_basename_key Q"
    and "package_layer (Q\<lparr>qd_semantic_index := ix\<rparr>) = package_layer Q"
    and "package_exports_name (Q\<lparr>qd_semantic_index := ix\<rparr>) = package_exports_name Q"
  by (simp_all add: fun_eq_iff collation_basename_key_def package_layer_def package_exports_name_def index_free_paths)

lemma index_free_bindings:
  fixes Q :: "'a query_db_scheme" and ix :: "file_id \<Rightarrow> semantic_index"
  shows "files_in_directory (Q\<lparr>qd_semantic_index := ix\<rparr>) = files_in_directory Q"
    and "load_lookup_order (Q\<lparr>qd_semantic_index := ix\<rparr>) layers = load_lookup_order Q layers"
    and "own_attach_layers (Q\<lparr>qd_semantic_index := ix\<rparr>) = own_attach_layers Q"
    and "layer_binding_of (Q\<lparr>qd_semantic_index := ix\<rparr>) = layer_binding_of Q"
proof -
  have "tail_layers (Q\<lparr>qd_semantic_index := ix\<rparr>) t = tail_layers Q t" for t
    by (cases t) (simp_all add: base_layer_def default_search_path_layers_def index_free_layers)
  then show "load_lookup_order (Q\<lparr>qd_semantic_index := ix\<rparr>) layers = load_lookup_order Q layers"
    by (simp add: fun_eq_iff load_lookup_order_def cross_lookup_order_def)
  have "package_handlers (Q\<lparr>qd_semantic_index := ix\<rparr>) = package_handlers Q" "package_exports (Q\<lparr>qd_semantic_index := ix\<rparr>) = package_exports Q"
    by (simp_all add: fun_eq_iff package_handlers_def package_exports_def index_free_paths index_free_layers split: option.split)
  then show "layer_binding_of (Q\<lparr>qd_semantic_index := ix\<rparr>) = layer_binding_of Q"
    by (simp add: fun_eq_iff layer_binding_of_def Let_def index_free_paths split: import_layer.split cong: option.case_cong if_cong)
qed (simp_all add: fun_eq_iff files_in_directory_def own_attach_layers_def index_free_paths index_free_layers)

lemma resolver_index_free:
  fixes Q :: "'a query_db_scheme"
  shows "salsa_imports_resolver (Q\<lparr>qd_semantic_index := ix\<rparr>) f = salsa_imports_resolver Q f"
  by (simp add: salsa_imports_resolver_def fun_eq_iff resolver_source_def resolver_source_dir_def source_dir_scripts_def
      resolve_effects_uncached_def resolve_effect_def resolver_binding_package_def base_binding_package_def
      index_free_paths index_free_base index_free_bindings
      cong: option.case_cong layer_binding.case_cong dir_walk.case_cong if_cong)

end
