(* ===== verification/Resolution_Properties.thy ===== *)
theory Resolution_Properties
  imports Project_Resolver Sample_File
begin

text \<open>
  The properties of name resolution, with their instances on a small project: a package of two files,
  \<^verbatim>\<open>x <- 1\<close> and \<^verbatim>\<open>x\<close>, and two scripts in the same workspace folder, \<^verbatim>\<open>source("R/a")\<close>, which
  sources the first of them, and \<^verbatim>\<open>function() { x <- 1; x }\<close>.
\<close>

section \<open>A sample project\<close>

definition assigning_file :: "r_expr list" where
  "assigning_file = [RBinaryExpression (span 0 6) (Some (RIdentifier (span 0 1) ''x''))
     (Some \<lparr>tk_kind = ASSIGN, tk_text = ''<-''\<rparr>) (Some (ROtherExpression (span 5 6) []))]"

definition using_file :: "r_expr list" where
  "using_file = [RIdentifier (span 0 1) ''x'']"

definition sourcing_file :: "r_expr list" where
  "sourcing_file = [RCall (span 0 13) (Some (RIdentifier (span 0 6) ''source''))
     (Some [RArgument None (Some (RStringValue (span 7 12) (Some (StringToken (CHR 0x22) ''R/a'' (CHR 0x22)))))])]"

definition closure_file :: "r_expr list" where
  "closure_file = [RFunctionDefinition (span 0 24) (Some []) (Some (RBracedExpressions (span 11 24)
     [RBinaryExpression (span 13 19) (Some (RIdentifier (span 13 14) ''x''))
        (Some \<lparr>tk_kind = ASSIGN, tk_text = ''<-''\<rparr>) (Some (ROtherExpression (span 18 19) [])),
      RIdentifier (span 21 22) ''x'']))]"

text \<open>The parser on the four texts; every other text stands for an empty file.\<close>

definition assigning_text :: str where
  "assigning_text = lit ''x <- 1''"

definition using_text :: str where
  "using_text = lit ''x''"

definition sourcing_text :: str where
  "sourcing_text = lit ''source('' @ [0x22] @ lit ''R/a'' @ [0x22] @ lit '')''"

definition closure_text :: str where
  "closure_text = lit ''function() { x <- 1; x }''"

definition project_parser :: "str \<Rightarrow> text_range \<times> r_expr list" where
  "project_parser contents =
     (if contents = assigning_text then (span 0 6, assigning_file)
      else if contents = using_text then (span 0 1, using_file)
      else if contents = sourcing_text then (span 0 13, sourcing_file)
      else if contents = closure_text then (span 0 24, closure_file)
      else (span 0 0, []))"

definition project_file :: "str \<Rightarrow> str \<Rightarrow> file_data" where
  "project_file name contents = \<lparr>fl_path = FilePath [[119], [82], name], fl_revision = 0,
     fl_source_text_override = Some contents, fl_package = Some 0\<rparr>"

definition project_script :: "str \<Rightarrow> str \<Rightarrow> file_data" where
  "project_script name contents = \<lparr>fl_path = FilePath [[119], name], fl_revision = 0,
     fl_source_text_override = Some contents, fl_package = None\<rparr>"

definition project_inputs :: oak_db where
  "project_inputs = \<lparr>
     db_file = (\<lambda>_. \<lparr>fl_path = VirtualPath [] None, fl_revision = 0, fl_source_text_override = None, fl_package = None\<rparr>)
       (0 := project_file [97] assigning_text, 1 := project_file [98] using_text,
        2 := project_script [99] sourcing_text, 3 := project_script [100] closure_text),
     db_next_file = 4,
     db_package = (\<lambda>_. \<lparr>pk_description_path = FilePath [[119], [68]], pk_name = [112], pk_description_revision = 0,
       pk_namespace_revision = 0, pk_index_revision = None, pk_namespace_override = Some default_namespace,
       pk_files = [0, 1], pk_scripts = []\<rparr>),
     db_next_package = 1,
     db_root = (\<lambda>_. \<lparr>rt_path = FilePath [[119]], rt_kind = WorkspaceKind, rt_scripts = [2, 3], rt_packages = [0], rt_environment_dirs = []\<rparr>),
     db_next_root = 1,
     db_notebook = (\<lambda>_. \<lparr>nb_path = VirtualPath [] None, nb_cells = []\<rparr>), db_next_notebook = 0,
     db_workspace_roots = [0], db_library_roots = [], db_orphan_files = [], db_stale_files = [], db_stale_packages = [],
     db_open_notebooks = []\<rparr>"

definition project_disk :: disk where
  "project_disk = \<lparr>dk_metadata = (\<lambda>_. Inl NotFound), dk_read_dir = (\<lambda>_. Inl NotFound), dk_mtime = (\<lambda>_. None),
     dk_read = (\<lambda>_. None), dk_subdirs = (\<lambda>_. []), dk_walk = (\<lambda>_. [])\<rparr>"

text \<open>URLs: the file that is sourced has one, every other path is left out.\<close>

definition project_to_url :: "file_path \<Rightarrow> url" where
  "project_to_url path = (if path = FilePath [[119], [82], [97]] then ''a'' else [])"

definition project_from_url :: "url \<Rightarrow> file_path" where
  "project_from_url u = (if u = ''a'' then FilePath [[119], [82], [97]] else VirtualPath [] None)"

definition project_tables :: "file_id \<Rightarrow> file_exports" where
  "project_tables f = (if f = 0 then [(''x'', [LocalEntry])] else if f = 2 then [(''x'', [ImportEntry 0 ''x''])] else [])"

text \<open>
  The stored results; the layers come from their query, which reads the attached packages only. The
  parameter is the part of the record that extensions of the database add.
\<close>

definition project_base :: "'a \<Rightarrow> 'a query_db_scheme" where
  "project_base ext = \<lparr>sd_db = project_inputs, sd_disk = project_disk, sd_namespace_parser = (\<lambda>_. (None, [])),
     sd_parser = project_parser, sd_to_url = project_to_url, sd_from_url = project_from_url, sd_percent_decode = Some,
     qd_semantic_index = (\<lambda>_. sample_index), qd_exports = project_tables,
     qd_attached_packages = (\<lambda>_. []), qd_cross_file_layers = (\<lambda>_ _. undefined), qd_inherited_layers = (\<lambda>_ _. []),
     qd_base_binds = (\<lambda>_ _. False), \<dots> = ext\<rparr>"

definition project_layers :: "'a \<Rightarrow> 'a query_db_scheme" where
  "project_layers ext = (project_base ext)\<lparr>qd_cross_file_layers := cross_file_layers_query (project_base ext)\<rparr>"

definition project_index :: "'a \<Rightarrow> file_id \<Rightarrow> semantic_index" where
  "project_index ext f = the (build_semantic_index (project_layers ext) f)"

definition project_with :: "'a \<Rightarrow> 'a query_db_scheme" where
  "project_with ext = (project_layers ext)\<lparr>qd_semantic_index := project_index ext\<rparr>"

abbreviation project :: query_db where
  "project \<equiv> project_with ()"

lemma project_parser_calls: "calls_distinct (snd (project_parser contents))"
proof -
  have "calls_distinct assigning_file" "calls_distinct using_file" "calls_distinct sourcing_file" "calls_distinct closure_file"
    "calls_distinct []" by code_simp+
  then show ?thesis by (simp add: project_parser_def)
qed

lemma project_with_parser_ok: "parser_ok (project_with ext)"
  using project_parser_calls by (simp add: parser_ok_def project_with_def project_layers_def project_base_def)

lemma project_source: "sd_db (project_with ext) = project_inputs" "sd_parser (project_with ext) = project_parser" "sd_disk (project_with ext) = project_disk"
  "qd_exports (project_with ext) = project_tables" "qd_attached_packages (project_with ext) = (\<lambda>_. [])"
  "qd_inherited_layers (project_with ext) = (\<lambda>_ _. [])" "qd_semantic_index (project_with ext) = project_index ext"
  by (simp_all add: project_with_def project_layers_def project_base_def)

lemma project_built: "build_semantic_index (project_with ext) f = Some (project_index ext f)"
proof -
  obtain rng tree where t: "project_parser (source_text project_disk project_inputs f) = (rng, tree)" by fastforce
  have p: "sd_parser (project_layers ext) (sd_text (project_layers ext) f) = (rng, tree)"
    using t by (simp add: project_layers_def project_base_def)
  have "calls_distinct tree" using project_parser_calls [of "source_text project_disk project_inputs f"] t by simp
  then obtain ix where "build_index (salsa_imports_resolver (project_layers ext) f) rng tree = Some ix"
    using build_index_returns by blast
  then show ?thesis
    by (simp add: project_index_def build_semantic_index_def p t project_source)
      (simp add: project_with_def resolver_index_free)
qed

lemma project_trees:
  "project_index ext 0 = the (build_index (salsa_imports_resolver (project_layers ext) 0) (span 0 6) assigning_file)"
  "project_index ext 1 = the (build_index (salsa_imports_resolver (project_layers ext) 1) (span 0 1) using_file)"
  "project_index ext 2 = the (build_index (salsa_imports_resolver (project_layers ext) 2) (span 0 13) sourcing_file)"
  "project_index ext 3 = the (build_index (salsa_imports_resolver (project_layers ext) 3) (span 0 24) closure_file)"
proof -
  have parsed: "project_parser (source_text project_disk project_inputs 0) = (span 0 6, assigning_file)"
    "project_parser (source_text project_disk project_inputs 1) = (span 0 1, using_file)"
    "project_parser (source_text project_disk project_inputs 2) = (span 0 13, sourcing_file)"
    "project_parser (source_text project_disk project_inputs 3) = (span 0 24, closure_file)" by code_simp+
  have index: "project_index ext f = (let (rng, tree) = project_parser (source_text project_disk project_inputs f)
      in the (build_index (salsa_imports_resolver (project_layers ext) f) rng tree))" for f
    by (simp add: project_index_def build_semantic_index_def project_layers_def project_base_def split_beta)
  show "project_index ext 0 = the (build_index (salsa_imports_resolver (project_layers ext) 0) (span 0 6) assigning_file)"
    "project_index ext 1 = the (build_index (salsa_imports_resolver (project_layers ext) 1) (span 0 1) using_file)"
    "project_index ext 2 = the (build_index (salsa_imports_resolver (project_layers ext) 2) (span 0 13) sourcing_file)"
    "project_index ext 3 = the (build_index (salsa_imports_resolver (project_layers ext) 3) (span 0 24) closure_file)"
    unfolding index parsed by simp_all
qed

text \<open>The truncation to 32 bits, evaluated on binary numbers.\<close>

lemma record_source_call_code [code]:
  "record_source_call offset bound t =
     (let rank = nat (int (length (tb_ranks t)) mod 4294967296)
      in t\<lparr>tb_ranks := AList.update offset rank (tb_ranks t),
           tb_timeline := foldl (\<lambda>btl name. timeline_insert rank name btl) (tb_timeline t) bound\<rparr>)"
  by (simp add: record_source_call_def nat_mod_distrib)

lemma project_exports:
  "exports_query (project_with ext) 0 = Some (project_tables 0)" "exports_query (project_with ext) 2 = Some (project_tables 2)"
proof -
  have "exports (the (build_index R (span 0 6) assigning_file)) =
      Some [(''x'', [(0, \<lparr>df_kind = Assignment (hd assigning_file), df_symbol = 0, df_range = span 0 1\<rparr>)])]" for R
    by code_simp
  then show "exports_query (project_with ext) 0 = Some (project_tables 0)"
    by (simp add: exports_query_def project_source project_trees export_entries_def export_entry_of_def push_entry_def project_tables_def)
  have "exports (the (build_index (salsa_imports_resolver (project_layers ext) 2) (span 0 13) sourcing_file)) =
      Some [(''x'', [(0, \<lparr>df_kind = Import (hd sourcing_file) ''a'' ''x'', df_symbol = 1, df_range = span 0 0\<rparr>)])]"
    by code_simp
  moreover have "file_by_path project_inputs (FilePath [[119], [82], [97]]) = Some 0" by code_simp
  then have "file_by_url (project_with ext) ''a'' = Some 0"
    by (simp add: file_by_url_def project_source) (simp add: project_with_def project_layers_def project_base_def project_from_url_def)
  ultimately show "exports_query (project_with ext) 2 = Some (project_tables 2)"
    by (simp add: exports_query_def project_source project_trees export_entries_def export_entry_of_def push_entry_def project_tables_def)
qed

text \<open>The layers of the files depend on the inputs only.\<close>

lemma project_load_context:
  assumes "sd_db S = project_inputs"
  shows "load_context_of S f view =
    (if f = 0 \<or> f = 1 then \<lparr>lc_kind = NamespaceLoad 0, lc_environments = [environment_of f [0, 1] view f],
       lc_implicit_attaches = [], lc_loader = Some PACKAGE_LOADER\<rparr>
     else standalone_load_context f)"
proof -
  have "notebook_load_context S f view = None"
    by (simp add: notebook_load_context_def notebook_by_cell_def assms project_inputs_def)
  moreover have "testthat_load_context S f view = None"
    by (simp add: testthat_load_context_def is_testthat_file_def in_testthat_dir_def path_parent_def assms project_inputs_def
        project_file_def project_script_def file_name_def lit_def)
  moreover have "package_load_context S f view = (if f = 0 \<or> f = 1 then Some \<lparr>lc_kind = NamespaceLoad 0,
      lc_environments = [environment_of f [0, 1] view f], lc_implicit_attaches = [], lc_loader = Some PACKAGE_LOADER\<rparr> else None)"
    by (auto simp: package_load_context_def assms project_inputs_def project_file_def project_script_def)
  moreover have "shiny_load_context S f view = None" if "f \<noteq> 0" "f \<noteq> 1"
    using that by (simp add: shiny_load_context_def shiny_autoload_def enclosing_app_dir_def in_r_directory_def shiny_app_dir_def
        is_shiny_entry_file_def SHINY_ENTRY_FILES_def is_named_def path_file_name_def is_shiny_global_file_def file_dir_def
        path_parent_def file_name_def to_ascii_lowercase_def project_script_def lit_def assms project_inputs_def)
  ultimately show ?thesis by (simp add: load_context_of_def)
qed

lemma project_cross_layers: "qd_cross_file_layers (project_with ext) f view = cross_file_layers_query (project_with ext) f view"
proof -
  have ns: "sd_namespace Q 0 = default_namespace" if "sd_db Q = project_inputs" for Q :: "'a query_db_scheme"
    by (simp add: sd_namespace_def package_namespace_def that project_inputs_def)
  have concat_map_empty: "concat (map (\<lambda>_. []) xs) = []" for xs :: "file_id list" by (induction xs) auto
  have "cross_file_layers_query Q f view = \<lparr>fll_environments = lc_environments (load_context_of project_inputs_db f view),
      fll_current_file = f, fll_layers = \<lparr>xl_enclosing = [], xl_attaches = [],
        xl_tail = tail_of_kind (lc_kind (load_context_of project_inputs_db f view)), xl_recovered_source_cycle = False\<rparr>\<rparr>"
    if "sd_db Q = project_inputs" "sd_db project_inputs_db = project_inputs" "qd_attached_packages Q = (\<lambda>_. [])"
    for Q :: "'a query_db_scheme" and project_inputs_db :: "'a query_db_scheme"
    using that ns [of Q] by (simp add: cross_file_layers_query_def project_load_context lower_load_context_def predecessor_attach_layers_def
        standalone_load_context_def Let_def namespace_import_layers_def namespace_package_import_layers_def default_namespace_def
        concat_map_empty)
  from this [of "project_base ext" "project_base ext"] this [of "project_with ext" "project_base ext"] show ?thesis
    by (simp add: project_source) (simp add: project_with_def project_layers_def project_base_def)
qed

lemma project_with_results: "salsa_results (project_with ext)"
proof -
  have "exports_query (project_with ext) f = Some (qd_exports (project_with ext) f) \<or> qd_exports (project_with ext) f = []" for f
    using project_exports [of ext] by (cases "f = 0"; cases "f = 2") (simp_all add: project_source project_tables_def)
  then show ?thesis
    by (simp add: salsa_results_def project_built project_cross_layers project_source)
       (simp add: project_with_def project_layers_def project_base_def)
qed

text \<open>What the files of the package bind: \<^verbatim>\<open>x\<close> is bound for sure by the first one and not at all by the second.\<close>

lemma project_with_bindings:
  "file_export_is_bound (project_with ext) 0 ''x'' = Some True" "file_export_is_bound (project_with ext) 1 ''x'' = Some False"
  "local_ids (project_with ext) 0 ''x'' = [0]"
proof -
  have "export_is_bound (the (build_index R (span 0 6) assigning_file)) ''x'' = Some True"
    "export_is_bound (the (build_index R (span 0 1) using_file)) ''x'' = Some False"
    "map fst (filter (\<lambda>(i, d). \<not> is_import_kind (df_kind d)) (the_list (export (the (build_index R (span 0 6) assigning_file)) ''x''))) = [0]" for R
    by code_simp+
  then show "file_export_is_bound (project_with ext) 0 ''x'' = Some True" "file_export_is_bound (project_with ext) 1 ''x'' = Some False"
    "local_ids (project_with ext) 0 ''x'' = [0]"
    by (simp_all add: file_export_is_bound_def local_ids_def project_source project_trees del: One_nat_def)
qed

lemma project_with_members: "environment_members (project_with ext) 1 DeferredView = [1, 0]"
  by (simp add: environment_members_def project_load_context project_source environment_of_def lookup_files_def)

lemma project_with_definitions:
  "layer_definitions (project_with ext) ''x'' (LayerFile 1) = []" "entity_of (project_with ext) 0 0 0 \<in> set (layer_definitions (project_with ext) ''x'' (LayerFile 0))"
proof -
  note ok = salsa_stored_ok [OF project_with_results project_with_parser_ok]
  obtain ds where "resolve_export (project_with ext) 0 ''x'' = Some ds"
    "set ds = (\<Union>x\<in>{x. (forwards (project_with ext))\<^sup>*\<^sup>* (0, ''x'') x}. node_locals (project_with ext) x)"
    by (rule resolve_export_reaches [OF ok])
  moreover have "entity_of (project_with ext) 0 0 0 \<in> node_locals (project_with ext) (0, ''x'')"
    by (simp add: node_locals_def project_source project_tables_def project_with_bindings(3))
  ultimately show "entity_of (project_with ext) 0 0 0 \<in> set (layer_definitions (project_with ext) ''x'' (LayerFile 0))"
    by (auto simp: layer_definitions_def resolve_import_layer_def)
  show "layer_definitions (project_with ext) ''x'' (LayerFile 1) = []"
    by (simp add: layer_definitions_def resolve_import_layer_def resolve_export_def export_bound_def project_source project_tables_def numeral_3_eq_3)
qed

lemma project_with_shadowing:
  "\<not> member_shadows (project_with ext) 1 ''x'' (file_export_is_bound (project_with ext) 1 ''x'' = Some True) 1"
  "member_shadows (project_with ext) 1 ''x'' (file_export_is_bound (project_with ext) 1 ''x'' = Some True) 0"
  using project_with_definitions [of ext] project_with_bindings [of ext] by (auto simp: member_shadows_def layer_shadows_def simp del: One_nat_def)

text \<open>The plain database.\<close>

lemmas project_results = project_with_results [of "()"]
lemmas project_parser_ok = project_with_parser_ok [of "()"]
lemmas project_members = project_with_members [of "()"]
lemmas project_definitions = project_with_definitions [of "()"]
lemmas project_bindings = project_with_bindings [of "()"]
lemmas project_shadowing = project_with_shadowing [of "()"]

section \<open>Definitions of the file itself\<close>

lemma resolved_sites_own:
  assumes ok: "stored_ok Q"
    and own: "\<forall>(s, i)\<in>set sites. \<not> is_import_kind (df_kind (ix_definitions (qd_semantic_index Q f) ! s ! i))"
    and sites: "set sites \<subseteq> set (definition_sites Q f)"
  shows "resolved_sites Q f sites = map (\<lambda>(s, i). entity_of Q f s i) sites"
proof -
  note ix = stored_okD(1) [OF ok, of f]
  have "resolve_definition Q f s i = Some [entity_of Q f s i]" if "(s, i) \<in> set sites" for s i
  proof -
    have "s < length (ix_definitions (qd_semantic_index Q f))" "i < length (ix_definitions (qd_semantic_index Q f) ! s)"
      "(s, i) \<in> set (definition_sites Q f)"
      using that sites index_okD(3) [OF ix] by (auto simp: in_definition_sites)
    then show ?thesis using own that
      by (cases "df_kind (ix_definitions (qd_semantic_index Q f) ! s ! i)")
        (auto simp: resolve_definition_def definition_entity_at_total [OF ix])
  qed
  then have "map (\<lambda>(s, i). the_list (resolve_definition Q f s i)) sites = map (\<lambda>(s, i). [entity_of Q f s i]) sites"
    by (intro map_cong) auto
  then show ?thesis unfolding resolved_sites_def by (simp only:) (induction sites; auto)
qed

section \<open>Resolution returns\<close>

text \<open>
  C6. Whatever the project looks like and whichever queries took part in a cycle, looking a name up in
  a file and looking up what stands at an offset return: nothing panics and the walk through forwards
  and re-exports ends within its bound. Every definition returned is one of the index of its file, and
  the lookup of a name returns each definition once and never the import that a \<open>source()\<close> call injects.
\<close>

theorem name_resolution_total:
  assumes "salsa_results Q" and "parser_ok Q"
  shows "(\<exists>ds. file_resolve Q f name = Some ds \<and> sound_definitions Q ds \<and> distinct ds) \<and>
    (\<exists>ds. resolve_at Q f offset = Some ds \<and> (\<forall>d\<in>set ds. known_definition Q d))"
proof -
  note ok = salsa_stored_ok [OF assms]
  show ?thesis by (rule file_resolve_total [OF ok, of f name], rule resolve_at_total [OF ok, of f offset]) blast
qed

theorem name_resolution_total_witness:
  "salsa_results project \<and> parser_ok project \<and>
    (\<exists>ds. file_resolve project 1 ''x'' = Some ds \<and> sound_definitions project ds \<and> distinct ds) \<and>
    (\<exists>ds. resolve_at project 1 0 = Some ds \<and> (\<forall>d\<in>set ds. known_definition project d))"
  using name_resolution_total [OF project_results project_parser_ok, of 1 "''x''" 0] project_results project_parser_ok by blast

section \<open>Forwards through source calls\<close>

text \<open>
  C13. What \<^verbatim>\<open>resolve_export\<close> computes from the stored export tables. A table entry marked local stands for
  the definitions that the code of the file leaves bound, a forward leads to a name of another file.
  The result consists of exactly the local definitions at the names that forwards lead to from the
  start, each once, and following forwards ends even if they go round. A name that is not in the
  table of the file has no definitions; in particular a file whose exports query was recovered from a
  cycle of \<open>source()\<close> calls has an empty table, so it resolves to nothing and contributes nothing.
\<close>

theorem resolve_export_exact:
  assumes "salsa_results Q" and "parser_ok Q"
  shows "\<exists>ds. resolve_export Q f name = Some ds \<and> distinct ds \<and>
    set ds = (\<Union>x\<in>{x. (forwards Q)\<^sup>*\<^sup>* (f, name) x}. node_locals Q x) \<and>
    (map_of (qd_exports Q f) name = None \<longrightarrow> ds = [])"
proof -
  obtain ds where ds: "resolve_export Q f name = Some ds" "distinct ds"
    "set ds = (\<Union>x\<in>{x. (forwards Q)\<^sup>*\<^sup>* (f, name) x}. node_locals Q x)"
    by (rule resolve_export_reaches [OF salsa_stored_ok [OF assms], of f name])
  have "ds = []" if none: "map_of (qd_exports Q f) name = None"
  proof -
    have "x = (f, name)" if "(forwards Q)\<^sup>*\<^sup>* (f, name) x" for x
      using that by (cases rule: converse_rtranclpE) (auto simp: forwards_simp none)
    moreover have "node_locals Q (f, name) = {}" by (simp add: node_locals_def none)
    ultimately have "set ds = {}" unfolding ds(3) by blast
    then show ?thesis by simp
  qed
  with ds show ?thesis by (intro exI conjI impI)
qed

text \<open>The script that sources the first file forwards to it.\<close>

theorem resolve_export_exact_witness:
  "salsa_results project \<and> parser_ok project \<and> forwards project (2, ''x'') (0, ''x'') \<and>
    (\<exists>ds. resolve_export project 2 ''x'' = Some ds \<and> distinct ds \<and> entity_of project 0 0 0 \<in> set ds)"
proof -
  have e: "entity_of project 0 0 0 \<in> node_locals project (0, ''x'')"
    by (simp add: node_locals_def project_source project_tables_def project_bindings(3))
  have f: "forwards project (2, ''x'') (0, ''x'')" by (simp add: forwards_simp project_source project_tables_def)
  obtain ds where "resolve_export project 2 ''x'' = Some ds" "distinct ds"
    "set ds = (\<Union>x\<in>{x. (forwards project)\<^sup>*\<^sup>* (2, ''x'') x}. node_locals project x)"
    using resolve_export_exact [OF project_results project_parser_ok, of 2 "''x''"] by blast
  with e f project_results project_parser_ok show ?thesis by auto
qed

section \<open>Load order\<close>

text \<open>
  C7. The files that write into an environment are listed in the order in which they are loaded, and the
  environments from the innermost to the outermost. A name lookup goes through the environments in
  this order, and in each from the file loaded last to the file loaded first. If no file of the inner
  environments and none loaded after \<^term>\<open>m\<close> binds the name for sure, and \<^term>\<open>m\<close> does, then the
  environments contribute the definitions of exactly these files and of \<^term>\<open>m\<close>: nothing that was
  loaded before \<^term>\<open>m\<close> and nothing of an outer environment. They are the whole result when the file
  itself binds the name for sure, and when no other file sources it.
\<close>

theorem load_order_shadows:
  assumes "salsa_results Q" and "parser_ok Q"
    and "lc_environments (load_context_of Q f DeferredView) = inner @ (earlier @ m # later) # outer"
    and "\<forall>g\<in>\<Union> (set ` set inner) \<union> set later. \<not> member_shadows Q f name (file_export_is_bound Q f name = Some True) g"
    and "member_shadows Q f name (file_export_is_bound Q f name = Some True) m"
  shows "\<exists>ds es. file_resolve Q f name = Some es \<and> prefix ds es \<and>
    set ds = (\<Union>g\<in>\<Union> (set ` set inner) \<union> set later \<union> {m}. set (layer_definitions Q name (LayerFile g))) \<and>
    (file_export_is_bound Q f name = Some True \<or> qd_inherited_layers Q f DeferredView = [] \<longrightarrow> es = ds)"
proof -
  let ?before = "concat (map rev inner) @ rev later"
  have members: "environment_members Q f DeferredView = ?before @ m # (rev earlier @ concat (map rev outer))"
    by (simp add: environment_members_def lookup_files_def assms(3))
  have "\<forall>g\<in>set ?before. \<not> member_shadows Q f name (file_export_is_bound Q f name = Some True) g" using assms(4) by auto
  from through_first_split [OF this assms(5)]
  have "through_first (member_shadows Q f name (file_export_is_bound Q f name = Some True)) (environment_members Q f DeferredView)
      = ?before @ [m]" unfolding members .
  moreover have "m \<in> set (environment_members Q f DeferredView)" by (simp add: members)
  moreover obtain ds es where "file_resolve Q f name = Some es" "sound_definitions Q es" "distinct es" "prefix ds es"
    "set ds = (\<Union>m\<in>set (through_first (member_shadows Q f name (file_export_is_bound Q f name = Some True))
      (environment_members Q f DeferredView)). set (layer_definitions Q name (LayerFile m)))"
    "file_export_is_bound Q f name = Some True \<or> qd_inherited_layers Q f DeferredView = [] \<and>
      (\<exists>m\<in>set (environment_members Q f DeferredView). member_shadows Q f name (file_export_is_bound Q f name = Some True) m) \<longrightarrow> es = ds"
    by (rule file_resolve_total [OF salsa_stored_ok [OF assms(1,2)], of f name])
  ultimately show ?thesis using assms(5) by (intro exI [of _ ds] exI [of _ es]) auto
qed

text \<open>In the package, the second file is loaded last and does not bind \<^verbatim>\<open>x\<close>; the first one does.\<close>

theorem load_order_shadows_witness:
  "salsa_results project \<and> parser_ok project \<and> lc_environments (load_context_of project 1 DeferredView) = [] @ ([] @ 0 # [1]) # [] \<and>
    (\<exists>es. file_resolve project 1 ''x'' = Some es \<and> set es = set (layer_definitions project ''x'' (LayerFile 0)) \<and>
      entity_of project 0 0 0 \<in> set es)"
proof -
  have m: "lc_environments (load_context_of project 1 DeferredView) = [] @ ([] @ 0 # [1]) # []"
    by (simp add: project_load_context project_source environment_of_def)
  have "\<exists>ds es. file_resolve project 1 ''x'' = Some es \<and> prefix ds es \<and>
    set ds = (\<Union>g\<in>\<Union> (set ` set []) \<union> set [1] \<union> {0}. set (layer_definitions project ''x'' (LayerFile g))) \<and>
    (file_export_is_bound project 1 ''x'' = Some True \<or> qd_inherited_layers project 1 DeferredView = [] \<longrightarrow> es = ds)"
    by (rule load_order_shadows [OF project_results project_parser_ok m])
      (use project_shadowing in \<open>simp_all del: One_nat_def\<close>)
  then show ?thesis using m project_results project_parser_ok project_definitions
    by (auto simp: project_source simp del: One_nat_def)
qed

section \<open>Re-exports\<close>

text \<open>
  C14. The bindings of a name in a package are those of the one package that provides it: the package
  itself when its files bind the name, and otherwise the end of the chain of imports that lead there
  through packages that show the name. A chain that ends nowhere or comes back to itself gives nothing.
\<close>

theorem package_resolve_provider:
  assumes "salsa_results Q" and "parser_ok Q"
  shows "\<exists>ds. package_resolve Q p name visibility = Some ds \<and>
    (\<forall>q. provides Q name (p, visibility) q \<longrightarrow> set ds = set (own_bindings Q name q)) \<and>
    ((\<nexists>q. provides Q name (p, visibility) q) \<longrightarrow> ds = [])"
proof -
  obtain ds where ds: "package_resolve Q p name visibility = Some ds"
    "set ds = (\<Union>q\<in>{q. provides Q name (p, visibility) q}. set (own_bindings Q name q))"
    by (rule package_resolve_provides [OF salsa_stored_ok [OF assms]])
  have "{r. provides Q name (p, visibility) r} = {q}" if "provides Q name (p, visibility) q" for q
    using that provides_unique by fast
  with ds show ?thesis by auto
qed

theorem package_resolve_provider_witness:
  "salsa_results project \<and> parser_ok project \<and> provides project ''x'' (0, InternalVisibility) 0 \<and>
    (\<exists>ds. package_resolve project 0 ''x'' InternalVisibility = Some ds \<and> set ds = set (own_bindings project ''x'' 0) \<and>
      entity_of project 0 0 0 \<in> set ds)"
proof -
  have e: "entity_of project 0 0 0 \<in> set (own_bindings project ''x'' 0)"
    using project_definitions(2)
    by (auto simp: own_bindings_def project_source project_inputs_def layer_definitions_def resolve_import_layer_def)
  then have "provides project ''x'' (0, InternalVisibility) 0"
    using provides_own [of project "''x''" "(0, InternalVisibility)"] by (simp add: binding_visible_def) force
  with package_resolve_provider [OF project_results project_parser_ok, of 0 "''x''" InternalVisibility] e
    project_results project_parser_ok show ?thesis by auto
qed

section \<open>Lexical uses\<close>

text \<open>
  C15. The definitions of a use start with those that reach it in the scopes of its own file below the
  file scope. When these surely bind the name and none of them is at file level, the environments of
  the loader, the files that source this one and the packages are not searched: the answer is the
  reaching definitions in order, where a definition that a \<open>source()\<close> call inside the scope injected is
  replaced by what the sourced file exports under the name. If none of them is of that kind, the
  answer consists of definitions of the file itself.
\<close>

theorem use_resolution_lexical:
  assumes "salsa_results Q" and "parser_ok Q"
    and "use_at (qd_semantic_index Q f) offset = Some (Some (s, u, site))"
  shows "\<exists>es reaching b. resolve_at Q f offset = Some es \<and> sound_definitions Q es \<and>
    reaching_definitions (qd_semantic_index Q f) s u = Some reaching \<and> use_is_bound (qd_semantic_index Q f) s u = Some b \<and>
    prefix (resolved_sites Q f (filter (\<lambda>x. 0 < fst x) reaching)) es \<and>
    (b \<and> (\<forall>x\<in>set reaching. 0 < fst x) \<longrightarrow> es = resolved_sites Q f reaching \<and>
       ((\<forall>(s', i)\<in>set reaching. \<not> is_import_kind (df_kind (ix_definitions (qd_semantic_index Q f) ! s' ! i))) \<longrightarrow>
          es = map (\<lambda>(s', i). entity_of Q f s' i) reaching))"
proof -
  note ok = salsa_stored_ok [OF assms(1,2)]
  obtain es reaching b where r: "resolve_at Q f offset = Some es" "sound_definitions Q es"
    "reaching_definitions (qd_semantic_index Q f) s u = Some reaching" "use_is_bound (qd_semantic_index Q f) s u = Some b"
    "prefix (resolved_sites Q f (filter (\<lambda>x. 0 < fst x) reaching)) es"
    "b \<and> (\<forall>x\<in>set reaching. 0 < fst x) \<longrightarrow> es = resolved_sites Q f reaching"
    by (rule resolve_at_use_total [OF ok assms(3)])
  have sites: "set reaching \<subseteq> set (definition_sites Q f)"
    by (rule reaching_definitions_sites [OF stored_okD(1) [OF ok] use_at_range(1,2) [OF stored_okD(1) [OF ok] assms(3)]])
      (use r(3) in auto)
  have "resolved_sites Q f reaching = map (\<lambda>(s', i). entity_of Q f s' i) reaching"
    if "\<forall>(s', i)\<in>set reaching. \<not> is_import_kind (df_kind (ix_definitions (qd_semantic_index Q f) ! s' ! i))"
    using that sites by (rule resolved_sites_own [OF ok])
  with r show ?thesis by blast
qed

text \<open>The use in the function body of the second script, and the assignment before it.\<close>

theorem use_resolution_lexical_witness:
  "salsa_results project \<and> parser_ok project \<and>
    (\<exists>site. use_at (qd_semantic_index project 3) 21 = Some (Some (1, 0, site))) \<and>
    resolve_at project 3 21 = Some [entity_of project 3 1 0]"
proof -
  let ?site = "\<lparr>us_symbol = 0, us_range = span 21 22\<rparr>"
  have run: "use_at (the (build_index R (span 0 24) closure_file)) 21 = Some (Some (1, 0, ?site))"
    "reaching_definitions (the (build_index R (span 0 24) closure_file)) 1 0 = Some [(1, 0)]"
    "use_is_bound (the (build_index R (span 0 24) closure_file)) 1 0 = Some True"
    "is_import_kind (df_kind (ix_definitions (the (build_index R (span 0 24) closure_file)) ! 1 ! 0)) = False" for R
    by code_simp+
  have use: "use_at (qd_semantic_index project 3) 21 = Some (Some (1, 0, ?site))"
    by (simp only: project_source project_trees run)
  from use_resolution_lexical [OF project_results project_parser_ok use]
  have "resolve_at project 3 21 = Some [entity_of project 3 1 0]"
    by (simp only: project_source project_trees run) (auto simp del: One_nat_def simp: run(4))
  with use project_results project_parser_ok show ?thesis by blast
qed

end
