(* ===== verification/Spec2Isabelle.thy ===== *)
theory Spec2Isabelle
  imports Index_Properties Flow_Sound Binding_Timeline Package_Metadata Namespace_File Placement_Session Resolution_Properties
begin

text \<open>
  A verification development for the static analysis of \<^verbatim>\<open>ark.nvim\<close>: the crates that know a
  project of R files and answer which definitions a name refers to. From the inside out they are

  \<^item> \<^verbatim>\<open>crates/oak_semantic\<close> (with \<^verbatim>\<open>oak_index_vec\<close> and the text helpers of \<^verbatim>\<open>oak_core\<close>): from the
    syntax tree of one file it builds a semantic index, the tree of scopes, per scope the symbols,
    definitions and uses, and the flow-sensitive map from each use to the definitions that can reach it;

  \<^item> \<^verbatim>\<open>crates/oak_package_metadata\<close> and the sorted vectors of \<^verbatim>\<open>stdext\<close>: the files DESCRIPTION,
    NAMESPACE and INDEX of a package;

  \<^item> \<^verbatim>\<open>crates/oak_scan\<close>: the inputs of the project database, that is which files, packages and
    folders there are, kept up to date by scans, the file watcher and the editor;

  \<^item> \<^verbatim>\<open>crates/oak_db\<close>: the queries over the inputs, from the text of a file over its index and its
    exports to the resolution of names across files and packages.

  The language server answers go-to-definition, references, completion of exports and diagnostics
  from these.

  \<^bold>\<open>How the program works: one file.\<close> \<open>build_index\<close> creates a builder with one file scope and runs two
  passes over each deferred unit (the file, a function body, a lazy argument). The \<^emph>\<open>scan\<close>
  (\<^verbatim>\<open>builder/scan.rs\<close>, \<^verbatim>\<open>builder/effects.rs\<close>) goes through the unit in flow order, keeps the set
  of names bound on every path and the packages attached so far, resolves callees against them,
  runs the handlers of the effects registry (\<^verbatim>\<open>effects.rs\<close>, \<^verbatim>\<open>effects/contrib\<close>) and records per call
  what it does to its arguments, which packages it attaches, which files it sources and which names
  it assigns. The \<^emph>\<open>walk\<close> (\<^verbatim>\<open>builder/walk.rs\<close>) goes through it again and writes the arenas: it
  opens and closes scopes, interns symbols, appends definitions and uses, records for each use the
  live bindings of its symbol, joins the flow state after branches, patches the uses of a loop body
  with the definitions the loop carries around, and registers for each free variable the chain of
  snapshots in the scopes around it. \<open>finish\<close> closes the file scope and folds deferred definitions
  into the exports. The queries of \<^verbatim>\<open>semantic_index.rs\<close> read the result.

  \<^bold>\<open>How the program works: a project.\<close> The main loop owns the inputs. A change of the workspace folders
  or a watcher event on a file that shapes packages starts a scan of a folder on another thread, at
  most one per folder (\<^verbatim>\<open>oak_scan/src/scheduler.rs\<close>); watcher paths below a folder that is being
  scanned wait in a buffer. The result of a scan is applied in one go: its packages and scripts are
  upserted by path, files that are gone become stale (\<^verbatim>\<open>inputs.rs\<close>, \<^verbatim>\<open>stale.rs\<close>, \<^verbatim>\<open>watch.rs\<close>). On top of
  the inputs, each file has a loader (\<^verbatim>\<open>oak_db/src/load_context.rs\<close>): the package it belongs to, a
  notebook, a testthat directory or a Shiny app, which gives the environments its code runs in and
  the files that write into them, in load order. To resolve a name, \<^verbatim>\<open>file_resolve.rs\<close> takes the
  definitions that reach it in its own file, then walks the files of the environments from the last
  loaded to the first, the attached packages and the search path, and stops at the first layer that
  surely binds the name; a file that other files source gets their layers as alternatives. Files
  forward names they source, packages names they re-export. The index of a file asks for the exports
  of the files it sources (\<^verbatim>\<open>imports.rs\<close>), so queries can run in circles; each has a recovery handler.

  \<^bold>\<open>Theories\<close>, in import order, with what they model and show.

  \<^item> \<open>Prelude\<close>: the error monad (\<open>option\<close>; \<open>None\<close> is a Rust panic or an exhausted bound),
    monadic folds, and the calculus of total state transformers \<open>keeps I F m\<close> in which the
    builder proofs are written.

  \<^item> \<open>Index_Vec\<close> (\<^verbatim>\<open>oak_index_vec/src/lib.rs\<close>): typed vectors and text ranges; the 32 bit limit
    of an index (\<open>iv_push_u32\<close>).

  \<^item> \<open>Symbol_Table\<close> (\<^verbatim>\<open>SymbolTable\<close>, \<^verbatim>\<open>SymbolFlags\<close>): flags as bits of an 8 bit word, interning.
    The locale \<open>interner\<close> is what the builder relies on; the table is its instance.

  \<^item> \<open>Use_Def_Map\<close> (\<^verbatim>\<open>use_def_map.rs\<close>): live bindings as sorted vectors, which refine a set with a
    flag; the builder of one scope; the loop fixup; lazy and eager snapshots. The locale
    \<open>flow_store\<close> is the save, rewind and join interface of the walk.

  \<^item> \<open>Binding_Timeline\<close>: what a file had bound at each of its \<open>source()\<close> calls, as bit sets of
    ranks.

  \<^item> \<open>R_Syntax\<close>: the syntax tree as the code sees it through its accessors, and the name helpers of
    \<^verbatim>\<open>oak_core/src/syntax_ext.rs\<close>. Nodes without an arm of their own are \<open>ROtherExpression\<close> with
    their sub-expressions; \<open>break\<close> and \<open>next\<close> have no arm either, and are constructors so that the
    flow theorems can exclude them. A string token is given as its delimiters and its contents, which
    takes for granted that it has at least two characters. \<open>AstPtr\<close> is the node itself.

  \<^item> \<open>Semantic_Index\<close> and \<open>Scope_Arena\<close> (\<^verbatim>\<open>semantic_index.rs\<close>): scopes, definitions, uses, calls,
    diagnostics, the index and all its queries; preorder arenas, ancestor chains and children.

  \<^item> \<open>Effects\<close>, \<open>Registry\<close>, \<open>Argument_Matching\<close> (\<^verbatim>\<open>effects.rs\<close>, \<^verbatim>\<open>effects/\<close>): argument matching,
    the handlers, the static evaluation of arguments, the registry entry by entry with its name
    index; the matching rule (exact names first, then positions; the code has no partial matching),
    alignment of effects with arguments, and that quoted holes are written in their own argument;
    totality of every handler.

  \<^item> \<open>Builder\<close>, \<open>Builder_Effects\<close>, \<open>Builder_Scan\<close>, \<open>Builder_Walk\<close> (\<^verbatim>\<open>builder.rs\<close>, \<^verbatim>\<open>builder/\<close>):
    the builder state (the three Rust structs as one extensible record), callee resolution, every
    function of the scan and of the walk, and \<open>build_index\<close>. The recursive functions take the
    recursive call as a parameter; \<open>scan_expression\<close> and \<open>walk_expression\<close> close the knot.

  \<^item> \<open>Scan_Total\<close>, \<open>Walk_Total\<close>, \<open>Index_Total\<close>: every scan and walk function returns, keeps the
    invariant \<open>scan_inv\<close> of the arenas and only appends (\<open>walk_frame\<close>); hence \<open>build_index\<close>
    returns a well-formed index (\<open>index_ok\<close>). The locale \<open>definition_recorder\<close> is the contract of
    the three ways a map records a definition, with one instance each.

  \<^item> \<open>Index_Queries\<close>, \<open>Sample_File\<close>, \<open>Index_Properties\<close>: the queries on well-formed indexes, each
    described without the traversal that computes it, as theorems about indexes that
    \<open>build_index\<close> returned, with their instances on a sample file.

  \<^item> \<open>Flow_Commands\<close>, \<open>Flow_Walk\<close>, \<open>Flow_Sound\<close>: executions of structured code, the reference
    analysis that over-approximates them, the walk as an implementation of that analysis, and the
    resulting soundness of reaching definitions and exports. The files covered are \<open>structured\<close> (no
    functions, jumps, errors or unusual assignments), \<open>effect_free\<close> (no call with a registered
    effect) and \<open>tame\<close> (restrictions on loop heads and arguments). \<open>Flow_Sound\<close> ends with three small
    files outside these conditions for which the index is not sound: a \<open>while\<close> condition that reads
    what the body defines, a \<open>for\<close> sequence that reads the loop variable, and a loop left by \<open>break\<close>.

  \<^item> \<open>Rust_Str\<close>, \<open>R_Name\<close> (\<^verbatim>\<open>oak_core/src/identifier.rs\<close>): strings as code points and as bytes; the
    type of validated R names with what a rename writes, and that it reads back as the name.

  \<^item> \<open>Package_Metadata\<close>, \<open>Namespace_File\<close> (\<^verbatim>\<open>oak_package_metadata\<close>, \<^verbatim>\<open>stdext/src/sorted_vec.rs\<close>):
    control files, DESCRIPTION, INDEX and NAMESPACE; round trips, the exact error conditions, and what a
    parsed NAMESPACE contains.

  \<^item> \<open>Workspace_Db\<close> (\<^verbatim>\<open>oak_db/src/inputs.rs\<close>, \<^verbatim>\<open>db.rs\<close>, \<^verbatim>\<open>file.rs\<close>, \<^verbatim>\<open>package.rs\<close>): files, packages,
    roots, notebooks and the lookups over them. \<open>Workspace_Inputs\<close>, \<open>Package_Scan\<close>, \<open>Scan_Scheduler\<close>
    (\<^verbatim>\<open>oak_scan\<close>): every operation that changes them, package discovery, and the scan coordinator. The
    disk is a parameter of each operation.

  \<^item> \<open>Scan_Progress\<close>: the main loop with its scans in flight as a step relation; at most one scan per
    folder, buffered paths are kept until no folder above them is being scanned, and scanning settles.
    Its two clocks are ghost state.

  \<^item> \<open>Workspace_Placement\<close>, \<open>Placement_Invariant\<close>, \<open>Placement_Session\<close>: the documented placement
    invariant, that each event keeps it in a session whose folders and packages are not nested and
    that has no library paths (\<open>workspace_run\<close>), and what follows for the lookup by path and for
    watched files; with three sessions outside that condition in which it fails.

  \<^item> \<open>Load_Context\<close> (\<^verbatim>\<open>load_context.rs\<close>, \<^verbatim>\<open>load_context/contrib\<close>, \<^verbatim>\<open>directory.rs\<close>), \<open>Import_Layers\<close>
    (\<^verbatim>\<open>file_imports.rs\<close>, \<^verbatim>\<open>file_source_site.rs\<close>, \<^verbatim>\<open>search.rs\<close>), \<open>Name_Resolution\<close> (\<^verbatim>\<open>definition.rs\<close>,
    \<^verbatim>\<open>file_exports.rs\<close>, \<^verbatim>\<open>file_resolve.rs\<close>, \<^verbatim>\<open>package_resolve.rs\<close>), \<open>Project_Resolver\<close> (\<^verbatim>\<open>imports.rs\<close>,
    \<^verbatim>\<open>workspace.rs\<close>, the queries of \<^verbatim>\<open>file.rs\<close>): the loaders and their environments, the layers of
    a lookup, the resolution of names, and the imports resolver of the project, with the tracked
    queries as fields of the record \<open>query_db\<close>.

  \<^item> \<open>Name_Total\<close>, \<open>Layer_Lookup\<close>, \<open>Resolution_Sound\<close>, \<open>Resolution_Properties\<close>: resolution returns;
    following forwards computes reachability over the stored export tables (a file that was recovered
    from a cycle of \<open>source()\<close> calls has an empty one), re-exports lead to one provider, a walk collects
    the candidates up to the first sure binding, environments are searched from the file loaded last
    to the one loaded first, and a use that its own scopes bind is resolved there. The locale \<open>candidate_walk\<close> is the contract of the two
    walks, with one instance each.

  \<^bold>\<open>Bounds.\<close> Recursion that is structural on the Rust side through \<open>&AnyRExpression\<close> is bounded by
  \<open>file_fuel\<close>, the size of the file plus two; static evaluation by the size of the expression plus
  one; ancestor chains, child iteration and \<open>scope_at\<close> by the number of scopes; the rounds of
  \<open>scan_deferred_bodies\<close> by \<open>file_fuel\<close>, because each round's bodies are smaller than the round's
  before. Following forwards is bounded by \<open>export_bound\<close>, the number of exported names of live files
  plus three, and following re-exports by \<open>package_bound\<close>, the number of packages of live roots plus
  three: every step but the first is at such a pair or package, and none is visited twice. The
  totality theorems show that no bound is ever reached.

  \<^bold>\<open>Conventions and assumptions.\<close> The imports resolver (a trait) is a record of functions, universally
  quantified in every theorem about one file; \<open>salsa_imports_resolver\<close> is the project's. Salsa is
  the contract \<open>salsa_results\<close>: a stored result is what the body of its query computes from the
  stored results, or what the recovery handler computes; no order of evaluation is assumed, and which
  queries of a cycle recover is left open. The R parser, the disk, the directory walk, URL conversion
  and percent decoding are parameters. Names in an index are bytes, names in the inputs code points;
  \<open>utf8\<close> and \<open>utf8_decode\<close> convert. \<open>debug_panic!\<close> follows the release
  build: it logs and execution continues. Hash maps that are only looked up are maps, hash maps that
  are iterated are association lists. Ids are natural numbers; the assertion that they fit 32 bits is
  modelled in \<open>Index_Vec\<close> only. \<open>calls_distinct\<close> says that two calls of a file with the same range
  are the same call, which holds of parsed files, since a call ends with its own argument list; the
  builder keys its decisions by range.

  \<^bold>\<open>Not modelled.\<close> The parser and the tree library (third party: the tree is the input), and with them
  the classification of the token at the cursor (\<^verbatim>\<open>oak_db/src/identifier.rs\<close>) and the name ranges of
  definitions, which read the concrete tree; the engine and storage of Salsa; the package library
  and its caches (\<^verbatim>\<open>oak_semantic/src/library.rs\<close>, \<^verbatim>\<open>package.rs\<close>: file system); the ignore-aware walk (third
  party); the rendering of diagnostics; the editor features of \<^verbatim>\<open>oak_ide\<close> over the concrete tree, and the
  language server crates over tree-sitter and a live R session; the Jupyter kernel and the R bindings
  (sockets, threads, FFI). In the soundness theorems of the flow analysis: function definitions,
  super-assignments, calls with effects, and jumps: \<open>break\<close> and \<open>next\<close> are excluded by \<open>structured\<close>,
  and a file left early by a call such as \<open>return()\<close> or \<open>stop()\<close> is an interrupted execution.
\<close>

end
